(* ===== verification/Plin_Prelude.thy ===== *)
theory Plin_Prelude
  imports Main "HOL-Library.Word"
begin

text \<open>
  Shared vocabulary of the development: machine types, the little-endian byte images that
  \<^verbatim>\<open>memcpy\<close> of an integer produces on the x86-64 hosts the code targets, the result type of
  operations that can fail, and generic list lemmas.  The components put their unfolding
  rules into the collections declared here.
\<close>

named_theorems byte_simps \<open>lengths and round trips of byte images\<close>
named_theorems slot_simps \<open>unfolding of slot and page accessors\<close>

type_synonym byte = "8 word"
type_synonym u16 = "16 word"
type_synonym u32 = "32 word"
type_synonym u64 = "64 word"
type_synonym payload_t = u64

section \<open>Byte images of integers\<close>

text \<open>
  \<^verbatim>\<open>le_bytes n v\<close> is what \<^verbatim>\<open>memcpy(raw, &v, n)\<close> leaves in \<^verbatim>\<open>raw\<close> for an \<^verbatim>\<open>n\<close>-byte
  unsigned integer; \<^verbatim>\<open>le_nat\<close> is the inverse \<^verbatim>\<open>memcpy(&v, raw, n)\<close>.
\<close>

fun le_bytes :: "nat \<Rightarrow> nat \<Rightarrow> byte list" where
  "le_bytes 0 v = []"
| "le_bytes (Suc n) v = of_nat (v mod 256) # le_bytes n (v div 256)"

fun le_nat :: "byte list \<Rightarrow> nat" where
  "le_nat [] = 0"
| "le_nat (b # bs) = unat b + 256 * le_nat bs"

definition u32_bytes :: "u32 \<Rightarrow> byte list" where
  "u32_bytes v = le_bytes 4 (unat v)"

definition u64_bytes :: "u64 \<Rightarrow> byte list" where
  "u64_bytes v = le_bytes 8 (unat v)"

definition bytes_u32 :: "byte list \<Rightarrow> u32" where
  "bytes_u32 bs = of_nat (le_nat bs)"

definition bytes_u64 :: "byte list \<Rightarrow> u64" where
  "bytes_u64 bs = of_nat (le_nat bs)"

lemma length_le_bytes [simp]: "length (le_bytes n v) = n"
  by (induction n v rule: le_bytes.induct) auto

lemma unat_of_nat_byte [simp]: "unat (of_nat (v mod 256) :: byte) = v mod 256"
  by (simp add: unat_of_nat)

lemma le_nat_le_bytes: "le_nat (le_bytes n v) = v mod 256 ^ n"
proof (induction n v rule: le_bytes.induct)
  case (2 n v)
  have "v mod 256 ^ Suc n = v mod 256 + 256 * (v div 256 mod 256 ^ n)"
    by (simp add: mod_mult2_eq)
  with 2 show ?case by simp
qed simp

lemma le_nat_bound: "le_nat bs < 256 ^ length bs"
proof (induction bs)
  case (Cons b bs)
  have b: "unat b < 256" using unsigned_less [of b] by simp
  from Cons have "le_nat bs + 1 \<le> 256 ^ length bs" by simp
  then have "256 * (le_nat bs + 1) \<le> 256 * 256 ^ length bs" by (rule mult_le_mono2)
  with b show ?case by simp
qed simp

lemma le_bytes_le_nat [simp]: "le_bytes (length bs) (le_nat bs) = bs"
proof (induction bs)
  case (Cons b bs)
  have b: "unat b < 256" using unsigned_less [of b] by simp
  then have "(unat b + 256 * le_nat bs) mod 256 = unat b" by simp
  moreover from b have "(unat b + 256 * le_nat bs) div 256 = le_nat bs" by simp
  ultimately show ?case using Cons by simp
qed simp

lemma length_u32_bytes [simp, byte_simps]: "length (u32_bytes v) = 4"
  by (simp add: u32_bytes_def)

lemma length_u64_bytes [simp, byte_simps]: "length (u64_bytes v) = 8"
  by (simp add: u64_bytes_def)

lemma bytes_u32_inverse [simp, byte_simps]: "bytes_u32 (u32_bytes v) = v"
proof -
  have "unat v < 2 ^ 32" using unsigned_less [of v] by simp
  then show ?thesis
    by (simp add: bytes_u32_def u32_bytes_def le_nat_le_bytes)
qed

lemma bytes_u64_inverse [simp, byte_simps]: "bytes_u64 (u64_bytes v) = v"
proof -
  have "unat v < 2 ^ 64" using unsigned_less [of v] by simp
  then show ?thesis
    by (simp add: bytes_u64_def u64_bytes_def le_nat_le_bytes)
qed

lemma u64_bytes_inverse: "length bs = 8 \<Longrightarrow> u64_bytes (bytes_u64 bs) = bs"
proof -
  assume l: "length bs = 8"
  have "le_nat bs < 2 ^ 64" using le_nat_bound [of bs] l by simp
  then have "unat (of_nat (le_nat bs) :: u64) = le_nat bs"
    by (simp add: unat_of_nat)
  then show ?thesis using l le_bytes_le_nat [of bs]
    by (simp add: bytes_u64_def u64_bytes_def)
qed

lemma u32_bytes_inverse: "length bs = 4 \<Longrightarrow> u32_bytes (bytes_u32 bs) = bs"
proof -
  assume l: "length bs = 4"
  have "le_nat bs < 2 ^ 32" using le_nat_bound [of bs] l by simp
  then have "unat (of_nat (le_nat bs) :: u32) = le_nat bs"
    by (simp add: unat_of_nat)
  then show ?thesis using l le_bytes_le_nat [of bs]
    by (simp add: bytes_u32_def u32_bytes_def)
qed

section \<open>Results of operations that can fail\<close>

definition bind_res :: "'e + 'a \<Rightarrow> ('a \<Rightarrow> 'e + 'b) \<Rightarrow> 'e + 'b" where
  "bind_res r f = (case r of Inl e \<Rightarrow> Inl e | Inr x \<Rightarrow> f x)"

lemma bind_res_simps [simp]:
  "bind_res (Inl e) f = Inl e"
  "bind_res (Inr x) f = f x"
  by (simp_all add: bind_res_def)

lemma bind_res_Inr_iff:
  "bind_res r f = Inr y \<longleftrightarrow> (\<exists>x. r = Inr x \<and> f x = Inr y)"
  by (cases r) auto

end
