(* ===== verification/Machine_Double.thy ===== *)
theory Machine_Double
  imports Plin_Prelude
begin

text \<open>
  IEEE-754 binary64 values, as the code uses them for \<^verbatim>\<open>_key_t\<close> (\<^verbatim>\<open>parameters.h\<close>) and for
  the model coefficients.  A number that is not a NaN is represented by the ordinal of its
  bit pattern: the 63 magnitude bits as an integer, negated when the sign bit is set.  Order
  and equality of ordinals are the order and the \<^verbatim>\<open>==\<close> of the doubles (both zeros have the
  ordinal 0), so the type is a linear order and every comparison of the code is exact.
  Arithmetic takes the exact result and rounds it to the nearest representable value,
  ties to even; a NaN result is \<^term>\<open>None\<close>.  A zero divisor counts as positive zero.
\<close>

datatype double = Dbl (ordinal: int)

instantiation double :: linorder
begin

definition less_eq_double :: "double \<Rightarrow> double \<Rightarrow> bool" where
  "less_eq_double a b \<longleftrightarrow> ordinal a \<le> ordinal b"

definition less_double :: "double \<Rightarrow> double \<Rightarrow> bool" where
  "less_double a b \<longleftrightarrow> ordinal a < ordinal b"

instance
  by intro_classes (auto simp: less_eq_double_def less_double_def intro: double.expand)

end

lemma Dbl_le [simp]: "Dbl a \<le> Dbl b \<longleftrightarrow> a \<le> b"
  by (simp add: less_eq_double_def)

lemma Dbl_less [simp]: "Dbl a < Dbl b \<longleftrightarrow> a < b"
  by (simp add: less_double_def)

section \<open>Bit patterns\<close>

definition inf_ordinal :: int where
  "inf_ordinal = 0x7FF0000000000000"

definition is_double :: "double \<Rightarrow> bool" where
  "is_double d \<longleftrightarrow> \<bar>ordinal d\<bar> \<le> inf_ordinal"

definition bits_of_double :: "double \<Rightarrow> u64" where
  "bits_of_double d = (if ordinal d < 0 then word_of_int (2 ^ 63 - ordinal d)
     else word_of_int (ordinal d))"

definition double_of_bits :: "u64 \<Rightarrow> double option" where
  "double_of_bits w = (let mag = uint w mod 2 ^ 63 in
     if mag > inf_ordinal then None
     else Some (Dbl (if uint w \<ge> 2 ^ 63 then - mag else mag)))"

lemma double_of_bits_inverse:
  assumes "is_double d"
  shows "double_of_bits (bits_of_double d) = Some d"
proof (cases d)
  case (Dbl i)
  with assms have b: "- 0x7FF0000000000000 \<le> i" "i \<le> 0x7FF0000000000000"
    by (auto simp: is_double_def inf_ordinal_def)
  show ?thesis
  proof (cases "i < 0")
    case True
    with b have u: "uint (word_of_int (2 ^ 63 - i) :: u64) = 2 ^ 63 - i"
      by (subst uint_word_of_int) simp
    from True b have "(2 ^ 63 - i) mod 2 ^ 63 = - i"
      by (simp add: minus_mod_int_eq mod_diff_left_eq [symmetric])
    with True b u show ?thesis
      by (simp add: Dbl bits_of_double_def double_of_bits_def inf_ordinal_def Let_def)
  next
    case False
    with b have "uint (word_of_int i :: u64) = i"
      by (simp add: uint_word_of_int)
    with False b show ?thesis
      by (simp add: Dbl bits_of_double_def double_of_bits_def inf_ordinal_def Let_def)
  qed
qed

lemma double_of_bits_valid: "double_of_bits w = Some d \<Longrightarrow> is_double d"
  by (auto simp: double_of_bits_def is_double_def Let_def split: if_splits)

section \<open>Values and rounding\<close>

text \<open>
  The value of a finite double is the fraction \<^verbatim>\<open>num_of d / den_of d\<close>, whose denominator is
  a power of two.  Rounding works on such integer fractions, so that it evaluates.
\<close>

function pow2 :: "int \<Rightarrow> int" where
  "pow2 e = (if e \<le> 0 then 1 else 2 * pow2 (e - 1))"
  by pat_completeness auto
termination
  by (relation "measure nat") auto

text \<open>\<^verbatim>\<open>log2_from n p\<close> counts how often the positive \<^verbatim>\<open>p\<close> can be doubled up to \<^verbatim>\<open>n\<close>.\<close>

function log2_from :: "int \<Rightarrow> int \<Rightarrow> int" where
  "log2_from n p = (if p \<le> 0 \<or> n < 2 * p then 0 else 1 + log2_from n (2 * p))"
  by pat_completeness auto
termination
  by (relation "measure (\<lambda>(n, p). nat (n - p))") auto

definition log2i :: "int \<Rightarrow> int" where
  "log2i n = log2_from n 1"

declare pow2.simps [simp del] log2_from.simps [simp del]

definition num_of :: "double \<Rightarrow> int" where
  "num_of d = (let mag = \<bar>ordinal d\<bar>; e = mag div 2 ^ 52; m = mag mod 2 ^ 52;
      v = (if e = 0 then m else (2 ^ 52 + m) * pow2 (e - 1075))
    in if ordinal d < 0 then - v else v)"

definition den_of :: "double \<Rightarrow> int" where
  "den_of d = (let e = \<bar>ordinal d\<bar> div 2 ^ 52 in
     if e = 0 then pow2 1074 else pow2 (1075 - e))"

text \<open>Nearest integer to \<^verbatim>\<open>n / d\<close>, ties to even, for positive \<^verbatim>\<open>d\<close>.\<close>

definition nearest_even :: "int \<Rightarrow> int \<Rightarrow> int \<Rightarrow> int" where
  "nearest_even f r d = (if 2 * r < d then f else if 2 * r > d then f + 1
     else if even f then f else f + 1)"

definition round_half_even :: "int \<Rightarrow> int \<Rightarrow> int" where
  "round_half_even n d = nearest_even (n div d) (n mod d) d"

text \<open>Largest \<^verbatim>\<open>l\<close> with \<^verbatim>\<open>2^l \<le> n / d\<close>, for positive \<^verbatim>\<open>n\<close> and \<^verbatim>\<open>d\<close>.\<close>

definition adjust_log2 :: "int \<Rightarrow> int \<Rightarrow> int \<Rightarrow> int" where
  "adjust_log2 l n d = (if pow2 l * d \<le> n * pow2 (- l) then l else l - 1)"

definition frac_log2 :: "int \<Rightarrow> int \<Rightarrow> int" where
  "frac_log2 n d = adjust_log2 (log2i n - log2i d) n d"

text \<open>\<^verbatim>\<open>n / d\<close> in units of \<^verbatim>\<open>2^u\<close>, rounded.\<close>

definition round_units :: "int \<Rightarrow> int \<Rightarrow> int \<Rightarrow> int" where
  "round_units u n d = round_half_even (n * pow2 (- u)) (d * pow2 u)"

text \<open>The ordinal of the double nearest to a positive fraction.\<close>

definition mag_at :: "int \<Rightarrow> int \<Rightarrow> int \<Rightarrow> int" where
  "mag_at e n d = min inf_ordinal ((e + 1022) * 2 ^ 52 + round_units (e - 52) n d)"

definition round_mag :: "int \<Rightarrow> int \<Rightarrow> int" where
  "round_mag n d = mag_at (max (- 1022) (frac_log2 n d)) n d"

definition round_frac :: "int \<Rightarrow> int \<Rightarrow> double" where
  "round_frac n d = (if n = 0 then Dbl 0
     else if n < 0 then Dbl (- round_mag (- n) d) else Dbl (round_mag n d))"

text \<open>The value of the \<^verbatim>\<open>float\<close> nearest to a double, kept as a double.\<close>

definition float_mag :: "int \<Rightarrow> int \<Rightarrow> int" where
  "float_mag e v = (if e = 127 \<and> v \<ge> 2 ^ 24 \<or> e > 127 then inf_ordinal
     else ordinal (round_frac (v * pow2 (e - 23)) (pow2 (23 - e))))"

definition float_at :: "int \<Rightarrow> int \<Rightarrow> int \<Rightarrow> int" where
  "float_at e n d = float_mag e (round_units (e - 23) n d)"

definition float_ordinal :: "int \<Rightarrow> int \<Rightarrow> int" where
  "float_ordinal n d = float_at (max (- 126) (frac_log2 n d)) n d"

definition round_float :: "double \<Rightarrow> double" where
  "round_float d = (if \<bar>ordinal d\<bar> = inf_ordinal \<or> ordinal d = 0 then d
     else if ordinal d < 0 then Dbl (- float_ordinal (- num_of d) (den_of d))
     else Dbl (float_ordinal (num_of d) (den_of d)))"

section \<open>Arithmetic\<close>

type_synonym fp = "double option"

definition is_inf :: "double \<Rightarrow> bool" where
  "is_inf d \<longleftrightarrow> \<bar>ordinal d\<bar> = inf_ordinal"

definition signed_inf :: "int \<Rightarrow> double" where
  "signed_inf s = Dbl (sgn s * inf_ordinal)"

fun fp_neg :: "fp \<Rightarrow> fp" where
  "fp_neg None = None"
| "fp_neg (Some a) = Some (Dbl (- ordinal a))"

fun fp_add :: "fp \<Rightarrow> fp \<Rightarrow> fp" where
  "fp_add (Some a) (Some b) =
     (if is_inf a then (if is_inf b \<and> a \<noteq> b then None else Some a)
      else if is_inf b then Some b
      else Some (round_frac (num_of a * den_of b + num_of b * den_of a) (den_of a * den_of b)))"
| "fp_add _ _ = None"

definition fp_sub :: "fp \<Rightarrow> fp \<Rightarrow> fp" where
  "fp_sub a b = fp_add a (fp_neg b)"

fun fp_mul :: "fp \<Rightarrow> fp \<Rightarrow> fp" where
  "fp_mul (Some a) (Some b) =
     (if is_inf a \<or> is_inf b
      then (if ordinal a = 0 \<or> ordinal b = 0 then None
            else Some (signed_inf (sgn (ordinal a) * sgn (ordinal b))))
      else Some (round_frac (num_of a * num_of b) (den_of a * den_of b)))"
| "fp_mul _ _ = None"

fun fp_div :: "fp \<Rightarrow> fp \<Rightarrow> fp" where
  "fp_div (Some a) (Some b) =
     (if is_inf b then (if is_inf a then None else Some (Dbl 0))
      else if ordinal b = 0
      then (if ordinal a = 0 then None else Some (signed_inf (ordinal a)))
      else if is_inf a then Some (signed_inf (sgn (ordinal a) * sgn (ordinal b)))
      else Some (round_frac (sgn (num_of b) * num_of a * den_of b) (den_of a * \<bar>num_of b\<bar>)))"
| "fp_div _ _ = None"

text \<open>Comparisons with a NaN are false.\<close>

fun fp_less :: "fp \<Rightarrow> fp \<Rightarrow> bool" where
  "fp_less (Some a) (Some b) = (a < b)"
| "fp_less _ _ = False"

definition fp_of_int :: "int \<Rightarrow> fp" where
  "fp_of_int i = Some (round_frac i 1)"

definition fp_to_float :: "fp \<Rightarrow> fp" where
  "fp_to_float a = map_option round_float a"

text \<open>
  \<^verbatim>\<open>static_cast<int64_t>(double)\<close>: truncation; a NaN or a value out of range gives the
  integer indefinite value of the x86-64 conversion instruction.
\<close>

definition trunc_frac :: "int \<Rightarrow> int \<Rightarrow> int" where
  "trunc_frac n d = (if n < 0 then - (- n div d) else n div d)"

fun fp_to_int64 :: "fp \<Rightarrow> int" where
  "fp_to_int64 None = - (2 ^ 63)"
| "fp_to_int64 (Some a) = (if is_inf a then - (2 ^ 63)
     else let t = trunc_frac (num_of a) (den_of a) in
       if - (2 ^ 63) \<le> t \<and> t < 2 ^ 63 then t else - (2 ^ 63))"

lemma fp_to_int64_range: "- (2 ^ 63) \<le> fp_to_int64 x \<and> fp_to_int64 x < 2 ^ 63"
  by (cases x) (auto simp: Let_def)

section \<open>Constants of \<^verbatim>\<open>parameters.h\<close>\<close>

text \<open>\<^verbatim>\<open>std::numeric_limits<double>::max()\<close>, and the value of \<^verbatim>\<open>max() - 1\<close>.\<close>

definition FREE_FLAG :: double where
  "FREE_FLAG = Dbl 0x7FEFFFFFFFFFFFFF"

definition DELETE_FLAG :: double where
  "DELETE_FLAG = (case fp_sub (Some FREE_FLAG) (fp_of_int 1) of None \<Rightarrow> Dbl 0 | Some d \<Rightarrow> d)"

definition BLOCK_SIZE :: nat where "BLOCK_SIZE = 256"
definition ROOT_SIZE :: nat where "ROOT_SIZE = 8"
definition LOG_NUMBER :: nat where "LOG_NUMBER = 16"
definition EPSILON_LEAF_NODE :: nat where "EPSILON_LEAF_NODE = 256"
definition EPSILON_INNER_NODE :: nat where "EPSILON_INNER_NODE = 8"
definition lockSet :: u32 where "lockSet = 0x80000000"
definition lockMask :: u32 where "lockMask = 0x7FFFFFFF"
definition double_bit_lockMask :: u32 where "double_bit_lockMask = 0x3FFFFFFF"
definition second_bit_lockSet :: u32 where "second_bit_lockSet = 0x40000000"

end
