(* ===== verification/BPlus_Tree.thy ===== *)
theory BPlus_Tree
  imports Machine_Double
begin

text \<open>
  The overflow tree of \<^verbatim>\<open>src/core/index/b_plus.h\<close>.  Pages live in an explicit heap (a partial map
  from addresses to pages; address 0 is \<^verbatim>\<open>nullptr\<close>), because the code navigates and mutates through
  parent, child and sibling pointers.  The value of a record is the raw \<^verbatim>\<open>char *\<close>: a child
  address in an inner page, the payload itself in a leaf.

  A step that ends the process or is undefined is an error value: \<^verbatim>\<open>ExitCount\<close> is the
  \<^verbatim>\<open>exit(0)\<close> on a record-count mismatch, \<^verbatim>\<open>AssertFail\<close> a failed \<^verbatim>\<open>assert\<close>, \<^verbatim>\<open>NullDeref\<close> an access
  through a null or freed page pointer, \<^verbatim>\<open>OutOfBounds\<close> an access past \<^verbatim>\<open>records\<close>, \<^verbatim>\<open>NoReturn\<close> the
  end of a non-void function without \<^verbatim>\<open>return\<close>, \<^verbatim>\<open>Throws\<close> an uncaught exception of the index code.  The loops that follow pointers are partial
  functions, whose value \<^term>\<open>None\<close> is a loop that does not end.
\<close>

datatype bt_err = ExitCount | AssertFail | NullDeref | OutOfBounds | NoReturn | Throws

type_synonym 'a run = "(bt_err + 'a) option"

definition bind_run :: "'a run \<Rightarrow> ('a \<Rightarrow> 'b run) \<Rightarrow> 'b run" where
  "bind_run r f = (case r of None \<Rightarrow> None | Some (Inl e) \<Rightarrow> Some (Inl e) | Some (Inr x) \<Rightarrow> f x)"

lemma bind_run_simps [simp]:
  "bind_run None f = None"
  "bind_run (Some (Inl e)) f = Some (Inl e)"
  "bind_run (Some (Inr x)) f = f x"
  by (simp_all add: bind_run_def)

lemma bind_run_mono [partial_function_mono]:
  assumes "mono_option B" "\<And>y. mono_option (\<lambda>f. C y f)"
  shows "mono_option (\<lambda>f. bind_run (B f) (\<lambda>y. C y f))"
proof (rule monotoneI)
  fix f g :: "'a \<Rightarrow> 'b option" assume fg: "fun_ord option_ord f g"
  with assms have "option_ord (B f) (B g)" "\<And>y. option_ord (C y f) (C y g)"
    by (auto dest: monotoneD)
  then show "option_ord (bind_run (B f) (\<lambda>y. C y f)) (bind_run (B g) (\<lambda>y. C y g))"
    unfolding flat_ord_def bind_run_def by (fastforce split: option.splits sum.splits)
qed

section \<open>Pages\<close>

type_synonym addr = int
type_synonym Record = "double \<times> int"

record page =
  is_leaf :: bool
  next_leaf :: addr
  prev_leaf :: addr
  parent :: addr
  level :: u32
  record_num :: nat
  is_deleted :: bool
  records :: "Record list"

type_synonym heap = "addr \<Rightarrow> page option"

text \<open>
  \<^verbatim>\<open>sizeof(header)\<close> is 48 on the target (two flags, three pointers, level, count, flag, an unused
  word, with padding) and \<^verbatim>\<open>sizeof(Record)\<close> is 16, so a 256-byte page holds 13 records.
\<close>

definition BTREE_PLUS_PAGESIZE :: nat where "BTREE_PLUS_PAGESIZE = 256"
definition sizeof_header :: nat where "sizeof_header = 48"
definition sizeof_Record :: nat where "sizeof_Record = 16"

definition cardinality :: nat where
  "cardinality = (BTREE_PLUS_PAGESIZE - sizeof_header) div sizeof_Record"

lemma cardinality_13 [simp, code]: "cardinality = 13"
  by (simp add: cardinality_def BTREE_PLUS_PAGESIZE_def sizeof_header_def sizeof_Record_def)

definition new_page :: "u32 \<Rightarrow> page" where
  "new_page lvl = \<lparr>is_leaf = False, next_leaf = 0, prev_leaf = 0, parent = 0, level = lvl,
     record_num = 0, is_deleted = False, records = replicate cardinality (FREE_FLAG, 0)\<rparr>"

definition count :: "page \<Rightarrow> nat" where
  "count p = length (filter (\<lambda>r. snd r \<noteq> 0) (records p))"

definition lower_bound :: "page \<Rightarrow> double \<Rightarrow> bt_err + nat" where
  "lower_bound p key = (if record_num p \<noteq> count p then Inl ExitCount
     else Inr (length (takeWhile (\<lambda>r. \<not> key \<le> fst r) (take (record_num p) (records p)))))"

definition upper_bound :: "page \<Rightarrow> double \<Rightarrow> bt_err + nat" where
  "upper_bound p key = (if record_num p \<noteq> count p then Inl ExitCount
     else Inr (1 + length (takeWhile (\<lambda>r. \<not> key < fst r) (drop 1 (take (record_num p) (records p))))))"

definition leaf_lookup :: "page \<Rightarrow> double \<Rightarrow> bt_err + payload_t option" where
  "leaf_lookup p key = bind_res (lower_bound p key) (\<lambda>id.
     if id \<noteq> count p \<and> fst (records p ! id) = key then Inr (Some (of_int (snd (records p ! id))))
     else Inr None)"

definition inner_lookup :: "page \<Rightarrow> double \<Rightarrow> bt_err + addr" where
  "inner_lookup p key = bind_res (upper_bound p key) (\<lambda>ub. Inr (snd (records p ! (ub - 1))))"

text \<open>
  The loop \<^verbatim>\<open>for (pos = n - 1; pos >= id; pos--) records[pos + 1] = records[pos]\<close>, with the number
  of iterations as its counter.
\<close>

fun shift_right :: "Record list \<Rightarrow> nat \<Rightarrow> nat \<Rightarrow> Record list" where
  "shift_right rs pos 0 = rs"
| "shift_right rs pos (Suc n) = shift_right (rs[pos + 1 := rs ! pos]) (pos - 1) n"

definition insert_pair :: "nat \<Rightarrow> double \<Rightarrow> int \<Rightarrow> page \<Rightarrow> bt_err + page" where
  "insert_pair ix key v p = (if ix > record_num p then Inr p
     else if \<not> record_num p < cardinality then Inl AssertFail
     else Inr (p\<lparr>records := (shift_right (records p) (record_num p - 1) (record_num p - ix))[ix := (key, v)],
                record_num := record_num p + 1\<rparr>))"

text \<open>
  \<^verbatim>\<open>insert_in_node\<close> takes the payload by reference and overwrites it with \<^verbatim>\<open>INT64_MAX\<close> after an
  update in place.  It returns the record count, the payload and the page.
\<close>

definition INT64_MAX :: u64 where "INT64_MAX = 0x7fffffffffffffff"

definition insert_in_node :: "double \<Rightarrow> payload_t \<Rightarrow> page \<Rightarrow> bt_err + nat \<times> payload_t \<times> page" where
  "insert_in_node key payload p = bind_res (lower_bound p key) (\<lambda>id.
     if \<not> id < cardinality then Inl OutOfBounds
     else if fst (records p ! id) = key \<and> snd (records p ! id) \<noteq> 0
     then Inr (record_num p, INT64_MAX, p\<lparr>records := (records p)[id := (fst (records p ! id), uint payload)]\<rparr>)
     else if id > record_num p then Inr (record_num p, payload, p)
     else if \<not> record_num p < cardinality then Inl AssertFail
     else Inr (record_num p + 1, payload,
       p\<lparr>records := (shift_right (records p) (record_num p - 1) (record_num p - id))[id := (key, uint payload)],
         record_num := record_num p + 1\<rparr>))"

fun index_from :: "nat \<Rightarrow> int \<Rightarrow> Record list \<Rightarrow> nat option" where
  "index_from k c [] = None"
| "index_from k c (r # rs) = (if snd r = c then Some k else index_from (Suc k) c rs)"

text \<open>\<^term>\<open>None\<close> is the return value \<^verbatim>\<open>-1\<close>.\<close>

definition find_child_rank :: "page \<Rightarrow> addr \<Rightarrow> nat option" where
  "find_child_rank p child = index_from 0 child (take (record_num p) (records p))"

fun shift_left :: "Record list \<Rightarrow> nat \<Rightarrow> nat \<Rightarrow> Record list" where
  "shift_left rs pos 0 = rs"
| "shift_left rs pos (Suc n) = shift_left (rs[pos := rs ! (pos + 1)]) (pos + 1) n"

definition erase_pair :: "nat \<Rightarrow> page \<Rightarrow> bt_err + page" where
  "erase_pair idx p = (if record_num p = 0 then Inl OutOfBounds
     else Inr (p\<lparr>records := (shift_left (records p) idx (record_num p - 1 - idx))
                   [record_num p - 1 := (FREE_FLAG, 0)],
                record_num := record_num p - 1\<rparr>))"

text \<open>\<^verbatim>\<open>page::remove\<close> has no return statement for an absent key below the last record.\<close>

definition page_remove :: "double \<Rightarrow> page \<Rightarrow> bt_err + nat \<times> page" where
  "page_remove key p = bind_res (lower_bound p key) (\<lambda>idx.
     if idx \<ge> record_num p then Inr (record_num p, p)
     else if fst (records p ! idx) = key \<and> snd (records p ! idx) \<noteq> 0
     then bind_res (erase_pair idx p) (\<lambda>q. Inr (record_num q, q))
     else Inl NoReturn)"

section \<open>Trees\<close>

record btree_plus =
  heap_of :: heap
  brk :: addr
  root :: addr
  addr_slot :: addr

definition get_page :: "heap \<Rightarrow> addr \<Rightarrow> bt_err + page" where
  "get_page h a = (case h a of None \<Rightarrow> Inl NullDeref | Some p \<Rightarrow> Inr p)"

definition mod_page :: "addr \<Rightarrow> (page \<Rightarrow> page) \<Rightarrow> heap \<Rightarrow> bt_err + heap" where
  "mod_page a f h = bind_res (get_page h a) (\<lambda>p. Inr (h(a \<mapsto> f p)))"

definition try_page :: "addr \<Rightarrow> (page \<Rightarrow> bt_err + page) \<Rightarrow> heap \<Rightarrow> bt_err + heap" where
  "try_page a f h = bind_res (get_page h a) (\<lambda>p. bind_res (f p) (\<lambda>q. Inr (h(a \<mapsto> q))))"

definition maintain_child :: "addr \<Rightarrow> nat \<Rightarrow> heap \<Rightarrow> bt_err + heap" where
  "maintain_child node child_idx h = bind_res (get_page h node) (\<lambda>p.
     if is_leaf p then Inr h
     else mod_page (snd (records p ! child_idx)) (\<lambda>c. c\<lparr>parent := node\<rparr>) h)"

fun maintain_children :: "addr \<Rightarrow> nat \<Rightarrow> nat \<Rightarrow> heap \<Rightarrow> bt_err + heap" where
  "maintain_children node i 0 h = Inr h"
| "maintain_children node i (Suc n) h =
     bind_res (maintain_child node i h) (maintain_children node (Suc i) n)"

text \<open>The records a split leaves in the node and moves to its sibling.\<close>

definition split_left :: "page \<Rightarrow> page" where
  "split_left p = (let right = record_num p div 2; left = record_num p - right in
     p\<lparr>records := take left (records p) @ map (\<lambda>r. (fst r, 0)) (take right (drop left (records p)))
          @ drop (left + right) (records p),
       record_num := left\<rparr>)"

definition split_right :: "page \<Rightarrow> page \<Rightarrow> page" where
  "split_right p q = (let right = record_num p div 2; left = record_num p - right in
     q\<lparr>records := take right (drop left (records p)) @ drop right (records q), record_num := right\<rparr>)"

text \<open>The leaf-chain update of a split: the sibling goes right behind the node.\<close>

definition link_sibling :: "addr \<Rightarrow> addr \<Rightarrow> heap \<Rightarrow> bt_err + heap" where
  "link_sibling node sibling h = bind_res (get_page h node) (\<lambda>p.
     if next_leaf p = 0
     then bind_res (mod_page node (\<lambda>q. q\<lparr>next_leaf := sibling\<rparr>) h)
           (mod_page sibling (\<lambda>q. q\<lparr>prev_leaf := node, next_leaf := 0\<rparr>))
     else bind_res (mod_page sibling (\<lambda>q. q\<lparr>prev_leaf := node\<rparr>) h) (\<lambda>h.
          bind_res (mod_page node (\<lambda>q. q\<lparr>next_leaf := sibling\<rparr>) h) (\<lambda>h.
          bind_res (mod_page (next_leaf p) (\<lambda>q. q\<lparr>prev_leaf := sibling\<rparr>) h)
           (mod_page sibling (\<lambda>q. q\<lparr>next_leaf := next_leaf p\<rparr>)))))"

definition split :: "addr \<Rightarrow> btree_plus \<Rightarrow> bt_err + addr \<times> btree_plus" where
  "split node t = bind_res (get_page (heap_of t) node) (\<lambda>p.
     let sibling = brk t;
         h = (heap_of t)(sibling \<mapsto> (new_page (level p))\<lparr>is_leaf := is_leaf p\<rparr>)
     in bind_res (if is_leaf p then link_sibling node sibling h else Inr h) (\<lambda>h.
        bind_res (mod_page sibling (split_right p) h) (\<lambda>h.
        bind_res (mod_page node split_left h) (\<lambda>h.
        bind_res (if is_leaf p then Inr h else maintain_children sibling 0 (record_num p div 2) h) (\<lambda>h.
        Inr (sibling, t\<lparr>heap_of := h, brk := sibling + 1\<rparr>))))))"

definition set_new_root :: "addr \<Rightarrow> btree_plus \<Rightarrow> btree_plus" where
  "set_new_root r t = t\<lparr>root := r, addr_slot := r\<rparr>"

text \<open>The constructor: \<^verbatim>\<open>init\<close> allocates an empty leaf, otherwise the root is read back from the slot.\<close>

definition btree_plus_init :: "btree_plus" where
  "btree_plus_init = \<lparr>heap_of = [1 \<mapsto> (new_page 0)\<lparr>is_leaf := True\<rparr>], brk = 2, root = 1, addr_slot = 1\<rparr>"

definition btree_plus_open :: "btree_plus \<Rightarrow> btree_plus" where
  "btree_plus_open t = t\<lparr>root := addr_slot t\<rparr>"

partial_function (option) find_leaf_loop :: "heap \<Rightarrow> double \<Rightarrow> addr \<Rightarrow> addr run" where
  [code]: "find_leaf_loop h key a = (case h a of None \<Rightarrow> Some (Inl NullDeref)
     | Some p \<Rightarrow> if is_leaf p then Some (Inr a)
         else (case inner_lookup p key of Inl e \<Rightarrow> Some (Inl e) | Inr c \<Rightarrow> find_leaf_loop h key c))"

definition find_leaf_page :: "double \<Rightarrow> btree_plus \<Rightarrow> addr run" where
  "find_leaf_page key t = find_leaf_loop (heap_of t) key (root t)"

definition find :: "double \<Rightarrow> btree_plus \<Rightarrow> payload_t option run" where
  "find key t = bind_run (find_leaf_page key t) (\<lambda>leaf.
     Some (bind_res (get_page (heap_of t) leaf) (\<lambda>p. leaf_lookup p key)))"

text \<open>The first branch of \<^verbatim>\<open>insert_into_parent\<close>: a new root above the two halves.\<close>

definition grow_root :: "addr \<Rightarrow> double \<Rightarrow> addr \<Rightarrow> btree_plus \<Rightarrow> bt_err + btree_plus" where
  "grow_root old_node key new_node t = bind_res (get_page (heap_of t) old_node) (\<lambda>p.
     let new_root = brk t;
         pg = (new_page 0)\<lparr>records := (records (new_page 0))
                 [0 := (fst (records p ! 0), old_node), 1 := (key, new_node)], record_num := 2\<rparr>
     in bind_res (mod_page old_node (\<lambda>q. q\<lparr>parent := new_root\<rparr>) ((heap_of t)(new_root \<mapsto> pg))) (\<lambda>h.
        bind_res (mod_page new_node (\<lambda>q. q\<lparr>parent := new_root\<rparr>) h) (\<lambda>h.
        Inr (set_new_root new_root (t\<lparr>heap_of := h, brk := new_root + 1\<rparr>)))))"

text \<open>
  The second branch: the new node becomes the child after the old one.  \<^verbatim>\<open>find_child_rank\<close>
  answering \<^verbatim>\<open>-1\<close> would insert at rank 0.
\<close>

definition insert_child :: "addr \<Rightarrow> double \<Rightarrow> addr \<Rightarrow> addr \<Rightarrow> heap \<Rightarrow> bt_err + heap" where
  "insert_child old_node key new_node father h = bind_res (get_page h father) (\<lambda>f.
     let pos = (case find_child_rank f old_node of None \<Rightarrow> 0 | Some i \<Rightarrow> i + 1)
     in bind_res (mod_page new_node (\<lambda>q. q\<lparr>parent := father\<rparr>) h)
          (try_page father (insert_pair pos key new_node)))"

definition split_father :: "addr \<Rightarrow> btree_plus \<Rightarrow> bt_err + (double \<times> addr) option \<times> btree_plus" where
  "split_father father t = bind_res (get_page (heap_of t) father) (\<lambda>f.
     if record_num f \<ge> cardinality
     then bind_res (split father t) (\<lambda>(s, t).
          bind_res (get_page (heap_of t) s) (\<lambda>q. Inr (Some (fst (records q ! 0), s), t)))
     else Inr (None, t))"

partial_function (option) insert_into_parent ::
    "addr \<Rightarrow> double \<Rightarrow> addr \<Rightarrow> btree_plus \<Rightarrow> btree_plus run" where
  [code]: "insert_into_parent old_node key new_node t =
     (if old_node = root t then Some (grow_root old_node key new_node t)
      else case get_page (heap_of t) old_node of Inl e \<Rightarrow> Some (Inl e)
      | Inr p \<Rightarrow> (case insert_child old_node key new_node (parent p) (heap_of t) of Inl e \<Rightarrow> Some (Inl e)
        | Inr h \<Rightarrow> (case split_father (parent p) (t\<lparr>heap_of := h\<rparr>) of Inl e \<Rightarrow> Some (Inl e)
          | Inr r \<Rightarrow> (case fst r of None \<Rightarrow> Some (Inr (snd r))
            | Some s \<Rightarrow> insert_into_parent (parent p) (fst s) (snd s) (snd r)))))"

text \<open>The part of \<^verbatim>\<open>upsert\<close> after the record is in its leaf: split an overfull leaf.\<close>

definition settle_leaf :: "addr \<Rightarrow> btree_plus \<Rightarrow> btree_plus run" where
  "settle_leaf leaf t = (case split_father leaf t of Inl e \<Rightarrow> Some (Inl e)
     | Inr r \<Rightarrow> (case fst r of None \<Rightarrow> Some (Inr (snd r))
        | Some s \<Rightarrow> insert_into_parent leaf (fst s) (snd s) (snd r)))"

definition upsert :: "double \<Rightarrow> payload_t \<Rightarrow> btree_plus \<Rightarrow> (int \<times> btree_plus) run" where
  "upsert key payload t = bind_run (find_leaf_page key t) (\<lambda>leaf.
     bind_run (Some (get_page (heap_of t) leaf)) (\<lambda>p.
     bind_run (Some (insert_in_node key payload p)) (\<lambda>(n, pl, q).
     let t' = t\<lparr>heap_of := (heap_of t)(leaf \<mapsto> q)\<rparr> in
     if n = record_num p then Some (Inr (if pl = INT64_MAX then 3 else 0, t'))
     else bind_run (settle_leaf leaf t') (\<lambda>t''. Some (Inr (4, t''))))))"

text \<open>\<^verbatim>\<open>btree_plus::insert\<close> has the body of \<^verbatim>\<open>upsert\<close>.\<close>

definition bt_insert :: "double \<Rightarrow> payload_t \<Rightarrow> btree_plus \<Rightarrow> (int \<times> btree_plus) run" where
  "bt_insert key payload t = bind_run (find_leaf_page key t) (\<lambda>leaf.
     bind_run (Some (get_page (heap_of t) leaf)) (\<lambda>p.
     bind_run (Some (insert_in_node key payload p)) (\<lambda>(n, pl, q).
     let t' = t\<lparr>heap_of := (heap_of t)(leaf \<mapsto> q)\<rparr> in
     if n = record_num p then Some (Inr (if pl = INT64_MAX then 3 else 0, t'))
     else bind_run (settle_leaf leaf t') (\<lambda>t''. Some (Inr (4, t''))))))"

section \<open>Deletion\<close>

definition erase_node :: "addr \<Rightarrow> heap \<Rightarrow> bt_err + heap" where
  "erase_node node h = bind_res (get_page h node) (\<lambda>p.
     if \<not> is_leaf p then Inr (h(node := None))
     else bind_res (if next_leaf p = 0 then mod_page (prev_leaf p) (\<lambda>q. q\<lparr>next_leaf := 0\<rparr>) h
           else bind_res (mod_page (prev_leaf p) (\<lambda>q. q\<lparr>next_leaf := next_leaf p\<rparr>) h)
                 (mod_page (next_leaf p) (\<lambda>q. q\<lparr>prev_leaf := prev_leaf p\<rparr>))) (\<lambda>h.
          Inr (h(node := None))))"

definition adjust_root :: "addr \<Rightarrow> btree_plus \<Rightarrow> bt_err + bool \<times> btree_plus" where
  "adjust_root r t = bind_res (get_page (heap_of t) r) (\<lambda>p.
     if is_leaf p \<and> record_num p = 0
     then Inr (False, t\<lparr>heap_of := (heap_of t)(r \<mapsto> p\<lparr>is_deleted := True\<rparr>)\<rparr>)
     else if \<not> is_leaf p \<and> record_num p = 1
     then bind_res (mod_page (snd (records p ! 0)) (\<lambda>q. q\<lparr>parent := 0\<rparr>) (heap_of t)) (\<lambda>h.
            Inr (True, set_new_root (snd (records p ! 0)) (t\<lparr>heap_of := h\<rparr>)))
     else Inr (False, t))"

text \<open>The copy loop of \<^verbatim>\<open>coalesce\<close>: append the records of a page to its left neighbour.\<close>

fun move_records :: "addr \<Rightarrow> nat \<Rightarrow> Record list \<Rightarrow> heap \<Rightarrow> bt_err + heap" where
  "move_records nb pos [] h = Inr h"
| "move_records nb pos (r # rs) h =
     bind_res (try_page nb (insert_pair pos (fst r) (snd r)) h) (\<lambda>h.
     bind_res (maintain_child nb pos h) (move_records nb (pos + 1) rs))"

text \<open>\<^verbatim>\<open>coalesce\<close> up to its recursive call on the parent; the leftmost child takes its right neighbour in.\<close>

definition coalesce_step :: "addr \<Rightarrow> addr \<Rightarrow> addr \<Rightarrow> nat \<Rightarrow> heap \<Rightarrow> bt_err + heap" where
  "coalesce_step neighbor node father index h =
     (let nb = (if index = 0 then node else neighbor); nd = (if index = 0 then neighbor else node);
          index = (if index = 0 then 1 else index)
      in bind_res (get_page h nb) (\<lambda>pn. bind_res (get_page h nd) (\<lambda>pd.
         bind_res (move_records nb (record_num pn) (take (record_num pd) (records pd)) h) (\<lambda>h.
         bind_res (erase_node nd h) (try_page father (erase_pair index))))))"

definition redistribute :: "addr \<Rightarrow> addr \<Rightarrow> addr \<Rightarrow> nat \<Rightarrow> heap \<Rightarrow> bt_err + heap" where
  "redistribute neighbor node father index h =
     bind_res (get_page h neighbor) (\<lambda>pn. bind_res (get_page h node) (\<lambda>pd.
     if record_num pn = 0 then Inl OutOfBounds
     else let src = (if index = 0 then 0 else record_num pn - 1);
              pos = (if index = 0 then record_num pd else 0);
              r = records pn ! src
     in bind_res (try_page node (insert_pair pos (fst r) (snd r)) h) (\<lambda>h.
        bind_res (maintain_child node pos h) (\<lambda>h.
        bind_res (try_page neighbor (\<lambda>q. bind_res (page_remove (fst r) q) (\<lambda>(n, q). Inr q)) h) (\<lambda>h.
        bind_res (get_page h neighbor) (\<lambda>q.
        let up = (if index = 0 then 1 else index);
            key = (if index = 0 then fst (records q ! 0) else fst r)
        in mod_page father (\<lambda>f. f\<lparr>records := (records f)[up := (key, snd (records f ! up))]\<rparr>) h))))))"

text \<open>
  What \<^verbatim>\<open>coalesce_or_redistribute\<close> does before it may call itself on the parent: either it is done,
  or it has merged two pages below the returned father.
\<close>

definition rebalance :: "addr \<Rightarrow> btree_plus \<Rightarrow> bt_err + (bool + addr) \<times> btree_plus" where
  "rebalance node t =
     (if node = root t then bind_res (adjust_root node t) (\<lambda>(b, t). Inr (Inl b, t))
      else bind_res (get_page (heap_of t) node) (\<lambda>p.
        if record_num p \<ge> (cardinality + 1) div 2 then Inr (Inl False, t)
        else bind_res (get_page (heap_of t) (parent p)) (\<lambda>f.
        case find_child_rank f node of None \<Rightarrow> Inl OutOfBounds
        | Some index \<Rightarrow>
          let neighbor = snd (records f ! (if index = 0 then 1 else index - 1))
          in bind_res (get_page (heap_of t) neighbor) (\<lambda>q.
             if record_num p + record_num q \<ge> cardinality + 1
             then bind_res (redistribute neighbor node (parent p) index (heap_of t)) (\<lambda>h.
                    Inr (Inl False, t\<lparr>heap_of := h\<rparr>))
             else bind_res (coalesce_step neighbor node (parent p) index (heap_of t)) (\<lambda>h.
                    Inr (Inr (parent p), t\<lparr>heap_of := h\<rparr>))))))"

partial_function (option) coalesce_or_redistribute :: "addr \<Rightarrow> btree_plus \<Rightarrow> (bool \<times> btree_plus) run" where
  [code]: "coalesce_or_redistribute node t = (case rebalance node t of Inl e \<Rightarrow> Some (Inl e)
     | Inr r \<Rightarrow> (case fst r of Inl b \<Rightarrow> Some (Inr (b, snd r))
        | Inr father \<Rightarrow> Option.bind (coalesce_or_redistribute father (snd r))
             (\<lambda>x. Some (case x of Inl e \<Rightarrow> Inl e | Inr y \<Rightarrow> Inr (True, snd y)))))"

text \<open>
  \<^verbatim>\<open>maintain_parent\<close> walks to the root as long as the separators differ.  It assigns the new key to a
  local copy only, so it changes no page.
\<close>

partial_function (option) maintain_parent :: "heap \<Rightarrow> addr \<Rightarrow> unit run" where
  [code]: "maintain_parent h cur = (case h cur of None \<Rightarrow> Some (Inl NullDeref)
     | Some c \<Rightarrow> if parent c = 0 then Some (Inr ())
        else (case h (parent c) of None \<Rightarrow> Some (Inl NullDeref)
        | Some p \<Rightarrow> (case find_child_rank p cur of None \<Rightarrow> Some (Inl OutOfBounds)
          | Some rank \<Rightarrow> if fst (records p ! rank) = fst (records c ! 0) then Some (Inr ())
              else maintain_parent h (parent c))))"

definition delete_entry :: "double \<Rightarrow> btree_plus \<Rightarrow> (bool \<times> btree_plus) run" where
  "delete_entry key t = bind_run (find_leaf_page key t) (\<lambda>leaf.
     bind_run (Some (get_page (heap_of t) leaf)) (\<lambda>p.
     bind_run (Some (page_remove key p)) (\<lambda>(new_num, q).
     let t' = t\<lparr>heap_of := (heap_of t)(leaf \<mapsto> q)\<rparr> in
     bind_run (maintain_parent (heap_of t') leaf) (\<lambda>_.
     if record_num p \<noteq> new_num
     then bind_run (coalesce_or_redistribute leaf t') (\<lambda>(_, t''). Some (Inr (True, t'')))
     else Some (Inr (False, t'))))))"

section \<open>Scans\<close>

partial_function (option) leftmost_leaf :: "heap \<Rightarrow> addr \<Rightarrow> addr run" where
  [code]: "leftmost_leaf h a = (case h a of None \<Rightarrow> Some (Inl NullDeref)
     | Some p \<Rightarrow> if is_leaf p then Some (Inr a) else leftmost_leaf h (snd (records p ! 0)))"

text \<open>The walk along the leaf chain, appending what \<^verbatim>\<open>sel\<close> selects from each leaf.\<close>

partial_function (option) walk_leaves ::
    "(Record \<Rightarrow> bool) \<Rightarrow> heap \<Rightarrow> (double \<times> payload_t) list \<Rightarrow> addr \<Rightarrow> (double \<times> payload_t) list run" where
  [code]: "walk_leaves sel h acc cur = (if cur = 0 then Some (Inr acc)
     else case h cur of None \<Rightarrow> Some (Inl NullDeref)
     | Some p \<Rightarrow> walk_leaves sel h (acc @ map (\<lambda>r. (fst r, of_int (snd r)))
                    (filter sel (take (record_num p) (records p)))) (next_leaf p))"

definition get_data :: "btree_plus \<Rightarrow> (double \<times> payload_t) list run" where
  "get_data t = bind_run (leftmost_leaf (heap_of t) (root t)) (walk_leaves (\<lambda>r. True) (heap_of t) [])"

definition range_query :: "double \<Rightarrow> double \<Rightarrow> btree_plus \<Rightarrow> (double \<times> payload_t) list run" where
  "range_query lo hi t = bind_run (find_leaf_page lo t)
     (walk_leaves (\<lambda>r. lo \<le> fst r \<and> fst r \<le> hi \<and> snd r \<noteq> 0) (heap_of t) [])"

text \<open>A sequence of insertions, as the callers perform them.\<close>

fun upserts :: "(double \<times> payload_t) list \<Rightarrow> btree_plus \<Rightarrow> btree_plus run" where
  "upserts [] t = Some (Inr t)"
| "upserts ((k, v) # kvs) t = bind_run (upsert k v t) (\<lambda>(_, t). upserts kvs t)"

end
