(* ===== verification/BPlus_Page.thy ===== *)
theory BPlus_Page
  imports BPlus_Tree
begin

text \<open>
  One page of the overflow tree: what the record array holds, the well-formedness of a page, and
  the effect of every page operation on the list of its live records.
\<close>

section \<open>Shifting records\<close>

lemma length_shift_right [simp]: "length (shift_right rs pos n) = length rs"
  by (induction rs pos n rule: shift_right.induct) auto

lemma length_shift_left [simp]: "length (shift_left rs pos n) = length rs"
  by (induction rs pos n rule: shift_left.induct) auto

lemma shift_right_nth:
  assumes "n \<le> pos + 1" "pos + 1 < length rs" "j < length rs"
  shows "shift_right rs pos n ! j = (if pos + 1 - n < j \<and> j \<le> pos + 1 then rs ! (j - 1) else rs ! j)"
  using assms
proof (induction n arbitrary: rs pos)
  case (Suc n)
  show ?case
  proof (cases "n = 0")
    case True
    then show ?thesis using Suc.prems by (auto simp: nth_list_update)
  next
    case False
    with Suc.prems have "n \<le> pos - 1 + 1" "pos - 1 + 1 < length (rs[pos + 1 := rs ! pos])"
      "j < length (rs[pos + 1 := rs ! pos])" by auto
    from Suc.IH [OF this] show ?thesis using Suc.prems False by (auto simp: nth_list_update)
  qed
qed auto

lemma shift_left_nth:
  assumes "pos + n < length rs" "j < length rs"
  shows "shift_left rs pos n ! j = (if pos \<le> j \<and> j < pos + n then rs ! (j + 1) else rs ! j)"
  using assms
proof (induction n arbitrary: rs pos)
  case (Suc n)
  from Suc.prems have "Suc pos + n < length (rs[pos := rs ! (pos + 1)])"
    "j < length (rs[pos := rs ! (pos + 1)])" by auto
  from Suc.IH [OF this] show ?case using Suc.prems by (auto simp: nth_list_update)
qed auto

lemma insert_shift:
  assumes "n < length rs" "ix \<le> n"
  shows "(shift_right rs (n - 1) (n - ix))[ix := r]
    = take ix (take n rs) @ r # drop ix (take n rs) @ drop (n + 1) rs"
proof (cases "n = 0")
  case True
  with assms show ?thesis by (cases rs) auto
next
  case False
  show ?thesis
  proof (rule nth_equalityI)
    fix j assume "j < length ((shift_right rs (n - 1) (n - ix))[ix := r])"
    then have j: "j < length rs" by simp
    then show "(shift_right rs (n - 1) (n - ix))[ix := r] ! j
      = (take ix (take n rs) @ r # drop ix (take n rs) @ drop (n + 1) rs) ! j"
      using assms False shift_right_nth [of "n - ix" "n - 1" rs j]
      by (auto simp: nth_append nth_list_update nth_Cons' min_def)
  qed (use assms in auto)
qed

lemma erase_shift:
  assumes "n \<le> length rs" "ix < n"
  shows "(shift_left rs ix (n - 1 - ix))[n - 1 := r]
    = take ix (take n rs) @ drop (Suc ix) (take n rs) @ r # drop n rs"
proof (rule nth_equalityI)
  fix j assume "j < length ((shift_left rs ix (n - 1 - ix))[n - 1 := r])"
  then have j: "j < length rs" by simp
  then show "(shift_left rs ix (n - 1 - ix))[n - 1 := r] ! j
    = (take ix (take n rs) @ drop (Suc ix) (take n rs) @ r # drop n rs) ! j"
    using assms shift_left_nth [of ix "n - 1 - ix" rs j]
    by (auto simp: nth_append nth_list_update nth_Cons' min_def)
qed (use assms in auto)

section \<open>Well-formed pages\<close>

definition recs :: "page \<Rightarrow> Record list" where
  "recs p = take (record_num p) (records p)"

text \<open>
  At most \<^verbatim>\<open>m\<close> live records, all with non-null values and in front of the unused slots, which
  hold null: exactly when the count check of \<^verbatim>\<open>lower_bound\<close> and \<^verbatim>\<open>upper_bound\<close> passes.
\<close>

definition wf_page :: "nat \<Rightarrow> page \<Rightarrow> bool" where
  "wf_page m p \<longleftrightarrow> length (records p) = cardinality \<and> record_num p \<le> m \<and> m \<le> cardinality
     \<and> (\<forall>r\<in>set (recs p). snd r \<noteq> 0) \<and> (\<forall>r\<in>set (drop (record_num p) (records p)). snd r = 0)"

lemma wf_page_length: "wf_page m p \<Longrightarrow> length (recs p) = record_num p"
  by (auto simp: wf_page_def recs_def)

lemma wf_page_mono: "wf_page m p \<Longrightarrow> m \<le> n \<Longrightarrow> n \<le> cardinality \<Longrightarrow> wf_page n p"
  by (auto simp: wf_page_def)

lemma wf_page_count: "wf_page m p \<Longrightarrow> count p = record_num p"
proof -
  assume w: "wf_page m p"
  have "records p = recs p @ drop (record_num p) (records p)" by (simp add: recs_def)
  moreover have "filter (\<lambda>r. snd r \<noteq> 0) (recs p) = recs p"
    using w by (auto simp: wf_page_def)
  moreover have "filter (\<lambda>r. snd r \<noteq> 0) (drop (record_num p) (records p)) = []"
    using w by (auto simp: wf_page_def filter_empty_conv)
  ultimately have "filter (\<lambda>r. snd r \<noteq> 0) (records p) = recs p"
    by (metis append_Nil2 filter_append)
  then show ?thesis using wf_page_length [OF w] by (simp add: count_def)
qed

lemma wf_page_nth: "wf_page m p \<Longrightarrow> i < record_num p \<Longrightarrow> records p ! i = recs p ! i"
  by (simp add: recs_def)

lemma wf_page_records: "wf_page m p \<Longrightarrow> records p = recs p @ drop (record_num p) (records p)"
  by (simp add: recs_def)

definition leaf_pos :: "page \<Rightarrow> double \<Rightarrow> nat" where
  "leaf_pos p key = length (takeWhile (\<lambda>r. \<not> key \<le> fst r) (recs p))"

definition route :: "page \<Rightarrow> double \<Rightarrow> nat" where
  "route p key = length (takeWhile (\<lambda>r. \<not> key < fst r) (tl (recs p)))"

lemma lower_bound_wf: "wf_page m p \<Longrightarrow> lower_bound p key = Inr (leaf_pos p key)"
  by (simp add: lower_bound_def wf_page_count leaf_pos_def recs_def)

lemma upper_bound_wf: "wf_page m p \<Longrightarrow> upper_bound p key = Inr (1 + route p key)"
  by (simp add: upper_bound_def wf_page_count route_def recs_def drop_Suc)

lemma leaf_pos_le: "wf_page m p \<Longrightarrow> leaf_pos p key \<le> record_num p"
  unfolding leaf_pos_def using length_takeWhile_le [of _ "recs p"] wf_page_length by metis

lemma route_less: "wf_page m p \<Longrightarrow> recs p \<noteq> [] \<Longrightarrow> route p key < record_num p"
proof -
  assume "wf_page m p" "recs p \<noteq> []"
  moreover have "route p key \<le> length (tl (recs p))"
    unfolding route_def by (rule length_takeWhile_le)
  ultimately show ?thesis using wf_page_length [of m p] by (cases "recs p") auto
qed

lemma inner_lookup_wf:
  "wf_page m p \<Longrightarrow> recs p \<noteq> [] \<Longrightarrow> inner_lookup p key = Inr (snd (recs p ! route p key))"
  by (simp add: inner_lookup_def upper_bound_wf wf_page_nth route_less)

section \<open>Leaf records\<close>

text \<open>The keys of a leaf are strictly increasing.  Its live records are a finite map.\<close>

definition sorted_recs :: "page \<Rightarrow> bool" where
  "sorted_recs p \<longleftrightarrow> sorted_wrt (<) (map fst (recs p))"

lemma leaf_pos_take: "take (leaf_pos p key) (recs p) = takeWhile (\<lambda>r. \<not> key \<le> fst r) (recs p)"
  unfolding leaf_pos_def by (rule takeWhile_eq_take [symmetric])

lemma leaf_pos_drop: "drop (leaf_pos p key) (recs p) = dropWhile (\<lambda>r. \<not> key \<le> fst r) (recs p)"
  unfolding leaf_pos_def by (rule dropWhile_eq_drop [symmetric])

lemma leaf_pos_below: "r \<in> set (take (leaf_pos p key) (recs p)) \<Longrightarrow> fst r < key"
  by (auto simp: leaf_pos_take dest: set_takeWhileD)

lemma leaf_pos_nth: "leaf_pos p key < length (recs p) \<Longrightarrow> key \<le> fst (recs p ! leaf_pos p key)"
  using nth_length_takeWhile [of "\<lambda>r. \<not> key \<le> fst r" "recs p"] by (simp add: leaf_pos_def)

lemma sorted_recs_drop:
  assumes "sorted_recs p" "r \<in> set (drop i (recs p))" "i < length (recs p)"
  shows "fst (recs p ! i) \<le> fst r"
proof -
  from assms obtain j where "j < length (recs p) - i" "r = recs p ! (i + j)"
    by (auto simp: in_set_conv_nth)
  then have j: "i + j < length (recs p)" "r = recs p ! (i + j)" by auto
  then show ?thesis using assms(1)
    by (cases "j = 0") (auto simp: sorted_recs_def sorted_wrt_iff_nth_less intro!: less_imp_le)
qed

lemma leaf_pos_above: "sorted_recs p \<Longrightarrow> r \<in> set (drop (leaf_pos p key) (recs p)) \<Longrightarrow> key \<le> fst r"
  using sorted_recs_drop [of p r "leaf_pos p key"] leaf_pos_nth [of p key]
  by (cases "leaf_pos p key < length (recs p)") (auto intro: order_trans)

lemma sorted_recs_unique:
  "sorted_recs p \<Longrightarrow> (k, v) \<in> set (recs p) \<Longrightarrow> (k, w) \<in> set (recs p) \<Longrightarrow> v = w"
  unfolding sorted_recs_def
  by (metis eq_key_imp_eq_value strict_sorted_iff)

lemma leaf_pos_hit:
  assumes "sorted_recs p" "(k, v) \<in> set (recs p)"
  shows "leaf_pos p k < length (recs p) \<and> recs p ! leaf_pos p k = (k, v)"
proof -
  let ?i = "leaf_pos p k"
  have "(k, v) \<notin> set (take ?i (recs p))" using leaf_pos_below by fastforce
  then have d: "(k, v) \<in> set (drop ?i (recs p))"
    using assms(2) by (metis append_take_drop_id Un_iff set_append)
  then have l: "?i < length (recs p)" by (metis drop_all empty_iff leI list.set(1))
  from d l assms(1) have "fst (recs p ! ?i) \<le> k" using sorted_recs_drop by fastforce
  with leaf_pos_nth [OF l] have "fst (recs p ! ?i) = k" by simp
  moreover have "recs p ! ?i \<in> set (recs p)" using l by simp
  ultimately have "recs p ! ?i = (k, v)"
    using sorted_recs_unique [OF assms(1) assms(2)] by (metis prod.collapse)
  with l show ?thesis by blast
qed

lemma leaf_lookup_wf:
  assumes "wf_page m p" "sorted_recs p"
  shows "\<exists>r. leaf_lookup p k = Inr r \<and>
    (\<forall>v. r = Some v \<longleftrightarrow> (\<exists>x. (k, x) \<in> set (recs p) \<and> v = of_int x))"
proof (cases "\<exists>x. (k, x) \<in> set (recs p)")
  case True
  then obtain x where x: "(k, x) \<in> set (recs p)" by blast
  from leaf_pos_hit [OF assms(2) x] have "leaf_pos p k < record_num p" "records p ! leaf_pos p k = (k, x)"
    using assms(1) by (auto simp: wf_page_length wf_page_nth)
  then have "leaf_lookup p k = Inr (Some (of_int x))"
    using assms(1) by (simp add: leaf_lookup_def lower_bound_wf wf_page_count)
  moreover have "(k, y) \<in> set (recs p) \<longleftrightarrow> y = x" for y
    using x sorted_recs_unique [OF assms(2) x] by blast
  ultimately show ?thesis by auto
next
  case False
  have "\<not> (leaf_pos p k \<noteq> record_num p \<and> fst (records p ! leaf_pos p k) = k)"
  proof
    assume a: "leaf_pos p k \<noteq> record_num p \<and> fst (records p ! leaf_pos p k) = k"
    then have "leaf_pos p k < record_num p" using leaf_pos_le [OF assms(1), of k] by simp
    then have "recs p ! leaf_pos p k \<in> set (recs p)" "fst (recs p ! leaf_pos p k) = k"
      using a assms(1) by (auto simp: wf_page_length wf_page_nth)
    with False show False by (metis prod.collapse)
  qed
  then have "leaf_lookup p k = Inr None"
    using assms(1) by (auto simp: leaf_lookup_def lower_bound_wf wf_page_count)
  with False show ?thesis by auto
qed

section \<open>Page updates\<close>

lemma uint_nonzero: "v \<noteq> 0 \<Longrightarrow> uint v \<noteq> 0" for v :: u64
  by (simp add: unsigned_eq_0_iff)

text \<open>A page rebuilt from a list of live records over null slots is well formed.\<close>

lemma wf_page_rebuild:
  assumes "records q = rs @ zs" "record_num q = length rs" "length rs + length zs = cardinality"
    "\<forall>r\<in>set rs. snd r \<noteq> 0" "\<forall>r\<in>set zs. snd r = 0" "length rs \<le> m" "m \<le> cardinality"
  shows "wf_page m q \<and> recs q = rs"
  using assms by (auto simp: wf_page_def recs_def)

lemma insert_pair_wf:
  assumes w: "wf_page 12 p" and ix: "ix \<le> record_num p" and v: "v \<noteq> 0"
  shows "\<exists>q. insert_pair ix k v p = Inr q \<and> wf_page 13 q \<and> recs q = take ix (recs p) @ (k, v) # drop ix (recs p)
    \<and> record_num q = record_num p + 1 \<and> q = p\<lparr>records := records q, record_num := record_num q\<rparr>"
proof -
  let ?n = "record_num p"
  let ?q = "p\<lparr>records := (shift_right (records p) (?n - 1) (?n - ix))[ix := (k, v)], record_num := ?n + 1\<rparr>"
  let ?rs = "take ix (recs p) @ (k, v) # drop ix (recs p)"
  have n: "?n < length (records p)" "?n < cardinality" using w by (auto simp: wf_page_def)
  have r: "records ?q = ?rs @ drop (?n + 1) (records p)"
    using insert_shift [OF n(1) ix, of "(k, v)"] by (simp add: recs_def)
  have ne: "\<forall>r\<in>set ?rs. snd r \<noteq> 0" using w v by (auto simp: wf_page_def dest: in_set_takeD in_set_dropD)
  have z: "\<forall>r\<in>set (drop (?n + 1) (records p)). snd r = 0"
    using w by (auto simp: wf_page_def) (metis drop_drop in_set_dropD plus_1_eq_Suc snd_conv)
  have l: "length ?rs = ?n + 1" using wf_page_length [OF w] ix by simp
  have "length (records p) = cardinality" using w by (simp add: wf_page_def)
  then have "wf_page 13 ?q \<and> recs ?q = ?rs"
    by (intro wf_page_rebuild [OF r _ _ ne z]) (use l n in simp_all)
  moreover have "insert_pair ix k v p = Inr ?q" using n ix by (simp add: insert_pair_def)
  ultimately show ?thesis by (intro exI [of _ ?q]) simp
qed

lemma sorted_recs_insert:
  assumes s: "sorted_recs p" and no: "k \<notin> fst ` set (recs p)"
    and q: "recs q = take (leaf_pos p k) (recs p) @ (k, v) # drop (leaf_pos p k) (recs p)"
  shows "sorted_recs q"
proof -
  let ?i = "leaf_pos p k"
  let ?ks = "map fst (recs p)"
  have "sorted_wrt (<) (take ?i ?ks @ drop ?i ?ks)" using s by (simp add: sorted_recs_def)
  then have a: "sorted_wrt (<) (take ?i ?ks)" "sorted_wrt (<) (drop ?i ?ks)"
    "\<forall>x\<in>set (take ?i ?ks). \<forall>y\<in>set (drop ?i ?ks). x < y"
    unfolding sorted_wrt_append by blast+
  have b: "\<forall>x\<in>set (take ?i ?ks). x < k" using leaf_pos_below [of _ p k] by (auto simp: take_map)
  have c: "\<forall>y\<in>set (drop ?i ?ks). k < y"
  proof
    fix y assume "y \<in> set (drop ?i ?ks)"
    then obtain r where r: "r \<in> set (drop ?i (recs p))" "y = fst r" by (auto simp: drop_map)
    then have "k \<le> y" using leaf_pos_above [OF s] by blast
    moreover have "y \<noteq> k" using r no by (auto dest: in_set_dropD)
    ultimately show "k < y" by simp
  qed
  have "map fst (recs q) = take ?i ?ks @ k # drop ?i ?ks" using q by (simp add: take_map drop_map)
  then show ?thesis using a b c by (auto simp: sorted_recs_def sorted_wrt_append)
qed

lemma insert_in_node_miss:
  assumes w: "wf_page 12 p" and s: "sorted_recs p" and v: "v \<noteq> 0" and no: "k \<notin> fst ` set (recs p)"
  shows "\<exists>q. insert_in_node k v p = Inr (record_num p + 1, v, q) \<and> wf_page 13 q \<and> sorted_recs q
    \<and> set (recs q) = insert (k, uint v) (set (recs p)) \<and> record_num q = record_num p + 1
    \<and> q = p\<lparr>records := records q, record_num := record_num q\<rparr>"
proof -
  let ?i = "leaf_pos p k"
  have i: "?i \<le> record_num p" "record_num p < 13" using leaf_pos_le [OF w] w by (auto simp: wf_page_def)
  have "\<not> (fst (records p ! ?i) = k \<and> snd (records p ! ?i) \<noteq> 0)"
  proof (cases "?i < record_num p")
    case True
    then have "records p ! ?i \<in> set (recs p)" using w by (simp add: wf_page_nth wf_page_length)
    then show ?thesis using no by (metis image_eqI)
  next
    case False
    then have "records p ! ?i \<in> set (drop (record_num p) (records p))"
      using i w by (auto simp: wf_page_def in_set_conv_nth intro!: exI [of _ 0])
    then show ?thesis using w by (auto simp: wf_page_def)
  qed
  moreover obtain q where q: "insert_pair ?i k (uint v) p = Inr q" "wf_page 13 q"
    "recs q = take ?i (recs p) @ (k, uint v) # drop ?i (recs p)" "record_num q = record_num p + 1"
    "q = p\<lparr>records := records q, record_num := record_num q\<rparr>"
    using insert_pair_wf [OF w i(1) uint_nonzero [OF v], of k] by blast
  ultimately have "insert_in_node k v p = Inr (record_num p + 1, v, q)"
    using i by (auto simp: insert_in_node_def lower_bound_wf [OF w] insert_pair_def)
  moreover have "set (recs q) = insert (k, uint v) (set (recs p))"
    unfolding q(3) by (metis append_take_drop_id list.simps(15) set_append Un_insert_right)
  ultimately show ?thesis using q sorted_recs_insert [OF s no q(3)] by blast
qed

lemma insert_in_node_hit:
  assumes w: "wf_page 12 p" and s: "sorted_recs p" and v: "v \<noteq> 0" and hit: "(k, x) \<in> set (recs p)"
  shows "\<exists>q. insert_in_node k v p = Inr (record_num p, INT64_MAX, q) \<and> wf_page 12 q \<and> sorted_recs q
    \<and> set (recs q) = insert (k, uint v) {r \<in> set (recs p). fst r \<noteq> k} \<and> record_num q = record_num p
    \<and> map fst (recs q) = map fst (recs p) \<and> q = p\<lparr>records := records q\<rparr>"
proof -
  let ?i = "leaf_pos p k"
  let ?q = "p\<lparr>records := (records p)[?i := (k, uint v)]\<rparr>"
  from leaf_pos_hit [OF s hit] have i: "?i < record_num p" "recs p ! ?i = (k, x)"
    using w by (auto simp: wf_page_length)
  then have x: "records p ! ?i = (k, x)" "x \<noteq> 0"
    using w hit by (auto simp: wf_page_nth [OF w]) (auto simp: wf_page_def)
  have r: "recs ?q = (recs p)[?i := (k, uint v)]"
    using i by (simp add: recs_def take_update_swap)
  have f: "map fst (recs ?q) = map fst (recs p)"
    using i by (simp add: r map_update) (metis fst_conv list_update_id map_update)
  have d: "distinct (recs p)" using s unfolding sorted_recs_def
    by (metis distinct_map strict_sorted_iff)
  have "set (recs ?q) = insert (k, uint v) (set (recs p) - {(k, x)})"
    unfolding r using set_update_distinct [OF d, of ?i] i w by (simp add: wf_page_length)
  moreover have "set (recs p) - {(k, x)} = {r \<in> set (recs p). fst r \<noteq> k}"
    using sorted_recs_unique [OF s] hit by auto
  moreover have "wf_page 12 ?q"
  proof -
    have "\<forall>r\<in>set (recs ?q). snd r \<noteq> 0" using w uint_nonzero [OF v] unfolding r
      by (auto simp: wf_page_def dest!: set_update_subset_insert [THEN subsetD])
    then show ?thesis using w i by (simp add: wf_page_def drop_update_cancel)
  qed
  moreover have "insert_in_node k v p = Inr (record_num p, INT64_MAX, ?q)"
    using i x w by (auto simp: insert_in_node_def lower_bound_wf [OF w] wf_page_def)
  ultimately show ?thesis using s f by (intro exI [of _ ?q]) (auto simp: sorted_recs_def)
qed

lemma split_left_wf:
  assumes "wf_page 13 p"
  shows "wf_page 12 (split_left p) \<and> recs (split_left p) = take (record_num p - record_num p div 2) (recs p)"
proof -
  let ?n = "record_num p"
  have n: "?n \<le> 13" "length (records p) = 13" "length (recs p) = ?n"
    using assms by (auto simp: wf_page_def recs_def)
  have r: "records (split_left p) = take (?n - ?n div 2) (recs p) @
     (map (\<lambda>r. (fst r, 0)) (take (?n div 2) (drop (?n - ?n div 2) (records p))) @ drop ?n (records p))"
    by (simp add: split_left_def Let_def recs_def min_def)
  have "\<forall>r\<in>set (take (?n - ?n div 2) (recs p)). snd r \<noteq> 0"
    using assms by (auto simp: wf_page_def dest: in_set_takeD)
  moreover have "\<forall>r\<in>set (drop ?n (records p)). snd r = 0" using assms by (simp add: wf_page_def)
  ultimately show ?thesis
    by (intro wf_page_rebuild [OF r]) (use n in \<open>auto simp: split_left_def Let_def\<close>)
qed

lemma split_right_wf:
  assumes "wf_page 13 p" "records q = replicate cardinality (FREE_FLAG, 0)"
  shows "wf_page 12 (split_right p q) \<and> recs (split_right p q) = drop (record_num p - record_num p div 2) (recs p)"
proof -
  let ?n = "record_num p"
  have n: "?n \<le> 13" "length (records p) = 13" "length (recs p) = ?n"
    using assms by (auto simp: wf_page_def recs_def)
  have "take (?n div 2) (drop (?n - ?n div 2) (records p)) = drop (?n - ?n div 2) (recs p)"
    by (simp add: recs_def drop_take)
  then have r: "records (split_right p q) = drop (?n - ?n div 2) (recs p) @ drop (?n div 2) (records q)"
    by (simp add: split_right_def Let_def)
  have "\<forall>r\<in>set (drop (?n - ?n div 2) (recs p)). snd r \<noteq> 0"
    using assms by (auto simp: wf_page_def dest: in_set_dropD)
  then show ?thesis
    by (intro wf_page_rebuild [OF r]) (use n assms(2) in \<open>auto simp: split_right_def Let_def\<close>)
qed

lemma page_remove_hit:
  assumes w: "wf_page 12 p" and s: "sorted_recs p" and hit: "(k, x) \<in> set (recs p)"
  shows "\<exists>q. page_remove k p = Inr (record_num p - 1, q) \<and> wf_page 12 q \<and> sorted_recs q
    \<and> set (recs q) = {r \<in> set (recs p). fst r \<noteq> k} \<and> record_num q = record_num p - 1
    \<and> 0 < record_num p \<and> q = p\<lparr>records := records q, record_num := record_num q\<rparr>"
proof -
  let ?i = "leaf_pos p k" and ?n = "record_num p"
  from leaf_pos_hit [OF s hit] have i: "?i < ?n" "recs p ! ?i = (k, x)" "?i < length (recs p)"
    using w by (auto simp: wf_page_length)
  then have x: "records p ! ?i = (k, x)" "x \<noteq> 0"
    using w hit by (auto simp: wf_page_nth [OF w]) (auto simp: wf_page_def)
  let ?rs = "take ?i (recs p) @ drop (Suc ?i) (recs p)"
  let ?q = "p\<lparr>records := (shift_left (records p) ?i (?n - 1 - ?i))[?n - 1 := (FREE_FLAG, 0)], record_num := ?n - 1\<rparr>"
  have r: "records ?q = ?rs @ (FREE_FLAG, 0) # drop ?n (records p)"
    using erase_shift [of ?n "records p" ?i "(FREE_FLAG, 0)"] i w by (simp add: recs_def wf_page_def)
  have n: "length (records p) = cardinality" "?n \<le> 12" "length (recs p) = ?n"
    using w by (auto simp: wf_page_def recs_def)
  have ne: "\<forall>r\<in>set ?rs. snd r \<noteq> 0" using w by (auto simp: wf_page_def dest: in_set_takeD in_set_dropD)
  have z: "\<forall>r\<in>set ((FREE_FLAG, 0) # drop ?n (records p)). snd r = (0::int)" using w by (simp add: wf_page_def)
  have q: "wf_page 12 ?q \<and> recs ?q = ?rs"
    by (intro wf_page_rebuild [OF r _ _ ne z]) (use i n in simp_all)
  have split: "recs p = take ?i (recs p) @ (k, x) # drop (Suc ?i) (recs p)"
    using i by (metis id_take_nth_drop)
  have ks: "sorted_wrt (<) (map fst (take ?i (recs p)) @ k # map fst (drop (Suc ?i) (recs p)))"
    using s split unfolding sorted_recs_def by (metis fst_conv list.simps(9) map_append)
  have so: "sorted_recs ?q" using ks q by (simp add: sorted_recs_def sorted_wrt_append)
  have "k \<notin> fst ` set ?rs" using ks by (auto simp: sorted_wrt_append)
  moreover have "set (recs p) = insert (k, x) (set ?rs)" by (subst split) auto
  ultimately have "set (recs ?q) = {r \<in> set (recs p). fst r \<noteq> k}" using q by force
  moreover have "page_remove k p = Inr (?n - 1, ?q)"
    using i x by (simp add: page_remove_def lower_bound_wf [OF w] erase_pair_def)
  ultimately show ?thesis using q so i by (intro exI [of _ ?q]) auto
qed

end
