(* ===== verification/BPlus_Inv.thy ===== *)
theory BPlus_Inv
  imports BPlus_Page
begin

text \<open>
  The structural invariant of the overflow tree.  Every page is given the set \<^verbatim>\<open>D\<close> of keys routed
  to it and a height \<^verbatim>\<open>dep\<close>; all conditions are local to a page and its children, so an update is
  checked only where it writes.  \<^verbatim>\<open>V\<close> is the set of keys a page's parent believes it to hold.  It
  differs from \<^verbatim>\<open>D\<close> only between a split and the insertion of the new sibling into the parent,
  when the sibling (in \<^verbatim>\<open>X\<close>) has no parent yet.  \<^verbatim>\<open>F\<close> is the one page allowed to be full.
\<close>

section \<open>Routing\<close>

definition rank :: "double \<Rightarrow> double list \<Rightarrow> nat" where
  "rank k ks = length (takeWhile (\<lambda>x. \<not> k < x) ks)"

lemma route_rank: "route p k = rank k (map fst (tl (recs p)))"
  by (simp add: route_def rank_def takeWhile_map o_def)

lemma rank_sorted: "sorted ks \<Longrightarrow> rank k ks = length (filter (\<lambda>x. x \<le> k) ks)"
proof (induction ks)
  case (Cons x ks)
  show ?case
  proof (cases "k < x")
    case True
    then have "filter (\<lambda>x. x \<le> k) (x # ks) = []" using Cons.prems by (auto simp: filter_empty_conv)
    then show ?thesis using True by (simp add: rank_def)
  next
    case False
    then show ?thesis using Cons by (simp add: rank_def)
  qed
qed (simp add: rank_def)

lemma rank_mono: "sorted ks \<Longrightarrow> k \<le> l \<Longrightarrow> rank k ks \<le> rank l ks"
proof -
  assume "sorted ks" "k \<le> l"
  have "length (filter (\<lambda>x. x \<le> k) ks) \<le> length (filter (\<lambda>x. x \<le> l) ks)"
    using \<open>k \<le> l\<close> by (induction ks) auto
  then show ?thesis by (simp add: rank_sorted \<open>sorted ks\<close>)
qed

lemma rank_take: "x \<in> set (take (rank k ks) ks) \<Longrightarrow> x \<le> k"
  by (auto simp: rank_def takeWhile_eq_take [symmetric] dest: set_takeWhileD)

lemma rank_drop: "sorted ks \<Longrightarrow> x \<in> set (drop (rank k ks) ks) \<Longrightarrow> k < x"
proof -
  assume s: "sorted ks" and x: "x \<in> set (drop (rank k ks) ks)"
  have d: "drop (rank k ks) ks = dropWhile (\<lambda>x. \<not> k < x) ks"
    by (simp add: rank_def dropWhile_eq_drop)
  from x d obtain y ys where y: "dropWhile (\<lambda>x. \<not> k < x) ks = y # ys" by (metis list.set_cases)
  then have "k < y" by (metis dropWhile_eq_Cons_conv)
  moreover have "sorted (y # ys)" using s d y by (metis sorted_wrt_drop)
  ultimately show ?thesis using x d y by auto
qed

lemma strict_sorted_insert_rank:
  assumes "sorted_wrt (<) ks" "rank l ks = rank k ks" "l < k"
  shows "sorted_wrt (<) (take (rank k ks) ks @ k # drop (rank k ks) ks)"
proof -
  have s: "sorted ks" using assms(1) by (rule strict_sorted_imp_sorted)
  have lo: "x < k" if "x \<in> set (take (rank k ks) ks)" for x
    using rank_take [of x l ks] that assms(2,3) by (metis le_less_trans)
  have hi: "k < x" if "x \<in> set (drop (rank k ks) ks)" for x using rank_drop [OF s that] .
  show ?thesis using assms(1) lo hi by (auto simp: sorted_wrt_append sorted_wrt_take sorted_wrt_drop) (meson lo hi less_trans)
qed

lemma sorted_insert_rank:
  "sorted ks \<Longrightarrow> sorted (take (rank k ks) ks @ k # drop (rank k ks) ks)"
  using rank_take [of _ k ks] rank_drop [of ks _ k]
  by (auto simp: sorted_append sorted_wrt_take sorted_wrt_drop intro: less_imp_le)
    (meson less_imp_le order_trans)

lemma rank_insert:
  assumes "sorted ks"
  shows "rank l (take (rank k ks) ks @ k # drop (rank k ks) ks) = rank l ks + (if k \<le> l then 1 else 0)"
proof -
  let ?P = "\<lambda>x. x \<le> l"
  have "length (filter ?P ks) = length (filter ?P (take (rank k ks) ks)) + length (filter ?P (drop (rank k ks) ks))"
    by (metis append_take_drop_id filter_append length_append)
  then show ?thesis
    unfolding rank_sorted [OF sorted_insert_rank [OF assms]] rank_sorted [OF assms, of l]
    by simp
qed

lemma rank_split_low:
  assumes "sorted ks" "m < length ks" "k < ks ! m"
  shows "rank k (take m ks) = rank k ks \<and> rank k ks \<le> m"
proof -
  have "\<forall>x\<in>set (drop m ks). k < x"
  proof
    fix x assume "x \<in> set (drop m ks)"
    then obtain j where "j < length ks - m" "x = ks ! (m + j)"
      by (auto simp: in_set_conv_nth)
    then have "x = ks ! (m + j)" "m + j < length ks" by auto
    then show "k < x" using assms by (metis le_add1 less_le_trans sorted_nth_mono)
  qed
  then have "filter (\<lambda>x. x \<le> k) (drop m ks) = []" by (auto simp: filter_empty_conv)
  then have "filter (\<lambda>x. x \<le> k) ks = filter (\<lambda>x. x \<le> k) (take m ks)"
    by (metis append_Nil2 append_take_drop_id filter_append)
  then show ?thesis using assms(1)
    by (simp add: rank_sorted sorted_wrt_take)
      (metis length_filter_le length_take min.bounded_iff)
qed

lemma rank_split_high:
  assumes "sorted ks" "m < length ks" "ks ! m \<le> k"
  shows "rank k ks = Suc m + rank k (drop (Suc m) ks)"
proof -
  have "\<forall>x\<in>set (take (Suc m) ks). x \<le> k"
  proof
    fix x assume "x \<in> set (take (Suc m) ks)"
    then obtain j where "x = ks ! j" "j \<le> m" using assms(2) by (auto simp: in_set_conv_nth)
    then show "x \<le> k" using assms by (metis order_trans sorted_nth_mono)
  qed
  then have "filter (\<lambda>x. x \<le> k) (take (Suc m) ks) = take (Suc m) ks" by (auto simp: filter_id_conv)
  then have "filter (\<lambda>x. x \<le> k) ks = take (Suc m) ks @ filter (\<lambda>x. x \<le> k) (drop (Suc m) ks)"
    by (metis append_take_drop_id filter_append)
  then show ?thesis using assms(1,2) by (simp add: rank_sorted sorted_wrt_drop)
qed

section \<open>The invariant\<close>

definition vals :: "page \<Rightarrow> addr list" where
  "vals p = map snd (recs p)"

definition child_ok ::
    "heap \<Rightarrow> (addr \<Rightarrow> double set) \<Rightarrow> (addr \<Rightarrow> double set) \<Rightarrow> (addr \<Rightarrow> nat) \<Rightarrow> addr \<Rightarrow> page \<Rightarrow> nat \<Rightarrow> bool" where
  "child_ok h V D dep a p i \<longleftrightarrow> (\<exists>c. h (vals p ! i) = Some c \<and> parent c = a
     \<and> V (vals p ! i) = {k \<in> D a. route p k = i} \<and> dep (vals p ! i) < dep a)"

definition inner_ok ::
    "heap \<Rightarrow> (addr \<Rightarrow> double set) \<Rightarrow> (addr \<Rightarrow> double set) \<Rightarrow> (addr \<Rightarrow> nat) \<Rightarrow> addr \<Rightarrow> page \<Rightarrow> bool" where
  "inner_ok h V D dep a p \<longleftrightarrow> recs p \<noteq> [] \<and> sorted_wrt (<) (map fst (tl (recs p)))
     \<and> fst ` set (tl (recs p)) \<subseteq> D a \<and> distinct (vals p) \<and> (\<forall>i<length (recs p). child_ok h V D dep a p i)"

definition leaf_ok :: "(addr \<Rightarrow> double set) \<Rightarrow> addr \<Rightarrow> page \<Rightarrow> bool" where
  "leaf_ok D a p \<longleftrightarrow> sorted_recs p \<and> fst ` set (recs p) \<subseteq> D a
     \<and> (\<forall>r\<in>set (recs p). 0 \<le> snd r \<and> snd r < 2 ^ 64)"

definition page_ok ::
    "addr \<Rightarrow> heap \<Rightarrow> (addr \<Rightarrow> double set) \<Rightarrow> (addr \<Rightarrow> double set) \<Rightarrow> (addr \<Rightarrow> nat) \<Rightarrow> addr \<Rightarrow> page \<Rightarrow> bool" where
  "page_ok F h V D dep a p \<longleftrightarrow> 0 < a \<and> D a \<noteq> {} \<and> wf_page (if a = F then 13 else 12) p
     \<and> (if is_leaf p then leaf_ok D a p else inner_ok h V D dep a p)"

definition attached :: "heap \<Rightarrow> addr \<Rightarrow> page \<Rightarrow> bool" where
  "attached h a p \<longleftrightarrow> (\<exists>f. h (parent p) = Some f \<and> \<not> is_leaf f \<and> a \<in> set (vals f))"

definition tree_inv ::
    "addr \<Rightarrow> addr set \<Rightarrow> (addr \<Rightarrow> double set) \<Rightarrow> (addr \<Rightarrow> double set) \<Rightarrow> (addr \<Rightarrow> nat) \<Rightarrow> btree_plus \<Rightarrow> bool" where
  "tree_inv F X V D dep t \<longleftrightarrow>
     (\<exists>r. heap_of t (root t) = Some r \<and> parent r = 0) \<and> root t \<notin> X \<and> V (root t) = UNIV \<and> 0 < brk t
     \<and> (\<forall>a p. heap_of t a = Some p \<longrightarrow> a < brk t \<and> page_ok F (heap_of t) V D dep a p \<and> dep a \<le> dep (root t))
     \<and> (\<forall>a p. heap_of t a = Some p \<longrightarrow> a \<notin> X \<longrightarrow> a \<noteq> root t \<longrightarrow> attached (heap_of t) a p)"

text \<open>What readers of the data see: the leaves with their successor and records.\<close>

definition leafview :: "heap \<Rightarrow> addr \<Rightarrow> (addr \<times> Record list) option" where
  "leafview h a = (case h a of None \<Rightarrow> None
     | Some p \<Rightarrow> if is_leaf p then Some (next_leaf p, recs p) else None)"

definition content :: "heap \<Rightarrow> Record set" where
  "content h = {r. \<exists>a n rs. leafview h a = Some (n, rs) \<and> r \<in> set rs}"

lemma tree_inv_page:
  assumes "tree_inv F X V D dep t" "heap_of t a = Some p"
  shows "a < brk t" "0 < a" "wf_page (if a = F then 13 else 12) p" "dep a \<le> dep (root t)"
    "is_leaf p \<Longrightarrow> leaf_ok D a p" "\<not> is_leaf p \<Longrightarrow> inner_ok (heap_of t) V D dep a p"
    "D a \<noteq> {}"
  using assms by (auto simp: tree_inv_def page_ok_def split: if_splits)

lemma length_vals [simp]: "length (vals p) = length (recs p)"
  by (simp add: vals_def)

lemma inner_child:
  assumes "inner_ok h V D dep a p" "c \<in> set (vals p)"
  obtains i q where "i < length (recs p)" "c = vals p ! i" "h c = Some q" "parent q = a"
    "V c = {k \<in> D a. route p k = i}" "dep c < dep a"
  using assms unfolding inner_ok_def child_ok_def by (metis in_set_conv_nth length_vals)

lemma tree_inv_parent:
  assumes "tree_inv F X V D dep t" "heap_of t a = Some p" "a \<noteq> root t" "a \<notin> X"
  obtains f i where "heap_of t (parent p) = Some f" "\<not> is_leaf f" "i < length (recs f)"
    "vals f ! i = a" "V a = {k \<in> D (parent p). route f k = i}" "dep a < dep (parent p)"
proof -
  from assms obtain f where f: "heap_of t (parent p) = Some f" "\<not> is_leaf f" "a \<in> set (vals f)"
    unfolding tree_inv_def attached_def by blast
  show ?thesis
    by (rule inner_child [OF tree_inv_page(6) [OF assms(1) f(1,2)] f(3)]) (use f that in metis)
qed

section \<open>Lookup\<close>

text \<open>Every page that a key is routed to leads to the same leaf.\<close>

lemma find_leaf_same:
  assumes "tree_inv F {} D D dep t" "heap_of t a = Some p" "k \<in> D a"
  shows "find_leaf_page k t = find_leaf_loop (heap_of t) k a"
  using assms(2,3)
proof (induction "dep (root t) - dep a" arbitrary: a p rule: less_induct)
  case less
  show ?case
  proof (cases "a = root t")
    case True
    then show ?thesis by (simp add: find_leaf_page_def)
  next
    case False
    from tree_inv_parent [OF assms(1) less.prems(1) False] obtain f i where
      f: "heap_of t (parent p) = Some f" "\<not> is_leaf f" "i < length (recs f)" "vals f ! i = a"
        "D a = {k \<in> D (parent p). route f k = i}" "dep a < dep (parent p)" by auto
    have r: "k \<in> D (parent p)" "route f k = i" using f(5) less.prems(2) by auto
    have le: "dep (parent p) \<le> dep (root t)" using tree_inv_page(4) [OF assms(1) f(1)] .
    have "find_leaf_page k t = find_leaf_loop (heap_of t) k (parent p)"
      by (rule less.hyps [OF _ f(1) r(1)]) (use f(6) le in linarith)
    also have "\<dots> = find_leaf_loop (heap_of t) k a"
    proof -
      have "recs f \<noteq> []" using f(3) by auto
      then have "inner_lookup f k = Inr a"
        using inner_lookup_wf [OF tree_inv_page(3) [OF assms(1) f(1)]] f(3,4) r(2)
        by (simp add: vals_def)
      then show ?thesis using f(1,2) by (subst find_leaf_loop.simps) simp
    qed
    finally show ?thesis .
  qed
qed

lemma find_leaf_reaches:
  assumes "tree_inv F {} D D dep t" "heap_of t a = Some p" "k \<in> D a"
  shows "\<exists>l q. find_leaf_loop (heap_of t) k a = Some (Inr l) \<and> heap_of t l = Some q \<and> is_leaf q \<and> k \<in> D l"
  using assms(2,3)
proof (induction "dep a" arbitrary: a p rule: less_induct)
  case less
  show ?case
  proof (cases "is_leaf p")
    case True
    then show ?thesis using less.prems by (subst find_leaf_loop.simps) simp
  next
    case False
    let ?i = "route p k"
    have io: "inner_ok (heap_of t) D D dep a p" using tree_inv_page(6) [OF assms(1) less.prems(1) False] .
    then have ne: "recs p \<noteq> []" by (simp add: inner_ok_def)
    have w: "wf_page (if a = F then 13 else 12) p" using tree_inv_page(3) [OF assms(1) less.prems(1)] .
    have i: "?i < length (recs p)" using route_less [OF w ne] by (simp add: wf_page_length [OF w])
    with io obtain c where c: "heap_of t (vals p ! ?i) = Some c" "D (vals p ! ?i) = {l \<in> D a. route p l = ?i}"
      "dep (vals p ! ?i) < dep a" by (auto simp: inner_ok_def child_ok_def)
    have "inner_lookup p k = Inr (vals p ! ?i)"
      using inner_lookup_wf [OF w ne] i by (simp add: vals_def)
    then have "find_leaf_loop (heap_of t) k a = find_leaf_loop (heap_of t) k (vals p ! ?i)"
      using less.prems(1) False by (subst find_leaf_loop.simps) simp
    moreover have "k \<in> D (vals p ! ?i)" using c(2) less.prems(2) by simp
    ultimately show ?thesis using less.hyps [OF c(3) c(1)] by simp
  qed
qed

lemma find_leaf_page_ok:
  assumes "tree_inv F {} D D dep t"
  obtains l p where "find_leaf_page k t = Some (Inr l)" "heap_of t l = Some p" "is_leaf p" "k \<in> D l"
    "leaf_ok D l p" "wf_page (if l = F then 13 else 12) p"
proof -
  from assms obtain r where "heap_of t (root t) = Some r" "D (root t) = UNIV"
    by (auto simp: tree_inv_def)
  then obtain l p where "find_leaf_page k t = Some (Inr l)" "heap_of t l = Some p" "is_leaf p" "k \<in> D l"
    using find_leaf_reaches [OF assms, of "root t" r k] by (auto simp: find_leaf_page_def)
  then show ?thesis using that tree_inv_page(3,5) [OF assms] by blast
qed

lemma find_leaf_unique:
  assumes "tree_inv F {} D D dep t" "heap_of t a = Some p" "is_leaf p" "k \<in> D a"
  shows "find_leaf_page k t = Some (Inr a)"
  using find_leaf_same [OF assms(1,2,4)] assms(2,3) by (simp add: find_leaf_loop.simps)

lemma content_at_leaf:
  assumes inv: "tree_inv F {} D D dep t" and l: "find_leaf_page k t = Some (Inr l)"
    and p: "heap_of t l = Some p" "is_leaf p"
  shows "(k, v) \<in> content (heap_of t) \<longleftrightarrow> (k, v) \<in> set (recs p)"
proof
  assume "(k, v) \<in> content (heap_of t)"
  then obtain a q where q: "heap_of t a = Some q" "is_leaf q" "(k, v) \<in> set (recs q)"
    by (auto simp: content_def leafview_def split: option.splits if_splits)
  then have "k \<in> D a" using tree_inv_page(5) [OF inv q(1,2)] by (force simp: leaf_ok_def)
  from find_leaf_unique [OF inv q(1,2) this] l have "a = l" by simp
  then show "(k, v) \<in> set (recs p)" using q p by simp
next
  assume "(k, v) \<in> set (recs p)"
  moreover have "leafview (heap_of t) l = Some (next_leaf p, recs p)" using p by (simp add: leafview_def)
  ultimately show "(k, v) \<in> content (heap_of t)" unfolding content_def by blast
qed

lemma find_content:
  assumes inv: "tree_inv F {} D D dep t"
  shows "\<exists>r. find k t = Some (Inr r) \<and> (\<forall>v. r = Some v \<longleftrightarrow> (k, uint v) \<in> content (heap_of t))"
proof -
  obtain l p where l: "find_leaf_page k t = Some (Inr l)" "heap_of t l = Some p" "is_leaf p"
    and ok: "leaf_ok D l p" and w: "wf_page (if l = F then 13 else 12) p"
    using find_leaf_page_ok [OF inv, of k] by metis
  from ok have s: "sorted_recs p" by (simp add: leaf_ok_def)
  from leaf_lookup_wf [OF w s, of k] obtain r where r: "leaf_lookup p k = Inr r"
    "\<And>v. r = Some v \<longleftrightarrow> (\<exists>x. (k, x) \<in> set (recs p) \<and> v = of_int x)" by blast
  have "(\<exists>x. (k, x) \<in> set (recs p) \<and> v = of_int x) \<longleftrightarrow> (k, uint v) \<in> set (recs p)" for v :: u64
  proof
    assume "\<exists>x. (k, x) \<in> set (recs p) \<and> v = of_int x"
    then obtain x where x: "(k, x) \<in> set (recs p)" "v = of_int x" by blast
    then have "0 \<le> x \<and> x < 2 ^ 64" using ok by (force simp: leaf_ok_def)
    then have "uint v = x" using x(2) by (simp add: uint_word_of_int_eq take_bit_int_eq_self)
    then show "(k, uint v) \<in> set (recs p)" using x(1) by simp
  qed auto
  then show ?thesis using r l content_at_leaf [OF inv l]
    by (auto simp: find_def get_page_def)
qed

end
