(* ===== verification/BPlus_Insert.thy ===== *)
theory BPlus_Insert
  imports BPlus_Inv
begin

text \<open>
  Insertion into the overflow tree keeps the invariant: splitting a page, hooking the sibling into
  the parent, growing a new root, and the climb of \<^verbatim>\<open>insert_into_parent\<close>, which always ends.
\<close>

section \<open>Frames\<close>

lemma recs_fields [simp]:
  "recs (p\<lparr>parent := x\<rparr>) = recs p" "recs (p\<lparr>next_leaf := x\<rparr>) = recs p" "recs (p\<lparr>prev_leaf := x\<rparr>) = recs p"
  "recs (p\<lparr>is_leaf := b\<rparr>) = recs p" "recs (p\<lparr>is_deleted := b\<rparr>) = recs p"
  by (simp_all add: recs_def)

lemma wf_page_fields [simp]:
  "wf_page m (p\<lparr>parent := x\<rparr>) = wf_page m p" "wf_page m (p\<lparr>next_leaf := x\<rparr>) = wf_page m p"
  "wf_page m (p\<lparr>prev_leaf := x\<rparr>) = wf_page m p" "wf_page m (p\<lparr>is_deleted := b\<rparr>) = wf_page m p"
  by (simp_all add: wf_page_def)

text \<open>Two versions of a page that differ in their links only.\<close>

definition kin :: "page \<Rightarrow> page \<Rightarrow> bool" where
  "kin p p' \<longleftrightarrow> records p' = records p \<and> record_num p' = record_num p \<and> is_leaf p' = is_leaf p"

lemma kin_refl [simp]: "kin p p"
  and kin_parent [simp]: "kin p (p\<lparr>parent := x\<rparr>)"
  and kin_next [simp]: "kin p (p\<lparr>next_leaf := x\<rparr>)"
  and kin_prev [simp]: "kin p (p\<lparr>prev_leaf := x\<rparr>)"
  by (simp_all add: kin_def)

lemma kin_views:
  assumes "kin p p'"
  shows "recs p' = recs p" "vals p' = vals p" "route p' = route p" "wf_page m p' = wf_page m p"
    "is_leaf p' = is_leaf p"
  using assms by (auto simp: kin_def recs_def vals_def route_def wf_page_def)

lemma page_ok_frame:
  assumes ok: "page_ok F h V D dep a p" and D: "D' a = D a" and F: "a = F \<Longrightarrow> a = F'"
    and ch: "\<And>c q. \<not> is_leaf p \<Longrightarrow> c \<in> set (vals p) \<Longrightarrow> h c = Some q \<Longrightarrow> parent q = a \<Longrightarrow> dep c < dep a \<Longrightarrow>
      \<exists>q'. h' c = Some q' \<and> parent q' = a \<and> V' c = V c \<and> dep' c < dep' a"
    and r: "kin p p'"
  shows "page_ok F' h' V' D' dep' a p'"
proof -
  note r = kin_views [OF r]
  have w: "wf_page (if a = F' then 13 else 12) p'"
    using ok F r by (auto simp: page_ok_def split: if_splits intro: wf_page_mono)
  show ?thesis
  proof (cases "is_leaf p")
    case True
    then show ?thesis using ok w r D by (simp add: page_ok_def leaf_ok_def sorted_recs_def)
  next
    case False
    then have io: "inner_ok h V D dep a p" using ok by (simp add: page_ok_def)
    have "child_ok h' V' D' dep' a p' i" if "i < length (recs p)" for i
    proof -
      from io that obtain c where c: "h (vals p ! i) = Some c" "parent c = a"
        "V (vals p ! i) = {k \<in> D a. route p k = i}" "dep (vals p ! i) < dep a"
        by (auto simp: inner_ok_def child_ok_def)
      have "vals p ! i \<in> set (vals p)" using that by simp
      from ch [OF False this c(1,2,4)] show ?thesis using c(3) D
        by (auto simp: child_ok_def r)
    qed
    then show ?thesis using io ok w r False D by (simp add: page_ok_def inner_ok_def)
  qed
qed

text \<open>
  An update that rebuilds the pages in \<^verbatim>\<open>S\<close> and changes the links of the others is checked on \<^verbatim>\<open>S\<close>,
  on the children it moves and on the pages it attaches.
\<close>

lemma tree_inv_transfer:
  assumes inv: "tree_inv F X V D dep t"
    and root: "\<exists>r. heap_of t' (root t') = Some r \<and> parent r = 0" "root t' \<notin> X'" "V' (root t') = UNIV"
      "brk t \<le> brk t'"
    and old: "\<And>a y'. heap_of t' a = Some y' \<Longrightarrow> a \<notin> S \<Longrightarrow>
      \<exists>y. heap_of t a = Some y \<and> kin y y' \<and> D' a = D a \<and> dep' a = dep a \<and> (a = F \<longrightarrow> a = F')"
    and new: "\<And>a y'. heap_of t' a = Some y' \<Longrightarrow> a \<in> S \<Longrightarrow>
      a < brk t' \<and> page_ok F' (heap_of t') V' D' dep' a y'"
    and kids: "\<And>a y c x. a \<notin> S \<Longrightarrow> 0 < a \<Longrightarrow> heap_of t a = Some y \<Longrightarrow> c \<in> set (vals y) \<Longrightarrow> heap_of t c = Some x \<Longrightarrow>
      parent x = a \<Longrightarrow> \<exists>x'. heap_of t' c = Some x' \<and> parent x' = a \<and> V' c = V c \<and> dep' c = dep c"
    and dep: "\<And>a y. heap_of t' a = Some y \<Longrightarrow> dep' a \<le> dep' (root t')"
    and att: "\<And>a y. heap_of t' a = Some y \<Longrightarrow> a \<notin> X' \<Longrightarrow> a \<noteq> root t' \<Longrightarrow> attached (heap_of t') a y"
  shows "tree_inv F' X' V' D' dep' t'"
proof -
  have "a < brk t' \<and> page_ok F' (heap_of t') V' D' dep' a y'" if y': "heap_of t' a = Some y'" "a \<notin> S" for a y'
  proof -
    from old [OF y'] obtain y where y: "heap_of t a = Some y" "kin y y'" "D' a = D a" "dep' a = dep a"
      "a = F \<Longrightarrow> a = F'" by blast
    have ok: "page_ok F (heap_of t) V D dep a y" "a < brk t" using inv y(1) by (auto simp: tree_inv_def)
    have "\<exists>q'. heap_of t' c = Some q' \<and> parent q' = a \<and> V' c = V c \<and> dep' c < dep' a"
      if "c \<in> set (vals y)" "heap_of t c = Some q" "parent q = a" "dep c < dep a" for c q
      using kids [OF y'(2) tree_inv_page(2) [OF inv y(1)] y(1) that(1-3)] that(4) y(4) by auto
    then have "page_ok F' (heap_of t') V' D' dep' a y'"
      using y(2,3,5) by (intro page_ok_frame [where F' = F' and D' = D', OF ok(1)]) auto
    then show ?thesis using ok(2) root(4) by simp
  qed
  moreover have "0 < brk t'" using inv root(4) by (simp add: tree_inv_def)
  ultimately show ?thesis unfolding tree_inv_def using root(1-3) new dep att by blast
qed

lemma attached_kin:
  assumes "heap_of t (parent y) = Some f" "\<not> is_leaf f" "a \<in> set (vals f)"
    "h' (parent y') = Some f'" "parent y' = parent y" "kin f f'"
  shows "attached h' a y'"
  using assms kin_views [OF assms(6)] by (auto simp: attached_def)

section \<open>Pending siblings\<close>

definition pend ::
    "addr \<Rightarrow> double \<Rightarrow> addr \<Rightarrow> (addr \<Rightarrow> double set) \<Rightarrow> (addr \<Rightarrow> double set) \<Rightarrow> (addr \<Rightarrow> nat) \<Rightarrow> btree_plus \<Rightarrow> bool" where
  "pend old key new V D dep t \<longleftrightarrow> tree_inv 0 {new} V D dep t \<and> old \<noteq> new \<and> key \<in> V old
     \<and> D old = {k \<in> V old. k < key} \<and> D new = {k \<in> V old. key \<le> k}
     \<and> (\<forall>a. a \<noteq> old \<longrightarrow> a \<noteq> new \<longrightarrow> V a = D a) \<and> dep new = dep old
     \<and> (\<exists>p. heap_of t old = Some p) \<and> (\<exists>q. heap_of t new = Some q \<and> parent q = 0)"

lemma tree_inv_child_parent:
  assumes "tree_inv F X V D dep t" "heap_of t a = Some p" "\<not> is_leaf p" "c \<in> set (vals p)" "heap_of t c = Some q"
  shows "parent q = a" "0 < a"
proof -
  show "parent q = a"
    by (rule inner_child [OF tree_inv_page(6) [OF assms(1-3)] assms(4)]) (use assms(5) in simp)
  show "0 < a" using tree_inv_page(2) [OF assms(1,2)] .
qed

lemma grow_root_ok:
  assumes pd: "pend old key new V D dep t" and rt: "old = root t"
  shows "\<exists>t' D' dep'. grow_root old key new t = Inr t' \<and> tree_inv 0 {} D' D' dep' t'
    \<and> leafview (heap_of t') = leafview (heap_of t) \<and> (\<forall>a. leafview (heap_of t) a \<noteq> None \<longrightarrow> D' a = D a)"
proof -
  let ?h = "heap_of t" and ?r = "brk t"
  from pd have inv: "tree_inv 0 {new} V D dep t" and ne: "old \<noteq> new" and dn: "dep new = dep old"
    and VD: "\<And>a. a \<noteq> old \<Longrightarrow> a \<noteq> new \<Longrightarrow> V a = D a" by (auto simp: pend_def)
  from pd obtain p q where p: "?h old = Some p" and q: "?h new = Some q" "parent q = 0" by (auto simp: pend_def)
  have p0: "parent p = 0" "V old = UNIV" using inv p rt by (auto simp: tree_inv_def)
  have fresh: "?h ?r = None" using tree_inv_page(1) [OF inv, of ?r] by (cases "?h ?r") auto
  have nr: "old \<noteq> ?r" "new \<noteq> ?r" using p q fresh by auto
  have pos: "0 < ?r" "0 < old" "0 < new" using inv tree_inv_page(2) [OF inv] p q by (auto simp: tree_inv_def)
  define pg where "pg = (new_page 0)\<lparr>records := (records (new_page 0))
      [0 := (fst (records p ! 0), old), 1 := (key, new)], record_num := 2\<rparr>"
  define h' where "h' = ?h(?r \<mapsto> pg, old \<mapsto> p\<lparr>parent := ?r\<rparr>, new \<mapsto> q\<lparr>parent := ?r\<rparr>)"
  define t' where "t' = set_new_root ?r (t\<lparr>heap_of := h', brk := ?r + 1\<rparr>)"
  define D' where "D' = D(?r := UNIV)"
  define dep' where "dep' = dep(?r := dep old + 1)"
  have tr: "heap_of t' = h'" "root t' = ?r" "brk t' = ?r + 1" by (simp_all add: t'_def set_new_root_def)
  have g: "grow_root old key new t = Inr t'"
    using p q nr ne by (simp add: grow_root_def get_page_def mod_page_def pg_def h'_def t'_def Let_def)
  have recs_pg: "recs pg = [(fst (records p ! 0), old), (key, new)]"
    by (simp add: pg_def recs_def new_page_def numeral_eq_Suc)
  have wf_pg: "wf_page 12 pg" unfolding wf_page_def recs_pg using pos
    by (simp add: pg_def new_page_def numeral_eq_Suc)
  have leaf_pg: "\<not> is_leaf pg" "parent pg = 0" by (simp_all add: pg_def new_page_def)
  have lv: "leafview h' = leafview ?h"
    using p q nr ne fresh leaf_pg by (auto simp: leafview_def h'_def fun_eq_iff)
  have h'_at: "h' ?r = Some pg" "h' old = Some (p\<lparr>parent := ?r\<rparr>)" "h' new = Some (q\<lparr>parent := ?r\<rparr>)"
    using nr ne by (auto simp: h'_def)
  have h'_kin: "\<exists>y. ?h a = Some y \<and> kin y y' \<and> (a = old \<or> a = new \<or> y' = y)" if "h' a = Some y'" "a \<noteq> ?r" for a y'
    using that p q by (auto simp: h'_def split: if_splits)
  have pg_ok: "page_ok 0 h' D' D' dep' ?r pg"
  proof -
    have "route pg k = (if k < key then 0 else 1)" for k by (simp add: route_def recs_pg)
    moreover have "D' old = {k. k < key}" "D' new = {k. key \<le> k}"
      using pd p0 nr by (auto simp: pend_def D'_def)
    ultimately have "child_ok h' D' D' dep' ?r pg i" if "i < 2" for i
      using that h'_at nr dn by (cases i) (auto simp: child_ok_def vals_def recs_pg dep'_def D'_def)
    then show ?thesis using pos wf_pg leaf_pg ne
      by (simp add: page_ok_def inner_ok_def recs_pg vals_def D'_def)
  qed
  have att: "attached h' a y'" if y': "h' a = Some y'" "a \<noteq> ?r" for a y'
  proof (cases "a = old \<or> a = new")
    case True
    then have "parent y' = ?r" "a \<in> set (vals pg)" using y' h'_at by (auto simp: vals_def recs_pg)
    then show ?thesis using h'_at leaf_pg by (auto simp: attached_def)
  next
    case False
    then have ya: "?h a = Some y'" using h'_kin [OF y'] by blast
    then obtain f where f: "?h (parent y') = Some f" "\<not> is_leaf f" "a \<in> set (vals f)"
      using inv False rt unfolding tree_inv_def attached_def by blast
    have "\<exists>f'. h' (parent y') = Some f' \<and> kin f f'" using f(1) fresh p q by (auto simp: h'_def)
    then show ?thesis using attached_kin [OF f] by blast
  qed
  have "tree_inv 0 {} D' D' dep' t'"
  proof (rule tree_inv_transfer [OF inv, where S = "{?r}"])
    fix a y c x assume "a \<notin> {?r}" "0 < a" "?h a = Some y" "c \<in> set (vals y)" "?h c = Some x" "parent x = a"
    then have "c \<noteq> old" "c \<noteq> new" "c \<noteq> ?r" using p p0 q fresh by auto
    then show "\<exists>x'. heap_of t' c = Some x' \<and> parent x' = a \<and> D' c = V c \<and> dep' c = dep c"
      using \<open>?h c = Some x\<close> \<open>parent x = a\<close> VD [of c] by (simp add: tr h'_def D'_def dep'_def)
  next
    fix a y assume y: "heap_of t' a = Some y"
    then show "dep' a \<le> dep' (root t')"
      using h'_kin [of a y] tree_inv_page(4) [OF inv, of a] rt by (cases "a = ?r") (auto simp: tr dep'_def)
  next
    fix a y' assume "heap_of t' a = Some y'" "a \<notin> {?r}"
    then show "\<exists>y. ?h a = Some y \<and> kin y y' \<and> D' a = D a \<and> dep' a = dep a \<and> (a = 0 \<longrightarrow> a = 0)"
      using h'_kin [of a y'] by (auto simp: tr D'_def dep'_def)
  qed (use h'_at leaf_pg pos pg_ok att in \<open>auto simp: tr D'_def dep'_def\<close>)
  moreover have "\<forall>a. leafview ?h a \<noteq> None \<longrightarrow> D' a = D a"
    using fresh by (auto simp: leafview_def D'_def)
  ultimately show ?thesis using g lv tr(1) by metis
qed

section \<open>Hooking a sibling into its parent\<close>

lemma index_from_distinct:
  "distinct (map snd rs) \<Longrightarrow> i < length rs \<Longrightarrow> index_from k (snd (rs ! i)) rs = Some (k + i)"
  by (induction rs arbitrary: i k) (auto simp: nth_Cons' split: nat.splits)

lemma find_child_rank_inner:
  assumes "inner_ok h V D dep a f" "i < length (recs f)"
  shows "find_child_rank f (vals f ! i) = Some i"
  using assms index_from_distinct [of "recs f" i 0]
  by (simp add: find_child_rank_def inner_ok_def vals_def recs_def)

lemma route_insert:
  assumes io: "inner_ok h V D dep a f" and i: "route f key = i" "route f k0 = i" "k0 < key"
    and f': "recs f' = take (Suc i) (recs f) @ (key, new) # drop (Suc i) (recs f)"
  shows "route f' k = route f k + (if key \<le> k then 1 else 0)"
    and "sorted_wrt (<) (map fst (tl (recs f')))" and "set (tl (recs f')) = insert (key, new) (set (tl (recs f)))"
    and "key \<le> k \<Longrightarrow> i \<le> route f k" and "k < key \<Longrightarrow> route f k \<le> i"
proof -
  let ?ks = "map fst (tl (recs f))"
  have ne: "recs f \<noteq> []" and ss: "sorted_wrt (<) ?ks" using io by (auto simp: inner_ok_def)
  then have s: "sorted ?ks" by (simp add: strict_sorted_imp_sorted)
  have i': "i = rank key ?ks" "rank k0 ?ks = rank key ?ks" using i by (simp_all add: route_rank)
  have tl: "tl (recs f') = take i (tl (recs f)) @ (key, new) # drop i (tl (recs f))"
    using ne f' by (cases "recs f") auto
  then have ks: "map fst (tl (recs f')) = take i ?ks @ key # drop i ?ks" by (simp add: take_map drop_map)
  show "route f' k = route f k + (if key \<le> k then 1 else 0)"
    unfolding route_rank ks i'(1) using rank_insert [OF s] by simp
  show "sorted_wrt (<) (map fst (tl (recs f')))"
    unfolding ks i'(1) by (rule strict_sorted_insert_rank [OF ss i'(2) i(3)])
  show "set (tl (recs f')) = insert (key, new) (set (tl (recs f)))"
    unfolding tl by (metis append_take_drop_id list.simps(15) set_append Un_insert_right)
  show "key \<le> k \<Longrightarrow> i \<le> route f k" "k < key \<Longrightarrow> route f k \<le> i"
    unfolding i'(1) route_rank by (auto intro: rank_mono [OF s])
qed

lemma route_insert_eq:
  assumes io: "inner_ok h V D dep a f" and i: "route f key = i" "route f k0 = i" "k0 < key"
    and f': "recs f' = take (Suc i) (recs f) @ (key, new) # drop (Suc i) (recs f)"
  shows "j < i \<Longrightarrow> route f' k = j \<longleftrightarrow> route f k = j"
    "j = i \<Longrightarrow> route f' k = j \<longleftrightarrow> route f k = i \<and> k < key"
    "j = Suc i \<Longrightarrow> route f' k = j \<longleftrightarrow> route f k = i \<and> key \<le> k"
    "Suc i < j \<Longrightarrow> route f' k = j \<longleftrightarrow> route f k = j - 1"
proof -
  consider "key \<le> k" "route f' k = Suc (route f k)" "i \<le> route f k"
    | "k < key" "route f' k = route f k" "route f k \<le> i"
    using route_insert(1) [OF io i f', of k] route_insert(4) [OF io i f', of k]
      route_insert(5) [OF io i f', of k] by (cases "key \<le> k") simp_all
  note c = this
  show "j < i \<Longrightarrow> route f' k = j \<longleftrightarrow> route f k = j" by (rule c) linarith+
  show "j = i \<Longrightarrow> route f' k = j \<longleftrightarrow> route f k = i \<and> k < key" by (rule c) (simp_all add: not_less)
  show "j = Suc i \<Longrightarrow> route f' k = j \<longleftrightarrow> route f k = i \<and> key \<le> k" by (rule c) (simp_all add: not_le)
  show "Suc i < j \<Longrightarrow> route f' k = j \<longleftrightarrow> route f k = j - 1" by (rule c) linarith+
qed

lemma nth_insert_at:
  "i < length xs \<Longrightarrow> j \<le> length xs \<Longrightarrow> (take (Suc i) xs @ x # drop (Suc i) xs) ! j
    = (if j \<le> i then xs ! j else if j = Suc i then x else xs ! (j - 1))"
  by (auto simp: nth_append nth_Cons' min_def intro!: arg_cong [where f = "nth xs"])

lemma distinct_insert_at: "distinct xs \<Longrightarrow> x \<notin> set xs \<Longrightarrow> distinct (take n xs @ x # drop n xs)"
  using set_take_disj_set_drop_if_distinct [of xs n n] by (auto dest: in_set_takeD in_set_dropD)

lemma insert_child_inner:
  assumes pd: "pend old key new V D dep t" and nr: "old \<noteq> root t" and p: "heap_of t old = Some p"
    and q: "heap_of t new = Some q" and f: "heap_of t (parent p) = Some f" "i < length (recs f)" "vals f ! i = old"
    and io: "inner_ok (heap_of t) V D dep (parent p) f"
    and recs: "recs f' = take (Suc i) (recs f) @ (key, new) # drop (Suc i) (recs f)"
    and h': "h' = (heap_of t)(new \<mapsto> q\<lparr>parent := parent p\<rparr>, parent p \<mapsto> f')"
  shows "inner_ok h' D D dep (parent p) f'"
proof -
  let ?fa = "parent p"
  from pd have ne: "old \<noteq> new" and key: "key \<in> V old" and dn: "dep new = dep old" and q0: "parent q = 0"
    and Ds: "D old = {k \<in> V old. k < key}" "D new = {k \<in> V old. key \<le> k}"
    and VD: "\<And>a. a \<noteq> old \<Longrightarrow> a \<noteq> new \<Longrightarrow> V a = D a" and inv: "tree_inv 0 {new} V D dep t"
    using q by (auto simp: pend_def)
  have fa0: "0 < ?fa" using tree_inv_page(2) [OF inv f(1)] .
  have Dne: "D old \<noteq> {}" using tree_inv_page(7) [OF inv p] .
  have kid: "\<exists>c. heap_of t (vals f ! j) = Some c \<and> parent c = ?fa \<and> V (vals f ! j) = {k \<in> D ?fa. route f k = j}
      \<and> dep (vals f ! j) < dep ?fa" if "j < length (recs f)" for j
    using io that by (auto simp: inner_ok_def child_ok_def)
  have dist: "distinct (vals f)" using io by (simp add: inner_ok_def)
  have newf: "new \<notin> set (vals f)"
    using kid q q0 fa0 by (force simp: in_set_conv_nth)
  have Vold: "V old = {k \<in> D ?fa. route f k = i}" "dep old < dep ?fa" using kid [OF f(2)] f(3) by auto
  have i: "route f key = i" "key \<in> D ?fa" using key Vold by auto
  obtain k0 where k0: "route f k0 = i" "k0 < key" using Dne Ds(1) Vold(1) by auto
  note ri = route_insert [OF io i(1) k0 recs]
  have vals': "vals f' = take (Suc i) (vals f) @ new # drop (Suc i) (vals f)"
    using recs by (simp add: vals_def take_map drop_map)
  have at: "vals f' ! j = (if j \<le> i then vals f ! j else if j = Suc i then new else vals f ! (j - 1))"
    if "j \<le> length (recs f)" for j
    unfolding vals' using f(2) that by (intro nth_insert_at) auto
  have old_at: "j = i" if "j < length (recs f)" "vals f ! j = old" for j
    using nth_eq_iff_index_eq [OF dist, of j i] f(2,3) that by simp
  have kid': "D (vals f ! j) = {k \<in> D ?fa. route f k = j}" if "j < length (recs f)" "j \<noteq> i" for j
  proof -
    have "vals f ! j \<noteq> old" "vals f ! j \<noteq> new" using old_at that newf nth_mem [of j "vals f"] by auto
    then show ?thesis using kid [OF that(1)] VD by metis
  qed
  have pres: "\<exists>c. h' (vals f ! j) = Some c \<and> parent c = ?fa \<and> dep (vals f ! j) < dep ?fa" if "j < length (recs f)" for j
    using kid [OF that] newf that nth_mem [of j "vals f"] by (auto simp: h')
  have "child_ok h' D D dep ?fa f' j" if j: "j < length (recs f')" for j
  proof -
    from j have jl: "j \<le> length (recs f)" using f(2) by (simp add: recs)
    note rt = route_insert_eq [OF io i(1) k0 recs, of j]
    consider "j < i" | "j = i" | "j = Suc i" | "Suc i < j" by linarith
    then show ?thesis
    proof cases
      case 1
      then have "D (vals f ! j) = {k \<in> D ?fa. route f' k = j}" using kid' [of j] rt(1) f(2) by auto
      then show ?thesis using 1 at [OF jl] pres [of j] f(2) by (simp add: child_ok_def)
    next
      case 2
      then have "D old = {k \<in> D ?fa. route f' k = j}" using Ds(1) Vold(1) rt(2) by auto
      then show ?thesis using 2 at [OF jl] pres [of j] f(2,3) by (simp add: child_ok_def)
    next
      case 3
      have "D new = {k \<in> D ?fa. route f' k = j}"
        using Ds(2) Vold(1) 3 rt(3) by auto
      then show ?thesis using 3 at [OF jl] Vold(2) dn q
        by (cases "new = ?fa") (simp_all add: child_ok_def h')
    next
      case 4
      then have "D (vals f ! (j - 1)) = {k \<in> D ?fa. route f' k = j}"
        using kid' [of "j - 1"] rt(4) jl by auto
      then show ?thesis using 4 at [OF jl] pres [of "j - 1"] jl by (simp add: child_ok_def)
    qed
  qed
  moreover have "distinct (vals f')" unfolding vals' by (rule distinct_insert_at [OF dist newf])
  moreover have "fst ` set (tl (recs f')) \<subseteq> D ?fa" using ri(3) i(2) io by (auto simp: inner_ok_def)
  ultimately show ?thesis using ri(2) recs by (auto simp: inner_ok_def)
qed

lemma insert_child_ok:
  assumes pd: "pend old key new V D dep t" and nr: "old \<noteq> root t" and p: "heap_of t old = Some p"
  shows "\<exists>h'. insert_child old key new (parent p) (heap_of t) = Inr h'
    \<and> tree_inv (parent p) {} D D dep (t\<lparr>heap_of := h'\<rparr>) \<and> leafview h' = leafview (heap_of t)
    \<and> (\<exists>f. h' (parent p) = Some f \<and> \<not> is_leaf f) \<and> dep old < dep (parent p)"
proof -
  let ?h = "heap_of t" and ?fa = "parent p"
  from pd have inv: "tree_inv 0 {new} V D dep t" and ne: "old \<noteq> new" and dn: "dep new = dep old"
    and VD: "\<And>a. a \<noteq> old \<Longrightarrow> a \<noteq> new \<Longrightarrow> V a = D a" by (auto simp: pend_def)
  from pd obtain q where q: "?h new = Some q" "parent q = 0" by (auto simp: pend_def)
  obtain f i where f: "?h ?fa = Some f" "\<not> is_leaf f" "i < length (recs f)" "vals f ! i = old" "dep old < dep ?fa"
    by (rule tree_inv_parent [OF inv p nr]) (use ne in auto)
  have fnew: "?fa \<noteq> new" using f(5) dn by auto
  have io: "inner_ok ?h V D dep ?fa f" using tree_inv_page(6) [OF inv f(1,2)] .
  have fa0: "0 < ?fa" "?fa < brk t" using tree_inv_page(1,2) [OF inv f(1)] by auto
  then have wf: "wf_page 12 f" using tree_inv_page(3) [OF inv f(1)] by simp
  have new0: "new \<noteq> 0" using tree_inv_page(2) [OF inv q(1)] by simp
  have "Suc i \<le> record_num f" using f(3) wf_page_length [OF wf] by simp
  from insert_pair_wf [OF wf this new0, of key] obtain f' where
    f': "insert_pair (Suc i) key new f = Inr f'" "wf_page 13 f'"
      "recs f' = take (Suc i) (recs f) @ (key, new) # drop (Suc i) (recs f)"
      "f' = f\<lparr>records := records f', record_num := record_num f'\<rparr>" by blast
  have leaf': "\<not> is_leaf f'" "parent f' = parent f" using f(2) by (subst f'(4), simp)+
  define h' where "h' = ?h(new \<mapsto> q\<lparr>parent := ?fa\<rparr>, ?fa \<mapsto> f')"
  have run: "insert_child old key new ?fa ?h = Inr h'"
    using f(1) q fnew f'(1) find_child_rank_inner [OF io f(3)] f(4)
    by (simp add: insert_child_def get_page_def mod_page_def try_page_def h'_def)
  have inner: "inner_ok h' D D dep ?fa f'"
    by (rule insert_child_inner [OF pd nr p q(1) f(1,3,4) io f'(3) h'_def])
  have h'_kin: "\<exists>y. ?h a = Some y \<and> kin y y' \<and> (a = new \<or> y' = y)" if "h' a = Some y'" "a \<noteq> ?fa" for a y'
    using that q by (auto simp: h'_def split: if_splits)
  have sub: "set (vals f) \<subseteq> set (vals f')" "new \<in> set (vals f')"
    unfolding vals_def f'(3) by (auto simp: image_iff) (metis append_take_drop_id Un_iff set_append snd_conv)
  have att: "attached h' a y'" if y': "h' a = Some y'" "a \<noteq> root t" for a y'
  proof (cases "a = new")
    case True
    then show ?thesis using y' fnew sub leaf' by (auto simp: attached_def h'_def)
  next
    case False
    obtain y where y: "?h a = Some y" "parent y = parent y'"
      using h'_kin [OF y'(1)] False f(1) leaf' y'(1) by (cases "a = ?fa") (auto simp: h'_def)
    then obtain g where g: "?h (parent y) = Some g" "\<not> is_leaf g" "a \<in> set (vals g)"
      using inv False y'(2) unfolding tree_inv_def attached_def by blast
    show ?thesis
    proof (cases "parent y = ?fa")
      case True
      then show ?thesis using g f(1) y sub leaf' by (auto simp: attached_def h'_def)
    next
      case pf: False
      then have "\<exists>g'. h' (parent y') = Some g' \<and> kin g g'" using g(1) y(2) q by (auto simp: h'_def)
      then show ?thesis using attached_kin [OF g] y(2) by metis
    qed
  qed
  have "tree_inv ?fa {} D D dep (t\<lparr>heap_of := h'\<rparr>)"
  proof (rule tree_inv_transfer [OF inv, where S = "{?fa}"])
    show "\<exists>r. heap_of (t\<lparr>heap_of := h'\<rparr>) (root (t\<lparr>heap_of := h'\<rparr>)) = Some r \<and> parent r = 0"
      using inv q(1) leaf' f(1) by (auto simp: tree_inv_def h'_def)
    show "D (root (t\<lparr>heap_of := h'\<rparr>)) = UNIV" using inv VD [of "root t"] nr by (auto simp: tree_inv_def)
  next
    fix a y c x assume a: "a \<notin> {?fa}" "0 < a" "?h a = Some y" "c \<in> set (vals y)" "?h c = Some x" "parent x = a"
    then have "c \<noteq> new" "c \<noteq> old" using q p by auto
    then show "\<exists>x'. heap_of (t\<lparr>heap_of := h'\<rparr>) c = Some x' \<and> parent x' = a \<and> D c = V c \<and> dep c = dep c"
      using a VD [of c] leaf' f(1) by (auto simp: h'_def)
  next
    fix a y assume "heap_of (t\<lparr>heap_of := h'\<rparr>) a = Some y"
    then have "\<exists>x. ?h a = Some x" using h'_kin [of a y] f(1) by (cases "a = ?fa") auto
    then show "dep a \<le> dep (root (t\<lparr>heap_of := h'\<rparr>))" using tree_inv_page(4) [OF inv] by auto
  next
    fix a y' assume "heap_of (t\<lparr>heap_of := h'\<rparr>) a = Some y'" "a \<notin> {?fa}"
    then show "\<exists>y. ?h a = Some y \<and> kin y y' \<and> D a = D a \<and> dep a = dep a \<and> (a = 0 \<longrightarrow> a = ?fa)"
      using h'_kin [of a y'] tree_inv_page(2) [OF inv, of a] by auto
  qed (use fa0 f'(2) inner leaf' att tree_inv_page(7) [OF inv f(1)] in \<open>auto simp: page_ok_def h'_def\<close>)
  moreover have "leafview h' = leafview ?h"
    using q f leaf' fnew by (auto simp: leafview_def h'_def fun_eq_iff)
  ultimately show ?thesis using run leaf' f(5) by (auto simp: h'_def)
qed

end
