(* ===== verification/BPlus_Split.thy ===== *)
theory BPlus_Split
  imports BPlus_Insert
begin

text \<open>
  Splitting a page.  \<^verbatim>\<open>split_heap\<close> is the heap relation that both kinds of split establish; from it
  follows that the new sibling is pending behind the node it was split from.
\<close>

definition split_heap :: "heap \<Rightarrow> addr \<Rightarrow> page \<Rightarrow> addr \<Rightarrow> nat \<Rightarrow> page \<Rightarrow> page \<Rightarrow> heap \<Rightarrow> bool" where
  "split_heap h node p new l pl s h' \<longleftrightarrow> h' node = Some pl \<and> h' new = Some s
     \<and> recs pl = take l (recs p) \<and> recs s = drop l (recs p) \<and> wf_page 12 pl \<and> wf_page 12 s
     \<and> is_leaf pl = is_leaf p \<and> is_leaf s = is_leaf p \<and> parent pl = parent p \<and> parent s = 0
     \<and> (\<forall>a. a \<noteq> node \<longrightarrow> a \<noteq> new \<longrightarrow> rel_option (\<lambda>y y'. kin y y' \<and>
          parent y' = (if \<not> is_leaf p \<and> a \<in> set (vals s) then new else parent y)) (h a) (h' a))"

definition split_dom :: "(addr \<Rightarrow> double set) \<Rightarrow> addr \<Rightarrow> addr \<Rightarrow> double \<Rightarrow> addr \<Rightarrow> double set" where
  "split_dom D node new key = D(node := {k \<in> D node. k < key}, new := {k \<in> D node. key \<le> k})"

lemma split_heap_other:
  assumes sh: "split_heap h node p new l pl s h'" and a: "a \<noteq> node" "a \<noteq> new"
  shows "h a = Some y \<Longrightarrow> \<exists>y'. h' a = Some y' \<and> kin y y' \<and>
      parent y' = (if \<not> is_leaf p \<and> a \<in> set (vals s) then new else parent y)"
    "h' a = Some y' \<Longrightarrow> \<exists>y. h a = Some y \<and> kin y y' \<and>
      parent y' = (if \<not> is_leaf p \<and> a \<in> set (vals s) then new else parent y)"
proof -
  let ?R = "\<lambda>y y'. kin y y' \<and> parent y' = (if \<not> is_leaf p \<and> a \<in> set (vals s) then new else parent y)"
  have r: "rel_option ?R (h a) (h' a)" using sh a unfolding split_heap_def by blast
  show "h a = Some y \<Longrightarrow> \<exists>y'. h' a = Some y' \<and> ?R y y'"
    using r by (cases "h' a") (simp_all only: option.rel_inject option.rel_distinct option.inject, blast)
  show "h' a = Some y' \<Longrightarrow> \<exists>y. h a = Some y \<and> ?R y y'"
    using r by (cases "h a") (simp_all only: option.rel_inject option.rel_distinct option.inject, blast)
qed

lemma split_routes:
  assumes io: "inner_ok h V D dep a p" and l: "0 < l" "l < length (recs p)"
    and pl: "recs pl = take l (recs p)" and s: "recs s = drop l (recs p)" and key: "key = fst (recs p ! l)"
  shows "k < key \<Longrightarrow> route pl k = route p k \<and> route p k < l"
    and "key \<le> k \<Longrightarrow> route p k = l + route s k"
    and "sorted_wrt (<) (map fst (tl (recs pl)))" "sorted_wrt (<) (map fst (tl (recs s)))"
    and "k \<in> fst ` set (tl (recs s)) \<Longrightarrow> key \<le> k" "k \<in> fst ` set (tl (recs pl)) \<Longrightarrow> k < key"
    and "key \<in> fst ` set (tl (recs p))" "set (tl (recs pl)) \<subseteq> set (tl (recs p))" "set (tl (recs s)) \<subseteq> set (tl (recs p))"
proof -
  let ?ks = "map fst (tl (recs p))"
  have ss: "sorted_wrt (<) ?ks" using io by (simp add: inner_ok_def)
  then have so: "sorted ?ks" by (rule strict_sorted_imp_sorted)
  obtain r rs where rs: "recs p = r # rs" using l by (cases "recs p") auto
  obtain m where m: "l = Suc m" using l by (cases l) auto
  have lks: "m < length ?ks" using l m rs by simp
  have key': "key = ?ks ! m" using key m rs lks by simp
  have tpl: "tl (recs pl) = take m (tl (recs p))" and ts: "tl (recs s) = drop (Suc m) (tl (recs p))"
    using pl s m rs by (simp_all add: tl_drop drop_Suc)
  show "k < key \<Longrightarrow> route pl k = route p k \<and> route p k < l"
    using rank_split_low [OF so lks, of k] by (auto simp: route_rank tpl key' m take_map)
  show "key \<le> k \<Longrightarrow> route p k = l + route s k"
    using rank_split_high [OF so lks, of k] by (simp add: route_rank ts key' m drop_map)
  show "sorted_wrt (<) (map fst (tl (recs pl)))" "sorted_wrt (<) (map fst (tl (recs s)))"
    unfolding tpl ts using ss by (simp_all add: take_map [symmetric] drop_map [symmetric] sorted_wrt_take sorted_wrt_drop)
  show "key \<in> fst ` set (tl (recs p))" unfolding key' using lks nth_mem [of m ?ks] by simp
  show "set (tl (recs pl)) \<subseteq> set (tl (recs p))" "set (tl (recs s)) \<subseteq> set (tl (recs p))"
    unfolding tpl ts by (auto dest: in_set_takeD in_set_dropD)
  have "?ks = take m ?ks @ key # drop (Suc m) ?ks" unfolding key' by (rule id_take_nth_drop [OF lks])
  then have "sorted_wrt (<) (take m ?ks @ key # drop (Suc m) ?ks)" using ss by simp
  then have "\<forall>x\<in>set (take m ?ks). x < key" "\<forall>x\<in>set (drop (Suc m) ?ks). key < x"
    by (auto simp: sorted_wrt_append)
  then show "k \<in> fst ` set (tl (recs s)) \<Longrightarrow> key \<le> k" "k \<in> fst ` set (tl (recs pl)) \<Longrightarrow> k < key"
    unfolding tpl ts by (auto simp: take_map drop_map intro: less_imp_le)
qed

lemma split_leaf_pages:
  assumes ok: "leaf_ok D node p" and l: "0 < l" "l < length (recs p)" and nn: "node \<noteq> new"
    and pl: "recs pl = take l (recs p)" and s: "recs s = drop l (recs p)" and key: "key = fst (recs p ! l)"
  shows "leaf_ok (split_dom D node new key) node pl \<and> leaf_ok (split_dom D node new key) new s \<and> key \<in> D node"
proof -
  let ?D = "split_dom D node new key"
  have so: "sorted_wrt (<) (map fst (take l (recs p)) @ map fst (drop l (recs p)))"
    using ok by (simp add: leaf_ok_def sorted_recs_def flip: map_append)
  have d: "drop l (recs p) = recs p ! l # drop (Suc l) (recs p)" using l by (simp add: Cons_nth_drop_Suc)
  have lo: "\<forall>r\<in>set (take l (recs p)). fst r < key" using so d key by (auto simp: sorted_wrt_append)
  have hi: "\<forall>r\<in>set (drop l (recs p)). key \<le> fst r"
    using so d key by (auto simp: sorted_wrt_append intro: less_imp_le)
  have "\<forall>r\<in>set (recs p). fst r \<in> D node" using ok by (auto simp: leaf_ok_def)
  moreover have "recs p ! l \<in> set (recs p)" using l by simp
  ultimately show ?thesis using ok lo hi so nn key unfolding leaf_ok_def sorted_recs_def pl s split_dom_def
    by (auto simp: sorted_wrt_append dest: in_set_takeD in_set_dropD)
qed

lemma split_inner_pages:
  assumes io: "inner_ok h D D dep node p" and l: "0 < l" "l < length (recs p)" and nn: "node \<noteq> new"
    and sh: "split_heap h node p new l pl s h'" and lf: "\<not> is_leaf p" and fresh: "h new = None"
    and key: "key = fst (recs p ! l)"
  defines "D' \<equiv> split_dom D node new key" and "dep' \<equiv> dep(new := dep node)"
  shows "inner_ok h' (D'(node := D node)) D' dep' node pl \<and> inner_ok h' (D'(node := D node)) D' dep' new s"
proof -
  let ?V = "D'(node := D node)"
  have pl: "recs pl = take l (recs p)" and s: "recs s = drop l (recs p)" using sh by (auto simp: split_heap_def)
  note sr = split_routes [OF io l pl s key]
  have vpl: "vals pl = take l (vals p)" and vs: "vals s = drop l (vals p)"
    by (simp_all add: vals_def pl s take_map drop_map)
  have dist: "distinct (vals p)" "fst ` set (tl (recs p)) \<subseteq> D node" using io by (auto simp: inner_ok_def)
  have kid: "\<exists>c. h' (vals p ! i) = Some c \<and> parent c = (if vals p ! i \<in> set (vals s) then new else node)
     \<and> ?V (vals p ! i) = {k \<in> D node. route p k = i} \<and> dep' (vals p ! i) < dep node" if i: "i < length (recs p)" for i
  proof -
    obtain c where c: "h (vals p ! i) = Some c" "parent c = node" "D (vals p ! i) = {k \<in> D node. route p k = i}"
      "dep (vals p ! i) < dep node" using io i by (auto simp: inner_ok_def child_ok_def)
    then have n: "vals p ! i \<noteq> node" "vals p ! i \<noteq> new" using fresh by auto
    then show ?thesis using split_heap_other(1) [OF sh n c(1)] c lf
      by (auto simp: D'_def dep'_def split_dom_def)
  qed
  have low: "vals p ! i \<notin> set (vals s)" if "i < l" for i
  proof -
    have "i < length (vals p)" using that l by simp
    then have "vals p ! i \<in> set (take l (vals p))" using that l by (auto simp: in_set_conv_nth intro!: exI [of _ i])
    then show ?thesis using set_take_disj_set_drop_if_distinct [OF dist(1), of l l] by (auto simp: vs)
  qed
  have Dn: "D' node = {k \<in> D node. k < key}" "D' new = {k \<in> D node. key \<le> k}"
    using nn by (auto simp: D'_def split_dom_def)
  have "child_ok h' ?V D' dep' node pl i" if "i < length (recs pl)" for i
  proof -
    have i: "i < l" "i < length (recs p)" using that l by (auto simp: pl)
    have "k < key \<and> route pl k = i \<longleftrightarrow> route p k = i" for k
      using sr(1) [of k] sr(2) [of k] i by (cases "k < key") (auto simp: not_less)
    then have "{k \<in> D node. route p k = i} = {k \<in> D' node. route pl k = i}" by (auto simp: Dn)
    then show ?thesis using kid [OF i(2)] low [OF i(1)] i nn by (auto simp: child_ok_def vpl dep'_def)
  qed
  moreover have "child_ok h' ?V D' dep' new s i" if "i < length (recs s)" for i
  proof -
    have i: "l + i < length (recs p)" using that by (auto simp: s)
    have "key \<le> k \<and> route s k = i \<longleftrightarrow> route p k = l + i" for k
      using sr(1) [of k] sr(2) [of k] by (cases "k < key") (auto simp: not_less)
    then have "{k \<in> D node. route p k = l + i} = {k \<in> D' new. route s k = i}" by (auto simp: Dn)
    moreover have "vals s ! i = vals p ! (l + i)" "vals p ! (l + i) \<in> set (vals s)"
      using i nth_mem [of i "vals s"] that by (auto simp: vs)
    ultimately show ?thesis using kid [OF i] by (auto simp: child_ok_def dep'_def)
  qed
  moreover have "fst ` set (tl (recs pl)) \<subseteq> D' node" "fst ` set (tl (recs s)) \<subseteq> D' new"
    unfolding Dn using sr(5-9) dist(2) by blast+
  moreover have "distinct (vals pl)" "distinct (vals s)" using dist(1) by (simp_all add: vpl vs)
  moreover have "recs pl \<noteq> []" "recs s \<noteq> []" using l by (auto simp: pl s)
  ultimately show ?thesis using sr(3,4) by (simp add: inner_ok_def)
qed

lemma split_dom_nonempty:
  assumes inv: "tree_inv F {} D D dep t" and p: "heap_of t node = Some p" and l: "0 < l" "l < length (recs p)"
    and nn: "node \<noteq> new" and key: "key = fst (recs p ! l)"
  shows "split_dom D node new key node \<noteq> {} \<and> key \<in> D node"
proof (cases "is_leaf p")
  case True
  have ok: "leaf_ok D node p" using tree_inv_page(5) [OF inv p True] .
  have "fst (recs p ! 0) < key"
    using ok l by (auto simp: leaf_ok_def sorted_recs_def sorted_wrt_iff_nth_less key)
  moreover have "recs p ! 0 \<in> set (recs p)" "recs p ! l \<in> set (recs p)" using l by (auto intro: nth_mem)
  ultimately show ?thesis using ok nn by (auto simp: leaf_ok_def split_dom_def key)
next
  case False
  have io: "inner_ok (heap_of t) D D dep node p" using tree_inv_page(6) [OF inv p False] .
  define pl s where "pl = p\<lparr>records := take l (recs p), record_num := l\<rparr>"
    and "s = p\<lparr>records := drop l (recs p), record_num := length (recs p) - l\<rparr>"
  have "recs pl = take l (recs p)" "recs s = drop l (recs p)" by (simp_all add: pl_def s_def recs_def)
  note sr = split_routes [OF io l this key]
  from l io obtain c where c: "heap_of t (vals p ! 0) = Some c" "D (vals p ! 0) = {k \<in> D node. route p k = 0}"
    by (auto simp: inner_ok_def child_ok_def)
  then obtain k where k: "k \<in> D node" "route p k = 0" using tree_inv_page(7) [OF inv c(1)] by auto
  then have "k < key" using sr(2) [of k] l(1) by (metis add_is_0 not_le less_not_refl)
  then show ?thesis using k nn sr(7) io by (auto simp: split_dom_def inner_ok_def)
qed

lemma split_attached:
  assumes inv: "tree_inv F {} D D dep t" and p: "heap_of t node = Some p" and fresh: "heap_of t new = None"
    and sh: "split_heap (heap_of t) node p new l pl s h'"
    and y': "h' a = Some y'" and a: "a \<noteq> new" "a \<noteq> root t"
  shows "attached h' a y'"
proof -
  let ?h = "heap_of t"
  have sf: "h' node = Some pl" "h' new = Some s" "is_leaf pl = is_leaf p" "is_leaf s = is_leaf p"
    "parent pl = parent p" using sh by (auto simp: split_heap_def)
  have vs: "set (vals p) = set (vals pl) \<union> set (vals s)"
    using sh by (simp add: split_heap_def vals_def) (metis append_take_drop_id set_append image_Un)
  obtain y where y: "?h a = Some y"
    and py: "parent y' = (if a \<noteq> node \<and> \<not> is_leaf p \<and> a \<in> set (vals s) then new else parent y)"
    using split_heap_other(2) [OF sh _ a(1) y'] p sf y' by (cases "a = node") auto
  from y a inv obtain f where f: "?h (parent y) = Some f" "\<not> is_leaf f" "a \<in> set (vals f)"
    unfolding tree_inv_def attached_def by blast
  show ?thesis
  proof (cases "a \<noteq> node \<and> \<not> is_leaf p \<and> a \<in> set (vals s)")
    case True
    then show ?thesis using py sf by (auto simp: attached_def)
  next
    case False
    then have pp: "parent y' = parent y" using py by presburger
    show ?thesis
    proof (cases "parent y = node")
      case True
      then have "f = p" using f p by simp
      moreover have "a \<noteq> node"
        using tree_inv_parent [OF inv y a(2)] True f(1) by (metis empty_iff less_irrefl)
      ultimately show ?thesis using True False f vs sf pp by (auto simp: attached_def)
    next
      case pn: False
      have "parent y \<noteq> new" using f(1) fresh by auto
      then obtain f' where "h' (parent y) = Some f'" "kin f f'"
        using split_heap_other(1) [OF sh pn _ f(1)] by blast
      then show ?thesis using attached_kin [OF f] pp by simp
    qed
  qed
qed

lemma split_pend:
  assumes inv: "tree_inv node {} D D dep t" and p: "heap_of t node = Some p"
    and l: "0 < l" "l < length (recs p)" and new: "new = brk t"
    and sh: "split_heap (heap_of t) node p new l pl s h'" and key: "key = fst (recs p ! l)"
  defines "D' \<equiv> split_dom D node new key"
  shows "pend node key new (D'(node := D node)) D' (dep(new := dep node)) (t\<lparr>heap_of := h', brk := new + 1\<rparr>)"
proof -
  let ?h = "heap_of t" and ?V = "D'(node := D node)" and ?dep = "dep(new := dep node)"
  let ?t = "t\<lparr>heap_of := h', brk := new + 1\<rparr>"
  have fresh: "?h new = None" using tree_inv_page(1) [OF inv, of new] new by (cases "?h new") auto
  have nn: "node \<noteq> new" using p fresh by auto
  have sf: "h' node = Some pl" "h' new = Some s" "recs pl = take l (recs p)" "recs s = drop l (recs p)"
    "wf_page 12 pl" "wf_page 12 s" "is_leaf pl = is_leaf p" "is_leaf s = is_leaf p" "parent pl = parent p" "parent s = 0"
    using sh by (auto simp: split_heap_def)
  note dn = split_dom_nonempty [OF inv p l nn key]
  have Dat: "D' node = {k \<in> D node. k < key}" "D' new = {k \<in> D node. key \<le> k}" "\<And>a. a \<noteq> node \<Longrightarrow> a \<noteq> new \<Longrightarrow> D' a = D a"
    using nn by (auto simp: D'_def split_dom_def)
  have nonempty: "D' node \<noteq> {}" "D' new \<noteq> {}" using dn by (auto simp: Dat D'_def [symmetric])
  have pos: "0 < node" "0 < new" "node < new" using tree_inv_page(1,2) [OF inv p] new inv by (auto simp: tree_inv_def)
  have pages: "page_ok 0 h' ?V D' ?dep node pl \<and> page_ok 0 h' ?V D' ?dep new s"
  proof (cases "is_leaf p")
    case True
    from split_leaf_pages [OF tree_inv_page(5) [OF inv p True] l nn sf(3,4) key] show ?thesis
      using True sf pos nonempty by (simp add: page_ok_def D'_def)
  next
    case False
    from split_inner_pages [OF tree_inv_page(6) [OF inv p False] l nn sh False fresh key] show ?thesis
      using False sf pos nonempty by (simp add: page_ok_def D'_def)
  qed
  have kidp: "parent x = node" if "\<not> is_leaf p" "c \<in> set (vals s)" "?h c = Some x" for c x
  proof -
    have "c \<in> set (vals p)" using that(2) sf(4) by (auto simp: vals_def dest: in_set_dropD)
    then show ?thesis using tree_inv_child_parent [OF inv p that(1)] that(3) by blast
  qed
  have old: "\<exists>y. ?h a = Some y \<and> kin y y' \<and> D' a = D a \<and> ?dep a = dep a \<and> (a = node \<longrightarrow> a = 0)"
    if "h' a = Some y'" "a \<noteq> node" "a \<noteq> new" for a y'
    using split_heap_other(2) [OF sh that(2,3,1)] Dat(3) that(2,3) by auto
  have "tree_inv 0 {new} ?V D' ?dep ?t"
  proof (rule tree_inv_transfer [OF inv, where S = "{node, new}"])
    from inv obtain r where r: "?h (root t) = Some r" "parent r = 0" "D (root t) = UNIV" by (auto simp: tree_inv_def)
    then have rn: "root t \<noteq> new" using fresh by auto
    then show "root ?t \<notin> {new}" "?V (root ?t) = UNIV" using r(3) Dat(3) [of "root t"] by auto
    have "\<exists>r'. h' (root t) = Some r' \<and> parent r' = 0"
    proof (cases "root t = node")
      case True
      then show ?thesis using r p sf by simp
    next
      case False
      then show ?thesis using split_heap_other(1) [OF sh False rn r(1)] kidp [OF _ _ r(1)] r(2) pos by auto
    qed
    then show "\<exists>r. heap_of ?t (root ?t) = Some r \<and> parent r = 0" by simp
  next
    fix a y c x assume a: "a \<notin> {node, new}" "0 < a" "?h a = Some y" "c \<in> set (vals y)" "?h c = Some x" "parent x = a"
    have cn: "c \<noteq> new" using a(5) fresh by auto
    have "\<exists>x'. h' c = Some x' \<and> parent x' = a"
    proof (cases "c = node")
      case True
      then show ?thesis using a(5,6) p sf by simp
    next
      case False
      then show ?thesis using split_heap_other(1) [OF sh False cn a(5)] kidp [OF _ _ a(5)] a(1,6) by auto
    qed
    then show "\<exists>x'. heap_of ?t c = Some x' \<and> parent x' = a \<and> ?V c = D c \<and> ?dep c = dep c"
      using cn Dat(3) [of c] by auto
  next
    fix a y assume y: "heap_of ?t a = Some y"
    then have "\<exists>x. ?h a = Some x \<or> a = new" using old [of a y] p by (cases "a = node") auto
    then show "?dep a \<le> ?dep (root ?t)" using tree_inv_page(4) [OF inv] p inv fresh by (auto simp: tree_inv_def)
  next
    fix a y' assume "heap_of ?t a = Some y'" "a \<notin> {new}" "a \<noteq> root ?t"
    then show "attached (heap_of ?t) a y'" using split_attached [OF inv p fresh sh] by simp
  qed (use old pages sf pos new in auto)
  then show ?thesis unfolding pend_def using nn dn Dat sf by auto
qed

end
