(* ===== verification/BPlus_Correct.thy ===== *)
theory BPlus_Correct
  imports BPlus_Split
begin

text \<open>
  The overflow tree refines a finite map: \<^verbatim>\<open>upsert\<close> never fails on a tree built by insertions, keeps
  the invariant and adds exactly its pair, and \<^verbatim>\<open>find\<close>, \<^verbatim>\<open>range_query\<close> and \<^verbatim>\<open>get_data\<close> read back what
  was inserted.
\<close>

section \<open>Running a split\<close>

lemma split_left_fields [simp]:
  "is_leaf (split_left p) = is_leaf p" "parent (split_left p) = parent p" "next_leaf (split_left p) = next_leaf p"
  by (simp_all add: split_left_def Let_def)

lemma split_right_fields [simp]:
  "is_leaf (split_right p q) = is_leaf q" "parent (split_right p q) = parent q"
  "next_leaf (split_right p q) = next_leaf q"
  by (simp_all add: split_right_def Let_def)

lemma new_page_fields [simp]:
  "parent (new_page l) = 0" "records (new_page l) = replicate cardinality (FREE_FLAG, 0)"
  by (simp_all add: new_page_def)

lemma maintain_children_ok:
  assumes "h node = Some ps" "\<not> is_leaf ps"
    "\<forall>j<n. snd (records ps ! (i + j)) \<noteq> node \<and> h (snd (records ps ! (i + j))) \<noteq> None"
  shows "maintain_children node i n h = Inr (\<lambda>a. if \<exists>j<n. a = snd (records ps ! (i + j))
    then map_option (\<lambda>c. c\<lparr>parent := node\<rparr>) (h a) else h a)"
  using assms
proof (induction n arbitrary: i h)
  case (Suc n)
  let ?c = "snd (records ps ! i)"
  obtain q where q: "h ?c = Some q" "?c \<noteq> node" using Suc.prems(3) by fastforce
  let ?h = "h(?c \<mapsto> q\<lparr>parent := node\<rparr>)"
  have m: "maintain_child node i h = Inr ?h"
    using Suc.prems q by (simp add: maintain_child_def get_page_def mod_page_def)
  have pre: "\<forall>j<n. snd (records ps ! (Suc i + j)) \<noteq> node \<and> ?h (snd (records ps ! (Suc i + j))) \<noteq> None"
  proof (intro allI impI)
    fix j assume "j < n"
    then show "snd (records ps ! (Suc i + j)) \<noteq> node \<and> ?h (snd (records ps ! (Suc i + j))) \<noteq> None"
      using Suc.prems(3) [rule_format, of "Suc j"] by auto
  qed
  have "maintain_children node (Suc i) n ?h = Inr (\<lambda>a. if \<exists>j<n. a = snd (records ps ! (Suc i + j))
    then map_option (\<lambda>c. c\<lparr>parent := node\<rparr>) (?h a) else ?h a)"
    by (rule Suc.IH) (use Suc.prems q pre in auto)
  moreover have "(\<exists>j<Suc n. a = snd (records ps ! (i + j))) \<longleftrightarrow> a = ?c \<or> (\<exists>j<n. a = snd (records ps ! (Suc i + j)))" for a
    by (auto simp: less_Suc_eq_0_disj)
  ultimately show ?case using q m by (auto simp: fun_eq_iff)
qed simp

lemma split_inner_run:
  assumes inv: "tree_inv node {} D D dep t" and p: "heap_of t node = Some p" and lf: "\<not> is_leaf p"
    and n: "record_num p = 13"
  shows "\<exists>pl s h'. split node t = Inr (brk t, t\<lparr>heap_of := h', brk := brk t + 1\<rparr>)
    \<and> split_heap (heap_of t) node p (brk t) 7 pl s h' \<and> leafview h' = leafview (heap_of t)
    \<and> records s ! 0 = recs p ! 7"
proof -
  let ?h = "heap_of t" and ?new = "brk t"
  have w: "wf_page 13 p" using tree_inv_page(3) [OF inv p] by simp
  have io: "inner_ok ?h D D dep node p" using tree_inv_page(6) [OF inv p lf] .
  have fresh: "?h ?new = None" using tree_inv_page(1) [OF inv, of ?new] by (cases "?h ?new") auto
  then have nn: "node \<noteq> ?new" using p by auto
  define s where "s = split_right p ((new_page (level p))\<lparr>is_leaf := is_leaf p\<rparr>)"
  have s: "wf_page 12 s \<and> recs s = drop 7 (recs p)"
    unfolding s_def using split_right_wf [OF w, of "(new_page (level p))\<lparr>is_leaf := is_leaf p\<rparr>"] n by simp
  have pl: "wf_page 12 (split_left p) \<and> recs (split_left p) = take 7 (recs p)"
    using split_left_wf [OF w] n by simp
  have lr: "length (recs p) = 13" using wf_page_length [OF w] n by simp
  then have ls: "length (recs s) = 6" "record_num s = 6" using s wf_page_length [of 12 s] by auto
  have at: "snd (records s ! j) = vals p ! (7 + j)" if "j < 6" for j
    using that s ls lr wf_page_nth [of 12 s j] by (simp add: vals_def)
  have "vals s ! j = snd (records s ! j)" if "j < 6" for j
    using that s ls wf_page_nth [of 12 s j] by (simp add: vals_def)
  then have vs: "set (vals s) = {a. \<exists>j<6. a = snd (records s ! j)}"
    by (auto simp: set_conv_nth ls) metis
  define h2 where "h2 = ?h(?new \<mapsto> s, node \<mapsto> split_left p)"
  have kids: "vals p ! (7 + j) \<noteq> node \<and> vals p ! (7 + j) \<noteq> ?new \<and> ?h (vals p ! (7 + j)) \<noteq> None" if "j < 6" for j
  proof -
    have "child_ok ?h D D dep node p (7 + j)" using io that lr by (simp add: inner_ok_def)
    then show ?thesis using fresh by (auto simp: child_ok_def)
  qed
  define h' where "h' = (\<lambda>a. if a \<in> set (vals s) then map_option (\<lambda>c. c\<lparr>parent := ?new\<rparr>) (h2 a) else h2 a)"
  have "maintain_children ?new 0 6 h2 = Inr (\<lambda>a. if \<exists>j<6. a = snd (records s ! (0 + j))
    then map_option (\<lambda>c. c\<lparr>parent := ?new\<rparr>) (h2 a) else h2 a)"
    by (rule maintain_children_ok) (use nn lf kids at in \<open>auto simp: h2_def s_def\<close>)
  then have "maintain_children ?new 0 6 h2 = Inr h'" by (simp add: h'_def vs)
  then have run: "split node t = Inr (?new, t\<lparr>heap_of := h', brk := ?new + 1\<rparr>)"
    using p nn lf n by (simp add: split_def get_page_def mod_page_def s_def h2_def Let_def)
  have "node \<noteq> snd (records s ! j) \<and> ?new \<noteq> snd (records s ! j)" if "j < 6" for j
    using kids [OF that] at [OF that] by metis
  then have notin: "node \<notin> set (vals s)" "?new \<notin> set (vals s)" unfolding vs by blast+
  have other: "a \<noteq> node \<Longrightarrow> a \<noteq> ?new \<Longrightarrow> h2 a = ?h a" for a by (simp add: h2_def)
  have "split_heap ?h node p ?new 7 (split_left p) s h'"
    unfolding split_heap_def using s pl notin nn lf
    by (auto simp: h'_def h2_def s_def option.rel_map option.rel_refl)
  moreover have "leafview h' = leafview ?h"
    using lf p fresh notin nn by (auto simp: fun_eq_iff leafview_def h'_def h2_def s_def split: option.splits)
  moreover have "records s ! 0 = recs p ! 7" using s ls lr wf_page_nth [of 12 s 0] by simp
  ultimately show ?thesis using run by blast
qed

lemma split_leaf_run:
  assumes inv: "tree_inv node {} D D dep t" and p: "heap_of t node = Some p" and lf: "is_leaf p"
    and n: "record_num p = 13"
    and nx: "next_leaf p \<noteq> 0 \<longrightarrow> next_leaf p \<noteq> node \<and> heap_of t (next_leaf p) \<noteq> None"
  shows "\<exists>pl s h'. split node t = Inr (brk t, t\<lparr>heap_of := h', brk := brk t + 1\<rparr>)
    \<and> split_heap (heap_of t) node p (brk t) 7 pl s h'
    \<and> leafview h' = (leafview (heap_of t))(node \<mapsto> (brk t, take 7 (recs p)), brk t \<mapsto> (next_leaf p, drop 7 (recs p)))
    \<and> records s ! 0 = recs p ! 7"
proof -
  let ?h = "heap_of t" and ?new = "brk t"
  have w: "wf_page 13 p" using tree_inv_page(3) [OF inv p] by simp
  have fresh: "?h ?new = None" using tree_inv_page(1) [OF inv, of ?new] by (cases "?h ?new") auto
  then have nn: "node \<noteq> ?new" "next_leaf p \<noteq> 0 \<Longrightarrow> next_leaf p \<noteq> ?new" using p nx by auto
  define q where "q = ((new_page (level p))\<lparr>is_leaf := True, prev_leaf := node, next_leaf := next_leaf p\<rparr>)"
  define pl where "pl = split_left (p\<lparr>next_leaf := ?new\<rparr>)"
  define h' where "h' = (if next_leaf p = 0 then ?h
      else ?h(next_leaf p \<mapsto> (the (?h (next_leaf p)))\<lparr>prev_leaf := ?new\<rparr>))(?new \<mapsto> split_right p q, node \<mapsto> pl)"
  have q: "records q = replicate cardinality (FREE_FLAG, 0)" by (simp add: q_def)
  have s: "wf_page 12 (split_right p q) \<and> recs (split_right p q) = drop 7 (recs p)"
    using split_right_wf [OF w q] n by simp
  have pl: "wf_page 12 pl \<and> recs pl = take 7 (recs p)"
    unfolding pl_def using split_left_wf [of "p\<lparr>next_leaf := ?new\<rparr>"] w n by simp
  have run: "split node t = Inr (?new, t\<lparr>heap_of := h', brk := ?new + 1\<rparr>)"
  proof (cases "next_leaf p = 0")
    case True
    show ?thesis unfolding split_def link_sibling_def get_page_def mod_page_def using p nn lf True
      by (auto simp: Let_def h'_def pl_def q_def fun_eq_iff
          intro!: arg_cong [where f = "\<lambda>h. t\<lparr>heap_of := h, brk := brk t + 1\<rparr>"])
  next
    case False
    then obtain x where "?h (next_leaf p) = Some x" using nx by auto
    then show ?thesis unfolding split_def link_sibling_def get_page_def mod_page_def using p nn lf False nx
      by (auto simp: Let_def h'_def pl_def q_def fun_eq_iff
          intro!: arg_cong [where f = "\<lambda>h. t\<lparr>heap_of := h, brk := brk t + 1\<rparr>"])
  qed
  have sh: "split_heap ?h node p ?new 7 pl (split_right p q) h'"
    unfolding split_heap_def using s pl nn lf nx
    by (auto simp: h'_def pl_def q_def option.rel_refl)
  have lv: "leafview h' = (leafview ?h)(node \<mapsto> (?new, take 7 (recs p)), ?new \<mapsto> (next_leaf p, drop 7 (recs p)))"
    using lf p fresh nn nx s pl by (auto simp: fun_eq_iff leafview_def h'_def pl_def q_def split: option.splits)
  have "length (recs (split_right p q)) = 6" using s wf_page_length [OF w] n by simp
  then have "records (split_right p q) ! 0 = recs p ! 7"
    using s wf_page_length [of 12 "split_right p q"] wf_page_nth [of 12 "split_right p q" 0] wf_page_length [OF w] n by simp
  then show ?thesis using run sh lv by blast
qed

section \<open>The climb to the root\<close>

lemma tree_inv_unfull:
  assumes inv: "tree_inv F {} D D dep t" and f: "heap_of t F = Some f" "record_num f \<le> 12"
  shows "tree_inv 0 {} D D dep t"
proof -
  have "page_ok 0 (heap_of t) D D dep a p" if a: "heap_of t a = Some p" for a p
  proof -
    have ok: "page_ok F (heap_of t) D D dep a p" using inv a by (auto simp: tree_inv_def)
    then have "wf_page 12 p" using f a by (auto simp: page_ok_def wf_page_def split: if_splits)
    then show ?thesis using ok by (simp add: page_ok_def)
  qed
  then show ?thesis using inv by (auto simp: tree_inv_def)
qed

definition same_leaves :: "heap \<Rightarrow> (addr \<Rightarrow> double set) \<Rightarrow> heap \<Rightarrow> (addr \<Rightarrow> double set) \<Rightarrow> bool" where
  "same_leaves h D h' D' \<longleftrightarrow> leafview h' = leafview h \<and> (\<forall>a. leafview h a \<noteq> None \<longrightarrow> D' a = D a)"

lemma same_leaves_trans:
  "same_leaves h D h' D' \<Longrightarrow> same_leaves h' D' h'' D'' \<Longrightarrow> same_leaves h D h'' D''"
  by (auto simp: same_leaves_def)

lemma split_father_inner:
  assumes inv: "tree_inv father {} D D dep t" and f: "heap_of t father = Some f" "\<not> is_leaf f"
  shows "(split_father father t = Inr (None, t) \<and> tree_inv 0 {} D D dep t)
    \<or> (\<exists>key new t' V' D'. split_father father t = Inr (Some (key, new), t')
        \<and> pend father key new V' D' (dep(new := dep father)) t' \<and> new \<noteq> root t \<and> new \<noteq> father
        \<and> root t' = root t \<and> same_leaves (heap_of t) D (heap_of t') D')"
proof (cases "record_num f \<ge> 13")
  case False
  then have "tree_inv 0 {} D D dep t" using tree_inv_unfull [OF inv f(1)] by simp
  then show ?thesis using False f by (simp add: split_father_def get_page_def)
next
  case True
  have w: "wf_page 13 f" using tree_inv_page(3) [OF inv f(1)] by simp
  then have n: "record_num f = 13" "length (recs f) = 13" using True wf_page_length [OF w] by (auto simp: wf_page_def)
  let ?new = "brk t"
  have fresh: "heap_of t ?new = None" using tree_inv_page(1) [OF inv, of ?new] by (cases "heap_of t ?new") auto
  obtain pl s h' where sp: "split father t = Inr (?new, t\<lparr>heap_of := h', brk := ?new + 1\<rparr>)"
    "split_heap (heap_of t) father f ?new 7 pl s h'" "leafview h' = leafview (heap_of t)" "records s ! 0 = recs f ! 7"
    using split_inner_run [OF inv f n(1)] by blast
  define key where "key = fst (recs f ! 7)"
  define D' where "D' = split_dom D father ?new key"
  have pd: "pend father key ?new (D'(father := D father)) D' (dep(?new := dep father)) (t\<lparr>heap_of := h', brk := ?new + 1\<rparr>)"
    unfolding D'_def by (rule split_pend [OF inv f(1) _ _ refl sp(2) key_def]) (use n in auto)
  have "h' ?new = Some s" using sp(2) by (simp add: split_heap_def)
  then have "split_father father t = Inr (Some (key, ?new), t\<lparr>heap_of := h', brk := ?new + 1\<rparr>)"
    using f(1) True sp by (simp add: split_father_def get_page_def key_def)
  moreover have "same_leaves (heap_of t) D h' D'"
    using sp(3) f fresh by (auto simp: same_leaves_def leafview_def D'_def split_dom_def)
  moreover have "?new \<noteq> root t" using inv fresh by (auto simp: tree_inv_def)
  ultimately show ?thesis using pd f(1) fresh by (intro disjI2) fastforce
qed

lemma insert_into_parent_ok:
  assumes "pend old key new V D dep t"
  shows "\<exists>t' D' dep'. insert_into_parent old key new t = Some (Inr t') \<and> tree_inv 0 {} D' D' dep' t'
    \<and> same_leaves (heap_of t) D (heap_of t') D'"
  using assms
proof (induction "dep (root t) - dep old" arbitrary: old key new V D dep t rule: less_induct)
  case less
  show ?case
  proof (cases "old = root t")
    case True
    from grow_root_ok [OF less.prems True] show ?thesis
      using True by (subst insert_into_parent.simps) (auto simp: same_leaves_def)
  next
    case False
    obtain p where p: "heap_of t old = Some p" using less.prems by (auto simp: pend_def)
    from insert_child_ok [OF less.prems False p] obtain h f where
      h: "insert_child old key new (parent p) (heap_of t) = Inr h" "tree_inv (parent p) {} D D dep (t\<lparr>heap_of := h\<rparr>)"
        "leafview h = leafview (heap_of t)" "h (parent p) = Some f" "\<not> is_leaf f" "dep old < dep (parent p)" by blast
    let ?t = "t\<lparr>heap_of := h\<rparr>"
    have f: "heap_of ?t (parent p) = Some f" using h(4) by simp
    have sl: "same_leaves (heap_of t) D h D" using h(3) by (simp add: same_leaves_def)
    have le: "dep (parent p) \<le> dep (root t)" using tree_inv_page(4) [OF h(2) f] by simp
    consider "split_father (parent p) ?t = Inr (None, ?t)" "tree_inv 0 {} D D dep ?t"
      | k' n' t' V' D' where "split_father (parent p) ?t = Inr (Some (k', n'), t')"
        "pend (parent p) k' n' V' D' (dep(n' := dep (parent p))) t'" "n' \<noteq> root t" "n' \<noteq> parent p"
        "root t' = root t" "same_leaves h D (heap_of t') D'"
      using split_father_inner [OF h(2) f h(5)] by auto
    then show ?thesis
    proof cases
      case 1
      then have "insert_into_parent old key new t = Some (Inr ?t)"
        using False p h(1) by (subst insert_into_parent.simps) (simp add: get_page_def)
      then show ?thesis using 1(2) sl by fastforce
    next
      case 2
      have eq: "insert_into_parent old key new t = insert_into_parent (parent p) k' n' t'"
        using False p h(1) 2(1) by (subst insert_into_parent.simps) (simp add: get_page_def)
      have "(dep(n' := dep (parent p))) (root t') - (dep(n' := dep (parent p))) (parent p) < dep (root t) - dep old"
        using 2(3-5) h(6) le by simp
      from less.hyps [OF this 2(2)] show ?thesis using eq same_leaves_trans [OF same_leaves_trans [OF sl 2(6)]] by metis
    qed
  qed
qed

end
