(* ===== verification/Kv_Store.thy ===== *)
theory Kv_Store
  imports Main
begin

text \<open>
  The contract of a key-value store as its clients use it: \<^verbatim>\<open>kv_update\<close> for stores whose lookups answer
  like a map that insertions update, \<^verbatim>\<open>kv_store\<close> for those that also start empty.  The overflow tree of the
  leaf nodes and the hot cache of the End interpret \<^verbatim>\<open>kv_store\<close>, the loaded index interprets \<^verbatim>\<open>kv_update\<close>.
\<close>

locale kv_update =
  fixes put :: "'k \<Rightarrow> 'v \<Rightarrow> 's \<Rightarrow> 's option"
    and get :: "'k \<Rightarrow> 's \<Rightarrow> 'v option"
    and inv :: "'s \<Rightarrow> bool"
    and storable :: "'k \<Rightarrow> 'v \<Rightarrow> bool"
  assumes put_total: "inv s \<Longrightarrow> storable k v \<Longrightarrow> \<exists>s'. put k v s = Some s' \<and> inv s'"
    and get_put: "inv s \<Longrightarrow> storable k v \<Longrightarrow> put k v s = Some s' \<Longrightarrow>
      get l s' = (if l = k then Some v else get l s)"
begin

fun put_all :: "('k \<times> 'v) list \<Rightarrow> 's \<Rightarrow> 's option" where
  "put_all [] s = Some s"
| "put_all ((k, v) # kvs) s = Option.bind (put k v s) (put_all kvs)"

lemma put_all_total:
  "inv s \<Longrightarrow> \<forall>kv\<in>set kvs. storable (fst kv) (snd kv) \<Longrightarrow> \<exists>s'. put_all kvs s = Some s' \<and> inv s'"
proof (induction kvs arbitrary: s)
  case (Cons kv kvs)
  obtain k v where kv: "kv = (k, v)" by (cases kv)
  from put_total [of s k v] Cons.prems kv obtain s' where "put k v s = Some s'" "inv s'" by auto
  with Cons kv show ?case by simp
qed simp

text \<open>After a sequence of insertions a lookup finds the last value stored under its key.\<close>

lemma get_put_all:
  "inv s \<Longrightarrow> \<forall>kv\<in>set kvs. storable (fst kv) (snd kv) \<Longrightarrow> put_all kvs s = Some s' \<Longrightarrow>
    get l s' = (case map_of (rev kvs) l of Some v \<Rightarrow> Some v | None \<Rightarrow> get l s)"
proof (induction kvs arbitrary: s)
  case (Cons kv kvs)
  obtain k v where kv: "kv = (k, v)" by (cases kv)
  from put_total [of s k v] Cons.prems kv obtain s1 where s1: "put k v s = Some s1" "inv s1" by auto
  with Cons kv have "get l s' = (case map_of (rev kvs) l of Some v \<Rightarrow> Some v | None \<Rightarrow> get l s1)" by simp
  then show ?case using get_put [OF Cons.prems(1) _ s1(1), of l] Cons.prems(2) kv
    by (auto simp: map_add_def split: option.splits)
qed simp

text \<open>The order of insertions under different keys does not matter to readers.\<close>

lemma put_commute:
  assumes "inv s" "storable k v" "storable l w" "k \<noteq> l"
    "Option.bind (put k v s) (put l w) = Some s1" "Option.bind (put l w s) (put k v) = Some s2"
  shows "get m s1 = get m s2"
proof -
  from put_total [OF assms(1,2)] put_total [OF assms(1,3)] obtain a b where
    "put k v s = Some a" "inv a" "put l w s = Some b" "inv b" by blast
  then show ?thesis using assms get_put [of s k v a m] get_put [of a l w s1 m] get_put [of s l w b m]
      get_put [of b k v s2 m] by auto
qed

end

locale kv_store = kv_update +
  fixes empty :: 'c
  assumes inv_empty: "inv empty"
    and get_empty: "get k empty = None"
begin

corollary get_built:
  assumes "\<forall>kv\<in>set kvs. storable (fst kv) (snd kv)" "put_all kvs empty = Some s"
  shows "get l s = map_of (rev kvs) l"
  using get_put_all [OF inv_empty assms, of l] by (simp add: get_empty split: option.splits)

end

end
