(* ===== verification/BPlus_Map.thy ===== *)
theory BPlus_Map
  imports BPlus_Correct Kv_Store
begin

text \<open>
  The leaf chain, the invariant of a whole tree, and the refinement of the tree to a finite map:
  \<^verbatim>\<open>upsert\<close>, \<^verbatim>\<open>find\<close>, \<^verbatim>\<open>range_query\<close>, \<^verbatim>\<open>get_data\<close>.
\<close>

section \<open>The leaf chain\<close>

type_synonym leaf_map = "addr \<Rightarrow> (addr \<times> Record list) option"

fun linked :: "leaf_map \<Rightarrow> addr list \<Rightarrow> bool" where
  "linked lv [] \<longleftrightarrow> True"
| "linked lv (a # as) \<longleftrightarrow> map_option fst (lv a) = Some (case as of [] \<Rightarrow> 0 | b # _ \<Rightarrow> b) \<and> linked lv as"

definition chain :: "leaf_map \<Rightarrow> (addr \<Rightarrow> double set) \<Rightarrow> addr list \<Rightarrow> bool" where
  "chain lv D L \<longleftrightarrow> set L = dom lv \<and> distinct L \<and> linked lv L
     \<and> sorted_wrt (\<lambda>a b. \<forall>k\<in>D a. \<forall>l\<in>D b. k < l) L"

definition btree_inv :: "btree_plus \<Rightarrow> bool" where
  "btree_inv t \<longleftrightarrow> (\<exists>D dep L. tree_inv 0 {} D D dep t \<and> chain (leafview (heap_of t)) D L)"

lemma linked_cong: "(\<And>a. a \<in> set L \<Longrightarrow> map_option fst (lv' a) = map_option fst (lv a)) \<Longrightarrow> linked lv' L = linked lv L"
  by (induction L) auto

lemma linked_append: "linked lv (xs @ ys) \<Longrightarrow> linked lv ys"
  by (induction xs) auto

lemma linked_split:
  assumes "linked lv (xs @ node # ys)" "distinct (xs @ node # ys)" "new \<notin> set (xs @ node # ys)"
    "lv node = Some (nx, rs)"
  shows "linked (lv(node \<mapsto> (new, rs1), new \<mapsto> (nx, rs2))) (xs @ node # new # ys)"
  using assms
proof (induction xs)
  case Nil
  have "linked (lv(node \<mapsto> (new, rs1), new \<mapsto> (nx, rs2))) ys = linked lv ys"
    by (rule linked_cong) (use Nil in auto)
  moreover have "linked lv ys" "nx = (case ys of [] \<Rightarrow> 0 | b # _ \<Rightarrow> b)" "new \<noteq> node" using Nil by auto
  ultimately show ?case by (simp del: fun_upd_apply add: fun_upd_same fun_upd_other)
next
  case (Cons x xs)
  then show ?case by (cases xs) auto
qed

lemma chain_split:
  assumes c: "chain lv D (xs @ node # ys)" and lv: "lv node = Some (nx, rs)" and new: "new \<notin> dom lv"
  shows "chain (lv(node \<mapsto> (new, rs1), new \<mapsto> (nx, rs2))) (split_dom D node new key) (xs @ node # new # ys)"
proof -
  let ?D = "split_dom D node new key"
  from c have s: "set (xs @ node # ys) = dom lv" "distinct (xs @ node # ys)" "linked lv (xs @ node # ys)"
    "sorted_wrt (\<lambda>a b. \<forall>k\<in>D a. \<forall>l\<in>D b. k < l) (xs @ node # ys)" by (auto simp: chain_def)
  have nn: "new \<notin> set (xs @ node # ys)" using new s(1) by simp
  have D: "?D a \<subseteq> D a" if "a \<noteq> new" for a using that by (auto simp: split_dom_def)
  have Dn: "?D new \<subseteq> D node" "\<forall>k\<in>?D node. \<forall>l\<in>?D new. k < l" using nn by (auto simp: split_dom_def)
  have "sorted_wrt (\<lambda>a b. \<forall>k\<in>?D a. \<forall>l\<in>?D b. k < l) (xs @ node # ys)"
  proof (rule sorted_wrt_mono_rel [OF _ s(4)])
    fix a b assume "a \<in> set (xs @ node # ys)" "b \<in> set (xs @ node # ys)" "\<forall>k\<in>D a. \<forall>l\<in>D b. k < l"
    then show "\<forall>k\<in>?D a. \<forall>l\<in>?D b. k < l" using D [of a] D [of b] nn
      by (metis subsetD)
  qed
  moreover have "\<forall>b\<in>set ys. \<forall>k\<in>?D new. \<forall>l\<in>?D b. k < l" "\<forall>a\<in>set xs. \<forall>k\<in>?D a. \<forall>l\<in>?D new. k < l"
  proof -
    have "\<forall>b\<in>set ys. \<forall>k\<in>D node. \<forall>l\<in>D b. k < l" "\<forall>a\<in>set xs. \<forall>k\<in>D a. \<forall>l\<in>D node. k < l"
      using s(4) by (auto simp: sorted_wrt_append)
    moreover have "\<forall>b\<in>set ys. ?D b \<subseteq> D b" "\<forall>a\<in>set xs. ?D a \<subseteq> D a"
      using D nn by (metis UnI1 UnI2 list.set_intros(2) set_append)+
    ultimately show "\<forall>b\<in>set ys. \<forall>k\<in>?D new. \<forall>l\<in>?D b. k < l" "\<forall>a\<in>set xs. \<forall>k\<in>?D a. \<forall>l\<in>?D new. k < l"
      using Dn(1) by (meson subsetD)+
  qed
  ultimately have "sorted_wrt (\<lambda>a b. \<forall>k\<in>?D a. \<forall>l\<in>?D b. k < l) (xs @ node # new # ys)"
    using Dn(2) by (auto simp: sorted_wrt_append)
  moreover have "linked (lv(node \<mapsto> (new, rs1), new \<mapsto> (nx, rs2))) (xs @ node # new # ys)"
    by (rule linked_split [OF s(3,2) nn lv])
  ultimately show ?thesis using s(1,2) nn lv by (auto simp: chain_def)
qed

lemma chain_same_leaves:
  assumes "chain (leafview h) D L" "same_leaves h D h' D'"
  shows "chain (leafview h') D' L"
proof -
  have "sorted_wrt (\<lambda>a b. \<forall>k\<in>D' a. \<forall>l\<in>D' b. k < l) L"
    by (rule sorted_wrt_mono_rel [of _ "\<lambda>a b. \<forall>k\<in>D a. \<forall>l\<in>D b. k < l"])
      (use assms in \<open>auto simp: chain_def same_leaves_def dom_def\<close>)
  then show ?thesis using assms by (simp add: chain_def same_leaves_def)
qed

lemma chain_next:
  assumes "chain lv D L" "lv a = Some (nx, rs)" "nx \<noteq> 0"
  shows "nx \<noteq> a \<and> nx \<in> dom lv"
proof -
  from assms obtain xs ys where L: "L = xs @ a # ys" by (metis chain_def domI split_list)
  then have "linked lv (a # ys)" "a \<notin> set ys" "set ys \<subseteq> dom lv"
    using assms(1) linked_append [of lv xs "a # ys"] by (auto simp: chain_def)
  then show ?thesis using assms(2,3) by (cases ys) auto
qed

lemma content_cong: "leafview h' = leafview h \<Longrightarrow> content h' = content h"
  by (simp add: content_def)

section \<open>Insertion\<close>

lemma leafview_leaf: "h a = Some p \<Longrightarrow> is_leaf p \<Longrightarrow> leafview h a = Some (next_leaf p, recs p)"
  by (simp add: leafview_def)

lemma leaf_update_inv:
  assumes inv: "tree_inv 0 {} D D dep t" and p: "heap_of t l = Some p" "is_leaf p"
    and q: "wf_page 13 q" "leaf_ok D l q" "is_leaf q" "parent q = parent p" "next_leaf q = next_leaf p"
    and ch: "chain (leafview (heap_of t)) D L"
  defines "t' \<equiv> t\<lparr>heap_of := (heap_of t)(l \<mapsto> q)\<rparr>"
  shows "tree_inv l {} D D dep t' \<and> chain (leafview (heap_of t')) D L
    \<and> leafview (heap_of t') = (leafview (heap_of t))(l \<mapsto> (next_leaf p, recs q))"
proof -
  have pl: "0 < l" "l < brk t" "D l \<noteq> {}" "dep l \<le> dep (root t)" using tree_inv_page [OF inv p(1)] by auto
  have h': "heap_of t' = (heap_of t)(l \<mapsto> q)" "root t' = root t" "brk t' = brk t" by (simp_all add: t'_def)
  have "tree_inv l {} D D dep t'"
  proof (rule tree_inv_transfer [OF inv, where S = "{l}"])
    show "\<exists>r. heap_of t' (root t') = Some r \<and> parent r = 0" using inv p q by (auto simp: tree_inv_def h')
    show "D (root t') = UNIV" using inv by (simp add: tree_inv_def h')
  next
    fix a y' assume "heap_of t' a = Some y'" "a \<notin> {} " "a \<noteq> root t'"
    then have a: "heap_of t' a = Some y'" "a \<noteq> root t" by (simp_all add: h')
    then obtain y where y: "heap_of t a = Some y" "parent y' = parent y" using p q by (auto simp: h' split: if_splits)
    then obtain f where f: "heap_of t (parent y) = Some f" "\<not> is_leaf f" "a \<in> set (vals f)"
      using inv a(2) unfolding tree_inv_def attached_def by blast
    then have "parent y \<noteq> l" using p by auto
    then show "attached (heap_of t') a y'" using f y(2) by (auto simp: attached_def h')
  next
    fix a y assume "heap_of t' a = Some y"
    then show "dep a \<le> dep (root t')" using tree_inv_page(4) [OF inv, of a] pl by (auto simp: h' split: if_splits)
  qed (use pl p q tree_inv_page(2) [OF inv, of 0] in \<open>auto simp: h' page_ok_def split: if_splits\<close>)
  moreover have lv: "leafview (heap_of t') = (leafview (heap_of t))(l \<mapsto> (next_leaf p, recs q))"
    using q by (auto simp: fun_eq_iff leafview_def h')
  moreover have "chain (leafview (heap_of t')) D L"
    using ch linked_cong [of L "leafview (heap_of t')" "leafview (heap_of t)"] leafview_leaf [of "heap_of t" l p] p
    unfolding lv chain_def by auto
  ultimately show ?thesis by blast
qed

lemma leafview_SomeD:
  "leafview h a = Some (n, rs) \<Longrightarrow> \<exists>q. h a = Some q \<and> is_leaf q \<and> n = next_leaf q \<and> rs = recs q"
  by (auto simp: leafview_def split: option.splits if_splits)

lemma content_split:
  assumes lv: "leafview h l = Some (nx, rs)" "leafview h new = None" "l \<noteq> new"
    and lv': "leafview h' = (leafview h)(l \<mapsto> (n1, take m rs), new \<mapsto> (n2, drop m rs))"
  shows "content h' = content h"
proof (rule set_eqI)
  fix r
  let ?rest = "\<exists>a n qs. a \<noteq> l \<and> a \<noteq> new \<and> leafview h a = Some (n, qs) \<and> r \<in> set qs"
  have "r \<in> content h' \<longleftrightarrow> r \<in> set (take m rs) \<or> r \<in> set (drop m rs) \<or> ?rest"
    unfolding content_def lv' using lv(3) by auto
  also have "\<dots> \<longleftrightarrow> r \<in> set rs \<or> ?rest" by (metis append_take_drop_id Un_iff set_append)
  also have "\<dots> \<longleftrightarrow> r \<in> content h"
    unfolding content_def using lv by auto (metis Pair_inject option.distinct(1) option.inject)
  finally show "r \<in> content h' \<longleftrightarrow> r \<in> content h" .
qed

lemma settle_leaf_ok:
  assumes inv: "tree_inv l {} D D dep t" and p: "heap_of t l = Some p" "is_leaf p"
    and ch: "chain (leafview (heap_of t)) D L"
  shows "\<exists>t'. settle_leaf l t = Some (Inr t') \<and> btree_inv t' \<and> content (heap_of t') = content (heap_of t)"
proof (cases "record_num p \<ge> 13")
  case False
  then have "tree_inv 0 {} D D dep t" using tree_inv_unfull [OF inv p(1)] by simp
  then show ?thesis using False p ch
    by (auto simp: settle_leaf_def split_father_def get_page_def btree_inv_def)
next
  case True
  let ?new = "brk t" and ?h = "heap_of t"
  have w: "wf_page 13 p" using tree_inv_page(3) [OF inv p(1)] by simp
  then have n: "record_num p = 13" "length (recs p) = 13" using True wf_page_length [OF w] by (auto simp: wf_page_def)
  have fresh: "?h ?new = None" using tree_inv_page(1) [OF inv, of ?new] by (cases "?h ?new") auto
  have lv: "leafview ?h l = Some (next_leaf p, recs p)" using p by (simp add: leafview_def)
  have "next_leaf p \<noteq> 0 \<longrightarrow> next_leaf p \<noteq> l \<and> ?h (next_leaf p) \<noteq> None"
    using chain_next [OF ch lv] by (auto simp: leafview_def split: option.splits)
  from split_leaf_run [OF inv p n(1) this] obtain pl s h' where sp:
    "split l t = Inr (?new, t\<lparr>heap_of := h', brk := ?new + 1\<rparr>)" "split_heap ?h l p ?new 7 pl s h'"
    "leafview h' = (leafview ?h)(l \<mapsto> (?new, take 7 (recs p)), ?new \<mapsto> (next_leaf p, drop 7 (recs p)))"
    "records s ! 0 = recs p ! 7" by blast
  define key where "key = fst (recs p ! 7)"
  define D' where "D' = split_dom D l ?new key"
  let ?t = "t\<lparr>heap_of := h', brk := ?new + 1\<rparr>"
  have pd: "pend l key ?new (D'(l := D l)) D' (dep(?new := dep l)) ?t"
    unfolding D'_def by (rule split_pend [OF inv p(1) _ _ refl sp(2) key_def]) (use n in auto)
  obtain xs ys where L: "L = xs @ l # ys" using ch lv by (metis chain_def domI split_list)
  have "?new \<notin> dom (leafview ?h)" using fresh by (simp add: leafview_def domIff)
  then have ch': "chain (leafview h') D' (xs @ l # ?new # ys)"
    unfolding sp(3) D'_def using chain_split [OF ch [unfolded L] lv] by blast
  from insert_into_parent_ok [OF pd] obtain t' E dep' where t': "insert_into_parent l key ?new ?t = Some (Inr t')"
    "tree_inv 0 {} E E dep' t'" "same_leaves h' D' (heap_of t') E" by auto
  have "h' ?new = Some s" using sp(2) by (simp add: split_heap_def)
  then have "settle_leaf l t = Some (Inr t')"
    using p(1) True sp t'(1) by (simp add: settle_leaf_def split_father_def get_page_def key_def)
  moreover have "btree_inv t'" using t'(2) chain_same_leaves [OF ch' t'(3)] by (auto simp: btree_inv_def)
  moreover have "content h' = content ?h"
    by (rule content_split [OF lv _ _ sp(3)]) (use p fresh in \<open>auto simp: leafview_def\<close>)
  ultimately show ?thesis using t'(3) content_cong [of "heap_of t'" h'] by (auto simp: same_leaves_def)
qed

lemma leaf_update_content:
  assumes inv: "tree_inv 0 {} D D dep t" and l: "find_leaf_page k t = Some (Inr l)" "heap_of t l = Some p" "is_leaf p"
    and lv: "leafview h' = (leafview (heap_of t))(l \<mapsto> (nx, rs))"
    and rs: "set rs = new \<union> {r \<in> set (recs p). fst r \<noteq> k}"
  shows "content h' = new \<union> {r \<in> content (heap_of t). fst r \<noteq> k}"
proof -
  let ?h = "heap_of t"
  have pl: "leafview ?h l = Some (next_leaf p, recs p)" using l by (simp add: leafview_def)
  have other: "fst r \<noteq> k" if "leafview ?h a = Some (n, qs)" "r \<in> set qs" "a \<noteq> l" for a n qs r
  proof
    assume k: "fst r = k"
    from leafview_SomeD [OF that(1)] obtain q where q: "?h a = Some q" "is_leaf q" "recs q = qs" by blast
    then have "k \<in> D a" using tree_inv_page(5) [OF inv q(1,2)] that(2) k by (auto simp: leaf_ok_def)
    from find_leaf_unique [OF inv q(1,2) this] l(1) that(3) show False by simp
  qed
  show ?thesis
  proof (rule set_eqI)
    fix r
    have "r \<in> content h' \<longleftrightarrow> r \<in> set rs \<or> (\<exists>a n qs. a \<noteq> l \<and> leafview ?h a = Some (n, qs) \<and> r \<in> set qs)"
      unfolding content_def lv by auto
    also have "\<dots> \<longleftrightarrow> r \<in> new \<or> fst r \<noteq> k \<and> r \<in> set (recs p)
        \<or> fst r \<noteq> k \<and> (\<exists>a n qs. a \<noteq> l \<and> leafview ?h a = Some (n, qs) \<and> r \<in> set qs)"
      unfolding rs Un_iff mem_Collect_eq using other by metis
    also have "\<dots> \<longleftrightarrow> r \<in> new \<union> {r \<in> content ?h. fst r \<noteq> k}"
      unfolding content_def using pl by auto (metis Pair_inject option.inject)
    finally show "r \<in> content h' \<longleftrightarrow> r \<in> new \<union> {r \<in> content ?h. fst r \<noteq> k}" .
  qed
qed

lemma upsert_ok:
  assumes "btree_inv t" and v: "v \<noteq> 0"
  shows "\<exists>ret t'. upsert k v t = Some (Inr (ret, t')) \<and> btree_inv t'
    \<and> content (heap_of t') = insert (k, uint v) {r \<in> content (heap_of t). fst r \<noteq> k}
    \<and> ret = (if \<exists>x. (k, x) \<in> content (heap_of t) then 3 else 4)"
proof -
  from assms(1) obtain D dep L where inv: "tree_inv 0 {} D D dep t" and ch: "chain (leafview (heap_of t)) D L"
    by (auto simp: btree_inv_def)
  obtain l p where l: "find_leaf_page k t = Some (Inr l)" "heap_of t l = Some p" "is_leaf p" "k \<in> D l"
    and ok: "leaf_ok D l p" using find_leaf_page_ok [OF inv, of k] by metis
  have w: "wf_page 12 p" "sorted_recs p" "0 < l"
    using tree_inv_page(2,3) [OF inv l(2)] ok by (auto simp: leaf_ok_def)
  have at: "(k, x) \<in> content (heap_of t) \<longleftrightarrow> (k, x) \<in> set (recs p)" for x
    using content_at_leaf [OF inv l(1-3)] .
  have uv: "0 \<le> uint v" "uint v < 2 ^ 64" using uint_lt2p [of v] by auto
  show ?thesis
  proof (cases "\<exists>x. (k, x) \<in> set (recs p)")
    case True
    then obtain x where x: "(k, x) \<in> set (recs p)" by blast
    from insert_in_node_hit [OF w(1,2) v x] obtain q where q:
      "insert_in_node k v p = Inr (record_num p, INT64_MAX, q)" "wf_page 12 q" "sorted_recs q"
      "set (recs q) = insert (k, uint v) {r \<in> set (recs p). fst r \<noteq> k}" "record_num q = record_num p"
      "q = p\<lparr>records := records q\<rparr>" by blast
    have q': "is_leaf q" "parent q = parent p" "next_leaf q = next_leaf p" using l(3) by (subst q(6), simp)+
    let ?t = "t\<lparr>heap_of := (heap_of t)(l \<mapsto> q)\<rparr>"
    have "leaf_ok D l q" unfolding leaf_ok_def q(4) using q(3) l(4) ok uv by (auto simp: leaf_ok_def)
    then have li: "tree_inv l {} D D dep ?t" "chain (leafview (heap_of ?t)) D L"
      "leafview (heap_of ?t) = (leafview (heap_of t))(l \<mapsto> (next_leaf p, recs q))"
      using leaf_update_inv [OF inv l(2,3) wf_page_mono [OF q(2)] _ q' ch] by auto
    have "record_num q \<le> 12" using q(2) by (simp add: wf_page_def)
    then have "btree_inv ?t" using tree_inv_unfull [OF li(1)] li(2) by (auto simp: btree_inv_def)
    moreover have "content (heap_of ?t) = insert (k, uint v) {r \<in> content (heap_of t). fst r \<noteq> k}"
      using leaf_update_content [OF inv l(1-3) li(3), of "{(k, uint v)}"] q(4) by simp
    moreover have "upsert k v t = Some (Inr (3, ?t))"
      using l q(1) by (simp add: upsert_def get_page_def)
    ultimately show ?thesis using True at by auto
  next
    case False
    then have no: "k \<notin> fst ` set (recs p)" by auto
    from insert_in_node_miss [OF w(1,2) v no] obtain q where q:
      "insert_in_node k v p = Inr (record_num p + 1, v, q)" "wf_page 13 q" "sorted_recs q"
      "set (recs q) = insert (k, uint v) (set (recs p))"
      "q = p\<lparr>records := records q, record_num := record_num q\<rparr>" by blast
    have q': "is_leaf q" "parent q = parent p" "next_leaf q = next_leaf p" using l(3) by (subst q(5), simp)+
    let ?t = "t\<lparr>heap_of := (heap_of t)(l \<mapsto> q)\<rparr>"
    have "leaf_ok D l q" unfolding leaf_ok_def q(4) using q(3) l(4) ok uv by (auto simp: leaf_ok_def)
    then have li: "tree_inv l {} D D dep ?t" "chain (leafview (heap_of ?t)) D L"
      "leafview (heap_of ?t) = (leafview (heap_of t))(l \<mapsto> (next_leaf p, recs q))"
      using leaf_update_inv [OF inv l(2,3) q(2) _ q' ch] by auto
    obtain t' where t': "settle_leaf l ?t = Some (Inr t')" "btree_inv t'" "content (heap_of t') = content (heap_of ?t)"
      using settle_leaf_ok [OF li(1) _ q'(1) li(2)] by auto
    have "set (recs q) = {(k, uint v)} \<union> {r \<in> set (recs p). fst r \<noteq> k}" using q(4) no by auto
    then have "content (heap_of ?t) = insert (k, uint v) {r \<in> content (heap_of t). fst r \<noteq> k}"
      using leaf_update_content [OF inv l(1-3) li(3), of "{(k, uint v)}"] by simp
    moreover have "upsert k v t = Some (Inr (4, t'))"
      using l q(1) t'(1) by (simp add: upsert_def get_page_def)
    ultimately show ?thesis using t'(2,3) False at by auto
  qed
qed

section \<open>The tree as a map\<close>

lemma btree_inv_init: "btree_inv btree_plus_init"
proof -
  let ?p = "(new_page 0)\<lparr>is_leaf := True\<rparr>"
  let ?D = "\<lambda>a :: addr. UNIV :: double set" and ?dep = "\<lambda>a :: addr. 0 :: nat"
  have r: "recs (new_page 0) = []" by (simp add: recs_def new_page_def)
  have lv: "leafview (heap_of btree_plus_init) = [1 \<mapsto> (0, [])]"
    by (auto simp: fun_eq_iff leafview_def btree_plus_init_def recs_def new_page_def)
  have "wf_page 12 ?p" by (simp add: wf_page_def recs_def new_page_def)
  then have "page_ok 0 (heap_of btree_plus_init) ?D ?D ?dep 1 ?p"
    by (simp add: page_ok_def leaf_ok_def sorted_recs_def r)
  then have "tree_inv 0 {} ?D ?D ?dep btree_plus_init"
    by (auto simp: tree_inv_def btree_plus_init_def split: if_splits)
  moreover have "chain (leafview (heap_of btree_plus_init)) ?D [1]" unfolding lv by (auto simp: chain_def)
  ultimately show ?thesis unfolding btree_inv_def by blast
qed

lemma content_init: "content (heap_of btree_plus_init) = {}"
  by (auto simp: content_def leafview_def btree_plus_init_def recs_def new_page_def split: if_splits)

text \<open>The reader's view of a tree: what \<^verbatim>\<open>find\<close> answers.\<close>

definition lookup :: "double \<Rightarrow> btree_plus \<Rightarrow> payload_t option" where
  "lookup k t = (case find k t of Some (Inr r) \<Rightarrow> r | _ \<Rightarrow> None)"

definition insert_run :: "double \<Rightarrow> payload_t \<Rightarrow> btree_plus \<Rightarrow> btree_plus option" where
  "insert_run k v t = (case upsert k v t of Some (Inr (_, t')) \<Rightarrow> Some t' | _ \<Rightarrow> None)"

lemma find_inv:
  assumes "btree_inv t"
  shows "find k t = Some (Inr (lookup k t))"
    and "lookup k t = Some v \<longleftrightarrow> (k, uint v) \<in> content (heap_of t)"
proof -
  from assms obtain D dep where "tree_inv 0 {} D D dep t" by (auto simp: btree_inv_def)
  from find_content [OF this, of k] obtain r where r: "find k t = Some (Inr r)"
    "\<And>v. r = Some v \<longleftrightarrow> (k, uint v) \<in> content (heap_of t)" by blast
  from r(1) have "lookup k t = r" by (simp add: lookup_def)
  then show "find k t = Some (Inr (lookup k t))"
    "lookup k t = Some v \<longleftrightarrow> (k, uint v) \<in> content (heap_of t)" using r by simp_all
qed

lemma content_range:
  assumes "btree_inv t" "(k, x) \<in> content (heap_of t)"
  shows "0 \<le> x \<and> x < 2 ^ 64"
proof -
  from assms(1) obtain D dep where inv: "tree_inv 0 {} D D dep t" by (auto simp: btree_inv_def)
  from assms(2) obtain a n qs where "leafview (heap_of t) a = Some (n, qs)" "(k, x) \<in> set qs" by (auto simp: content_def)
  then obtain q where "heap_of t a = Some q" "is_leaf q" "(k, x) \<in> set (recs q)" using leafview_SomeD by blast
  then show ?thesis using tree_inv_page(5) [OF inv] by (force simp: leaf_ok_def)
qed

lemma content_lookup:
  assumes "btree_inv t"
  shows "(\<exists>x. (k, x) \<in> content (heap_of t)) \<longleftrightarrow> lookup k t \<noteq> None"
proof
  assume "\<exists>x. (k, x) \<in> content (heap_of t)"
  then obtain x where x: "(k, x) \<in> content (heap_of t)" by blast
  then have "uint (of_int x :: u64) = x"
    using content_range [OF assms x] by (simp add: uint_word_of_int_eq take_bit_int_eq_self)
  then have "lookup k t = Some (of_int x)" unfolding find_inv(2) [OF assms] using x by simp
  then show "lookup k t \<noteq> None" by simp
next
  assume "lookup k t \<noteq> None"
  then show "\<exists>x. (k, x) \<in> content (heap_of t)" using find_inv(2) [OF assms] by blast
qed

lemma lookup_upsert:
  assumes t: "btree_inv t" and v: "v \<noteq> 0" and t': "insert_run k v t = Some t'"
  shows "btree_inv t'" "lookup l t' = (if l = k then Some v else lookup l t)"
proof -
  from upsert_ok [OF t v, of k] t' show i: "btree_inv t'" by (auto simp: insert_run_def)
  from upsert_ok [OF t v, of k] t' have c: "content (heap_of t') = insert (k, uint v) {r \<in> content (heap_of t). fst r \<noteq> k}"
    by (auto simp: insert_run_def)
  have "lookup l t' = Some w \<longleftrightarrow> (if l = k then w = v else lookup l t = Some w)" for w
    unfolding find_inv(2) [OF i] find_inv(2) [OF t] c by (auto intro: unsigned_word_eqI)
  note key = this
  show "lookup l t' = (if l = k then Some v else lookup l t)"
    using key [of v] key [of "the (lookup l t)"] key [of "the (lookup l t')"]
    by (cases "l = k"; cases "lookup l t'"; cases "lookup l t") simp_all
qed

interpretation bt: kv_store insert_run lookup btree_inv "\<lambda>_ v. v \<noteq> 0" btree_plus_init
proof
  show "btree_inv btree_plus_init" by (rule btree_inv_init)
  show "lookup k btree_plus_init = None" for k
    using find_inv(2) [OF btree_inv_init, of k] by (cases "lookup k btree_plus_init") (auto simp: content_init)
  show "\<exists>s'. insert_run k v s = Some s' \<and> btree_inv s'" if "btree_inv s" "v \<noteq> 0" for s v k
    using upsert_ok [OF that, of k] by (auto simp: insert_run_def)
  show "lookup l s' = (if l = k then Some v else lookup l s)"
    if "btree_inv s" "v \<noteq> 0" "insert_run k v s = Some s'" for s v k s' l using lookup_upsert(2) [OF that] .
qed

lemma upserts_put_all: "upserts kvs t = Some (Inr t') \<longleftrightarrow> bt.put_all kvs t = Some t'"
  if "btree_inv t" "\<forall>kv\<in>set kvs. snd kv \<noteq> 0"
  using that
proof (induction kvs arbitrary: t)
  case (Cons kv kvs)
  obtain k v where kv: "kv = (k, v)" by (cases kv)
  from upsert_ok [of t v k] Cons.prems kv obtain ret s where s: "upsert k v t = Some (Inr (ret, s))" "btree_inv s" by auto
  then have "insert_run k v t = Some s" by (simp add: insert_run_def)
  with Cons kv s show ?case by simp
qed simp

section \<open>Scans\<close>

definition conv :: "Record \<Rightarrow> double \<times> payload_t" where
  "conv r = (fst r, of_int (snd r))"

definition leaf_recs :: "heap \<Rightarrow> addr \<Rightarrow> Record list" where
  "leaf_recs h a = (case leafview h a of None \<Rightarrow> [] | Some (n, rs) \<Rightarrow> rs)"

lemma leaf_recs_in: "r \<in> set (leaf_recs h a) \<longleftrightarrow> (\<exists>n rs. leafview h a = Some (n, rs) \<and> r \<in> set rs)"
  by (cases "leafview h a") (auto simp: leaf_recs_def)

lemma conv_fun: "conv = (\<lambda>r. (fst r, of_int (snd r)))" and fst_conv_o: "fst \<circ> conv = fst"
  by (auto simp: fun_eq_iff conv_def)

lemma walk_leaves_linked:
  assumes "linked (leafview h) L" "0 \<notin> set L"
  shows "walk_leaves sel h acc (case L of [] \<Rightarrow> 0 | a # _ \<Rightarrow> a)
    = Some (Inr (acc @ concat (map (\<lambda>a. map conv (filter sel (leaf_recs h a))) L)))"
  using assms
proof (induction L arbitrary: acc)
  case Nil
  then show ?case by (simp add: walk_leaves.simps)
next
  case (Cons a L)
  then obtain rs where lv: "leafview h a = Some (case L of [] \<Rightarrow> 0 | b # _ \<Rightarrow> b, rs)" by (cases "leafview h a") auto
  from leafview_SomeD [OF this] obtain p where p: "h a = Some p" "next_leaf p = (case L of [] \<Rightarrow> 0 | b # _ \<Rightarrow> b)" "recs p = rs"
    by auto
  have "walk_leaves sel h acc a = walk_leaves sel h (acc @ map conv (filter sel rs)) (next_leaf p)"
    using p Cons.prems(2) by (subst walk_leaves.simps) (auto simp: conv_fun recs_def)
  then show ?case using Cons p lv by (simp add: leaf_recs_def)
qed

lemma chain_suffix_content:
  assumes inv: "tree_inv 0 {} D D dep t" and ch: "chain (leafview (heap_of t)) D (xs @ ys)"
  shows "sorted_wrt (<) (map fst (concat (map (leaf_recs (heap_of t)) ys)))"
    and "set (concat (map (leaf_recs (heap_of t)) (xs @ ys))) = content (heap_of t)"
proof -
  let ?h = "heap_of t"
  have leaf: "sorted_wrt (<) (map fst (leaf_recs ?h a)) \<and> fst ` set (leaf_recs ?h a) \<subseteq> D a" for a
  proof (cases "leafview ?h a")
    case (Some x)
    then obtain q where "?h a = Some q" "is_leaf q" "snd x = recs q" using leafview_SomeD [of ?h a "fst x" "snd x"] by auto
    then show ?thesis using tree_inv_page(5) [OF inv, of a q] Some
      by (cases x) (simp add: leaf_recs_def leaf_ok_def sorted_recs_def)
  qed (simp add: leaf_recs_def)
  have "sorted_wrt (\<lambda>a b. \<forall>k\<in>D a. \<forall>l\<in>D b. k < l) ys" using ch by (auto simp: chain_def sorted_wrt_append)
  then show "sorted_wrt (<) (map fst (concat (map (leaf_recs ?h) ys)))"
  proof (induction ys)
    case (Cons a ys)
    have "\<forall>b\<in>set ys. \<forall>k\<in>D a. \<forall>l\<in>D b. k < l" using Cons.prems by simp
    then have "k < l" if "k \<in> fst ` set (leaf_recs ?h a)" "b \<in> set ys" "l \<in> fst ` set (leaf_recs ?h b)" for k b l
      using leaf [of a] leaf [of b] that by blast
    then show ?case using Cons leaf [of a] by (auto simp: sorted_wrt_append)
  qed simp
  have "set (xs @ ys) = dom (leafview ?h)" using ch by (simp add: chain_def)
  then show "set (concat (map (leaf_recs ?h) (xs @ ys))) = content ?h"
    by (auto simp: content_def leaf_recs_in) blast
qed

lemma sorted_fst_filter: "sorted_wrt (<) (map fst xs) \<Longrightarrow> sorted_wrt (<) (map fst (filter P xs))"
  by (simp add: sorted_wrt_map sorted_wrt_filter)

lemma scan_result:
  assumes t: "btree_inv t" and s: "sorted_wrt (<) (map fst rs)"
    and rs: "set rs = {r \<in> content (heap_of t). P (fst r)}"
  shows "sorted_wrt (<) (map fst (map conv rs)) \<and> set (map conv rs) = {(k, v). P k \<and> find k t = Some (Inr (Some v))}"
proof -
  have "map fst (map conv rs) = map fst rs" by (simp add: fst_conv_o)
  moreover have "(k, v) \<in> set (map conv rs) \<longleftrightarrow> P k \<and> (k, uint v) \<in> content (heap_of t)" for k v
  proof
    assume "(k, v) \<in> set (map conv rs)"
    then obtain x where "(k, x) \<in> set rs" "v = of_int x" by (auto simp: conv_def)
    then have "(k, x) \<in> content (heap_of t)" "P k" "v = of_int x" using rs by auto
    then show "P k \<and> (k, uint v) \<in> content (heap_of t)"
      using content_range [OF t, of k x] by (simp add: uint_word_of_int_eq take_bit_int_eq_self)
  next
    assume "P k \<and> (k, uint v) \<in> content (heap_of t)"
    then have "(k, uint v) \<in> set rs" using rs by simp
    then show "(k, v) \<in> set (map conv rs)" by (force simp: conv_def)
  qed
  ultimately show ?thesis using s by (auto simp: find_inv [OF t] simp del: map_map)
qed

lemma range_query_ok:
  assumes t: "btree_inv t"
  shows "\<exists>res. range_query lo hi t = Some (Inr res) \<and> sorted_wrt (<) (map fst res)
    \<and> set res = {(k, v). (lo \<le> k \<and> k \<le> hi) \<and> find k t = Some (Inr (Some v))}"
proof -
  let ?h = "heap_of t"
  from t obtain D dep L where inv: "tree_inv 0 {} D D dep t" and ch: "chain (leafview ?h) D L"
    by (auto simp: btree_inv_def)
  obtain l p where l: "find_leaf_page lo t = Some (Inr l)" "?h l = Some p" "is_leaf p" "lo \<in> D l"
    using find_leaf_page_ok [OF inv, of lo] by metis
  have "l \<in> dom (leafview ?h)" using l by (simp add: leafview_def domI)
  then obtain xs ys where L: "L = xs @ l # ys" using ch by (metis chain_def split_list)
  let ?sel = "\<lambda>r :: Record. lo \<le> fst r \<and> fst r \<le> hi \<and> snd r \<noteq> 0"
  let ?P = "\<lambda>k. lo \<le> k \<and> k \<le> hi"
  let ?rs = "filter ?sel (concat (map (leaf_recs ?h) (l # ys)))"
  have z: "0 \<notin> set (l # ys)"
  proof -
    have "leafview ?h 0 = None" using tree_inv_page(2) [OF inv, of 0] by (cases "?h 0") (auto simp: leafview_def)
    then have "0 \<notin> dom (leafview ?h)" by (simp add: domIff)
    then show ?thesis using ch by (auto simp: L chain_def)
  qed
  have lk: "linked (leafview ?h) (l # ys)" using ch linked_append [of _ xs "l # ys"] by (simp add: chain_def L)
  have run: "range_query lo hi t = Some (Inr (map conv ?rs))"
    using walk_leaves_linked [OF lk z, of ?sel "[]"] l(1)
    by (simp add: range_query_def filter_concat map_concat o_def)
  have "sorted_wrt (<) (map fst ?rs)"
    by (rule sorted_fst_filter [OF chain_suffix_content(1) [OF inv ch [unfolded L]]])
  moreover have "set ?rs = {r \<in> content ?h. ?P (fst r)}"
  proof -
    have low: "fst r < lo" if "a \<in> set xs" "r \<in> set (leaf_recs ?h a)" for a r
    proof -
      from that(2) obtain n rs where lv: "leafview ?h a = Some (n, rs)" "r \<in> set rs"
        unfolding leaf_recs_in by blast
      from leafview_SomeD [OF lv(1)] obtain q where "?h a = Some q" "is_leaf q" "rs = recs q" by blast
      then have "fst r \<in> D a" using tree_inv_page(5) [OF inv] lv(2) by (auto simp: leaf_ok_def)
      then show ?thesis using ch that(1) l(4) by (auto simp: chain_def L sorted_wrt_append)
    qed
    have nz: "snd r \<noteq> 0" if "r \<in> content ?h" for r
    proof -
      from that obtain a n rs where "leafview ?h a = Some (n, rs)" "r \<in> set rs" by (auto simp: content_def)
      then obtain q where "?h a = Some q" "r \<in> set (recs q)" using leafview_SomeD by blast
      then show ?thesis using tree_inv_page(3) [OF inv] by (auto simp: wf_page_def)
    qed
    define A B where "A = set (concat (map (leaf_recs ?h) xs))" and "B = set (concat (map (leaf_recs ?h) (l # ys)))"
    have "content ?h = A \<union> B" "\<forall>r\<in>A. \<not> lo \<le> fst r"
      using chain_suffix_content(2) [OF inv ch [unfolded L]] low by (auto simp: A_def B_def not_le)
    moreover have "set ?rs = {r \<in> B. ?sel r}" unfolding B_def by (rule set_filter)
    ultimately show ?thesis using nz by blast
  qed
  ultimately show ?thesis using run scan_result [OF t, of ?rs ?P] by simp
qed

text \<open>
  \<^verbatim>\<open>get_data\<close> starts at the leftmost leaf, which holds all small keys; leaves before it in the chain
  would have to be empty.
\<close>

lemma ex_below: "\<exists>k. k \<le> a \<and> k < b" for a b :: double
  by (rule exI [of _ "min a (Dbl (ordinal b - 1))"]) (auto simp: min_def less_double_def less_eq_double_def)

lemma leftmost_ok:
  assumes "tree_inv F {} D D dep t" "heap_of t a = Some p" "\<forall>k\<le>k0. k \<in> D a"
  shows "\<exists>l q k1. leftmost_leaf (heap_of t) a = Some (Inr l) \<and> heap_of t l = Some q \<and> is_leaf q \<and> (\<forall>k\<le>k1. k \<in> D l)"
  using assms(2,3)
proof (induction "dep a" arbitrary: a p k0 rule: less_induct)
  case less
  show ?case
  proof (cases "is_leaf p")
    case True
    then show ?thesis using less.prems by (subst leftmost_leaf.simps) auto
  next
    case False
    have io: "inner_ok (heap_of t) D D dep a p" using tree_inv_page(6) [OF assms(1) less.prems(1) False] .
    then have ne: "recs p \<noteq> []" by (simp add: inner_ok_def)
    then have i: "0 < length (recs p)" by simp
    with io obtain c where c: "heap_of t (vals p ! 0) = Some c" "D (vals p ! 0) = {k \<in> D a. route p k = 0}"
      "dep (vals p ! 0) < dep a" by (auto simp: inner_ok_def child_ok_def)
    obtain k1 where k1: "k1 \<le> k0" "k1 < fst (hd (tl (recs p)))" using ex_below by blast
    have "route p k = 0" if "k \<le> k1" for k
      using k1(2) that by (cases "tl (recs p)") (auto simp: route_def)
    then have "\<forall>k\<le>k1. k \<in> D (vals p ! 0)" using c(2) less.prems(2) k1(1) by auto
    moreover have "leftmost_leaf (heap_of t) a = leftmost_leaf (heap_of t) (vals p ! 0)"
      using less.prems(1) False i wf_page_nth [OF tree_inv_page(3) [OF assms(1) less.prems(1)]]
        wf_page_length [OF tree_inv_page(3) [OF assms(1) less.prems(1)]]
      by (subst leftmost_leaf.simps) (simp add: vals_def)
    ultimately show ?thesis using less.hyps [OF c(3) c(1)] by simp
  qed
qed

lemma get_data_ok:
  assumes t: "btree_inv t"
  shows "\<exists>res. get_data t = Some (Inr res) \<and> sorted_wrt (<) (map fst res)
    \<and> set res = {(k, v). True \<and> find k t = Some (Inr (Some v))}"
proof -
  let ?h = "heap_of t"
  from t obtain D dep L where inv: "tree_inv 0 {} D D dep t" and ch: "chain (leafview ?h) D L"
    by (auto simp: btree_inv_def)
  from inv obtain r where r: "?h (root t) = Some r" "D (root t) = UNIV" by (auto simp: tree_inv_def)
  then obtain l p k1 where l: "leftmost_leaf ?h (root t) = Some (Inr l)" "?h l = Some p" "is_leaf p" "\<forall>k\<le>k1. k \<in> D l"
    using leftmost_ok [OF inv r(1)] by blast
  have "l \<in> dom (leafview ?h)" using l by (simp add: leafview_def domI)
  then obtain xs ys where L: "L = xs @ l # ys" using ch by (metis chain_def split_list)
  have "xs = []"
  proof (rule ccontr)
    assume "xs \<noteq> []"
    then obtain a where a: "a \<in> set xs" by (cases xs) auto
    then have "a \<in> dom (leafview ?h)" using ch by (auto simp: chain_def L)
    then obtain q where "?h a = Some q" using leafview_SomeD by (metis domD surj_pair)
    then obtain k where "k \<in> D a" using tree_inv_page(7) [OF inv] by blast
    moreover obtain k' where k': "k' \<le> k1" "k' < k" using ex_below by blast
    moreover have "k' \<in> D l" using l(4) k' by blast
    ultimately have "k < k'" using ch a by (auto simp: chain_def L sorted_wrt_append)
    then show False using k'(2) by simp
  qed
  then have ch': "chain (leafview ?h) D ([] @ l # ys)" using ch L by simp
  have "leafview ?h 0 = None" using tree_inv_page(2) [OF inv, of 0] by (cases "?h 0") (auto simp: leafview_def)
  then have "0 \<notin> dom (leafview ?h)" by (simp add: domIff)
  then have z: "0 \<notin> set (l # ys)" using ch' by (auto simp: chain_def)
  have lk: "linked (leafview ?h) (l # ys)" using ch' by (simp add: chain_def)
  let ?rs = "concat (map (leaf_recs ?h) (l # ys))"
  have "get_data t = Some (Inr (map conv ?rs))"
    using walk_leaves_linked [OF lk z, of "\<lambda>r. True" "[]"] l(1) by (simp add: get_data_def map_concat o_def)
  moreover have "sorted_wrt (<) (map fst ?rs)" using chain_suffix_content(1) [OF inv ch'] .
  moreover have "set ?rs = {r \<in> content ?h. True}" using chain_suffix_content(2) [OF inv ch'] by simp
  ultimately show ?thesis using scan_result [OF t, of ?rs "\<lambda>_. True"] by auto
qed

end
