(* ===== verification/BPlus_Delete.thy ===== *)
theory BPlus_Delete
  imports BPlus_Map
begin

text \<open>
  Deletion from the overflow tree.  Removing a key whose leaf does not underflow (or is the root)
  removes exactly that key.  An absent key makes \<^verbatim>\<open>page::remove\<close> run off its end unless it lies behind
  the last record of its leaf.
\<close>

lemma maintain_parent_ok:
  assumes inv: "tree_inv F {} D D dep t" and "heap_of t a = Some p"
  shows "maintain_parent (heap_of t) a = Some (Inr ())"
  using assms(2)
proof (induction "dep (root t) - dep a" arbitrary: a p rule: less_induct)
  case less
  show ?case
  proof (cases "parent p = 0")
    case True
    then show ?thesis using less.prems by (subst maintain_parent.simps) simp
  next
    case False
    then have nr: "a \<noteq> root t" using inv less.prems by (auto simp: tree_inv_def)
    obtain f i where f: "heap_of t (parent p) = Some f" "\<not> is_leaf f" "i < length (recs f)" "vals f ! i = a"
      "dep a < dep (parent p)" by (rule tree_inv_parent [OF inv less.prems nr]) auto
    have rk: "find_child_rank f a = Some i"
      using find_child_rank_inner [OF tree_inv_page(6) [OF inv f(1,2)] f(3)] f(4) by simp
    have "dep (parent p) \<le> dep (root t)" using tree_inv_page(4) [OF inv f(1)] .
    then have "maintain_parent (heap_of t) (parent p) = Some (Inr ())"
      using less.hyps [OF _ f(1)] f(5) by (meson diff_less_mono2 less_le_trans)
    then show ?thesis using less.prems False f(1) rk by (subst maintain_parent.simps) simp
  qed
qed

text \<open>The leaf a key belongs to, as \<^verbatim>\<open>find_leaf_page\<close> locates it.\<close>

definition leaf_of :: "double \<Rightarrow> btree_plus \<Rightarrow> page option" where
  "leaf_of k t = (case find_leaf_page k t of Some (Inr l) \<Rightarrow> heap_of t l | _ \<Rightarrow> None)"

definition no_underflow :: "double \<Rightarrow> btree_plus \<Rightarrow> bool" where
  "no_underflow k t = (case leaf_of k t of None \<Rightarrow> False
     | Some p \<Rightarrow> find_leaf_page k t = Some (Inr (root t)) \<or> (cardinality + 1) div 2 < record_num p)"

lemma delete_present:
  assumes t: "btree_inv t" and hit: "find k t = Some (Inr (Some v))" and nu: "no_underflow k t"
  shows "\<exists>t'. delete_entry k t = Some (Inr (True, t')) \<and> btree_inv t'
    \<and> content (heap_of t') = {r \<in> content (heap_of t). fst r \<noteq> k}"
proof -
  from t obtain D dep L where inv: "tree_inv 0 {} D D dep t" and ch: "chain (leafview (heap_of t)) D L"
    by (auto simp: btree_inv_def)
  obtain l p where l: "find_leaf_page k t = Some (Inr l)" "heap_of t l = Some p" "is_leaf p" "k \<in> D l"
    and ok: "leaf_ok D l p" using find_leaf_page_ok [OF inv, of k] by metis
  have w: "wf_page 12 p" "sorted_recs p" using tree_inv_page(2,3) [OF inv l(2)] ok by (auto simp: leaf_ok_def)
  have "(k, uint v) \<in> set (recs p)"
    using hit find_inv [OF t, of k] content_at_leaf [OF inv l(1-3)] by simp
  from page_remove_hit [OF w this] obtain q where q: "page_remove k p = Inr (record_num p - 1, q)" "wf_page 12 q"
    "sorted_recs q" "set (recs q) = {r \<in> set (recs p). fst r \<noteq> k}" "record_num q = record_num p - 1" "0 < record_num p"
    "q = p\<lparr>records := records q, record_num := record_num q\<rparr>" by blast
  have q': "is_leaf q" "parent q = parent p" "next_leaf q = next_leaf p" using l(3) by (subst q(7), simp)+
  define q2 where "q2 = (if l = root t \<and> record_num q = 0 then q\<lparr>is_deleted := True\<rparr> else q)"
  have q2: "wf_page 12 q2" "is_leaf q2" "parent q2 = parent p" "next_leaf q2 = next_leaf p" "recs q2 = recs q" "record_num q2 = record_num q"
    using q(2) q' by (auto simp: q2_def)
  have "leaf_ok D l q" unfolding leaf_ok_def q(4) using q(3) ok by (auto simp: leaf_ok_def)
  then have lq: "leaf_ok D l q" "leaf_ok D l q2" using q2(5) by (auto simp: leaf_ok_def sorted_recs_def)
  let ?t1 = "t\<lparr>heap_of := (heap_of t)(l \<mapsto> q)\<rparr>" and ?t2 = "t\<lparr>heap_of := (heap_of t)(l \<mapsto> q2)\<rparr>"
  have li1: "tree_inv l {} D D dep ?t1"
    using leaf_update_inv [OF inv l(2,3) wf_page_mono [OF q(2)] lq(1) q' ch] by simp
  have li2: "tree_inv l {} D D dep ?t2" "chain (leafview (heap_of ?t2)) D L"
    "leafview (heap_of ?t2) = (leafview (heap_of t))(l \<mapsto> (next_leaf p, recs q))"
    using leaf_update_inv [OF inv l(2,3) wf_page_mono [OF q2(1)] lq(2) q2(2-4) ch] q2(5) by auto
  have mp: "maintain_parent (heap_of ?t1) l = Some (Inr ())" by (rule maintain_parent_ok [OF li1]) simp
  have "coalesce_or_redistribute l ?t1 = Some (Inr (False, ?t2))"
  proof (cases "l = root t")
    case True
    then show ?thesis using q' by (subst coalesce_or_redistribute.simps)
        (simp add: rebalance_def adjust_root_def get_page_def q2_def)
  next
    case False
    then have "7 \<le> record_num q" using nu l q(5) by (auto simp: no_underflow_def leaf_of_def)
    then show ?thesis using False by (subst coalesce_or_redistribute.simps)
        (simp add: rebalance_def get_page_def q2_def)
  qed
  then have "delete_entry k t = Some (Inr (True, ?t2))"
    using l q(1,6) mp by (simp add: delete_entry_def get_page_def Let_def)
  moreover have "record_num q2 \<le> 12" using q2(1) by (simp add: wf_page_def)
  then have "btree_inv ?t2" using tree_inv_unfull [OF li2(1)] li2(2) by (auto simp: btree_inv_def)
  moreover have "content (heap_of ?t2) = {r \<in> content (heap_of t). fst r \<noteq> k}"
    using leaf_update_content [OF inv l(1-3) li2(3), of "{}"] q(4) by simp
  ultimately show ?thesis by blast
qed

lemma page_remove_miss:
  assumes w: "wf_page m p" and s: "sorted_recs p" and no: "k \<notin> fst ` set (recs p)"
  shows "page_remove k p = (if \<exists>r\<in>set (recs p). k < fst r then Inl NoReturn else Inr (record_num p, p))"
proof -
  have i: "leaf_pos p k \<le> record_num p" using leaf_pos_le [OF w] .
  have ex: "(\<exists>r\<in>set (recs p). k < fst r) \<longleftrightarrow> leaf_pos p k < record_num p"
  proof
    assume "\<exists>r\<in>set (recs p). k < fst r"
    then obtain r where r: "r \<in> set (recs p)" "k < fst r" by blast
    show "leaf_pos p k < record_num p"
    proof (rule ccontr)
      assume "\<not> leaf_pos p k < record_num p"
      then have "take (leaf_pos p k) (recs p) = recs p" using wf_page_length [OF w] by simp
      then show False using leaf_pos_below [of r p k] r by simp
    qed
  next
    assume lt: "leaf_pos p k < record_num p"
    then have "recs p ! leaf_pos p k \<in> set (recs p)" "k \<le> fst (recs p ! leaf_pos p k)"
      using wf_page_length [OF w] leaf_pos_nth [of p k] by auto
    then show "\<exists>r\<in>set (recs p). k < fst r" using no by (metis image_eqI le_imp_less_or_eq)
  qed
  have "fst (records p ! leaf_pos p k) \<noteq> k" if "leaf_pos p k < record_num p"
    using that no wf_page_nth [OF w that] wf_page_length [OF w] by (metis image_eqI nth_mem)
  then show ?thesis unfolding ex using i by (auto simp: page_remove_def lower_bound_wf [OF w])
qed

lemma delete_absent:
  assumes t: "btree_inv t" and miss: "find k t = Some (Inr None)" and p: "leaf_of k t = Some p"
  shows "delete_entry k t = (if \<exists>r\<in>set (recs p). k < fst r then Some (Inl NoReturn) else Some (Inr (False, t)))"
proof -
  from t obtain D dep where inv: "tree_inv 0 {} D D dep t" by (auto simp: btree_inv_def)
  obtain l p' where l: "find_leaf_page k t = Some (Inr l)" "heap_of t l = Some p'" "is_leaf p'"
    and ok: "leaf_ok D l p'" using find_leaf_page_ok [OF inv, of k] by metis
  have pp: "p' = p" using p l by (simp add: leaf_of_def)
  have w: "wf_page 12 p" "sorted_recs p" using tree_inv_page(2,3) [OF inv l(2)] ok pp by (auto simp: leaf_ok_def)
  have "(k, x) \<notin> set (recs p)" for x
  proof
    assume a: "(k, x) \<in> set (recs p)"
    then have "0 \<le> x \<and> x < 2 ^ 64" using ok pp by (force simp: leaf_ok_def)
    then have "uint (of_int x :: u64) = x" by (simp add: uint_word_of_int_eq take_bit_int_eq_self)
    then have "lookup k t = Some (of_int x)"
      unfolding find_inv(2) [OF t] using a content_at_leaf [OF inv l] pp by simp
    then show False using miss find_inv(1) [OF t, of k] by simp
  qed
  then have no: "k \<notin> fst ` set (recs p)" by auto
  have "(heap_of t)(l \<mapsto> p) = heap_of t" using l pp by auto
  moreover have "maintain_parent (heap_of t) l = Some (Inr ())" by (rule maintain_parent_ok [OF inv l(2)])
  ultimately show ?thesis using l pp page_remove_miss [OF w no]
    by (simp add: delete_entry_def get_page_def Let_def)
qed

end
