(* ===== verification/BPlus_Props.thy ===== *)
theory BPlus_Props
  imports BPlus_Delete
begin

text \<open>
  The properties of the overflow tree: it refines a finite map under insertion, its scans return
  exactly the map in key order, and deletion is characterised where it stays clear of rebalancing.
  The last ones pin down where the code leaves its own invariant.
\<close>

text \<open>C5: On every tree that insertions can build, \<^verbatim>\<open>btree_plus::upsert\<close> with a non-null payload
  returns (no failed assert, no exit, no null dereference, no endless climb), keeps the tree
  invariant, and afterwards \<^verbatim>\<open>find\<close> answers the new payload for its key and the old answer for
  every other key.  It returns 3 for an update and 4 for an insertion.\<close>

theorem bplus_upsert_refines_map:
  assumes "btree_inv t" "v \<noteq> 0"
  shows "\<exists>ret t'. upsert k v t = Some (Inr (ret, t')) \<and> btree_inv t'
    \<and> (\<forall>l. find l t' = (if l = k then Some (Inr (Some v)) else find l t))
    \<and> ret = (if find k t = Some (Inr None) then 4 else 3)"
proof -
  from upsert_ok [OF assms, of k] obtain ret t' where u: "upsert k v t = Some (Inr (ret, t'))"
    "btree_inv t'" "ret = (if \<exists>x. (k, x) \<in> content (heap_of t) then 3 else 4)" by blast
  have "insert_run k v t = Some t'" using u(1) by (simp add: insert_run_def)
  from lookup_upsert [OF assms this] have "find l t' = (if l = k then Some (Inr (Some v)) else find l t)" for l
    using find_inv(1) [OF assms(1)] find_inv(1) [OF u(2)] by simp
  moreover have "(\<exists>x. (k, x) \<in> content (heap_of t)) \<longleftrightarrow> find k t \<noteq> Some (Inr None)"
    using content_lookup [OF assms(1), of k] find_inv(1) [OF assms(1), of k] by simp
  ultimately show ?thesis using u by auto
qed

theorem bplus_upsert_refines_map_witness:
  "btree_inv btree_plus_init \<and> (7 :: u64) \<noteq> 0 \<and> (\<exists>ret t'. upsert (Dbl 5) 7 btree_plus_init = Some (Inr (ret, t')) \<and> btree_inv t'
    \<and> (\<forall>l. find l t' = (if l = Dbl 5 then Some (Inr (Some 7)) else find l btree_plus_init))
    \<and> ret = (if find (Dbl 5) btree_plus_init = Some (Inr None) then 4 else 3))"
  using bplus_upsert_refines_map [OF btree_inv_init, of 7 "Dbl 5"] btree_inv_init by simp

text \<open>A tree built from the empty one by any sequence of upserts with non-null payloads exists
  (every insertion returns, through all splits up to the root) and \<^verbatim>\<open>find\<close> answers for every key the
  payload of its last upsert, or absence.\<close>

theorem bplus_build_find:
  assumes "\<forall>kv\<in>set kvs. snd kv \<noteq> 0"
  shows "\<exists>t. upserts kvs btree_plus_init = Some (Inr t) \<and> btree_inv t
    \<and> (\<forall>k. find k t = Some (Inr (map_of (rev kvs) k)))"
proof -
  from bt.put_all_total [OF bt.inv_empty assms] obtain t where t: "bt.put_all kvs btree_plus_init = Some t" "btree_inv t"
    by blast
  then have "upserts kvs btree_plus_init = Some (Inr t)" using upserts_put_all [OF bt.inv_empty assms] by simp
  then show ?thesis using t find_inv(1) [OF t(2)] bt.get_built [OF assms t(1)] by simp
qed

theorem bplus_build_find_witness:
  "list_all (\<lambda>kv. snd kv \<noteq> 0) [(Dbl 4, 1), (Dbl 2, 9), (Dbl 4, 3 :: u64)]
    \<and> (\<exists>t. upserts [(Dbl 4, 1), (Dbl 2, 9), (Dbl 4, 3)] btree_plus_init = Some (Inr t) \<and> btree_inv t
      \<and> (\<forall>k. find k t = Some (Inr (map_of (rev [(Dbl 4, 1), (Dbl 2, 9), (Dbl 4, 3)]) k))))"
  using bplus_build_find [of "[(Dbl 4, 1), (Dbl 2, 9), (Dbl 4, 3)]"] by simp

definition one_key :: btree_plus where
  "one_key = (case upsert (Dbl 5) 7 btree_plus_init of Some (Inr (_, t)) \<Rightarrow> t | _ \<Rightarrow> btree_plus_init)"

lemma one_key_inv: "btree_inv one_key"
  using upsert_ok [OF btree_inv_init, of 7 "Dbl 5"] by (auto simp: one_key_def)

text \<open>C22: \<^verbatim>\<open>btree_plus::range_query\<close> returns, in strictly increasing key order, exactly the pairs that
  \<^verbatim>\<open>find\<close> would report for keys between the two bounds, each once.\<close>

theorem bplus_range_query_exact:
  assumes "btree_inv t"
  shows "\<exists>res. range_query lo hi t = Some (Inr res) \<and> sorted_wrt (<) (map fst res)
    \<and> set res = {(k, v). (lo \<le> k \<and> k \<le> hi) \<and> find k t = Some (Inr (Some v))}"
  using range_query_ok [OF assms] .

theorem bplus_range_query_exact_witness:
  "btree_inv one_key \<and> (\<exists>res. range_query (Dbl 1) (Dbl 9) one_key = Some (Inr res)
    \<and> sorted_wrt (<) (map fst res)
    \<and> set res = {(k, v). (Dbl 1 \<le> k \<and> k \<le> Dbl 9) \<and> find k one_key = Some (Inr (Some v))})"
  using bplus_range_query_exact [OF one_key_inv] one_key_inv by blast

text \<open>\<^verbatim>\<open>btree_plus::get_data\<close>, which a leaf node calls when it is rebuilt, returns every pair of the
  tree exactly once and in strictly increasing key order.\<close>

theorem bplus_get_data_exact:
  assumes "btree_inv t"
  shows "\<exists>res. get_data t = Some (Inr res) \<and> sorted_wrt (<) (map fst res)
    \<and> set res = {(k, v). find k t = Some (Inr (Some v))}"
  using get_data_ok [OF assms] by simp

theorem bplus_get_data_exact_witness:
  "btree_inv one_key \<and> (\<exists>res. get_data one_key = Some (Inr res) \<and> sorted_wrt (<) (map fst res)
    \<and> set res = {(k, v). find k one_key = Some (Inr (Some v))})"
  using bplus_get_data_exact [OF one_key_inv] one_key_inv by blast

text \<open>C23: \<^verbatim>\<open>btree_plus::delete_entry\<close> of a present key whose leaf does not underflow (it keeps at least
  seven records, or it is the root) returns true, keeps the tree invariant and removes exactly that
  key: \<^verbatim>\<open>find\<close> answers as before for all others.\<close>

theorem bplus_delete_present:
  assumes "btree_inv t" "find k t = Some (Inr (Some v))" "no_underflow k t"
  shows "\<exists>t'. delete_entry k t = Some (Inr (True, t')) \<and> btree_inv t'
    \<and> (\<forall>l. find l t' = (if l = k then Some (Inr None) else find l t))"
proof -
  from delete_present [OF assms] obtain t' where t': "delete_entry k t = Some (Inr (True, t'))" "btree_inv t'"
    "content (heap_of t') = {r \<in> content (heap_of t). fst r \<noteq> k}" by blast
  have "lookup l t' = Some w \<longleftrightarrow> l \<noteq> k \<and> lookup l t = Some w" for l w
    unfolding find_inv(2) [OF t'(2)] find_inv(2) [OF assms(1)] t'(3) by auto
  note key = this
  have "lookup l t' = (if l = k then None else lookup l t)" for l
    using key [of l "the (lookup l t)"] key [of l "the (lookup l t')"]
    by (cases "l = k"; cases "lookup l t'"; cases "lookup l t") simp_all
  then show ?thesis using t' find_inv(1) [OF assms(1)] find_inv(1) [OF t'(2)] by auto
qed

theorem bplus_delete_present_witness:
  "btree_inv one_key \<and> find (Dbl 5) one_key = Some (Inr (Some 7)) \<and> no_underflow (Dbl 5) one_key
    \<and> (\<exists>t'. delete_entry (Dbl 5) one_key = Some (Inr (True, t')) \<and> btree_inv t'
        \<and> (\<forall>l. find l t' = (if l = Dbl 5 then Some (Inr None) else find l one_key)))"
proof -
  have a: "find (Dbl 5) one_key = Some (Inr (Some 7))" by code_simp
  have b: "no_underflow (Dbl 5) one_key" by code_simp
  show ?thesis using bplus_delete_present [OF one_key_inv a b] one_key_inv a b by blast
qed

text \<open>\<^verbatim>\<open>btree_plus::delete_entry\<close> of an absent key returns false and changes nothing when the key
  lies behind the last record of its leaf; otherwise \<^verbatim>\<open>page::remove\<close> flows off its end without a
  return statement, which is undefined behaviour.\<close>

theorem bplus_delete_absent:
  assumes "btree_inv t" "find k t = Some (Inr None)" "leaf_of k t = Some p"
  shows "delete_entry k t = (if \<exists>r\<in>set (recs p). k < fst r then Some (Inl NoReturn) else Some (Inr (False, t)))"
  using delete_absent [OF assms] .

theorem bplus_delete_absent_witness:
  "btree_inv one_key \<and> find (Dbl 3) one_key = Some (Inr None)
    \<and> delete_entry (Dbl 3) one_key = Some (Inl NoReturn)"
proof -
  have a: "find (Dbl 3) one_key = Some (Inr None)" by code_simp
  obtain p where p: "leaf_of (Dbl 3) one_key = Some p" "map fst (recs p) = [Dbl 5]"
  proof -
    have "map_option (\<lambda>p. map fst (recs p)) (leaf_of (Dbl 3) one_key) = Some [Dbl 5]" by code_simp
    then show ?thesis using that by auto
  qed
  then obtain r where "r \<in> set (recs p)" "fst r = Dbl 5" by (cases "recs p") auto
  moreover have "Dbl 3 < Dbl 5" by (simp add: less_double_def)
  ultimately have "\<exists>r\<in>set (recs p). Dbl 3 < fst r" by metis
  then show ?thesis using bplus_delete_absent [OF one_key_inv a p(1)] one_key_inv a by simp
qed

text \<open>The keys 1, 2, \<dots>, n with themselves as payloads.\<close>

definition seq_pairs :: "int list \<Rightarrow> (double \<times> payload_t) list" where
  "seq_pairs = map (\<lambda>i. (Dbl i, word_of_int i))"

definition tag :: "'a run \<Rightarrow> unit run" where
  "tag = map_option (map_sum id (\<lambda>_. ()))"

text \<open>Moving the records of a leaf behind those of its left neighbour, and unlinking the emptied leaf.\<close>

lemma move_records_leaf:
  assumes "\<forall>r\<in>set rs. snd r \<noteq> 0"
  shows "h nb = Some q \<Longrightarrow> is_leaf q \<Longrightarrow> wf_page 13 q \<Longrightarrow> record_num q + length rs \<le> 13 \<Longrightarrow>
    \<exists>q'. move_records nb (record_num q) rs h = Inr (h(nb \<mapsto> q')) \<and> recs q' = recs q @ rs \<and> wf_page 13 q'"
  using assms
proof (induction rs arbitrary: q h)
  case Nil
  then show ?case by (intro exI [of _ q]) (auto simp: fun_upd_idem)
next
  case (Cons r rs)
  have "wf_page 12 q" using Cons.prems by (simp add: wf_page_def)
  from insert_pair_wf [OF this, of "record_num q" "snd r" "fst r"] Cons.prems obtain q1 where
    q1: "insert_pair (record_num q) (fst r) (snd r) q = Inr q1" "wf_page 13 q1" "recs q1 = recs q @ [r]"
    "record_num q1 = record_num q + 1" "q1 = q\<lparr>records := records q1, record_num := record_num q1\<rparr>"
    using wf_page_length [of 13 q] by auto
  have leaf: "is_leaf q1" using Cons.prems(2) arg_cong [OF q1(5), of is_leaf] by simp
  have s: "(h(nb \<mapsto> q1)) nb = Some q1" "record_num q1 + length rs \<le> 13" "\<forall>r\<in>set rs. snd r \<noteq> 0" using Cons.prems q1(4) by simp_all
  from Cons.IH [of "h(nb \<mapsto> q1)" q1, OF s(1) leaf q1(2) s(2,3)] obtain q' where
    "move_records nb (record_num q1) rs (h(nb \<mapsto> q1)) = Inr (h(nb \<mapsto> q1, nb \<mapsto> q'))" "recs q' = recs q1 @ rs" "wf_page 13 q'" by blast
  moreover have "h(nb \<mapsto> q1, nb \<mapsto> q') = h(nb \<mapsto> q')" by simp
  ultimately show ?case using Cons.prems(1) q1(1,3,4) leaf
    by (intro exI [of _ q']) (simp add: try_page_def maintain_child_def get_page_def fun_upd_same del: fun_upd_apply)
qed

lemma erase_leaf_node:
  assumes "h node = Some p" "is_leaf p" "prev_leaf p = nb" "h nb = Some q" "nb \<noteq> node" "next_leaf p = 0 \<or> h (next_leaf p) \<noteq> None"
    "h a = Some f" "a \<noteq> node" "a \<noteq> nb"
  shows "\<exists>h1 nx pv f'. erase_node node h = Inr h1 \<and> h1 nb = Some (q\<lparr>next_leaf := nx, prev_leaf := pv\<rparr>)
    \<and> h1 a = Some f' \<and> record_num f' = record_num f"
proof (cases "next_leaf p = 0")
  case True
  then have "erase_node node h = Inr (h(nb \<mapsto> q\<lparr>next_leaf := 0\<rparr>, node := None))"
    using assms(1-5) by (simp add: erase_node_def get_page_def mod_page_def)
  then show ?thesis using assms(5-9)
    by (intro exI [of _ "h(nb \<mapsto> q\<lparr>next_leaf := 0\<rparr>, node := None)"] exI [of _ 0] exI [of _ "prev_leaf q"] exI [of _ f]) simp
next
  case False
  define h1 where "h1 = h(nb \<mapsto> q\<lparr>next_leaf := next_leaf p\<rparr>)"
  obtain r where r: "h1 (next_leaf p) = Some r" using assms(6) False by (cases "next_leaf p = nb") (auto simp: h1_def)
  have e: "erase_node node h = Inr (h1(next_leaf p \<mapsto> r\<lparr>prev_leaf := nb\<rparr>, node := None))"
    using assms(1-5) False r by (simp add: erase_node_def get_page_def mod_page_def h1_def)
  show ?thesis
  proof (cases "next_leaf p = nb")
    case True
    then show ?thesis using e r assms(5-9) by (auto simp: h1_def)
  next
    case n: False
    have "(h1(next_leaf p \<mapsto> r\<lparr>prev_leaf := nb\<rparr>, node := None)) nb = Some (q\<lparr>next_leaf := next_leaf p, prev_leaf := prev_leaf q\<rparr>)"
      using n assms(5) by (simp add: h1_def)
    moreover have "\<exists>f'. (h1(next_leaf p \<mapsto> r\<lparr>prev_leaf := nb\<rparr>, node := None)) a = Some f' \<and> record_num f' = record_num f"
      using r assms(7-9) by (cases "next_leaf p = a") (simp_all add: h1_def)
    ultimately show ?thesis using e by blast
  qed
qed

lemma full_page_rejects:
  assumes "wf_page 13 q" "record_num q = 13" "k \<notin> fst ` set (recs q)"
  shows "insert_in_node k v q = Inl AssertFail \<or> insert_in_node k v q = Inl OutOfBounds"
proof -
  have l: "lower_bound q k = Inr (leaf_pos q k)" by (rule lower_bound_wf [OF assms(1)])
  have "records q = recs q" using assms(1,2) by (simp add: wf_page_def recs_def)
  then have "fst (records q ! leaf_pos q k) \<noteq> k" if "leaf_pos q k < 13"
    using that assms wf_page_length [OF assms(1)] by (metis image_eqI nth_mem)
  then show ?thesis using l assms(2) by (auto simp: insert_in_node_def)
qed

text \<open>C24: Deletion can fill a page completely.  When a leaf falls below half of its capacity and the two leaves
  together hold thirteen records, \<^verbatim>\<open>coalesce_or_redistribute\<close> merges them into the left one, although a page
  needs a free record: the merged page holds the records of both in order, and every later insertion of a new
  key into it fails the assertion \<^verbatim>\<open>record_num < cardinality\<close> or reads past the record array.\<close>

theorem bplus_coalesce_fills_page:
  assumes p: "heap_of t node = Some p" "node \<noteq> root t" "is_leaf p" "wf_page 12 p" "record_num p < 7"
    and q: "heap_of t nb = Some q" "is_leaf q" "wf_page 12 q" "record_num p + record_num q = 13" "prev_leaf p = nb" "nb \<noteq> node"
    and nx: "next_leaf p = 0 \<or> heap_of t (next_leaf p) \<noteq> None"
    and f: "heap_of t (parent p) = Some f" "find_child_rank f node = Some (Suc i)" "snd (records f ! i) = nb" "parent p \<noteq> node" "parent p \<noteq> nb"
  shows "\<exists>t' q'. rebalance node t = Inr (Inr (parent p), t') \<and> heap_of t' nb = Some q' \<and> recs q' = recs q @ recs p \<and> record_num q' = 13
    \<and> (\<forall>k v. k \<notin> fst ` set (recs q') \<longrightarrow> insert_in_node k v q' = Inl AssertFail \<or> insert_in_node k v q' = Inl OutOfBounds)"
proof -
  let ?h = "heap_of t"
  have rs: "\<forall>r\<in>set (recs p). snd r \<noteq> 0" "length (recs p) = record_num p" using p(4) wf_page_length [OF p(4)] by (simp_all add: wf_page_def)
  have "wf_page 13 q" by (rule wf_page_mono [OF q(3)]) simp_all
  from move_records_leaf [OF rs(1), of ?h nb q, OF q(1,2) this] obtain q1 where
    m: "move_records nb (record_num q) (recs p) ?h = Inr (?h(nb \<mapsto> q1))" "recs q1 = recs q @ recs p" "wf_page 13 q1"
    using q(4) rs(2) by auto
  have rf: "record_num f \<noteq> 0" using f(2) by (intro notI) (simp add: find_child_rank_def)
  have "(?h(nb \<mapsto> q1)) node = Some p" "(?h(nb \<mapsto> q1)) nb = Some q1" "next_leaf p = 0 \<or> (?h(nb \<mapsto> q1)) (next_leaf p) \<noteq> None"
    "(?h(nb \<mapsto> q1)) (parent p) = Some f" using p(1) q(6) nx f(1,5) by auto
  from erase_leaf_node [of "?h(nb \<mapsto> q1)", OF this(1) p(3) q(5) this(2) q(6) this(3,4) f(4,5)]
  obtain h1 nx' pv f' where h1: "erase_node node (?h(nb \<mapsto> q1)) = Inr h1" "h1 nb = Some (q1\<lparr>next_leaf := nx', prev_leaf := pv\<rparr>)"
    "h1 (parent p) = Some f'" "record_num f' = record_num f" by blast
  obtain f2 where f2: "erase_pair (Suc i) f' = Inr f2" using rf h1(4) by (simp add: erase_pair_def)
  let ?q = "q1\<lparr>next_leaf := nx', prev_leaf := pv\<rparr>"
  have c: "coalesce_step nb node (parent p) (Suc i) ?h = Inr (h1(parent p \<mapsto> f2))"
    using p(1) q(1) m(1) h1(1,3) f2 by (simp add: coalesce_step_def Let_def get_page_def try_page_def recs_def)
  have "rebalance node t = Inr (Inr (parent p), t\<lparr>heap_of := h1(parent p \<mapsto> f2)\<rparr>)"
    using p q f c by (simp add: rebalance_def get_page_def Let_def)
  moreover have w: "recs ?q = recs q1" "wf_page 13 ?q" "record_num ?q = 13"
  proof -
    show "recs ?q = recs q1" by (simp add: recs_def)
    show "wf_page 13 ?q" using m(3) by (simp add: wf_page_def recs_def)
    show "record_num ?q = 13" using wf_page_length [OF m(3)] m(2) rs(2) wf_page_length [OF q(3)] q(4) by simp
  qed
  ultimately show ?thesis using h1(2) f(5) m(2) full_page_rejects [OF w(2,3)]
    by (intro exI [of _ "t\<lparr>heap_of := h1(parent p \<mapsto> f2)\<rparr>"] exI [of _ ?q]) simp
qed

text \<open>The tree of the keys 1 to 14 without 12, before the leaf that held it is rebalanced.\<close>

definition lacking_leaf :: btree_plus where
  "lacking_leaf = (case upserts (seq_pairs [1, 2, 3, 4, 5, 6, 7, 8, 9, 10, 11, 12, 13, 14]) btree_plus_init of
     Some (Inr t) \<Rightarrow> (case heap_of t 2 of Some p \<Rightarrow> (case page_remove (Dbl 12) p of
       Inr (_, q) \<Rightarrow> t\<lparr>heap_of := (heap_of t)(2 \<mapsto> q)\<rparr> | Inl _ \<Rightarrow> t) | None \<Rightarrow> t) | _ \<Rightarrow> btree_plus_init)"

lemma lacking_leaf_facts:
  "let t = lacking_leaf; p = the (heap_of t 2); q = the (heap_of t 1); f = the (heap_of t 3) in
     heap_of t 2 \<noteq> None \<and> heap_of t 1 \<noteq> None \<and> heap_of t 3 \<noteq> None
     \<and> 2 \<noteq> root t \<and> is_leaf p \<and> wf_page 12 p \<and> record_num p < 7 \<and> parent p = 3 \<and> prev_leaf p = 1 \<and> next_leaf p = 0
     \<and> is_leaf q \<and> wf_page 12 q \<and> record_num p + record_num q = 13 \<and> find_child_rank f 2 = Some (Suc 0) \<and> snd (records f ! 0) = 1
     \<and> map snd (recs q @ recs p) = [1, 2, 3, 4, 5, 6, 7, 8, 9, 10, 11, 13, 14] \<and> Dbl 12 \<notin> fst ` set (recs q @ recs p)"
  by code_simp

theorem bplus_coalesce_fills_page_witness:
  "\<exists>t' q'. rebalance 2 lacking_leaf = Inr (Inr 3, t') \<and> heap_of t' 1 = Some q'
    \<and> map snd (recs q') = [1, 2, 3, 4, 5, 6, 7, 8, 9, 10, 11, 13, 14]
    \<and> (insert_in_node (Dbl 12) 12 q' = Inl AssertFail \<or> insert_in_node (Dbl 12) 12 q' = Inl OutOfBounds)"
proof -
  let ?p = "the (heap_of lacking_leaf 2)" and ?q = "the (heap_of lacking_leaf 1)" and ?f = "the (heap_of lacking_leaf 3)"
  note f = lacking_leaf_facts [unfolded Let_def]
  from f have h: "heap_of lacking_leaf 2 = Some ?p" "heap_of lacking_leaf 1 = Some ?q" "heap_of lacking_leaf 3 = Some ?f" by (simp_all only: option.collapse simp_thms)
  from f have p: "2 \<noteq> root lacking_leaf" "is_leaf ?p" "wf_page 12 ?p" "record_num ?p < 7" "parent ?p = 3" "prev_leaf ?p = 1" "next_leaf ?p = 0" by blast+
  from f have q: "is_leaf ?q" "wf_page 12 ?q" "record_num ?p + record_num ?q = 13" "find_child_rank ?f 2 = Some (Suc 0)" "snd (records ?f ! 0) = 1" by blast+
  from f have r: "map snd (recs ?q @ recs ?p) = [1, 2, 3, 4, 5, 6, 7, 8, 9, 10, 11, 13, 14]" "Dbl 12 \<notin> fst ` set (recs ?q @ recs ?p)" by blast+
  from bplus_coalesce_fills_page [OF h(1) p(1-4) h(2) q(1-3) p(6) _ _ _ q(4,5)] obtain t' q' where
    c: "rebalance 2 lacking_leaf = Inr (Inr 3, t')" "heap_of t' 1 = Some q'" "recs q' = recs ?q @ recs ?p"
    "\<forall>k v. k \<notin> fst ` set (recs q') \<longrightarrow> insert_in_node k v q' = Inl AssertFail \<or> insert_in_node k v q' = Inl OutOfBounds"
    using p(5,7) h(3) by auto
  have "insert_in_node (Dbl 12) 12 q' = Inl AssertFail \<or> insert_in_node (Dbl 12) 12 q' = Inl OutOfBounds"
    using c(4) r(2) unfolding c(3) by blast
  then show ?thesis using c(1,2) r(1) unfolding c(3) [symmetric] by (intro exI conjI)
qed

text \<open>A null payload is stored as a null record value, so the page's record count no longer
  matches and the next access to the tree ends the process.\<close>

theorem bplus_null_payload_exits:
  "tag (bind_run (upsert (Dbl 5) 0 btree_plus_init) (\<lambda>(_, t). find (Dbl 5) t)) = Some (Inl ExitCount)"
  by code_simp

end
