(* ===== verification/Rpc.thy ===== *)
theory Rpc
  imports Plin_Prelude
begin

text \<open>
  The wire protocol: message types and statuses of \<^verbatim>\<open>src/common/proto.h\<close>, the length-prefixed
  frames of \<^verbatim>\<open>src/common/rpc.h\<close> and their blocking reader and writer of
  \<^verbatim>\<open>src/common/rpc.cpp\<close>.  A connected stream socket is modelled from both of its ends: what
  \<^verbatim>\<open>::read\<close> delivers is a list of chunks (one system call never returns more than one
  chunk, an empty chunk or the end of the list is EOF or an error), what \<^verbatim>\<open>::write\<close> accepts is
  a list of byte counts (a missing or zero count is an error).
\<close>

section \<open>Message types and statuses\<close>

text \<open>
  \<^verbatim>\<open>MsgType\<close> has the fixed underlying type \<^verbatim>\<open>uint8_t\<close>, so a cast of any byte is a value of
  it: \<^term>\<open>OTHER_MSG\<close> stands for the bytes without an enumerator.
\<close>

datatype MsgType = QUERY_REQ | QUERY_RESP | EDGE_FETCH_REQ | EDGE_FETCH_RESP
  | PLIN_PARAM_PUSH | HOT_UPDATE | LSTM_TRAIN_TRIGGER | CROSS_EDGE_REQ
  | HEARTBEAT | HEARTBEAT_ACK | RDMA_SNAPSHOT_INFO | OTHER_MSG byte

fun msg_byte :: "MsgType \<Rightarrow> byte" where
  "msg_byte QUERY_REQ = 1"
| "msg_byte QUERY_RESP = 2"
| "msg_byte EDGE_FETCH_REQ = 3"
| "msg_byte EDGE_FETCH_RESP = 4"
| "msg_byte PLIN_PARAM_PUSH = 5"
| "msg_byte HOT_UPDATE = 6"
| "msg_byte LSTM_TRAIN_TRIGGER = 7"
| "msg_byte CROSS_EDGE_REQ = 8"
| "msg_byte HEARTBEAT = 9"
| "msg_byte HEARTBEAT_ACK = 10"
| "msg_byte RDMA_SNAPSHOT_INFO = 11"
| "msg_byte (OTHER_MSG b) = b"

definition msg_of_byte :: "byte \<Rightarrow> MsgType" where
  "msg_of_byte b =
    (if b = 1 then QUERY_REQ else if b = 2 then QUERY_RESP
     else if b = 3 then EDGE_FETCH_REQ else if b = 4 then EDGE_FETCH_RESP
     else if b = 5 then PLIN_PARAM_PUSH else if b = 6 then HOT_UPDATE
     else if b = 7 then LSTM_TRAIN_TRIGGER else if b = 8 then CROSS_EDGE_REQ
     else if b = 9 then HEARTBEAT else if b = 10 then HEARTBEAT_ACK
     else if b = 11 then RDMA_SNAPSHOT_INFO else OTHER_MSG b)"

definition msg_enumerator :: "MsgType \<Rightarrow> bool" where
  "msg_enumerator t \<longleftrightarrow> msg_of_byte (msg_byte t) = t"

datatype Status = OK | NOT_FOUND | PARAM_STALE | NOT_IMPLEMENTED | ERROR

fun status_byte :: "Status \<Rightarrow> byte" where
  "status_byte OK = 0"
| "status_byte NOT_FOUND = 1"
| "status_byte PARAM_STALE = 2"
| "status_byte NOT_IMPLEMENTED = 3"
| "status_byte ERROR = 255"

section \<open>Frames\<close>

record Frame =
  ftype :: MsgType
  body :: "byte list"

text \<open>One \<^verbatim>\<open>::read(fd, p, n)\<close>: at most \<^verbatim>\<open>n\<close> bytes of the next chunk.\<close>

type_synonym rx = "byte list list"

fun sys_read :: "rx \<Rightarrow> nat \<Rightarrow> byte list \<times> rx" where
  "sys_read [] n = ([], [])"
| "sys_read (c # cs) n = (take n c, if length c \<le> n then cs else drop n c # cs)"

function read_all :: "rx \<Rightarrow> nat \<Rightarrow> byte list option \<times> rx" where
  "read_all s n =
    (if n = 0 then (Some [], s)
     else let (got, s') = sys_read s n in
       if got = [] then (None, s')
       else case read_all s' (n - length got) of
           (None, s'') \<Rightarrow> (None, s'')
         | (Some rest, s'') \<Rightarrow> (Some (got @ rest), s''))"
  by pat_completeness auto
termination
  by (relation "measure snd") auto

declare read_all.simps [simp del]

text \<open>One \<^verbatim>\<open>::write(fd, p, n)\<close>: the kernel takes \<^verbatim>\<open>w \<le> n\<close> bytes.\<close>

type_synonym tx = "nat list"

fun sys_write :: "tx \<Rightarrow> nat \<Rightarrow> nat \<times> tx" where
  "sys_write [] n = (0, [])"
| "sys_write (w # ws) n = (min w n, ws)"

text \<open>\<^verbatim>\<open>write_all\<close> returns success, what reached the stream, and the remaining socket.\<close>

function write_all :: "tx \<Rightarrow> byte list \<Rightarrow> bool \<times> byte list \<times> tx" where
  "write_all s bs =
    (if bs = [] then (True, [], s)
     else let (w, s') = sys_write s (length bs) in
       if w = 0 then (False, [], s')
       else case write_all s' (drop w bs) of
           (ok, sent, s'') \<Rightarrow> (ok, take w bs @ sent, s''))"
  by pat_completeness auto
termination
  by (relation "measure (\<lambda>(s, bs). length bs)") auto

declare write_all.simps [simp del]

text \<open>\<^verbatim>\<open>htonl\<close> followed by the bytes in memory: most significant byte first.\<close>

definition be_u32 :: "u32 \<Rightarrow> byte list" where
  "be_u32 v = rev (u32_bytes v)"

definition u32_be :: "byte list \<Rightarrow> u32" where
  "u32_be bs = bytes_u32 (rev bs)"

definition write_frame :: "tx \<Rightarrow> Frame \<Rightarrow> bool \<times> byte list \<times> tx" where
  "write_frame s f =
    (let payload_len = 1 + (of_nat (length (body f)) :: u32);
         (ok1, b1, s1) = write_all s (be_u32 payload_len)
     in if \<not> ok1 then (False, b1, s1)
     else let (ok2, b2, s2) = write_all s1 [msg_byte (ftype f)]
     in if \<not> ok2 then (False, b1 @ b2, s2)
     else if body f = [] then (True, b1 @ b2, s2)
     else let (ok3, b3, s3) = write_all s2 (body f)
     in (ok3, b1 @ b2 @ b3, s3))"

definition read_frame :: "rx \<Rightarrow> Frame option \<times> rx" where
  "read_frame s =
    (case read_all s 4 of (None, s1) \<Rightarrow> (None, s1)
     | (Some len_be, s1) \<Rightarrow>
        let payload_len = u32_be len_be in
        if payload_len < 1 then (None, s1)
        else case read_all s1 1 of (None, s2) \<Rightarrow> (None, s2)
        | (Some tb, s2) \<Rightarrow>
           let body_len = unat (payload_len - 1) in
           if body_len = 0 then (Some \<lparr>ftype = msg_of_byte (hd tb), body = []\<rparr>, s2)
           else case read_all s2 body_len of (None, s3) \<Rightarrow> (None, s3)
           | (Some bd, s3) \<Rightarrow> (Some \<lparr>ftype = msg_of_byte (hd tb), body = bd\<rparr>, s3))"

text \<open>The bytes of a frame on the wire: \<^verbatim>\<open>[u32 length_be][u8 msg_type][body]\<close>.\<close>

definition frame_bytes :: "Frame \<Rightarrow> byte list" where
  "frame_bytes f = be_u32 (1 + of_nat (length (body f))) @ msg_byte (ftype f) # body f"

lemma frame_bytes_nonempty [simp]: "frame_bytes f \<noteq> []"
  by (simp add: frame_bytes_def)

section \<open>The socket loops\<close>

lemma msg_byte_of_byte [simp]: "msg_byte (msg_of_byte b) = b"
  by (simp add: msg_of_byte_def)

lemma msg_enumerator_simps [simp]:
  "msg_enumerator QUERY_REQ" "msg_enumerator QUERY_RESP" "msg_enumerator EDGE_FETCH_REQ"
  "msg_enumerator EDGE_FETCH_RESP" "msg_enumerator PLIN_PARAM_PUSH" "msg_enumerator HOT_UPDATE"
  "msg_enumerator LSTM_TRAIN_TRIGGER" "msg_enumerator CROSS_EDGE_REQ" "msg_enumerator HEARTBEAT"
  "msg_enumerator HEARTBEAT_ACK" "msg_enumerator RDMA_SNAPSHOT_INFO"
  by (simp_all add: msg_enumerator_def msg_of_byte_def)

lemma sys_read_split:
  assumes "\<forall>c \<in> set s. c \<noteq> []" and "n > 0" and "sys_read s n = (got, s')"
  shows "concat s = got @ concat s'" and "\<forall>c \<in> set s'. c \<noteq> []"
    and "length got \<le> n" and "got = [] \<Longrightarrow> s = []"
  using assms by (cases s; auto split: if_splits)+

lemma read_all_step:
  "n > 0 \<Longrightarrow> sys_read s n = (got, s') \<Longrightarrow> got \<noteq> [] \<Longrightarrow>
   read_all s n = (case read_all s' (n - length got) of
     (None, s'') \<Rightarrow> (None, s'') | (Some rest, s'') \<Rightarrow> (Some (got @ rest), s''))"
  by (subst read_all.simps) simp

text \<open>Whatever the chunking, the loop collects exactly the next bytes of the stream.\<close>

lemma read_all_correct:
  assumes "\<forall>c \<in> set s. c \<noteq> []"
  shows "if n \<le> length (concat s)
     then \<exists>s'. read_all s n = (Some (take n (concat s)), s') \<and>
            concat s' = drop n (concat s) \<and> (\<forall>c \<in> set s'. c \<noteq> [])
     else \<exists>s'. read_all s n = (None, s')"
  using assms
proof (induction s n rule: read_all.induct)
  case (1 s n)
  obtain got s' where rd: "sys_read s n = (got, s')" by fastforce
  show ?case
  proof (cases "n = 0")
    case True
    with 1 show ?thesis by (simp add: read_all.simps)
  next
    case False
    then have "n > 0" by simp
    note sp = sys_read_split [OF 1(2) \<open>n > 0\<close> rd]
    show ?thesis
    proof (cases "got = []")
      case True
      with sp have "s = []" by simp
      with False show ?thesis by (simp add: read_all.simps [of "[]" n])
    next
      case ne: False
      note IH = 1(1) [OF False rd [symmetric] refl ne sp(2)]
      have len: "n - length got \<le> length (concat s') \<longleftrightarrow> n \<le> length (concat s)"
        using sp by auto
      show ?thesis
      proof (cases "n \<le> length (concat s)")
        case True
        with IH len obtain s'' where
          "read_all s' (n - length got) = (Some (take (n - length got) (concat s')), s'')"
          "concat s'' = drop (n - length got) (concat s')" "\<forall>c \<in> set s''. c \<noteq> []"
          by auto
        with True sp show ?thesis
          by (auto simp: read_all_step [OF \<open>n > 0\<close> rd ne])
      next
        case False
        with IH len show ?thesis
          by (auto simp: read_all_step [OF \<open>n > 0\<close> rd ne])
      qed
    qed
  qed
qed

lemma read_all_Some:
  assumes "\<forall>c \<in> set s. c \<noteq> []" and "concat s = bs @ rest"
  obtains s' where "read_all s (length bs) = (Some bs, s')" "concat s' = rest"
    "\<forall>c \<in> set s'. c \<noteq> []"
  using read_all_correct [OF assms(1), of "length bs"] assms(2) by auto

lemma write_all_prefix: "write_all s bs = (ok, sent, s') \<Longrightarrow>
    \<exists>rest. bs = sent @ rest \<and> (ok \<longleftrightarrow> rest = [])"
proof (induction s bs arbitrary: ok sent s' rule: write_all.induct)
  case (1 s bs)
  show ?case
  proof (cases "bs = []")
    case True
    with 1(2) show ?thesis by (simp add: write_all.simps)
  next
    case False
    obtain w s1 where w: "sys_write s (length bs) = (w, s1)" by fastforce
    show ?thesis
    proof (cases "w = 0")
      case True
      with 1(2) False w show ?thesis by (simp add: write_all.simps [of s bs])
    next
      case w0: False
      obtain ok1 sent1 s2 where r: "write_all s1 (drop w bs) = (ok1, sent1, s2)"
        by (cases "write_all s1 (drop w bs)")
      with 1(1) [OF False w [symmetric] refl w0] obtain rest
        where "drop w bs = sent1 @ rest" "ok1 \<longleftrightarrow> rest = []" by blast
      moreover from 1(2) False w w0 r have "ok = ok1" "sent = take w bs @ sent1"
        by (auto simp: write_all.simps [of s bs])
      ultimately show ?thesis by (metis append.assoc append_take_drop_id)
    qed
  qed
qed

lemma write_all_ok: "write_all s bs = (True, sent, s') \<Longrightarrow> sent = bs"
  using write_all_prefix by fastforce

lemma write_frame_ok:
  assumes "write_frame s f = (True, sent, s')"
  shows "sent = frame_bytes f"
  using assms
  by (auto simp: write_frame_def frame_bytes_def Let_def dest!: write_all_ok
      split: prod.splits if_splits)

section \<open>The frame round trip\<close>

lemma length_be_u32 [simp]: "length (be_u32 v) = 4"
  by (simp add: be_u32_def)

lemma u32_be_inverse [simp]: "u32_be (be_u32 v) = v"
  by (simp add: be_u32_def u32_be_def)

lemma payload_len_body: "n + 1 < 2 ^ 32 \<Longrightarrow> unat (of_nat n :: u32) = n"
  by (simp add: unat_of_nat)

lemma payload_len_nonzero:
  assumes "n + 1 < 2 ^ 32"
  shows "1 + (of_nat n :: u32) \<noteq> 0"
proof -
  have "unat (1 + (of_nat n :: u32)) = n + 1"
    using assms by (simp add: unat_word_ariths unat_of_nat)
  then show ?thesis by (metis add_is_0 one_neq_zero unat_0)
qed

lemma read_frame_frame_bytes:
  assumes chunks: "\<forall>c \<in> set s. c \<noteq> []" and stream: "concat s = frame_bytes f @ rest"
    and len: "length (body f) + 1 < 2 ^ 32" and enum: "msg_enumerator (ftype f)"
  shows "\<exists>s'. read_frame s = (Some f, s') \<and> concat s' = rest \<and> (\<forall>c \<in> set s'. c \<noteq> [])"
proof -
  let ?len = "be_u32 (1 + of_nat (length (body f)))"
  have "concat s = ?len @ (msg_byte (ftype f) # body f @ rest)"
    using stream by (simp add: frame_bytes_def)
  from read_all_Some [OF chunks this] obtain s1 where
    r1: "read_all s 4 = (Some ?len, s1)" "concat s1 = [msg_byte (ftype f)] @ (body f @ rest)"
      "\<forall>c \<in> set s1. c \<noteq> []" by auto
  from read_all_Some [OF r1(3) r1(2)] obtain s2 where
    r2: "read_all s1 1 = (Some [msg_byte (ftype f)], s2)" "concat s2 = body f @ rest"
      "\<forall>c \<in> set s2. c \<noteq> []" by auto
  from read_all_Some [OF r2(3) r2(2)] obtain s3 where
    r3: "read_all s2 (length (body f)) = (Some (body f), s3)" "concat s3 = rest"
      "\<forall>c \<in> set s3. c \<noteq> []" by auto
  have enum': "msg_of_byte (msg_byte (ftype f)) = ftype f"
    using enum by (simp add: msg_enumerator_def)
  show ?thesis
  proof (cases "body f = []")
    case True
    with r1 r2 enum' len show ?thesis
      by (simp add: read_frame_def Let_def)
  next
    case False
    with r1 r2 r3 enum' len show ?thesis
      by (simp add: read_frame_def Let_def payload_len_nonzero [OF len]
          payload_len_body [OF len] del: One_nat_def)
  qed
qed

text \<open>A stream that ends inside a frame.\<close>

lemma read_all_short:
  assumes "\<forall>c \<in> set s. c \<noteq> []" "length (concat s) < n"
  shows "\<exists>s'. read_all s n = (None, s')"
  using read_all_correct [OF assms(1), of n] assms(2) by auto

lemma read_frame_truncated:
  assumes chunks: "\<forall>c \<in> set s. c \<noteq> []" and stream: "frame_bytes f = concat s @ missing" "missing \<noteq> []"
    and len: "length (body f) + 1 < 2 ^ 32"
  shows "\<exists>s'. read_frame s = (None, s')"
proof -
  let ?len = "be_u32 (1 + of_nat (length (body f)))" and ?t = "msg_byte (ftype f)"
  have total: "length (concat s) < 5 + length (body f)"
    using arg_cong [OF stream(1), of length] stream(2) by (auto simp: frame_bytes_def)
  have st: "concat s @ missing = ?len @ ?t # body f" using stream(1) by (simp add: frame_bytes_def)
  show ?thesis
  proof (cases "length (concat s) < 4")
    case True
    then show ?thesis using read_all_short [OF chunks, of 4] by (auto simp: read_frame_def)
  next
    case False
    then have c4: "concat s = ?len @ drop 4 (concat s)"
      using st by (metis append_eq_append_conv_if append_take_drop_id length_be_u32 not_less)
    from read_all_Some [OF chunks this] obtain s1 where
      r1: "read_all s 4 = (Some ?len, s1)" "concat s1 = drop 4 (concat s)" "\<forall>c \<in> set s1. c \<noteq> []" by auto
    have st1: "concat s1 @ missing = ?t # body f" using st c4 r1(2) by (metis append.assoc same_append_eq)
    show ?thesis
    proof (cases "concat s1 = []")
      case True
      then show ?thesis using read_all_short [OF r1(3), of 1] r1(1) by (auto simp: read_frame_def Let_def)
    next
      case False
      then have "concat s1 = [?t] @ tl (concat s1)" using st1 by (cases "concat s1") auto
      from read_all_Some [OF r1(3) this] obtain s2 where
        r2: "read_all s1 1 = (Some [?t], s2)" "concat s2 = tl (concat s1)" "\<forall>c \<in> set s2. c \<noteq> []" by auto
      have "concat s2 @ missing = body f" using st1 r2(2) False by (cases "concat s1") auto
      then have "length (concat s2) + length missing = length (body f)" by (metis length_append)
      then have short: "length (concat s2) < length (body f)" using stream(2) by (cases missing) simp_all
      from read_all_short [OF r2(3) this] obtain s3 where "read_all s2 (length (body f)) = (None, s3)" by blast
      then show ?thesis using r1 r2 short payload_len_nonzero [OF len] payload_len_body [OF len]
        by (auto simp: read_frame_def Let_def)
    qed
  qed
qed

end
