(* ===== verification/Range_Map.thy ===== *)
theory Range_Map
  imports Machine_Double
begin

text \<open>
  The topology: \<^verbatim>\<open>src/common/range_map.h\<close> and \<^verbatim>\<open>src/common/range_map.cpp\<close>.  The first part is
  the bespoke parser of \<^verbatim>\<open>topology.yaml\<close>, string helper by string helper and line by line; the
  second part the queries on the loaded map.  A thrown C++ exception is a left injection.
  Positions in a string are \<^typ>\<open>nat option\<close>, \<^term>\<open>None\<close> being \<^verbatim>\<open>std::string::npos\<close>.
\<close>

datatype cpp_exception = invalid_argument | out_of_range | unmodelled_number

section \<open>The string operations the parser uses\<close>

definition is_ws :: "char \<Rightarrow> bool" where
  "is_ws c \<longleftrightarrow> c \<in> set [CHR '' '', CHR 0x09, CHR 0x0D, CHR 0x0A]"

fun starts_with :: "string \<Rightarrow> string \<Rightarrow> bool" where
  "starts_with [] s = True"
| "starts_with (p # ps) [] = False"
| "starts_with (p # ps) (c # s) = (p = c \<and> starts_with ps s)"

fun find_str :: "string \<Rightarrow> string \<Rightarrow> nat option" where
  "find_str p [] = (if p = [] then Some 0 else None)"
| "find_str p (c # s) = (if starts_with p (c # s) then Some 0
     else map_option Suc (find_str p s))"

text \<open>\<^verbatim>\<open>s.find(p, from)\<close> and the character-class searches, from a position on.\<close>

definition find_str_from :: "string \<Rightarrow> string \<Rightarrow> nat option \<Rightarrow> nat option" where
  "find_str_from p s from = (case from of None \<Rightarrow> None
     | Some i \<Rightarrow> if i > length s then None else map_option (\<lambda>j. i + j) (find_str p (drop i s)))"

fun find_first :: "(char \<Rightarrow> bool) \<Rightarrow> string \<Rightarrow> nat option" where
  "find_first P [] = None"
| "find_first P (c # s) = (if P c then Some 0 else map_option Suc (find_first P s))"

definition find_first_from :: "(char \<Rightarrow> bool) \<Rightarrow> string \<Rightarrow> nat option \<Rightarrow> nat option" where
  "find_first_from P s from = (case from of None \<Rightarrow> None
     | Some i \<Rightarrow> map_option (\<lambda>j. i + j) (find_first P (drop i s)))"

definition substr :: "string \<Rightarrow> nat option \<Rightarrow> nat option \<Rightarrow> cpp_exception + string" where
  "substr s pos n = (case pos of None \<Rightarrow> Inl out_of_range
     | Some p \<Rightarrow> if p > length s then Inl out_of_range
         else Inr (case n of None \<Rightarrow> drop p s | Some m \<Rightarrow> take m (drop p s)))"

text \<open>\<^verbatim>\<open>e - b\<close> on positions, where \<^verbatim>\<open>npos - b\<close> is more than any string has.\<close>

definition pos_diff :: "nat option \<Rightarrow> nat option \<Rightarrow> nat option" where
  "pos_diff e b = (case e of None \<Rightarrow> (if b = None then Some 0 else None)
     | Some j \<Rightarrow> (case b of None \<Rightarrow> Some (Suc j) | Some i \<Rightarrow> Some (j - i)))"

definition is_digit :: "char \<Rightarrow> bool" where
  "is_digit c \<longleftrightarrow> c \<in> set ''0123456789''"

definition digit_val :: "char \<Rightarrow> int" where
  "digit_val c = of_char c - 48"

fun digits_val :: "int \<Rightarrow> string \<Rightarrow> int" where
  "digits_val acc [] = acc"
| "digits_val acc (c # s) = digits_val (10 * acc + digit_val c) s"

definition c_space :: "char \<Rightarrow> bool" where
  "c_space c \<longleftrightarrow> is_ws c \<or> c = CHR 0x0B \<or> c = CHR 0x0C"

definition split_sign :: "string \<Rightarrow> bool \<times> string" where
  "split_sign s = (case s of c # r \<Rightarrow>
       (if c = CHR ''-'' then (True, r) else if c = CHR ''+'' then (False, r) else (False, s))
     | [] \<Rightarrow> (False, []))"

text \<open>\<^verbatim>\<open>std::stoi\<close>\<close>

definition stoi :: "string \<Rightarrow> cpp_exception + int" where
  "stoi s = (let (neg, r) = split_sign (dropWhile c_space s); ds = takeWhile is_digit r;
       v = (if neg then - digits_val 0 ds else digits_val 0 ds)
     in if ds = [] then Inl invalid_argument
        else if v < - (2 ^ 31) \<or> v \<ge> 2 ^ 31 then Inl out_of_range else Inr v)"

text \<open>
  \<^verbatim>\<open>std::stod\<close> on decimal numbers: the digits before and after the point as one integer, the
  decimal exponent, and correct rounding.  A result that overflows, or that is subnormal and
  inexact, is \<^verbatim>\<open>ERANGE\<close>.  Hexadecimal numbers, infinities and NaNs are reported as not modelled.
\<close>

definition exponent_part :: "string \<Rightarrow> int" where
  "exponent_part s = (case s of c # r \<Rightarrow>
       if c = CHR ''e'' \<or> c = CHR ''E''
       then (let (neg, t) = split_sign r; ds = takeWhile is_digit t in
             if neg then - digits_val 0 ds else digits_val 0 ds)
       else 0
     | [] \<Rightarrow> 0)"

definition check_range :: "int \<Rightarrow> int \<Rightarrow> double \<Rightarrow> cpp_exception + double" where
  "check_range n d r = (if is_inf r then Inl out_of_range
     else if \<bar>ordinal r\<bar> \<ge> 2 ^ 52 then Inr r
     else if num_of r * d = n * den_of r then Inr r else Inl out_of_range)"

definition round_checked :: "int \<Rightarrow> int \<Rightarrow> cpp_exception + double" where
  "round_checked n d = check_range n d (round_frac n d)"

definition decimal_to_double :: "int \<Rightarrow> int \<Rightarrow> cpp_exception + double" where
  "decimal_to_double m e = (if m = 0 then Inr (Dbl 0)
     else if e \<ge> 0 then round_checked (m * 10 ^ nat e) 1
     else round_checked m (10 ^ nat (- e)))"

definition stod :: "string \<Rightarrow> cpp_exception + double" where
  "stod s = (let (neg, r) = split_sign (dropWhile c_space s);
       ip = takeWhile is_digit r; r1 = dropWhile is_digit r;
       has_point = (r1 \<noteq> [] \<and> hd r1 = CHR ''.'');
       fp = (if has_point then takeWhile is_digit (tl r1) else []);
       r2 = (if has_point then dropWhile is_digit (tl r1) else r1);
       m = digits_val 0 (ip @ fp)
     in if ip @ fp = [] then
          (if r \<noteq> [] \<and> hd r \<in> set ''iInN'' then Inl unmodelled_number else Inl invalid_argument)
        else if ip = ''0'' \<and> r1 \<noteq> [] \<and> hd r1 \<in> set ''xX'' then Inl unmodelled_number
        else decimal_to_double (if neg then - m else m) (exponent_part r2 - int (length fp)))"

section \<open>Parser helpers\<close>

definition trim :: "string \<Rightarrow> string" where
  "trim s = (let t = rev (dropWhile is_ws (rev (dropWhile is_ws s))) in
     case find_str '' #'' t of None \<Rightarrow> t | Some c \<Rightarrow> take c t)"

definition split_kv :: "string \<Rightarrow> (string \<times> string) option" where
  "split_kv line = map_option (\<lambda>pos. (trim (take pos line), trim (drop (pos + 1) line)))
     (find_str '':'' line)"

definition is_blank :: "char \<Rightarrow> bool" where
  "is_blank c \<longleftrightarrow> c = CHR '' '' \<or> c = CHR 0x09"

definition comma_or_brace :: "char \<Rightarrow> bool" where
  "comma_or_brace c \<longleftrightarrow> c = CHR '','' \<or> c = CHR ''}''"

text \<open>The value of \<^verbatim>\<open>key:\<close> up to the next comma or closing brace.\<close>

definition find_val :: "string \<Rightarrow> string \<Rightarrow> string" where
  "find_val s key = (case find_str (key @ '':'') s of None \<Rightarrow> []
     | Some pos \<Rightarrow> (case find_first_from (\<lambda>c. \<not> is_blank c) s (Some (pos + length key + 1)) of
           None \<Rightarrow> []
         | Some after \<Rightarrow> trim (case find_first_from comma_or_brace s (Some after) of
               None \<Rightarrow> drop after s | Some e \<Rightarrow> take (e - after) (drop after s))))"

definition extract_host_port ::
    "string \<Rightarrow> string \<times> u16 \<Rightarrow> cpp_exception + (bool \<times> string \<times> u16)" where
  "extract_host_port s hp = (let h = find_val s ''host''; p = find_val s ''port'' in
     if h = [] \<or> p = [] then Inr (False, hp)
     else bind_res (stoi p) (\<lambda>v. Inr (True, h, of_int v)))"

fun split_commas :: "string \<Rightarrow> string \<Rightarrow> string list" where
  "split_commas acc [] = (if acc = [] then [] else [rev acc])"
| "split_commas acc (c # s) = (if c = CHR '','' then rev acc # split_commas [] s
     else split_commas (c # acc) s)"

fun stoi_list :: "string list \<Rightarrow> cpp_exception + int list" where
  "stoi_list [] = Inr []"
| "stoi_list (tok # toks) = (let tr = trim tok in
     if tr = [] then stoi_list toks
     else bind_res (stoi tr) (\<lambda>v. bind_res (stoi_list toks) (\<lambda>vs. Inr (v # vs))))"

definition parse_int_list :: "string \<Rightarrow> cpp_exception + int list" where
  "parse_int_list s = stoi_list (split_commas [] (filter (\<lambda>c. c \<notin> set ''[]{'') s))"

section \<open>The topology and its loader\<close>

record EndInfo =
  end_id :: int
  end_edge_id :: int
  end_host :: string
  end_port :: u16
  key_lo :: double
  key_hi :: double

record EdgeInfo =
  edge_id :: int
  edge_host :: string
  edge_port :: u16
  end_ids :: "int list"

record RangeMap =
  cloud_host :: string
  cloud_port :: u16
  edges :: "EdgeInfo list"
  ends :: "EndInfo list"

definition empty_end :: EndInfo where
  "empty_end = \<lparr>end_id = 0, end_edge_id = 0, end_host = [], end_port = 0,
     key_lo = Dbl 0, key_hi = Dbl 0\<rparr>"

definition empty_edge :: EdgeInfo where
  "empty_edge = \<lparr>edge_id = 0, edge_host = [], edge_port = 0, end_ids = []\<rparr>"

definition empty_map :: RangeMap where
  "empty_map = \<lparr>cloud_host = [], cloud_port = 0, edges = [], ends = []\<rparr>"

datatype Section = NONE | CLOUD | EDGES | ENDS

record load_state =
  sect :: Section
  cur_edge :: EdgeInfo
  cur_end :: EndInfo
  in_edge :: bool
  in_end :: bool
  rmap :: RangeMap

definition flush_edge :: "load_state \<Rightarrow> load_state" where
  "flush_edge st = (if in_edge st
     then st\<lparr>rmap := (rmap st)\<lparr>edges := edges (rmap st) @ [cur_edge st]\<rparr>,
             cur_edge := empty_edge, in_edge := False\<rparr>
     else st)"

definition flush_end :: "load_state \<Rightarrow> load_state" where
  "flush_end st = (if in_end st
     then st\<lparr>rmap := (rmap st)\<lparr>ends := ends (rmap st) @ [cur_end st]\<rparr>,
             cur_end := empty_end, in_end := False\<rparr>
     else st)"

definition new_section :: "Section \<Rightarrow> load_state \<Rightarrow> load_state" where
  "new_section sec st = (flush_end (flush_edge st))\<lparr>sect := sec\<rparr>"

definition cloud_header :: "string \<Rightarrow> load_state \<Rightarrow> cpp_exception + load_state" where
  "cloud_header line st = (let st1 = new_section CLOUD st; val = trim (drop 6 line) in
     if val \<noteq> [] \<and> hd val = CHR ''{''
     then bind_res (extract_host_port val (cloud_host (rmap st1), cloud_port (rmap st1)))
       (\<lambda>(_, h, p). Inr (st1\<lparr>rmap := (rmap st1)\<lparr>cloud_host := h, cloud_port := p\<rparr>\<rparr>))
     else Inr st1)"

definition cloud_line :: "string \<Rightarrow> load_state \<Rightarrow> cpp_exception + load_state" where
  "cloud_line line st = (case split_kv line of None \<Rightarrow> Inr st
     | Some (k, v) \<Rightarrow>
        if k = ''host'' then Inr (st\<lparr>rmap := (rmap st)\<lparr>cloud_host := v\<rparr>\<rparr>)
        else if k = ''port'' then bind_res (stoi v)
          (\<lambda>p. Inr (st\<lparr>rmap := (rmap st)\<lparr>cloud_port := of_int p\<rparr>\<rparr>))
        else Inr st)"

definition edge_inline_id :: "string \<Rightarrow> EdgeInfo \<Rightarrow> cpp_exception + EdgeInfo" where
  "edge_inline_id rest e = (case find_str ''id:'' rest of None \<Rightarrow> Inr e
     | Some id_pos \<Rightarrow>
        let after = find_first_from (\<lambda>c. \<not> is_blank c) rest (Some (id_pos + 3));
            comma = find_str_from '','' rest after
        in bind_res (substr rest after (pos_diff comma after)) (\<lambda>t.
           bind_res (stoi t) (\<lambda>v. Inr (e\<lparr>edge_id := v\<rparr>))))"

definition edge_inline :: "string \<Rightarrow> EdgeInfo \<Rightarrow> cpp_exception + EdgeInfo" where
  "edge_inline rest e0 = bind_res (edge_inline_id rest e0) (\<lambda>e1.
     bind_res (extract_host_port rest (edge_host e1, edge_port e1)) (\<lambda>(_, h, p).
     let e2 = e1\<lparr>edge_host := h, edge_port := p\<rparr> in
     case find_str ''ends:'' rest of None \<Rightarrow> Inr e2
     | Some ends_pos \<Rightarrow> bind_res (parse_int_list (drop (ends_pos + 5) rest))
         (\<lambda>ids. Inr (e2\<lparr>end_ids := ids\<rparr>))))"

definition edge_field :: "string \<Rightarrow> EdgeInfo \<Rightarrow> cpp_exception + EdgeInfo" where
  "edge_field line e = (case split_kv line of None \<Rightarrow> Inr e
     | Some (k, v) \<Rightarrow>
        if k = ''id'' then bind_res (stoi v) (\<lambda>i. Inr (e\<lparr>edge_id := i\<rparr>))
        else if k = ''host'' then Inr (e\<lparr>edge_host := v\<rparr>)
        else if k = ''port'' then bind_res (stoi v) (\<lambda>p. Inr (e\<lparr>edge_port := of_int p\<rparr>))
        else if k = ''ends'' then bind_res (parse_int_list v) (\<lambda>ids. Inr (e\<lparr>end_ids := ids\<rparr>))
        else Inr e)"

definition edge_line :: "string \<Rightarrow> load_state \<Rightarrow> cpp_exception + load_state" where
  "edge_line line st =
    (if hd line = CHR ''-''
     then let st1 = (flush_edge st)\<lparr>in_edge := True\<rparr>; rest = trim (drop 1 line) in
       if rest \<noteq> [] \<and> hd rest = CHR ''{''
       then bind_res (edge_inline rest (cur_edge st1)) (\<lambda>e. Inr (st1\<lparr>cur_edge := e\<rparr>))
       else Inr st1
     else if in_edge st
     then bind_res (edge_field line (cur_edge st)) (\<lambda>e. Inr (st\<lparr>cur_edge := e\<rparr>))
     else Inr st)"

text \<open>
  \<^verbatim>\<open>parse_field\<close> of the inline end entry: unlike \<^verbatim>\<open>find_val\<close> it does not test the value's start
  for \<^verbatim>\<open>npos\<close> before it takes the substring.
\<close>

definition parse_field :: "string \<Rightarrow> string \<Rightarrow> cpp_exception + string" where
  "parse_field rest key = (case find_str (key @ '':'') rest of None \<Rightarrow> Inr []
     | Some pos \<Rightarrow>
        let after = find_first_from (\<lambda>c. \<not> is_blank c) rest (Some (pos + length key + 1));
            e = find_first_from comma_or_brace rest after
        in bind_res (substr rest after (if e = None then None else pos_diff e after))
           (\<lambda>t. Inr (trim t)))"

definition end_key_range :: "string \<Rightarrow> EndInfo \<Rightarrow> cpp_exception + EndInfo" where
  "end_key_range rest e = (case find_str ''key_range:'' rest of None \<Rightarrow> Inr e
     | Some kr \<Rightarrow>
        let lb = find_str_from ''['' rest (Some kr); rb = find_str_from '']'' rest lb in
        case (lb, rb) of (Some l, Some r) \<Rightarrow>
          let inner = take (r - l - 1) (drop (l + 1) rest); comma = find_str '','' inner in
          bind_res (stod (trim (case comma of None \<Rightarrow> inner | Some c \<Rightarrow> take c inner))) (\<lambda>lo.
          bind_res (stod (trim (case comma of None \<Rightarrow> inner | Some c \<Rightarrow> drop (c + 1) inner))) (\<lambda>hi.
          Inr (e\<lparr>key_lo := lo, key_hi := hi\<rparr>)))
        | _ \<Rightarrow> Inr e)"

definition end_inline :: "string \<Rightarrow> EndInfo \<Rightarrow> cpp_exception + EndInfo" where
  "end_inline rest e0 =
     bind_res (parse_field rest ''id'') (\<lambda>id_s. bind_res (parse_field rest ''edge'') (\<lambda>edge_s.
     bind_res (if id_s = [] then Inr e0 else bind_res (stoi id_s) (\<lambda>i. Inr (e0\<lparr>end_id := i\<rparr>)))
       (\<lambda>e1.
     bind_res (if edge_s = [] then Inr e1
               else bind_res (stoi edge_s) (\<lambda>i. Inr (e1\<lparr>end_edge_id := i\<rparr>)))
       (\<lambda>e2.
     bind_res (extract_host_port rest (end_host e2, end_port e2)) (\<lambda>(_, h, p).
     end_key_range rest (e2\<lparr>end_host := h, end_port := p\<rparr>))))))"

definition end_field :: "string \<Rightarrow> EndInfo \<Rightarrow> cpp_exception + EndInfo" where
  "end_field line e = (case split_kv line of None \<Rightarrow> Inr e
     | Some (k, v) \<Rightarrow>
        if k = ''id'' then bind_res (stoi v) (\<lambda>i. Inr (e\<lparr>end_id := i\<rparr>))
        else if k = ''edge'' then bind_res (stoi v) (\<lambda>i. Inr (e\<lparr>end_edge_id := i\<rparr>))
        else if k = ''host'' then Inr (e\<lparr>end_host := v\<rparr>)
        else if k = ''port'' then bind_res (stoi v) (\<lambda>p. Inr (e\<lparr>end_port := of_int p\<rparr>))
        else if k = ''key_lo'' then bind_res (stod v) (\<lambda>d. Inr (e\<lparr>key_lo := d\<rparr>))
        else if k = ''key_hi'' then bind_res (stod v) (\<lambda>d. Inr (e\<lparr>key_hi := d\<rparr>))
        else Inr e)"

definition end_line :: "string \<Rightarrow> load_state \<Rightarrow> cpp_exception + load_state" where
  "end_line line st =
    (if hd line = CHR ''-''
     then let st1 = (flush_end st)\<lparr>in_end := True\<rparr>; rest = trim (drop 1 line) in
       if rest \<noteq> [] \<and> hd rest = CHR ''{''
       then bind_res (end_inline rest (cur_end st1)) (\<lambda>e. Inr (st1\<lparr>cur_end := e\<rparr>))
       else Inr st1
     else if in_end st
     then bind_res (end_field line (cur_end st)) (\<lambda>e. Inr (st\<lparr>cur_end := e\<rparr>))
     else Inr st)"

definition load_line :: "load_state \<Rightarrow> string \<Rightarrow> cpp_exception + load_state" where
  "load_line st raw = (let line = trim raw in
     if line = [] \<or> hd line = CHR ''#'' then Inr st
     else if starts_with ''cloud:'' line then cloud_header line st
     else if line = ''edges:'' then Inr (new_section EDGES st)
     else if line = ''ends:'' then Inr (new_section ENDS st)
     else case sect st of NONE \<Rightarrow> Inr st
       | CLOUD \<Rightarrow> cloud_line line st
       | EDGES \<Rightarrow> edge_line line st
       | ENDS \<Rightarrow> end_line line st)"

fun load_lines :: "load_state \<Rightarrow> string list \<Rightarrow> cpp_exception + load_state" where
  "load_lines st [] = Inr st"
| "load_lines st (l # ls) = bind_res (load_line st l) (\<lambda>st'. load_lines st' ls)"

text \<open>\<^verbatim>\<open>std::getline\<close> over the whole stream.\<close>

fun lines_of :: "string \<Rightarrow> string \<Rightarrow> string list" where
  "lines_of acc [] = (if acc = [] then [] else [rev acc])"
| "lines_of acc (c # s) = (if c = CHR 0x0A then rev acc # lines_of [] s else lines_of (c # acc) s)"

text \<open>
  \<^verbatim>\<open>RangeMap::load\<close>: the file's content, \<^term>\<open>None\<close> when it cannot be opened.  The sort is by
  \<^verbatim>\<open>key_lo\<close>; entries with equal \<^verbatim>\<open>key_lo\<close> keep their file order here, where \<^verbatim>\<open>std::sort\<close>
  leaves it open.
\<close>

definition load :: "RangeMap \<Rightarrow> string option \<Rightarrow> cpp_exception + (bool \<times> RangeMap)" where
  "load rm0 file = (case file of None \<Rightarrow> Inr (False, rm0)
     | Some text \<Rightarrow>
        bind_res (load_lines \<lparr>sect = NONE, cur_edge = empty_edge, cur_end = empty_end,
            in_edge = False, in_end = False, rmap = rm0\<rparr> (lines_of [] text)) (\<lambda>st.
        let rm = rmap (flush_end (flush_edge st)) in
        if cloud_host rm = [] \<or> cloud_port rm = 0 then Inr (False, rm)
        else if edges rm = [] \<or> ends rm = [] then Inr (False, rm)
        else Inr (True, rm\<lparr>ends := sort_key key_lo (ends rm)\<rparr>)))"

section \<open>Queries\<close>

function locate_loop :: "EndInfo list \<Rightarrow> double \<Rightarrow> int \<Rightarrow> int \<Rightarrow> int" where
  "locate_loop es k lo hi =
    (if lo \<le> hi then
       let mid = (lo + hi) div 2; e = es ! nat mid in
       if k < key_lo e then locate_loop es k lo (mid - 1)
       else if k > key_hi e then locate_loop es k (mid + 1) hi
       else end_id e
     else - 1)"
  by pat_completeness auto
termination
  by (relation "measure (\<lambda>(es, k, lo, hi). nat (hi - lo + 1))") auto

declare locate_loop.simps [simp del]

definition locate_end :: "RangeMap \<Rightarrow> double \<Rightarrow> int" where
  "locate_end rm k = locate_loop (ends rm) k 0 (int (length (ends rm)) - 1)"

fun edge_of_list :: "EndInfo list \<Rightarrow> int \<Rightarrow> int" where
  "edge_of_list [] i = - 1"
| "edge_of_list (e # es) i = (if end_id e = i then end_edge_id e else edge_of_list es i)"

definition edge_of :: "RangeMap \<Rightarrow> int \<Rightarrow> int" where
  "edge_of rm i = edge_of_list (ends rm) i"

definition siblings_of :: "RangeMap \<Rightarrow> int \<Rightarrow> int list" where
  "siblings_of rm i = (let my_edge = edge_of rm i in
     if my_edge < 0 then []
     else map end_id (filter (\<lambda>e. end_edge_id e = my_edge \<and> end_id e \<noteq> i) (ends rm)))"

definition same_edge :: "RangeMap \<Rightarrow> int \<Rightarrow> int \<Rightarrow> bool" where
  "same_edge rm a b \<longleftrightarrow> edge_of rm a = edge_of rm b \<and> edge_of rm a \<ge> 0"

section \<open>Well-formed topologies\<close>

text \<open>The ranges are intervals, in increasing order and disjoint; ids are unique and valid.\<close>

definition wf_ranges :: "EndInfo list \<Rightarrow> bool" where
  "wf_ranges es \<longleftrightarrow> sorted_wrt (\<lambda>a b. key_hi a < key_lo b) es \<and> (\<forall>e \<in> set es. key_lo e \<le> key_hi e)"

definition wf_topology :: "RangeMap \<Rightarrow> bool" where
  "wf_topology rm \<longleftrightarrow> wf_ranges (ends rm) \<and> distinct (map end_id (ends rm)) \<and>
     (\<forall>e \<in> set (ends rm). end_id e \<ge> 0 \<and> end_edge_id e \<ge> 0)"

definition in_range :: "double \<Rightarrow> EndInfo \<Rightarrow> bool" where
  "in_range k e \<longleftrightarrow> key_lo e \<le> k \<and> k \<le> key_hi e"

text \<open>The reference for the binary search: the first entry whose interval holds the key.\<close>

definition scan_end :: "EndInfo list \<Rightarrow> double \<Rightarrow> int" where
  "scan_end es k = (case find (in_range k) es of None \<Rightarrow> - 1 | Some e \<Rightarrow> end_id e)"

lemma wf_ranges_order:
  assumes "wf_ranges es" "i < j" "j < length es"
  shows "key_hi (es ! i) < key_lo (es ! j)"
  using assms by (simp add: wf_ranges_def sorted_wrt_iff_nth_less)

lemma wf_ranges_interval:
  assumes "wf_ranges es" "i < length es"
  shows "key_lo (es ! i) \<le> key_hi (es ! i)"
  using assms by (simp add: wf_ranges_def)

lemma in_range_unique:
  assumes "wf_ranges es" "i < length es" "j < length es"
    and "in_range k (es ! i)" "in_range k (es ! j)"
  shows "i = j"
proof (rule ccontr)
  assume "i \<noteq> j"
  then consider "i < j" | "j < i" by linarith
  then show False
    using assms wf_ranges_order [of es i j] wf_ranges_order [of es j i]
    by cases (auto simp: in_range_def)
qed

lemma scan_end_hit:
  assumes "wf_ranges es" "i < length es" "in_range k (es ! i)"
  shows "scan_end es k = end_id (es ! i)"
proof -
  obtain x where x: "find (in_range k) es = Some x"
    using assms by (metis find_None_iff not_None_eq nth_mem)
  then obtain j where "j < length es" "in_range k (es ! j)" "x = es ! j"
    by (auto simp: find_Some_iff)
  with assms in_range_unique have "x = es ! i" by blast
  with x show ?thesis by (simp add: scan_end_def)
qed

lemma scan_end_miss: "\<forall>e \<in> set es. \<not> in_range k e \<Longrightarrow> scan_end es k = - 1"
  by (auto simp: scan_end_def find_Some_iff split: option.splits)

lemma locate_loop_scan:
  assumes "wf_ranges es" "0 \<le> lo" "hi < int (length es)"
    and "\<forall>i. int i < lo \<longrightarrow> key_hi (es ! i) < k"
    and "\<forall>i. hi < int i \<longrightarrow> i < length es \<longrightarrow> k < key_lo (es ! i)"
  shows "locate_loop es k lo hi = scan_end es k"
  using assms
proof (induction es k lo hi rule: locate_loop.induct)
  case (1 es k lo hi)
  note prems = "1.prems"
  define mid where "mid = (lo + hi) div 2"
  show ?case
  proof (cases "lo \<le> hi")
    case False
    have "\<not> in_range k e" if "e \<in> set es" for e
    proof -
      from that obtain i where "i < length es" "e = es ! i" by (metis in_set_conv_nth)
      with prems(4,5) [rule_format, of i] False show ?thesis
        by (cases "int i < lo") (auto simp: in_range_def)
    qed
    with False show ?thesis by (simp add: locate_loop.simps [of es k lo hi] scan_end_miss)
  next
    case True
    then have mid: "lo \<le> mid" "mid \<le> hi" "0 \<le> mid" "nat mid < length es"
      using prems by (auto simp: mid_def)
    let ?e = "es ! nat mid"
    consider "k < key_lo ?e" | "k > key_hi ?e" | "in_range k ?e"
      unfolding in_range_def by (meson linorder_not_le)
    then show ?thesis
    proof cases
      case 1
      have "\<forall>i. mid - 1 < int i \<longrightarrow> i < length es \<longrightarrow> k < key_lo (es ! i)"
      proof (intro allI impI)
        fix i assume i: "mid - 1 < int i" "i < length es"
        then have "i = nat mid \<or> nat mid < i" by linarith
        with 1 i show "k < key_lo (es ! i)"
          using wf_ranges_order [OF prems(1), of "nat mid" i]
            wf_ranges_interval [OF prems(1) mid(4)] by auto
      qed
      with 1 True mid prems "1.IH"(1) [OF True mid_def refl] show ?thesis
        by (simp add: locate_loop.simps [of es k lo hi] mid_def Let_def)
    next
      case 2
      have "\<forall>i. int i < mid + 1 \<longrightarrow> key_hi (es ! i) < k"
      proof (intro allI impI)
        fix i assume "int i < mid + 1"
        then have "i = nat mid \<or> i < nat mid" by linarith
        with 2 show "key_hi (es ! i) < k"
          using wf_ranges_order [OF prems(1) _ mid(4), of i]
            wf_ranges_interval [OF prems(1) mid(4)] by auto
      qed
      moreover from 2 have "\<not> k < key_lo ?e"
        using wf_ranges_interval [OF prems(1) mid(4)] by auto
      ultimately show ?thesis
        using 2 True mid prems "1.IH"(2) [OF True mid_def refl]
        by (simp add: locate_loop.simps [of es k lo hi] mid_def Let_def)
    next
      case 3
      with True mid scan_end_hit [OF prems(1) mid(4)] show ?thesis
        by (auto simp: locate_loop.simps [of es k lo hi] mid_def in_range_def Let_def)
    qed
  qed
qed

lemma locate_end_scan: "wf_ranges (ends rm) \<Longrightarrow> locate_end rm k = scan_end (ends rm) k"
  by (simp add: locate_end_def locate_loop_scan)

lemma edge_of_list_member:
  "distinct (map end_id es) \<Longrightarrow> e \<in> set es \<Longrightarrow> edge_of_list es (end_id e) = end_edge_id e"
  by (induction es) auto

lemma edge_of_list_unknown: "i \<notin> end_id ` set es \<Longrightarrow> edge_of_list es i = - 1"
  by (induction es) auto

lemma locate_end_hit:
  assumes "wf_topology rm" "e \<in> set (ends rm)" "in_range k e"
  shows "locate_end rm k = end_id e" and "edge_of rm (locate_end rm k) = end_edge_id e"
proof -
  from assms(2) obtain i where "i < length (ends rm)" "e = ends rm ! i"
    by (metis in_set_conv_nth)
  with assms show "locate_end rm k = end_id e"
    by (simp add: wf_topology_def locate_end_scan scan_end_hit)
  with assms show "edge_of rm (locate_end rm k) = end_edge_id e"
    by (simp add: wf_topology_def edge_of_def edge_of_list_member)
qed

lemma locate_end_cases:
  assumes "wf_topology rm"
  obtains e where "e \<in> set (ends rm)" "in_range k e" "locate_end rm k = end_id e" "locate_end rm k \<ge> 0"
  | "\<forall>e \<in> set (ends rm). \<not> in_range k e" "locate_end rm k = - 1"
proof (cases "\<exists>e \<in> set (ends rm). in_range k e")
  case True
  then obtain e where "e \<in> set (ends rm)" "in_range k e" by blast
  with assms locate_end_hit that(1) show ?thesis by (metis wf_topology_def)
next
  case False
  with assms have "locate_end rm k = - 1"
    by (simp add: wf_topology_def locate_end_scan scan_end_miss)
  with False that(2) show ?thesis by blast
qed

section \<open>What the loader guarantees\<close>

lemma load_success:
  assumes "load rm0 file = Inr (True, rm)"
  shows "cloud_host rm \<noteq> []" "cloud_port rm \<noteq> 0" "edges rm \<noteq> []" "ends rm \<noteq> []"
    and "sorted (map key_lo (ends rm))"
  using assms
  by (auto simp: load_def Let_def bind_res_Inr_iff split: option.splits if_splits)
     (metis length_0_conv length_sort)

end
