(* ===== verification/Shipped_Topology.thy ===== *)
theory Shipped_Topology
  imports Range_Map
begin

text \<open>
  The topology that ships with the program, \<^verbatim>\<open>src/common/topology.yaml\<close>: its text and the map it
  describes.
\<close>

definition topology_yaml :: string where
 "topology_yaml =
   ''# Static topology for the 1-cloud / 2-edge / 10-end demo.'' @ [CHR 0x0A] @
   ''# Key ranges derived from Data.txt (9,999,999 rows, sorted by key).'' @ [CHR 0x0A] @
   ''# Each end holds exactly 1,000,000 rows. Boundaries:'' @ [CHR 0x0A] @
   ''#   End N key_hi = key at row N*1000000   (last  row of block N)'' @ [CHR 0x0A] @
   ''#   End N key_lo = key at row (N-1)*M+1  (first row of block N)'' @ [CHR 0x0A] @
   ''# _key_t = double (from parameters.h). All key values are large floats.'' @ [CHR 0x0A] @
   ''cloud:'' @ [CHR 0x0A] @
   ''  host: 127.0.0.1'' @ [CHR 0x0A] @
   ''  port: 7000'' @ [CHR 0x0A] @
   '''' @ [CHR 0x0A] @
   ''edges:'' @ [CHR 0x0A] @
   ''  - { id: 1, host: 127.0.0.1, port: 7101, ends: [1, 2, 3, 4, 5] }'' @ [CHR 0x0A] @
   ''  - { id: 2, host: 127.0.0.1, port: 7102, ends: [6, 7, 8, 9, 10] }'' @ [CHR 0x0A] @
   '''' @ [CHR 0x0A] @
   ''ends:'' @ [CHR 0x0A] @
   ''  - { id: 1,  edge: 1, host: 127.0.0.1, port: 7201, key_range: [-1e13,                -12815012040.383575] }'' @ [CHR 0x0A] @
   ''  - { id: 2,  edge: 1, host: 127.0.0.1, port: 7202, key_range: [-12815008635.778347,  -8412909134.803921] }'' @ [CHR 0x0A] @
   ''  - { id: 3,  edge: 1, host: 127.0.0.1, port: 7203, key_range: [-8412904218.133328,   -5241986277.736485] }'' @ [CHR 0x0A] @
   ''  - { id: 4,  edge: 1, host: 127.0.0.1, port: 7204, key_range: [-5241981717.063254,   -2528482259.317568] }'' @ [CHR 0x0A] @
   ''  - { id: 5,  edge: 1, host: 127.0.0.1, port: 7205, key_range: [-2528480743.304966,    5194391.707614] }'' @ [CHR 0x0A] @
   ''  - { id: 6,  edge: 2, host: 127.0.0.1, port: 7206, key_range: [5202302.971719,        2535148186.474630] }'' @ [CHR 0x0A] @
   ''  - { id: 7,  edge: 2, host: 127.0.0.1, port: 7207, key_range: [2535148311.171382,     5242610742.708064] }'' @ [CHR 0x0A] @
   ''  - { id: 8,  edge: 2, host: 127.0.0.1, port: 7208, key_range: [5242617165.837655,     8416781211.038959] }'' @ [CHR 0x0A] @
   ''  - { id: 9,  edge: 2, host: 127.0.0.1, port: 7209, key_range: [8416782370.537807,    12813373369.570753] }'' @ [CHR 0x0A] @
   ''  - { id: 10, edge: 2, host: 127.0.0.1, port: 7210, key_range: [12813376566.001352,    1e13] }'' @ [CHR 0x0A]"

definition topology_map :: RangeMap where
 "topology_map = \<lparr>cloud_host = ''127.0.0.1'', cloud_port = 7000,
  edges = [\<lparr>edge_id = 1, edge_host = ''127.0.0.1'', edge_port = 7101, end_ids = [1,2,3,4,5]\<rparr>,
   \<lparr>edge_id = 2, edge_host = ''127.0.0.1'', edge_port = 7102, end_ids = [6,7,8,9,10]\<rparr>],
  ends = [\<lparr>end_id = 1, end_edge_id = 1, end_host = ''127.0.0.1'', end_port = 7201, key_lo = Dbl (-4801453603149578240), key_hi = Dbl (-4758016363908501904)\<rparr>,
   \<lparr>end_id = 2, end_edge_id = 1, end_host = ''127.0.0.1'', end_port = 7202, key_lo = Dbl (-4758016362123508238), key_hi = Dbl (-4755615581857438940)\<rparr>,
   \<lparr>end_id = 3, end_edge_id = 1, end_host = ''127.0.0.1'', end_port = 7203, key_lo = Dbl (-4755615576701936157), key_hi = Dbl (-4752290628251666596)\<rparr>,
   \<lparr>end_id = 4, end_edge_id = 1, end_host = ''127.0.0.1'', end_port = 7204, key_lo = Dbl (-4752290623469454103), key_hi = Dbl (-4747593019248224644)\<rparr>,
   \<lparr>end_id = 5, end_edge_id = 1, end_host = ''127.0.0.1'', end_port = 7205, key_lo = Dbl (-4747593016068915784), key_hi = Dbl (4707335446601501755)\<rparr>,
   \<lparr>end_id = 6, end_edge_id = 2, end_host = ''127.0.0.1'', end_port = 7206, key_lo = Dbl (4707343941256652003), key_hi = Dbl (4747606998710693931)\<rparr>,
   \<lparr>end_id = 7, end_edge_id = 2, end_host = ''127.0.0.1'', end_port = 7207, key_lo = Dbl (4747606998972201974), key_hi = Dbl (4752291283050648635)\<rparr>,
   \<lparr>end_id = 8, end_edge_id = 2, end_host = ''127.0.0.1'', end_port = 7208, key_lo = Dbl (4752291289785788169), key_hi = Dbl (4755619642023649171)\<rparr>,
   \<lparr>end_id = 9, end_edge_id = 2, end_host = ''127.0.0.1'', end_port = 7209, key_lo = Dbl (4755619643239471836), key_hi = Dbl (4758015504773058791)\<rparr>,
   \<lparr>end_id = 10, end_edge_id = 2, end_host = ''127.0.0.1'', end_port = 7210, key_lo = Dbl (4758015506448908997), key_hi = Dbl (4801453603149578240)\<rparr>]\<rparr>"

lemma topology_map_wf: "wf_topology topology_map"
  by code_simp

end
