(* ===== verification/Learned_Model.thy ===== *)
theory Learned_Model
  imports Machine_Double
begin

text \<open>
  The learned-index vocabulary of \<^verbatim>\<open>src/core/index/utils.h\<close>: the packed \<^verbatim>\<open>InnerSlot\<close> with its
  lock, type and block-number bits, the model correction, and the block predictions of
  \<^verbatim>\<open>leaf_node.h\<close>, \<^verbatim>\<open>inner_node.h\<close> and \<^verbatim>\<open>cache_model.h\<close>.  Model coefficients are \<^typ>\<open>fp\<close>: they can
  become infinite or NaN.
\<close>

unbundle bit_operations_syntax

section \<open>Inner slots\<close>

record InnerSlot =
  min_key :: double
  ptr :: nat
  slope :: fp
  intercept :: fp
  info :: u32

definition block_number :: "InnerSlot \<Rightarrow> u32" where
  "block_number s = info s AND 0x1fffffff"

definition slot_type :: "InnerSlot \<Rightarrow> u32" where
  "slot_type s = drop_bit 29 (info s AND 0x3fffffff)"

definition put_block_number :: "u32 \<Rightarrow> InnerSlot \<Rightarrow> InnerSlot" where
  "put_block_number n s = s\<lparr>info := (info s AND 0xe0000000) OR (n AND 0x1fffffff)\<rparr>"

text \<open>\<^verbatim>\<open>set_block_number\<close> asserts that the number fits its 29 bits; \<^term>\<open>None\<close> is the failed assertion.\<close>

definition set_block_number :: "u32 \<Rightarrow> InnerSlot \<Rightarrow> InnerSlot option" where
  "set_block_number n s = (if uint n < 2 ^ 29 then Some (put_block_number n s) else None)"

definition set_type :: "u32 \<Rightarrow> InnerSlot \<Rightarrow> InnerSlot" where
  "set_type t s = s\<lparr>info := (info s AND NOT (push_bit 29 1)) OR push_bit 29 t\<rparr>"

definition init_lock :: "InnerSlot \<Rightarrow> InnerSlot" where
  "init_lock s = s\<lparr>info := info s AND NOT (push_bit 30 3)\<rparr>"

definition slot_get_write_lock :: "InnerSlot \<Rightarrow> InnerSlot" where
  "slot_get_write_lock s = s\<lparr>info := info s OR lockSet\<rparr>"

definition slot_get_read_lock :: "InnerSlot \<Rightarrow> InnerSlot" where
  "slot_get_read_lock s = s\<lparr>info := info s OR second_bit_lockSet\<rparr>"

text \<open>The checks answer whether the lock is free.\<close>

definition slot_check_write_lock :: "InnerSlot \<Rightarrow> bool" where
  "slot_check_write_lock s \<longleftrightarrow> info s AND lockSet = 0"

definition slot_check_read_lock :: "InnerSlot \<Rightarrow> bool" where
  "slot_check_read_lock s \<longleftrightarrow> info s AND second_bit_lockSet = 0"

definition slot_release_lock :: "InnerSlot \<Rightarrow> InnerSlot" where
  "slot_release_lock s = s\<lparr>info := info s AND double_bit_lockMask\<rparr>"

text \<open>
  \<^verbatim>\<open>InnerSlot::get_lock\<close> spins while the lock bit is set.  Run alone it either takes the lock at
  once or never returns (\<^term>\<open>None\<close>).
\<close>

definition slot_get_lock :: "InnerSlot \<Rightarrow> InnerSlot option" where
  "slot_get_lock s = (if info s AND lockSet = 0 then Some (s\<lparr>info := info s OR lockSet\<rparr>) else None)"

lemmas slot_defs = block_number_def slot_type_def put_block_number_def set_type_def init_lock_def
  slot_get_write_lock_def slot_get_read_lock_def slot_check_write_lock_def
  slot_check_read_lock_def slot_release_lock_def slot_get_lock_def
  lockSet_def second_bit_lockSet_def double_bit_lockMask_def

section \<open>Model correction and block prediction\<close>

definition fp_of_u64 :: "u64 \<Rightarrow> fp" where
  "fp_of_u64 w = fp_of_int (uint w)"

definition fp_half :: fp where
  "fp_half = Some (Dbl 0x3FE0000000000000)"

definition fp_zero :: fp where
  "fp_zero = Some (Dbl 0)"

definition model_correction ::
    "fp \<Rightarrow> fp \<Rightarrow> u64 \<Rightarrow> double \<Rightarrow> double \<Rightarrow> fp \<times> fp" where
  "model_correction sl ic sz mink maxk =
    (let lo = Some mink; hi = Some maxk;
         min_pos = fp_add (fp_mul lo sl) ic;
         max_pos = fp_add (fp_add (fp_mul hi sl) ic) (fp_of_int 1);
         width = fp_sub hi lo
     in if fp_less fp_zero min_pos \<and> fp_less max_pos (fp_of_u64 (sz - 1))
        then let sl' = fp_div (fp_of_u64 (sz - 1)) width
             in (sl', fp_to_float (fp_sub fp_zero (fp_mul sl' lo)))
        else if fp_less fp_zero min_pos
        then let sl' = fp_div max_pos width
             in (sl', fp_to_float (fp_sub fp_zero (fp_mul sl' lo)))
        else if fp_less max_pos (fp_of_u64 sz)
        then let sl' = fp_div (fp_sub (fp_sub (fp_of_u64 sz) min_pos) (fp_of_int 1)) width
             in (sl', fp_to_float (fp_sub (fp_of_u64 (sz - 1)) (fp_mul sl' hi)))
        else (sl, ic))"

definition LeafSlotsPerBlock :: nat where "LeafSlotsPerBlock = 16"
definition LeafRealSlotsPerBlock :: nat where "LeafRealSlotsPerBlock = LeafSlotsPerBlock - 1"
definition InnerSlotsPerBlock :: nat where "InnerSlotsPerBlock = 8"

text \<open>\<^verbatim>\<open>(key * slope + intercept + 0.5) / n\<close>, truncated to \<^verbatim>\<open>int64_t\<close>.\<close>

definition raw_block :: "fp \<Rightarrow> fp \<Rightarrow> fp \<Rightarrow> nat \<Rightarrow> int" where
  "raw_block key sl ic n =
     fp_to_int64 (fp_div (fp_add (fp_add (fp_mul key sl) ic) fp_half) (fp_of_int (int n)))"

text \<open>
  The clamp compares the signed prediction with the unsigned \<^verbatim>\<open>block_number - g\<close>, which wraps
  around below zero, and returns a \<^verbatim>\<open>uint32_t\<close>.
\<close>

definition clamp_block :: "u32 \<Rightarrow> u32 \<Rightarrow> u32 \<Rightarrow> int \<Rightarrow> u32" where
  "clamp_block g u bn p = (if p < 0 then 0
     else if p > uint (bn - g) then bn - u
     else of_int (p + 1))"

definition leaf_predict_block :: "fp \<Rightarrow> fp \<Rightarrow> fp \<Rightarrow> u32 \<Rightarrow> u32" where
  "leaf_predict_block key sl ic bn = clamp_block 3 1 bn (raw_block key sl ic LeafSlotsPerBlock)"

definition inner_predict_block :: "fp \<Rightarrow> fp \<Rightarrow> fp \<Rightarrow> u32 \<Rightarrow> u32" where
  "inner_predict_block key sl ic bn = clamp_block 4 2 bn (raw_block key sl ic InnerSlotsPerBlock)"

definition local_predict_block :: "fp \<Rightarrow> fp \<Rightarrow> fp \<Rightarrow> u32 \<Rightarrow> u32" where
  "local_predict_block key sl ic bn = clamp_block 4 2 bn (raw_block key sl ic InnerSlotsPerBlock)"

section \<open>Lemmas\<close>

lemma clamp_block_bound:
  assumes "uint g \<le> uint bn" "0 < uint u" "uint u < uint g"
  shows "uint (clamp_block g u bn p) < uint bn"
proof -
  have sub: "uint (bn - x) = uint bn - uint x" if "uint x \<le> uint bn" for x :: u32
    using that by (simp add: uint_sub_if')
  consider "p < 0" | "p \<ge> 0" "p > uint (bn - g)" | "p \<ge> 0" "p \<le> uint (bn - g)" by linarith
  then show ?thesis
  proof cases
    case 1
    with assms show ?thesis by (simp add: clamp_block_def)
  next
    case 2
    with sub [of u] assms show ?thesis by (simp add: clamp_block_def)
  next
    case 3
    have "uint bn < 2 ^ 32" using unsigned_less [of bn, where 'a = int] by simp
    with 3 sub [of g] assms have p: "p + 1 < uint bn" "p + 1 < 2 ^ 32"
      by linarith+
    then have "uint (of_int (p + 1) :: u32) = p + 1"
      using 3 by (subst uint_word_of_int) simp
    with p 3 show ?thesis by (simp add: clamp_block_def)
  qed
qed

lemma leaf_predict_block_bound:
  "3 \<le> uint bn \<Longrightarrow> uint (leaf_predict_block k sl ic bn) < uint bn"
  unfolding leaf_predict_block_def by (rule clamp_block_bound) simp_all

lemma inner_predict_block_bound:
  "4 \<le> uint bn \<Longrightarrow> uint (inner_predict_block k sl ic bn) < uint bn"
  unfolding inner_predict_block_def by (rule clamp_block_bound) simp_all


section \<open>The packed word\<close>

text \<open>The bits of the masks of \<^verbatim>\<open>utils.h\<close>, so that the fields can be compared bit by bit.\<close>

lemma bit_pow2_int: "bit ((2 :: int) ^ k) n \<longleftrightarrow> n = k"
  by (simp add: bit_exp_iff)

lemma bit_single:
  "bit (0x20000000 :: int) n \<longleftrightarrow> n = 29" "bit (0x40000000 :: int) n \<longleftrightarrow> n = 30"
  "bit (0x80000000 :: int) n \<longleftrightarrow> n = 31"
  using bit_pow2_int [of 29 n] bit_pow2_int [of 30 n] bit_pow2_int [of 31 n] by simp_all

lemma bit_masks:
  "bit (0x1fffffff :: int) n \<longleftrightarrow> n < 29" "bit (0x3fffffff :: int) n \<longleftrightarrow> n < 30"
proof -
  have "(0x1fffffff :: int) = mask 29" "(0x3fffffff :: int) = mask 30"
    by (simp_all add: mask_eq_exp_minus_1)
  then show "bit (0x1fffffff :: int) n \<longleftrightarrow> n < 29" "bit (0x3fffffff :: int) n \<longleftrightarrow> n < 30"
    by (simp_all only: bit_mask_iff) auto
qed

lemma bit_high_masks:
  "bit (0xe0000000 :: int) n \<longleftrightarrow> 29 \<le> n \<and> n < 32" "bit (- 0x20000001 :: int) n \<longleftrightarrow> n \<noteq> 29"
  "bit (- 0xc0000001 :: int) n \<longleftrightarrow> n \<noteq> 30 \<and> n \<noteq> 31"
proof -
  have e: "(0xe0000000 :: int) = 0x20000000 OR 0x40000000 OR 0x80000000"
    "(- 0x20000001 :: int) = NOT 0x20000000" "(- 0xc0000001 :: int) = NOT (0x40000000 OR 0x80000000)"
    by simp_all
  show "bit (0xe0000000 :: int) n \<longleftrightarrow> 29 \<le> n \<and> n < 32"
    unfolding e by (simp only: bit_or_iff bit_single) auto
  show "bit (- 0x20000001 :: int) n \<longleftrightarrow> n \<noteq> 29"
    unfolding e by (simp only: bit_not_iff bit_single) simp
  show "bit (- 0xc0000001 :: int) n \<longleftrightarrow> n \<noteq> 30 \<and> n \<noteq> 31"
    unfolding e by (simp only: bit_not_iff bit_or_iff bit_single) simp
qed

lemma info_bits:
  "bit (info (put_block_number m s)) n \<longleftrightarrow> (if n < 29 then bit m n else bit (info s) n)"
  "bit (info (set_type 0 s)) n \<longleftrightarrow> n \<noteq> 29 \<and> bit (info s) n"
  "bit (info (set_type 1 s)) n \<longleftrightarrow> n = 29 \<or> bit (info s) n"
  "bit (info (init_lock s)) n \<longleftrightarrow> n < 30 \<and> bit (info s) n"
  "bit (info (slot_get_write_lock s)) n \<longleftrightarrow> n = 31 \<or> bit (info s) n"
  "bit (info (slot_get_read_lock s)) n \<longleftrightarrow> n = 30 \<or> bit (info s) n"
  "bit (info (slot_release_lock s)) n \<longleftrightarrow> n < 30 \<and> bit (info s) n"
  using bit_imp_le_length [of "info s" n]
  by (auto simp: slot_defs bit_and_iff bit_or_iff bit_not_iff bit_masks bit_single bit_high_masks)

lemma block_number_bit: "bit (block_number s) n \<longleftrightarrow> n < 29 \<and> bit (info s) n"
  by (auto simp: block_number_def bit_and_iff bit_masks)

lemma slot_type_bit: "bit (slot_type s) n \<longleftrightarrow> n = 0 \<and> bit (info s) 29"
proof -
  have "slot_type s = drop_bit 29 (take_bit 30 (info s))"
    by (simp add: slot_type_def take_bit_eq_mask mask_eq_exp_minus_1)
  then show ?thesis by (auto simp: bit_simps)
qed

lemma and_single_zero:
  "x AND 0x80000000 = 0 \<longleftrightarrow> \<not> bit x 31" "x AND 0x40000000 = 0 \<longleftrightarrow> \<not> bit x 30" for x :: u32
proof -
  have b: "bit (x AND 0x80000000) n \<longleftrightarrow> n = 31 \<and> bit x 31"
    "bit (x AND 0x40000000) n \<longleftrightarrow> n = 30 \<and> bit x 30" for n
    by (auto simp: bit_and_iff bit_single)
  have z: "y = 0 \<longleftrightarrow> (\<forall>n. \<not> bit y n)" for y :: u32
    using bit_eq_iff [of y 0] by (auto dest: bit_imp_le_length)
  show "x AND 0x80000000 = 0 \<longleftrightarrow> \<not> bit x 31" "x AND 0x40000000 = 0 \<longleftrightarrow> \<not> bit x 30"
    unfolding z b by simp_all
qed

lemma check_locks_bit:
  "slot_check_write_lock s \<longleftrightarrow> \<not> bit (info s) 31" "slot_check_read_lock s \<longleftrightarrow> \<not> bit (info s) 30"
  by (simp_all add: slot_check_write_lock_def slot_check_read_lock_def lockSet_def
      second_bit_lockSet_def and_single_zero)

lemmas field_bits = block_number_bit slot_type_bit info_bits check_locks_bit

lemma block_number_put_block_number:
  "block_number (put_block_number m s) = take_bit 29 m"
  by (rule bit_word_eqI) (auto simp: field_bits bit_take_bit_iff)

lemma block_number_frames [simp]:
  "block_number (set_type 0 s) = block_number s" "block_number (set_type 1 s) = block_number s"
  "block_number (init_lock s) = block_number s"
  "block_number (slot_get_write_lock s) = block_number s"
  "block_number (slot_get_read_lock s) = block_number s"
  "block_number (slot_release_lock s) = block_number s"
  by (rule bit_word_eqI; auto simp: field_bits)+

lemma slot_type_set_type [simp]:
  "slot_type (set_type 0 s) = 0" "slot_type (set_type 1 s) = 1"
  by (rule bit_word_eqI; simp add: field_bits bit_1_iff)+

lemma slot_type_frames [simp]:
  "slot_type (put_block_number n s) = slot_type s" "slot_type (init_lock s) = slot_type s"
  "slot_type (slot_get_write_lock s) = slot_type s"
  "slot_type (slot_get_read_lock s) = slot_type s"
  "slot_type (slot_release_lock s) = slot_type s"
  by (rule bit_word_eqI; auto simp: field_bits)+

end
