(* ===== verification/Common_Props.thy ===== *)
theory Common_Props
  imports Rpc Shipped_Topology Learned_Model
begin

text \<open>
  Properties of the shared layer: the frame protocol, the topology and its loader, and the packed
  slots with their block predictions.
\<close>

section \<open>Frames\<close>

text \<open>C6: Whatever \<^verbatim>\<open>write_frame\<close> reports as written, \<^verbatim>\<open>read_frame\<close> reads back: for every way the kernel
  splits the bytes into partial reads and writes, the reader returns the same frame and leaves the
  stream at the next frame.\<close>

theorem rpc_frame_roundtrip:
  assumes "write_frame out f = (True, sent, out')"
    and "\<forall>c\<in>set inp. c \<noteq> []" "concat inp = sent @ rest"
    and "length (body f) + 1 < 2 ^ 32" "msg_enumerator (ftype f)"
  shows "\<exists>inp'. read_frame inp = (Some f, inp') \<and> concat inp' = rest"
  using read_frame_frame_bytes [OF assms(2) _ assms(4,5), of rest] assms(3) write_frame_ok [OF assms(1)] by auto

theorem rpc_frame_roundtrip_witness:
  "write_frame [2, 9, 1, 5] \<lparr>ftype = HEARTBEAT, body = [7, 8]\<rparr> = (True, [0, 0, 0, 3, 9, 7, 8], [])
    \<and> (\<exists>inp'. read_frame [[0, 0], [0, 3, 9], [7, 8, 1]] = (Some \<lparr>ftype = HEARTBEAT, body = [7, 8]\<rparr>, inp') \<and> concat inp' = [1])"
proof -
  have w: "write_frame [2, 9, 1, 5] \<lparr>ftype = HEARTBEAT, body = [7, 8]\<rparr> = (True, [0, 0, 0, 3, 9, 7, 8], [])"
    by code_simp
  show ?thesis using rpc_frame_roundtrip [OF w, of "[[0, 0], [0, 3, 9], [7, 8, 1]]" "[1]"] w by simp
qed

text \<open>The reader's loop over a connection, reading a given number of frames.\<close>

fun read_frames :: "nat \<Rightarrow> rx \<Rightarrow> Frame list option" where
  "read_frames 0 s = Some []"
| "read_frames (Suc n) s = (case read_frame s of (None, _) \<Rightarrow> None
     | (Some f, s') \<Rightarrow> map_option ((#) f) (read_frames n s'))"

lemma read_frames_stream:
  assumes "\<forall>f\<in>set fs. length (body f) + 1 < 2 ^ 32 \<and> msg_enumerator (ftype f)"
    and "\<forall>c\<in>set s. c \<noteq> []" "concat s = concat (map frame_bytes fs) @ rest"
  shows "read_frames (length fs) s = Some fs"
  using assms
proof (induction fs arbitrary: s)
  case (Cons f fs)
  from Cons.prems read_frame_frame_bytes [of s f "concat (map frame_bytes fs) @ rest"] obtain s' where
    "read_frame s = (Some f, s')" "concat s' = concat (map frame_bytes fs) @ rest" "\<forall>c\<in>set s'. c \<noteq> []" by auto
  then show ?case using Cons by simp
qed simp

text \<open>A connection never loses synchronisation: a sequence of frames written back to back is read
  back as the same sequence, however the stream is cut into chunks.\<close>

theorem rpc_stream_of_frames:
  assumes "\<forall>f\<in>set fs. length (body f) + 1 < 2 ^ 32 \<and> msg_enumerator (ftype f)"
    and "\<forall>c\<in>set s. c \<noteq> []" "concat s = concat (map frame_bytes fs)"
  shows "read_frames (length fs) s = Some fs"
  using read_frames_stream [OF assms(1,2), of "[]"] assms(3) by simp

theorem rpc_stream_of_frames_witness:
  "read_frames 2 [[0, 0, 0], [1, 10, 0, 0, 0, 2], [9, 5]]
    = Some [\<lparr>ftype = HEARTBEAT_ACK, body = []\<rparr>, \<lparr>ftype = HEARTBEAT, body = [5]\<rparr>]"
proof -
  have c: "concat [[0, 0, 0], [1, 10, 0, 0, 0, 2], [9, 5]]
    = concat (map frame_bytes [\<lparr>ftype = HEARTBEAT_ACK, body = []\<rparr>, \<lparr>ftype = HEARTBEAT, body = [5]\<rparr>])" by code_simp
  have "read_frames (length [\<lparr>ftype = HEARTBEAT_ACK, body = []\<rparr>, \<lparr>ftype = HEARTBEAT, body = [5]\<rparr>])
      [[0, 0, 0], [1, 10, 0, 0, 0, 2], [9, 5]]
    = Some [\<lparr>ftype = HEARTBEAT_ACK, body = []\<rparr>, \<lparr>ftype = HEARTBEAT, body = [5]\<rparr>]"
    by (rule rpc_stream_of_frames [OF _ _ c]) simp_all
  then show ?thesis by (simp only: list.size add_0 add_Suc_right numeral_2_eq_2 add.right_neutral)
qed

text \<open>A truncated frame is never delivered: if the connection ends anywhere inside a frame, the
  reader reports failure instead of a frame.\<close>

theorem rpc_truncated_frame_rejected:
  assumes "\<forall>c\<in>set s. c \<noteq> []" "frame_bytes f = concat s @ missing" "missing \<noteq> []"
    and "length (body f) + 1 < 2 ^ 32"
  shows "\<exists>s'. read_frame s = (None, s')"
  by (rule read_frame_truncated [OF assms])

theorem rpc_truncated_frame_rejected_witness:
  "\<exists>s'. read_frame [[0, 0], [0, 3, 9], [7]] = (None, s')"
proof -
  have f: "frame_bytes \<lparr>ftype = HEARTBEAT, body = [7, 8]\<rparr> = concat [[0, 0], [0, 3, 9], [7]] @ [8]" by code_simp
  show ?thesis using rpc_truncated_frame_rejected [OF _ f] by simp
qed

text \<open>A socket that takes each of the three writes of a frame whole.\<close>

lemma write_all_once: "bs \<noteq> [] \<Longrightarrow> write_all (length bs # ws) bs = (True, bs, ws)"
  by (simp add: write_all.simps [of "length bs # ws"] write_all.simps [of ws "[]"])

lemma write_frame_whole:
  assumes "body f \<noteq> []"
  shows "write_frame (4 # 1 # length (body f) # ws) f = (True, frame_bytes f, ws)"
proof -
  have "be_u32 v \<noteq> []" for v using length_be_u32 [of v] by (metis list.size(3) zero_neq_numeral)
  then have "write_all (4 # s) (be_u32 v) = (True, be_u32 v, s)" for s v using write_all_once [of "be_u32 v" s] by simp
  moreover have "write_all (1 # s) [b] = (True, [b], s)" for s b using write_all_once [of "[b]" s] by simp
  ultimately show ?thesis using assms write_all_once [OF assms, of ws] by (simp add: write_frame_def frame_bytes_def Let_def)
qed

text \<open>The 32-bit length field announces the length of the body modulo 2^32.\<close>

lemma read_frame_wrapped:
  assumes chunks: "\<forall>c\<in>set s. c \<noteq> []" and stream: "concat s = frame_bytes f @ rest" and enum: "msg_enumerator (ftype f)"
  shows "fst (read_frame s) = (if length (body f) mod 2 ^ 32 = 2 ^ 32 - 1 then None
    else Some \<lparr>ftype = ftype f, body = take (length (body f) mod 2 ^ 32) (body f)\<rparr>)"
proof -
  let ?w = "1 + of_nat (length (body f)) :: u32" and ?n = "length (body f) mod 2 ^ 32"
  have n: "unat (?w - 1) = ?n" by (simp add: unat_of_nat)
  have z: "?w = 0 \<longleftrightarrow> ?n = 2 ^ 32 - 1"
  proof -
    have "?w = 0 \<longleftrightarrow> ?w - 1 = - 1" by (metis add.right_inverse add_diff_cancel_left' diff_eq_eq add.commute)
    also have "\<dots> \<longleftrightarrow> unat (?w - 1) = unat (- 1 :: u32)" by (simp add: word_unat_eq_iff)
    finally show ?thesis unfolding n by (simp add: unsigned_minus_1_eq_mask mask_eq_exp_minus_1)
  qed
  have "concat s = be_u32 ?w @ (msg_byte (ftype f) # body f @ rest)" using stream by (simp add: frame_bytes_def)
  from read_all_Some [OF chunks this] obtain s1 where
    r1: "read_all s 4 = (Some (be_u32 ?w), s1)" "concat s1 = [msg_byte (ftype f)] @ (body f @ rest)" "\<forall>c\<in>set s1. c \<noteq> []" by auto
  from read_all_Some [OF r1(3,2)] obtain s2 where
    r2: "read_all s1 1 = (Some [msg_byte (ftype f)], s2)" "concat s2 = body f @ rest" "\<forall>c\<in>set s2. c \<noteq> []" by auto
  have "?n \<le> length (body f)" by simp
  then have tk: "concat s2 = take ?n (body f) @ (drop ?n (body f) @ rest)" "length (take ?n (body f)) = ?n" using r2(2) by simp_all
  from read_all_Some [OF r2(3) tk(1)] obtain s3 where r3: "read_all s2 ?n = (Some (take ?n (body f)), s3)" unfolding tk(2) by blast
  have e: "msg_of_byte (msg_byte (ftype f)) = ftype f" using enum by (simp add: msg_enumerator_def)
  show ?thesis
  proof (cases "?w = 0")
    case True
    then show ?thesis using z r1(1) by (simp add: read_frame_def Let_def)
  next
    case False
    then have "\<not> ?w < 1" by (metis word_less_1)
    then show ?thesis using False z r1(1) r2(1) r3 e unfolding read_frame_def Let_def n
      by (cases "?n = 0") (simp_all add: unat_of_nat del: One_nat_def)
  qed
qed

text \<open>C25: The length field counts the type byte in 32 bits and the writer has no limit.  A body of 2^32 - 1 bytes or
  more is written without an error, but however the bytes arrive the reader never returns that frame: it refuses the
  frame when the field wraps to zero, and otherwise returns the body cut off at its length modulo 2^32, with the
  rest of the body left in the stream.\<close>

theorem rpc_length_field_wraps:
  assumes "2 ^ 32 - 1 \<le> length (body f)" "msg_enumerator (ftype f)"
  shows "\<exists>sent. write_frame (4 # 1 # length (body f) # ws) f = (True, sent, ws)
    \<and> (\<forall>s rest. (\<forall>c\<in>set s. c \<noteq> []) \<longrightarrow> concat s = sent @ rest \<longrightarrow> fst (read_frame s) \<noteq> Some f
        \<and> fst (read_frame s) = (if length (body f) mod 2 ^ 32 = 2 ^ 32 - 1 then None
            else Some \<lparr>ftype = ftype f, body = take (length (body f) mod 2 ^ 32) (body f)\<rparr>))"
proof -
  have "body f \<noteq> []" using assms(1) by auto
  moreover have "\<lparr>ftype = ftype f, body = take (length (body f) mod 2 ^ 32) (body f)\<rparr> \<noteq> f" if "length (body f) mod 2 ^ 32 \<noteq> 2 ^ 32 - 1"
  proof
    assume "\<lparr>ftype = ftype f, body = take (length (body f) mod 2 ^ 32) (body f)\<rparr> = f"
    then have "length (take (length (body f) mod 2 ^ 32) (body f)) = length (body f)" by (metis Frame.select_convs(2))
    then have "length (body f) \<le> length (body f) mod 2 ^ 32" by (simp only: length_take min_def split: if_splits)
    moreover have "length (body f) mod 2 ^ 32 < 2 ^ 32" by (rule mod_less_divisor) simp
    ultimately show False using assms(1) that by linarith
  qed
  ultimately show ?thesis using write_frame_whole [of f ws] read_frame_wrapped [OF _ _ assms(2)] by auto
qed

definition huge_frame :: Frame where
  "huge_frame = \<lparr>ftype = HEARTBEAT, body = replicate (2 ^ 32 - 1) 0\<rparr>"

lemma huge_frame_facts: "length (body huge_frame) = 2 ^ 32 - 1" "msg_enumerator (ftype huge_frame)"
  unfolding huge_frame_def by (simp_all only: Frame.select_convs length_replicate msg_enumerator_simps)

theorem rpc_length_field_wraps_witness:
  "\<exists>sent. write_frame [4, 1, 2 ^ 32 - 1] huge_frame = (True, sent, []) \<and> fst (read_frame [sent]) = None"
proof -
  have "(2 ^ 32 - 1 :: nat) mod 2 ^ 32 = 2 ^ 32 - 1" by simp
  with rpc_length_field_wraps [of huge_frame "[]", unfolded huge_frame_facts(1), OF order_refl huge_frame_facts(2)]
  obtain sent where s: "write_frame [4, 1, 2 ^ 32 - 1] huge_frame = (True, sent, [])"
    "\<forall>s rest. (\<forall>c\<in>set s. c \<noteq> []) \<longrightarrow> concat s = sent @ rest \<longrightarrow> fst (read_frame s) = None" by auto
  have "sent \<noteq> []" using write_frame_ok [OF s(1)] by simp
  then show ?thesis using s(1) s(2) [rule_format, of "[sent]" "[]"] by auto
qed

section \<open>Topology\<close>

text \<open>C7: \<^verbatim>\<open>RangeMap::locate_end\<close> answers, on a topology with disjoint ranges, the id of the End whose
  inclusive key range holds the key (and \<^verbatim>\<open>edge_of\<close> its Edge), and -1 exactly for the keys in no range:
  the binary search agrees with a scan of all Ends.\<close>

theorem locate_end_correct:
  assumes "wf_topology rm"
  shows "(\<forall>e\<in>set (ends rm). in_range k e \<longrightarrow> locate_end rm k = end_id e \<and> edge_of rm (locate_end rm k) = end_edge_id e)
    \<and> (locate_end rm k = - 1 \<longleftrightarrow> (\<forall>e\<in>set (ends rm). \<not> in_range k e))"
proof -
  have a: "\<forall>e\<in>set (ends rm). in_range k e \<longrightarrow> locate_end rm k = end_id e \<and> edge_of rm (locate_end rm k) = end_edge_id e"
    using locate_end_hit [OF assms] by blast
  moreover have "locate_end rm k = - 1 \<longleftrightarrow> (\<forall>e\<in>set (ends rm). \<not> in_range k e)"
    by (rule locate_end_cases [OF assms, of k]) auto
  ultimately show ?thesis by blast
qed

theorem locate_end_correct_witness:
  "wf_topology topology_map \<and> locate_end topology_map (Dbl 0) = 5 \<and> edge_of topology_map 5 = 1"
proof -
  let ?e = "ends topology_map ! 4"
  have e: "?e \<in> set (ends topology_map)" "in_range (Dbl 0) ?e" "end_id ?e = 5" "end_edge_id ?e = 1"
    by (simp_all add: topology_map_def in_range_def)
  show ?thesis using locate_end_correct [OF topology_map_wf, of "Dbl 0"] e topology_map_wf by metis
qed

text \<open>The loader reads the repository's own \<^verbatim>\<open>src/common/topology.yaml\<close> completely: it returns true
  with one cloud, two Edges and ten Ends, the key bounds rounded correctly, and the result is a
  well-formed topology.\<close>

theorem load_shipped_topology:
  "load empty_map (Some topology_yaml) = Inr (True, topology_map) \<and> wf_topology topology_map"
proof
  show "load empty_map (Some topology_yaml) = Inr (True, topology_map)" by code_simp
  show "wf_topology topology_map" by (rule topology_map_wf)
qed

text \<open>C28: When \<^verbatim>\<open>RangeMap::load\<close> returns true, the cloud address is complete, there are Edges and Ends,
  and the Ends are sorted by their lower bound, as the binary search requires.\<close>

theorem load_establishes_order:
  assumes "load rm0 file = Inr (True, rm)"
  shows "cloud_host rm \<noteq> [] \<and> cloud_port rm \<noteq> 0 \<and> edges rm \<noteq> [] \<and> ends rm \<noteq> [] \<and> sorted (map key_lo (ends rm))"
  using load_success [OF assms] by blast

definition tiny_yaml :: string where
  "tiny_yaml = ''cloud: {host: h, port: 1}'' @ [CHR 0x0A] @ ''edges:'' @ [CHR 0x0A] @ ''- id: 1'' @ [CHR 0x0A]
     @ ''ends:'' @ [CHR 0x0A] @ ''-'' @ [CHR 0x0A] @ ''id: 2'' @ [CHR 0x0A] @ ''key_lo: 5'' @ [CHR 0x0A] @ ''-'' @ [CHR 0x0A] @ ''id: 1'' @ [CHR 0x0A]"

theorem load_establishes_order_witness:
  "\<exists>rm. load empty_map (Some tiny_yaml) = Inr (True, rm) \<and> map end_id (ends rm) = [1, 2] \<and> sorted (map key_lo (ends rm))"
proof -
  have l: "(case load empty_map (Some tiny_yaml) of Inr (True, rm) \<Rightarrow> map end_id (ends rm) = [1, 2] | _ \<Rightarrow> False)"
    by code_simp
  then obtain rm where "load empty_map (Some tiny_yaml) = Inr (True, rm)" "map end_id (ends rm) = [1, 2]"
    by (auto split: sum.splits prod.splits bool.splits)
  moreover from this(1) have "sorted (map key_lo (ends rm))"
    using load_establishes_order by blast
  ultimately show ?thesis by metis
qed

text \<open>\<^verbatim>\<open>siblings_of\<close> lists exactly the other Ends under the same Edge: an End is a sibling of another
  iff \<^verbatim>\<open>same_edge\<close> holds and they differ.\<close>

theorem siblings_are_same_edge:
  assumes "wf_topology rm" "a \<in> set (ends rm)" "b \<in> set (ends rm)"
  shows "end_id b \<in> set (siblings_of rm (end_id a)) \<longleftrightarrow> same_edge rm (end_id a) (end_id b) \<and> end_id a \<noteq> end_id b"
proof -
  have e: "edge_of rm (end_id a) = end_edge_id a" "edge_of rm (end_id b) = end_edge_id b" "0 \<le> end_edge_id a"
    using assms by (auto simp: wf_topology_def edge_of_def edge_of_list_member)
  have inj: "c = b" if "c \<in> set (ends rm)" "end_id c = end_id b" for c
    using assms that by (auto simp: wf_topology_def distinct_map inj_on_def)
  have "set (siblings_of rm (end_id a)) = end_id ` {c \<in> set (ends rm). end_edge_id c = end_edge_id a \<and> end_id c \<noteq> end_id a}"
    using e(1,3) by (simp add: siblings_of_def Let_def)
  moreover have "end_id b \<in> end_id ` {c \<in> set (ends rm). end_edge_id c = end_edge_id a \<and> end_id c \<noteq> end_id a}
      \<longleftrightarrow> end_edge_id b = end_edge_id a \<and> end_id b \<noteq> end_id a"
  proof
    assume "end_id b \<in> end_id ` {c \<in> set (ends rm). end_edge_id c = end_edge_id a \<and> end_id c \<noteq> end_id a}"
    then obtain c where "c \<in> set (ends rm)" "end_edge_id c = end_edge_id a" "end_id c \<noteq> end_id a" "end_id c = end_id b" by auto
    then show "end_edge_id b = end_edge_id a \<and> end_id b \<noteq> end_id a" using inj [of c] by simp
  next
    assume "end_edge_id b = end_edge_id a \<and> end_id b \<noteq> end_id a"
    then show "end_id b \<in> end_id ` {c \<in> set (ends rm). end_edge_id c = end_edge_id a \<and> end_id c \<noteq> end_id a}"
      using assms(3) by simp
  qed
  ultimately show ?thesis using e unfolding same_edge_def by metis
qed

theorem siblings_are_same_edge_witness:
  "wf_topology topology_map \<and> siblings_of topology_map 7 = [6, 8, 9, 10]
    \<and> (6 \<in> set (siblings_of topology_map 7) \<longleftrightarrow> same_edge topology_map 7 6 \<and> (7 :: int) \<noteq> 6)"
proof -
  have m: "ends topology_map ! 6 \<in> set (ends topology_map)" "ends topology_map ! 5 \<in> set (ends topology_map)"
    "end_id (ends topology_map ! 6) = 7" "end_id (ends topology_map ! 5) = 6"
    by (simp_all add: topology_map_def)
  have "siblings_of topology_map 7 = [6, 8, 9, 10]" by code_simp
  then show ?thesis using siblings_are_same_edge [OF topology_map_wf m(1,2)] m(3,4) topology_map_wf by simp
qed

section \<open>Slots and predictions\<close>

text \<open>The block a leaf or inner model predicts is always one of the node's blocks, whatever the key
  and the (possibly infinite or NaN) coefficients, as long as the node has the minimum number of blocks
  bulk loading gives it: three for a leaf, four for an inner node.\<close>

theorem predicted_block_in_bounds:
  assumes "4 \<le> uint bn"
  shows "uint (leaf_predict_block k sl ic bn) < uint bn \<and> uint (inner_predict_block k sl ic bn) < uint bn"
  using leaf_predict_block_bound [of bn k sl ic] inner_predict_block_bound [OF assms, of k sl ic] assms by simp

theorem predicted_block_in_bounds_witness:
  "4 \<le> uint (5 :: u32) \<and> uint (leaf_predict_block (Some (Dbl 0)) None None 5) < uint (5 :: u32)
    \<and> uint (inner_predict_block (Some (Dbl 0)) None None 5) < uint (5 :: u32)"
  using predicted_block_in_bounds [of 5 "Some (Dbl 0)" None None] by simp

text \<open>An inner node of three blocks, which \<^verbatim>\<open>rebuild_inner_nodes\<close> can create, makes the unsigned
  \<^verbatim>\<open>block_number - 4\<close> wrap around, so the clamp is lost and the prediction leaves the node.\<close>

theorem inner_prediction_wraps_below_four:
  "inner_predict_block (fp_of_int 1000) (fp_of_int 1) (fp_of_int 0) 3 = 126"
  by code_simp

text \<open>The fields packed into a slot's \<^verbatim>\<open>info\<close> word do not disturb each other: setting the block
  number (below 2^29), the type or the locks leaves the other fields as they were, and each is read back.\<close>

theorem slot_fields_independent:
  assumes "uint n < 2 ^ 29"
  shows "(\<exists>s'. set_block_number n s = Some s' \<and> block_number s' = n \<and> slot_type s' = slot_type s
        \<and> slot_check_write_lock s' = slot_check_write_lock s \<and> slot_check_read_lock s' = slot_check_read_lock s)
    \<and> slot_type (set_type 1 s) = 1 \<and> slot_type (set_type 0 s) = 0 \<and> block_number (set_type 1 s) = block_number s
    \<and> \<not> slot_check_write_lock (slot_get_write_lock s) \<and> \<not> slot_check_read_lock (slot_get_read_lock s)
    \<and> slot_check_read_lock (slot_get_write_lock s) = slot_check_read_lock s
    \<and> block_number (slot_get_write_lock s) = block_number s \<and> slot_type (slot_get_read_lock s) = slot_type s
    \<and> slot_check_write_lock (slot_release_lock s) \<and> slot_check_read_lock (slot_release_lock s)
    \<and> block_number (slot_release_lock s) = block_number s \<and> slot_type (slot_release_lock s) = slot_type s"
proof -
  have "uint (take_bit 29 n) = uint n" using assms by (simp add: unsigned_take_bit_eq take_bit_int_eq_self)
  then have "take_bit 29 n = n" by (rule unsigned_word_eqI)
  then show ?thesis using assms by (simp add: set_block_number_def block_number_put_block_number field_bits)
qed

theorem slot_fields_independent_witness:
  "\<exists>s'. set_block_number 77 \<lparr>min_key = Dbl 0, ptr = 0, slope = None, intercept = None, info = 0xA0000005\<rparr> = Some s'
    \<and> block_number s' = 77"
  using slot_fields_independent [of 77 "\<lparr>min_key = Dbl 0, ptr = 0, slope = None, intercept = None, info = 0xA0000005\<rparr>"]
  by auto

text \<open>The two slot markers are the same key: \<^verbatim>\<open>max() - 1\<close> rounds to \<^verbatim>\<open>max()\<close>, so a deleted slot
  cannot be told from a free one.\<close>

theorem delete_flag_is_free_flag: "DELETE_FLAG = FREE_FLAG"
  by code_simp

end
