(* ===== verification/Leaf_Node.thy ===== *)
theory Leaf_Node
  imports Learned_Model BPlus_Map
begin

text \<open>
  The learned leaf node of \<^verbatim>\<open>src/core/index/leaf_node.h\<close>: an array of blocks, each a header (block
  lock with version, overflow tree) and fifteen data slots.  The leaves live in a heap of their own,
  because they are linked by \<^verbatim>\<open>prev\<close> and \<^verbatim>\<open>next\<close>; address 0 is \<^verbatim>\<open>NULL\<close>.  The slot array is a list
  of blocks: index \<^verbatim>\<open>block * LeafSlotsPerBlock\<close> is the header of a block and the next fifteen are its
  data.  Operations run alone: a loop that waits for a lock bit to clear either passes at once or
  never ends (\<^term>\<open>None\<close>).
\<close>

section \<open>Block headers\<close>

record BlockHeader =
  locked :: u32
  local_version :: u32
  overflow_tree :: "btree_plus option"

definition check_global_version :: "u32 \<Rightarrow> BlockHeader \<Rightarrow> BlockHeader" where
  "check_global_version global_version h = (if global_version \<noteq> local_version h
     then h\<lparr>locked := 0, local_version := global_version\<rparr> else h)"

definition block_get_lock :: "u32 \<Rightarrow> BlockHeader \<Rightarrow> BlockHeader option" where
  "block_get_lock global_version h = (let h = check_global_version global_version h in
     if locked h AND lockSet = 0 then Some (h\<lparr>locked := locked h OR lockSet\<rparr>) else None)"

text \<open>\<^verbatim>\<open>check_lock\<close> answers whether the block is free and may reset the header on the way.\<close>

definition check_lock :: "u32 \<Rightarrow> BlockHeader \<Rightarrow> bool \<times> BlockHeader" where
  "check_lock global_version h = (let h = check_global_version global_version h in
     (locked h AND lockSet = 0, h))"

definition block_release_lock :: "BlockHeader \<Rightarrow> BlockHeader" where
  "block_release_lock h = h\<lparr>locked := (locked h + 1) AND lockMask\<rparr>"

definition release_lock_without_change :: "BlockHeader \<Rightarrow> BlockHeader" where
  "release_lock_without_change h = h\<lparr>locked := locked h AND lockMask\<rparr>"

definition get_version :: "BlockHeader \<Rightarrow> u32 option" where
  "get_version h = (if locked h AND lockSet = 0 then Some (locked h) else None)"

definition check_version_change :: "u32 \<Rightarrow> BlockHeader \<Rightarrow> bool" where
  "check_version_change old_version h \<longleftrightarrow> old_version \<noteq> locked h"

section \<open>Nodes\<close>

type_synonym DataSlot = "double \<times> payload_t"

record leaf_block =
  hdr :: BlockHeader
  data :: "DataSlot list"

record LeafNode =
  leaf_slope :: fp
  leaf_intercept :: fp
  leaf_block_number :: u32
  prev_node :: nat
  next_node :: nat
  first_key :: double
  overflow_number :: u64
  number_to_split :: u64
  node_locked :: u32
  abandoned :: bool
  leaf_slots :: "leaf_block list"

type_synonym leaves = "nat \<Rightarrow> LeafNode option"

definition set_abandoned :: "LeafNode \<Rightarrow> LeafNode" where
  "set_abandoned lf = lf\<lparr>abandoned := True\<rparr>"

definition try_get_split_lock :: "LeafNode \<Rightarrow> bool \<times> LeafNode" where
  "try_get_split_lock lf = (if node_locked lf AND 1 = 0
     then (True, lf\<lparr>node_locked := node_locked lf OR 1\<rparr>) else (False, lf))"

definition check_split_lock :: "LeafNode \<Rightarrow> bool" where
  "check_split_lock lf \<longleftrightarrow> node_locked lf AND 1 = 0"

definition leaf_get_write_lock :: "LeafNode \<Rightarrow> LeafNode" where
  "leaf_get_write_lock lf = lf\<lparr>node_locked := node_locked lf + 2\<rparr>"

definition leaf_get_read_lock :: "LeafNode \<Rightarrow> LeafNode" where
  "leaf_get_read_lock lf = lf\<lparr>node_locked := node_locked lf + 4\<rparr>"

definition leaf_check_write_lock :: "InnerSlot option \<Rightarrow> LeafNode \<Rightarrow> bool" where
  "leaf_check_write_lock acc lf = (case acc of Some s \<Rightarrow> slot_check_write_lock s
     | None \<Rightarrow> node_locked lf AND 2 = 0)"

definition leaf_check_read_lock :: "InnerSlot option \<Rightarrow> LeafNode \<Rightarrow> bool" where
  "leaf_check_read_lock acc lf = (case acc of Some s \<Rightarrow> slot_check_read_lock s
     | None \<Rightarrow> node_locked lf AND 4 = 0)"

definition leaf_release_lock :: "LeafNode \<Rightarrow> LeafNode" where
  "leaf_release_lock lf = lf\<lparr>node_locked := 0\<rparr>"

text \<open>\<^verbatim>\<open>set_prev\<close> and \<^verbatim>\<open>set_next\<close> ignore a null argument.\<close>

definition set_prev :: "nat \<Rightarrow> LeafNode \<Rightarrow> LeafNode" where
  "set_prev p lf = (if p \<noteq> 0 then lf\<lparr>prev_node := p\<rparr> else lf)"

definition set_next :: "nat \<Rightarrow> LeafNode \<Rightarrow> LeafNode" where
  "set_next n lf = (if n \<noteq> 0 then lf\<lparr>next_node := n\<rparr> else lf)"

text \<open>The accelerator of a node: the copy of its model that its parent keeps.\<close>

definition leaf_accelerator :: "nat \<Rightarrow> LeafNode \<Rightarrow> InnerSlot \<Rightarrow> bt_err + InnerSlot" where
  "leaf_accelerator this lf acc = (case set_block_number (leaf_block_number lf)
       (acc\<lparr>min_key := first_key lf, ptr := this, slope := leaf_slope lf, intercept := leaf_intercept lf\<rparr>) of
     None \<Rightarrow> Inl AssertFail | Some s \<Rightarrow> Inr (init_lock (set_type 0 s)))"

definition leaf_get_info :: "nat \<Rightarrow> LeafNode \<Rightarrow> InnerSlot \<Rightarrow> bt_err + double \<times> InnerSlot" where
  "leaf_get_info this lf acc = bind_res (leaf_accelerator this lf acc) (\<lambda>s. Inr (first_key lf, s))"

section \<open>Locating the block of a key\<close>

definition get_block :: "nat \<Rightarrow> LeafNode \<Rightarrow> bt_err + leaf_block" where
  "get_block i lf = (if i < length (leaf_slots lf) then Inr (leaf_slots lf ! i) else Inl OutOfBounds)"

definition put_block :: "nat \<Rightarrow> leaf_block \<Rightarrow> LeafNode \<Rightarrow> LeafNode" where
  "put_block i b lf = lf\<lparr>leaf_slots := (leaf_slots lf)[i := b]\<rparr>"

definition leaf_model :: "InnerSlot option \<Rightarrow> LeafNode \<Rightarrow> fp \<times> fp \<times> u32" where
  "leaf_model acc lf = (case acc of Some s \<Rightarrow> (slope s, intercept s, block_number s)
     | None \<Rightarrow> (leaf_slope lf, leaf_intercept lf, leaf_block_number lf))"

text \<open>
  \<^verbatim>\<open>find\<close>, \<^verbatim>\<open>upsert\<close> and \<^verbatim>\<open>remove\<close> begin alike: give up on a read-locked node, predict the block,
  and pass the key on to the next node (without an accelerator) when the block is one of the last two
  and the next node starts at or below the key.  The header index \<^verbatim>\<open>slot\<close> is a \<^verbatim>\<open>uint32_t\<close>.
\<close>

datatype walk = Locked | Reached nat nat "InnerSlot option"

definition slot_block :: "u32 \<Rightarrow> nat" where
  "slot_block block = unat (block * 16) div LeafSlotsPerBlock"

partial_function (option) leaf_walk :: "leaves \<Rightarrow> nat \<Rightarrow> double \<Rightarrow> InnerSlot option \<Rightarrow> walk run" where
  [code]: "leaf_walk ls this key acc = (case ls this of None \<Rightarrow> Some (Inl NullDeref)
     | Some lf \<Rightarrow> if \<not> leaf_check_read_lock acc lf then Some (Inr Locked)
        else (case leaf_model acc lf of (sl, ic, bn) \<Rightarrow>
          let block = leaf_predict_block (Some key) sl ic bn;
              here = Some (Inr (Reached this (slot_block block) acc))
          in if block \<ge> bn - 2 \<and> next_node lf \<noteq> 0
             then (case ls (next_node lf) of None \<Rightarrow> Some (Inl NullDeref)
               | Some nx \<Rightarrow> if first_key nx \<le> key then leaf_walk ls (next_node lf) key None else here)
             else here))"

section \<open>Lookup\<close>

text \<open>The first data slot with the given key, counted from 0.\<close>

fun find_slot :: "double \<Rightarrow> DataSlot list \<Rightarrow> nat option" where
  "find_slot key [] = None"
| "find_slot key (s # ss) = (if fst s = key then Some 0 else map_option Suc (find_slot key ss))"

definition block_find :: "u32 \<Rightarrow> double \<Rightarrow> leaf_block \<Rightarrow> (nat \<times> payload_t option \<times> leaf_block) run" where
  "block_find gv key b = (case check_lock gv (hdr b) of (free, h) \<Rightarrow>
     let b' = b\<lparr>hdr := h\<rparr> in
     if \<not> free then None
     else (case get_version h of None \<Rightarrow> None
       | Some version \<Rightarrow> (case find_slot key (data b) of
           Some i \<Rightarrow> if check_version_change version h then None
                     else Some (Inr (1, Some (snd (data b ! i)), b'))
         | None \<Rightarrow> (case overflow_tree h of None \<Rightarrow> Some (Inr (0, None, b'))
             | Some t \<Rightarrow> bind_run (find key (btree_plus_open t)) (\<lambda>r.
                 Some (Inr (case r of Some v \<Rightarrow> (1, Some v, b') | None \<Rightarrow> (0, None, b'))))))))"

text \<open>The result code (0 absent, 1 present, 2 retry), the payload, and the leaves after it.\<close>

definition leaf_find :: "leaves \<Rightarrow> nat \<Rightarrow> double \<Rightarrow> u32 \<Rightarrow> InnerSlot option \<Rightarrow>
    (nat \<times> payload_t option \<times> leaves) run" where
  "leaf_find ls this key gv acc = bind_run (leaf_walk ls this key acc) (\<lambda>w. case w of
       Locked \<Rightarrow> Some (Inr (2, None, ls))
     | Reached a i acc' \<Rightarrow> (case ls a of None \<Rightarrow> Some (Inl NullDeref) | Some lf \<Rightarrow>
         bind_run (Some (get_block i lf)) (\<lambda>b. bind_run (block_find gv key b) (\<lambda>(ret, pl, b').
           Some (Inr (ret, pl, ls(a \<mapsto> put_block i b' lf)))))))"

section \<open>Insertion and update\<close>

text \<open>The last slot marked as deleted, counted from 1; 0 when there is none.\<close>

fun last_deleted :: "nat \<Rightarrow> nat \<Rightarrow> DataSlot list \<Rightarrow> nat" where
  "last_deleted i d [] = d"
| "last_deleted i d (s # ss) = last_deleted (Suc i) (if fst s = DELETE_FLAG then i else d) ss"

text \<open>
  The constructor \<^verbatim>\<open>btree_plus(&overflow_tree, !overflow_tree)\<close>: a new tree when the block has none.
\<close>

definition open_overflow :: "BlockHeader \<Rightarrow> btree_plus" where
  "open_overflow h = (case overflow_tree h of None \<Rightarrow> btree_plus_init | Some t \<Rightarrow> btree_plus_open t)"

text \<open>
  The locked section of \<^verbatim>\<open>upsert\<close>.  Should the tree answer 2 with no deleted slot recorded, the
  pair would be written over the block header.
\<close>

definition block_upsert :: "u32 \<Rightarrow> double \<Rightarrow> payload_t \<Rightarrow> leaf_block \<Rightarrow> (nat \<times> leaf_block) run" where
  "block_upsert gv key payload b = (case block_get_lock gv (hdr b) of None \<Rightarrow> None
     | Some h \<Rightarrow> (case find_slot key (data b) of
         Some i \<Rightarrow> Some (Inr (1, b\<lparr>hdr := block_release_lock h,
             data := (data b)[i := (fst (data b ! i), payload)]\<rparr>))
       | None \<Rightarrow> (case find_slot FREE_FLAG (data b) of
           Some i \<Rightarrow> Some (Inr (2, b\<lparr>hdr := block_release_lock h, data := (data b)[i := (key, payload)]\<rparr>))
         | None \<Rightarrow> (let deleted_slot = last_deleted 1 0 (data b) in
             bind_run (upsert key payload (open_overflow h)) (\<lambda>(flag, t).
               let h' = h\<lparr>overflow_tree := Some t\<rparr> in
               if flag = 2 then (if deleted_slot = 0 then Some (Inl OutOfBounds)
                 else Some (Inr (2, b\<lparr>hdr := block_release_lock h',
                        data := (data b)[deleted_slot - 1 := (key, payload)]\<rparr>)))
               else Some (Inr (nat flag, b\<lparr>hdr := block_release_lock h'\<rparr>)))))))"

text \<open>
  Result: the code 1 to 7, the node to split (the reference parameter, when it is set) and the leaves.
  A write-locked node has the lock of the predicted block released although it was not taken.
\<close>

definition leaf_upsert :: "leaves \<Rightarrow> nat \<Rightarrow> double \<Rightarrow> payload_t \<Rightarrow> u32 \<Rightarrow> InnerSlot option \<Rightarrow>
    (nat \<times> nat option \<times> leaves) run" where
  "leaf_upsert ls this key payload gv acc = bind_run (leaf_walk ls this key acc) (\<lambda>w. case w of
       Locked \<Rightarrow> Some (Inr (7, None, ls))
     | Reached a i acc' \<Rightarrow> (case ls a of None \<Rightarrow> Some (Inl NullDeref) | Some lf \<Rightarrow>
         bind_run (Some (get_block i lf)) (\<lambda>b.
           if \<not> leaf_check_write_lock acc' lf
           then Some (Inr (7, None, ls(a \<mapsto> put_block i (b\<lparr>hdr := release_lock_without_change (hdr b)\<rparr>) lf)))
           else bind_run (block_upsert gv key payload b) (\<lambda>(flag, b').
             let lf' = put_block i b' lf;
                 lf'' = (if flag = 4 then lf'\<lparr>overflow_number := overflow_number lf' + 1\<rparr> else lf');
                 full = (flag = 4 \<and> overflow_number lf'' > number_to_split lf'');
                 ret = (if full then (if acc' \<noteq> None then 5 else 6) else flag)
             in Some (Inr (if abandoned lf then 7 else ret, if full then Some a else None,
                  ls(a \<mapsto> lf'')))))))"

section \<open>Removal\<close>

definition block_remove :: "u32 \<Rightarrow> double \<Rightarrow> leaf_block \<Rightarrow> (nat \<times> leaf_block) run" where
  "block_remove gv key b = (case block_get_lock gv (hdr b) of None \<Rightarrow> None
     | Some h \<Rightarrow> (case find_slot key (data b) of
         Some i \<Rightarrow> Some (Inr (1, b\<lparr>hdr := block_release_lock h, data := (data b)[i :=
             (if overflow_tree h \<noteq> None then DELETE_FLAG else FREE_FLAG, snd (data b ! i))]\<rparr>))
       | None \<Rightarrow> (case overflow_tree h of
           None \<Rightarrow> Some (Inr (0, b\<lparr>hdr := release_lock_without_change h\<rparr>))
         | Some t \<Rightarrow> bind_run (delete_entry key (btree_plus_open t)) (\<lambda>(result, t').
             let h' = h\<lparr>overflow_tree := Some t'\<rparr> in
             if result then Some (Inr (2, b\<lparr>hdr := block_release_lock h'\<rparr>))
             else Some (Inr (0, b\<lparr>hdr := release_lock_without_change h'\<rparr>))))))"

definition leaf_remove :: "leaves \<Rightarrow> nat \<Rightarrow> double \<Rightarrow> u32 \<Rightarrow> InnerSlot option \<Rightarrow> (nat \<times> leaves) run" where
  "leaf_remove ls this key gv acc = bind_run (leaf_walk ls this key acc) (\<lambda>w. case w of
       Locked \<Rightarrow> Some (Inr (3, ls))
     | Reached a i acc' \<Rightarrow> (case ls a of None \<Rightarrow> Some (Inl NullDeref) | Some lf \<Rightarrow>
         bind_run (Some (get_block i lf)) (\<lambda>b.
           if \<not> leaf_check_write_lock acc' lf
           then Some (Inr (3, ls(a \<mapsto> put_block i (b\<lparr>hdr := release_lock_without_change (hdr b)\<rparr>) lf)))
           else bind_run (block_remove gv key b) (\<lambda>(ret, b').
             let lf' = put_block i b' lf
             in Some (Inr (ret, ls(a \<mapsto>
                  (if ret = 2 then lf'\<lparr>overflow_number := overflow_number lf' - 1\<rparr> else lf'))))))))"

section \<open>Construction\<close>

text \<open>Here \<^verbatim>\<open>slot\<close> is a \<^verbatim>\<open>uint64_t\<close>, so the block index is the prediction itself.\<close>

definition leaf_data_placement :: "double \<Rightarrow> payload_t \<Rightarrow> LeafNode \<Rightarrow> LeafNode run" where
  "leaf_data_placement key payload lf =
     (let i = unat (leaf_predict_block (Some key) (leaf_slope lf) (leaf_intercept lf) (leaf_block_number lf)) in
      bind_run (Some (get_block i lf)) (\<lambda>b. case find_slot FREE_FLAG (data b) of
          Some j \<Rightarrow> Some (Inr (put_block i (b\<lparr>data := (data b)[j := (key, payload)]\<rparr>) lf))
        | None \<Rightarrow> bind_run (bt_insert key payload (open_overflow (hdr b))) (\<lambda>(_, t).
            Some (Inr ((put_block i (b\<lparr>hdr := (hdr b)\<lparr>overflow_tree := Some t\<rparr>\<rparr>) lf)
              \<lparr>overflow_number := overflow_number lf + 1\<rparr>)))))"

fun leaf_place_all :: "(double \<times> payload_t) list \<Rightarrow> LeafNode \<Rightarrow> LeafNode run" where
  "leaf_place_all [] lf = Some (Inr lf)"
| "leaf_place_all ((k, v) # kvs) lf = bind_run (leaf_data_placement k v lf) (leaf_place_all kvs)"

text \<open>\<^verbatim>\<open>LEAF_NODE_INIT_RATIO * LeafRealSlotsPerBlock\<close> is 7.5 and \<^verbatim>\<open>MAX_OVERFLOW_RATIO\<close> is 0.3.\<close>

definition leaf_fill :: fp where "leaf_fill = Some (Dbl 0x401E000000000000)"
definition MAX_OVERFLOW_RATIO :: fp where "MAX_OVERFLOW_RATIO = Some (Dbl 0x3FD3333333333333)"

definition empty_block :: "u32 \<Rightarrow> leaf_block" where
  "empty_block gv = \<lparr>hdr = \<lparr>locked = 0, local_version = gv, overflow_tree = None\<rparr>,
     data = replicate LeafRealSlotsPerBlock (FREE_FLAG, 0)\<rparr>"

text \<open>
  The node before placement.  The payload of a free slot is left unset by the code; it is 0 here.
  The parameter \<^verbatim>\<open>block_number\<close> is 64 bits wide and its field 32.
\<close>

definition leaf_blank :: "u64 \<Rightarrow> (double \<times> payload_t) list \<Rightarrow> nat \<Rightarrow> nat \<Rightarrow> fp \<Rightarrow> fp \<Rightarrow> u32 \<Rightarrow> nat \<Rightarrow> nat \<Rightarrow> LeafNode" where
  "leaf_blank bn kvs number start_pos sl ic gv p n =
     (let lo = fst (kvs ! start_pos);
          hi = fst (kvs ! (start_pos + number - 1));
          scale = (\<lambda>x. fp_div (fp_mul x (fp_of_int 16)) leaf_fill);
          sl1 = scale sl;
          ic1 = fp_to_float (scale (fp_sub (fp_sub ic (fp_of_int (int start_pos))) (fp_mul (Some lo) sl)));
          bn32 = ucast bn :: u32;
          (sl2, ic2) = model_correction sl1 ic1 (ucast (bn32 - 2) * 16) lo hi
      in \<lparr>leaf_slope = sl2, leaf_intercept = ic2, leaf_block_number = bn32, prev_node = p, next_node = n,
          first_key = lo, overflow_number = 0,
          number_to_split = of_int (fp_to_int64 (fp_mul (fp_of_int (uint (bn * 15))) MAX_OVERFLOW_RATIO)),
          node_locked = 0, abandoned = False, leaf_slots = replicate (unat bn32) (empty_block gv)\<rparr>)"

definition leaf_new :: "nat \<Rightarrow> InnerSlot \<Rightarrow> u64 \<Rightarrow> (double \<times> payload_t) list \<Rightarrow> nat \<Rightarrow> nat \<Rightarrow> fp \<Rightarrow> fp \<Rightarrow> u32 \<Rightarrow>
    nat \<Rightarrow> nat \<Rightarrow> (LeafNode \<times> InnerSlot) run" where
  "leaf_new this acc bn kvs number start_pos sl ic gv p n =
     (if number = 0 \<or> length kvs < start_pos + number then Some (Inl OutOfBounds)
      else bind_run (leaf_place_all (take number (drop start_pos kvs)) (leaf_blank bn kvs number start_pos sl ic gv p n)) (\<lambda>lf.
        bind_run (Some (leaf_accelerator this lf acc)) (\<lambda>s. Some (Inr (lf, s)))))"

section \<open>Collecting the data of a node\<close>

definition is_flag :: "DataSlot \<Rightarrow> bool" where
  "is_flag s \<longleftrightarrow> fst s = DELETE_FLAG \<or> fst s = FREE_FLAG"

text \<open>
  The merge of the sorted slots with the overflow tree.  The scan of the slots ends at the first flag.
\<close>

fun merge_block :: "DataSlot list \<Rightarrow> DataSlot list \<Rightarrow> DataSlot list" where
  "merge_block [] os = os"
| "merge_block (s # ss) [] = s # merge_block (if ss \<noteq> [] \<and> is_flag (hd ss) then [] else ss) []"
| "merge_block (s # ss) (p # os) = (if fst p < fst s then p # merge_block (s # ss) os
     else s # merge_block (if ss \<noteq> [] \<and> is_flag (hd ss) then [] else ss) (p # os))"

text \<open>
  \<^verbatim>\<open>std::sort\<close> leaves the order of equal keys open; the model keeps it.  Only flags repeat in a block.
  The answer of \<^verbatim>\<open>check_lock\<close> is not used.
\<close>

definition block_get_data :: "u32 \<Rightarrow> leaf_block \<Rightarrow> (DataSlot list \<times> leaf_block) run" where
  "block_get_data gv b = (let h = snd (check_lock gv (hdr b));
       d = sort_key fst (data b); b' = \<lparr>hdr = h, data = d\<rparr> in
     (case overflow_tree h of
       None \<Rightarrow> Some (Inr (filter (\<lambda>s. \<not> is_flag s) d, b'))
     | Some t \<Rightarrow> bind_run (get_data (btree_plus_open t)) (\<lambda>os.
         Some (Inr (merge_block (dropWhile is_flag d) os, b')))))"

fun blocks_get_data :: "u32 \<Rightarrow> leaf_block list \<Rightarrow> (DataSlot list \<times> leaf_block list) run" where
  "blocks_get_data gv [] = Some (Inr ([], []))"
| "blocks_get_data gv (b # bs) = bind_run (block_get_data gv b) (\<lambda>(xs, b').
     bind_run (blocks_get_data gv bs) (\<lambda>(ys, bs'). Some (Inr (xs @ ys, b' # bs'))))"

definition leaf_get_data :: "u32 \<Rightarrow> LeafNode \<Rightarrow> (DataSlot list \<times> LeafNode) run" where
  "leaf_get_data gv lf = (let n = unat (leaf_block_number lf) in
     if length (leaf_slots lf) < n then Some (Inl OutOfBounds)
     else bind_run (blocks_get_data gv (take n (leaf_slots lf))) (\<lambda>(temp, bs).
       Some (Inr (filter (\<lambda>s. fst s \<noteq> FREE_FLAG) (sort_key fst temp),
         lf\<lparr>leaf_slots := bs @ drop n (leaf_slots lf)\<rparr>))))"

section \<open>Range queries\<close>

text \<open>One block: its answers and whether a live key above the upper bound ends the scan.\<close>

definition block_range :: "double \<Rightarrow> double \<Rightarrow> leaf_block \<Rightarrow> (DataSlot list \<times> bool) run" where
  "block_range lo hi b = (let here = filter (\<lambda>s. lo \<le> fst s \<and> fst s \<le> hi) (data b);
       stop = list_ex (\<lambda>s. \<not> (lo \<le> fst s \<and> fst s \<le> hi) \<and> hi < fst s \<and> \<not> is_flag s) (data b) in
     (case overflow_tree (hdr b) of
       None \<Rightarrow> Some (Inr (here, stop))
     | Some t \<Rightarrow> bind_run (range_query lo hi (btree_plus_open t)) (\<lambda>os. Some (Inr (here @ os, stop)))))"

fun scan_blocks :: "double \<Rightarrow> double \<Rightarrow> leaf_block list \<Rightarrow> (DataSlot list \<times> bool) run" where
  "scan_blocks lo hi [] = Some (Inr ([], False))"
| "scan_blocks lo hi (b # bs) = bind_run (block_range lo hi b) (\<lambda>(xs, stop).
     if stop then Some (Inr (xs, True))
     else bind_run (scan_blocks lo hi bs) (\<lambda>(ys, stop). Some (Inr (xs @ ys, stop))))"

definition scan_leaf :: "double \<Rightarrow> double \<Rightarrow> nat \<Rightarrow> nat \<Rightarrow> LeafNode \<Rightarrow> (DataSlot list \<times> bool) run" where
  "scan_leaf lo hi block bn lf = (if length (leaf_slots lf) < bn then Some (Inl OutOfBounds)
     else scan_blocks lo hi (drop block (take bn (leaf_slots lf))))"

partial_function (option) leaf_scan :: "leaves \<Rightarrow> double \<Rightarrow> double \<Rightarrow> nat \<Rightarrow> nat \<Rightarrow> LeafNode \<Rightarrow> DataSlot list run" where
  [code]: "leaf_scan ls lo hi block bn lf = bind_run (scan_leaf lo hi block bn lf) (\<lambda>r.
     if \<not> snd r \<and> next_node lf \<noteq> 0
     then (case ls (next_node lf) of None \<Rightarrow> Some (Inl NullDeref)
       | Some nx \<Rightarrow> bind_run (leaf_scan ls lo hi 0 (unat (leaf_block_number nx)) nx) (\<lambda>ys.
           Some (Inr (fst r @ ys))))
     else Some (Inr (fst r)))"

text \<open>The start (\<^verbatim>\<open>rq_flag = 0\<close>) locates the block of the lower bound without looking at the node locks.\<close>

partial_function (option) leaf_range_query ::
    "leaves \<Rightarrow> nat \<Rightarrow> double \<Rightarrow> double \<Rightarrow> InnerSlot option \<Rightarrow> DataSlot list run" where
  [code]: "leaf_range_query ls this lo hi acc = (case ls this of None \<Rightarrow> Some (Inl NullDeref)
     | Some lf \<Rightarrow> (case leaf_model acc lf of (sl, ic, bn) \<Rightarrow>
         let block = leaf_predict_block (Some lo) sl ic bn;
             here = leaf_scan ls lo hi (unat block) (unat bn) lf
         in if block \<ge> bn - 2 \<and> next_node lf \<noteq> 0
            then (case ls (next_node lf) of None \<Rightarrow> Some (Inl NullDeref)
              | Some nx \<Rightarrow> if first_key nx \<le> lo then leaf_range_query ls (next_node lf) lo hi None else here)
            else here))"

end
