(* ===== verification/Leaf_Correct.thy ===== *)
theory Leaf_Correct
  imports Leaf_Node
begin

text \<open>
  The leaf node as a map.  A block is the map of its data slots over the map of its overflow tree;
  lookups, insertions and model-based placement act on the block the model predicts, so the lemmas
  hold for every model: whatever the floating-point prediction is, the same key meets the same block.
\<close>

section \<open>Opening an overflow tree again\<close>

text \<open>The block keeps the root pointer only; it follows the root of the tree through every insertion.\<close>

definition synced :: "btree_plus \<Rightarrow> bool" where
  "synced t \<longleftrightarrow> addr_slot t = root t"

lemma synced_heap [simp]: "synced (t\<lparr>heap_of := h\<rparr>) = synced t"
  by (simp add: synced_def)

lemma open_synced [simp]: "synced t \<Longrightarrow> btree_plus_open t = t"
  by (simp add: synced_def btree_plus_open_def)

lemma synced_grow_root: "grow_root n k m t = Inr t' \<Longrightarrow> synced t'"
  by (auto simp: grow_root_def bind_res_Inr_iff Let_def set_new_root_def synced_def)

lemma synced_split_father: "split_father f t = Inr (s, t') \<Longrightarrow> synced t \<Longrightarrow> synced t'"
  by (auto simp: split_father_def split_def bind_res_Inr_iff Let_def synced_def split: if_splits)

lemma synced_insert_into_parent:
  assumes "insert_into_parent n k m t = Some r" "r = Inr t'" "synced t"
  shows "synced t'"
proof -
  let ?P = "\<lambda>n k m t r. synced t \<longrightarrow> (\<forall>t'. r = Inr t' \<longrightarrow> synced t')"
  have "?P n k m t r"
  proof (rule insert_into_parent.raw_induct [where P = ?P, OF _ assms(1)])
    fix f n k m t r
    assume IH: "\<And>n k m t r. f n k m t = Some r \<Longrightarrow> ?P n k m t r"
      and run: "(if n = root t then Some (grow_root n k m t)
        else case get_page (heap_of t) n of Inl e \<Rightarrow> Some (Inl e)
        | Inr p \<Rightarrow> (case insert_child n k m (parent p) (heap_of t) of Inl e \<Rightarrow> Some (Inl e)
          | Inr h \<Rightarrow> (case split_father (parent p) (t\<lparr>heap_of := h\<rparr>) of Inl e \<Rightarrow> Some (Inl e)
            | Inr r \<Rightarrow> (case fst r of None \<Rightarrow> Some (Inr (snd r))
              | Some s \<Rightarrow> f (parent p) (fst s) (snd s) (snd r))))) = Some r"
    show "?P n k m t r"
    proof (intro impI allI)
      fix t' assume t: "synced t" and r: "r = Inr t'"
      show "synced t'"
      proof (cases "n = root t")
        case True
        then show ?thesis using run r synced_grow_root by auto
      next
        case False
        with run r obtain a h x where p: "split_father a (t\<lparr>heap_of := h\<rparr>) = Inr x"
          "(case fst x of None \<Rightarrow> Some (Inr (snd x)) | Some s \<Rightarrow> f a (fst s) (snd s) (snd x)) = Some (Inr t')"
          by (simp split: sum.splits)
        then have "synced (snd x)" using synced_split_father [of _ _ "fst x" "snd x"] t by simp
        then show ?thesis using p(2) IH by (auto split: option.splits)
      qed
    qed
  qed
  then show ?thesis using assms by blast
qed

lemma synced_settle_leaf: "settle_leaf l t = Some (Inr t') \<Longrightarrow> synced t \<Longrightarrow> synced t'"
  using synced_split_father [of l t] synced_insert_into_parent [OF _ refl]
  by (auto simp: settle_leaf_def split: sum.splits option.splits)

lemma bind_run_Inr_iff:
  "bind_run r f = Some (Inr y) \<longleftrightarrow> (\<exists>x. r = Some (Inr x) \<and> f x = Some (Inr y))"
  by (auto simp: bind_run_def split: option.splits sum.splits)

lemma synced_upsert: "upsert k v t = Some (Inr (ret, t')) \<Longrightarrow> synced t \<Longrightarrow> synced t'"
  using synced_settle_leaf by (fastforce simp: upsert_def bind_run_Inr_iff Let_def split: if_splits)

lemma bt_insert_upsert: "bt_insert = upsert"
  by (intro ext) (simp add: bt_insert_def upsert_def)

lemma synced_init [simp]: "synced btree_plus_init"
  by (simp add: synced_def btree_plus_init_def)

section \<open>Blocks as maps\<close>

definition overflow_map :: "BlockHeader \<Rightarrow> double \<rightharpoonup> payload_t" where
  "overflow_map h = (case overflow_tree h of None \<Rightarrow> Map.empty | Some t \<Rightarrow> (\<lambda>k. lookup k t))"

definition block_map :: "leaf_block \<Rightarrow> double \<rightharpoonup> payload_t" where
  "block_map b = overflow_map (hdr b) ++ map_of (data b)"

definition header_ok :: "BlockHeader \<Rightarrow> bool" where
  "header_ok h \<longleftrightarrow> locked h AND lockSet = 0
     \<and> (case overflow_tree h of None \<Rightarrow> True | Some t \<Rightarrow> btree_inv t \<and> synced t)"

definition block_ok :: "leaf_block \<Rightarrow> bool" where
  "block_ok b \<longleftrightarrow> header_ok (hdr b) \<and> length (data b) = LeafRealSlotsPerBlock"

text \<open>
  What holds as long as nothing is removed from a block with an overflow tree: live slots have
  different keys, none of them is in the tree as well, and the tree is used only when all slots are.
\<close>

definition slot_keys :: "leaf_block \<Rightarrow> double list" where
  "slot_keys b = filter (\<lambda>k. k \<noteq> FREE_FLAG) (map fst (data b))"

definition block_tight :: "leaf_block \<Rightarrow> bool" where
  "block_tight b \<longleftrightarrow> distinct (slot_keys b) \<and> set (slot_keys b) \<inter> dom (overflow_map (hdr b)) = {}
     \<and> overflow_map (hdr b) FREE_FLAG = None
     \<and> (overflow_tree (hdr b) \<noteq> None \<longrightarrow> find_slot FREE_FLAG (data b) = None)"

lemma flags_coincide: "DELETE_FLAG = FREE_FLAG"
  by code_simp

lemma is_flag_free [simp]: "is_flag s \<longleftrightarrow> fst s = FREE_FLAG"
  by (simp add: is_flag_def flags_coincide)

lemma find_slot_Some:
  "find_slot k d = Some i \<Longrightarrow> i < length d \<and> fst (d ! i) = k \<and> map_of d k = Some (snd (d ! i))"
  by (induction d arbitrary: i) (auto split: if_splits)

lemma find_slot_None: "find_slot k d = None \<longleftrightarrow> k \<notin> fst ` set d"
  by (induction d) auto

lemma map_of_update_slot: "find_slot k d = Some i \<Longrightarrow> map_of (d[i := (k, v)]) = (map_of d)(k \<mapsto> v)"
  by (induction d arbitrary: i) (auto split: if_splits)

lemma map_of_fill_slot:
  "find_slot f d = Some i \<Longrightarrow> k \<notin> fst ` set d \<Longrightarrow> l \<noteq> f \<Longrightarrow> map_of (d[i := (k, v)]) l = ((map_of d)(k \<mapsto> v)) l"
  by (induction d arbitrary: i) (auto split: if_splits)

lemma unlocked_bits [simp]: "(x AND lockMask) AND lockSet = 0"
  by (simp add: lockMask_def lockSet_def and.assoc)

lemma header_ok_release:
  "header_ok (block_release_lock h) \<longleftrightarrow> header_ok (h\<lparr>locked := 0\<rparr>)"
  "header_ok (release_lock_without_change h) \<longleftrightarrow> header_ok (h\<lparr>locked := 0\<rparr>)"
  by (auto simp: header_ok_def block_release_lock_def release_lock_without_change_def)

lemma check_global_version_tree [simp]: "overflow_tree (check_global_version gv h) = overflow_tree h"
  by (simp add: check_global_version_def)

lemma header_ok_check_global_version [simp]: "header_ok h \<Longrightarrow> header_ok (check_global_version gv h)"
  by (simp add: header_ok_def check_global_version_def)

lemma header_ok_free: "header_ok h \<Longrightarrow> locked h AND lockSet = 0"
  by (simp add: header_ok_def)

lemma overflow_map_hdr [simp]:
  "overflow_map (check_global_version gv h) = overflow_map h"
  "overflow_map (h\<lparr>locked := x\<rparr>) = overflow_map h"
  "overflow_map (block_release_lock h) = overflow_map h"
  "overflow_map (release_lock_without_change h) = overflow_map h"
  "overflow_tree (block_release_lock h) = overflow_tree h"
  "overflow_tree (release_lock_without_change h) = overflow_tree h"
  by (simp_all add: overflow_map_def block_release_lock_def release_lock_without_change_def)

lemma block_get_lock_ok:
  assumes "header_ok h"
  shows "\<exists>h'. block_get_lock gv h = Some h' \<and> overflow_tree h' = overflow_tree h \<and> header_ok (h'\<lparr>locked := 0\<rparr>)"
  using header_ok_check_global_version [OF assms, of gv]
  by (auto simp: block_get_lock_def header_ok_def Let_def)

lemma block_find_ok:
  assumes "block_ok b"
  shows "block_find gv k b = Some (Inr (if block_map b k = None then 0 else 1, block_map b k,
    b\<lparr>hdr := check_global_version gv (hdr b)\<rparr>))"
proof -
  let ?h = "check_global_version gv (hdr b)"
  have h: "header_ok (hdr b)" using assms by (simp add: block_ok_def)
  have f: "locked ?h AND lockSet = 0" using h header_ok_free header_ok_check_global_version by blast
  show ?thesis
  proof (cases "find_slot k (data b)")
    case (Some i)
    then show ?thesis using f find_slot_Some [OF Some]
      by (simp add: block_find_def check_lock_def Let_def get_version_def check_version_change_def block_map_def)
  next
    case None
    then have n: "map_of (data b) k = None" by (simp add: find_slot_None map_of_eq_None_iff)
    show ?thesis
    proof (cases "overflow_tree (hdr b)")
      case None
      then show ?thesis using f n \<open>find_slot k (data b) = None\<close>
        by (simp add: block_find_def check_lock_def Let_def get_version_def block_map_def overflow_map_def map_add_def)
    next
      case (Some t)
      then have "btree_inv t" "synced t" using h by (simp_all add: header_ok_def)
      then show ?thesis using f n Some \<open>find_slot k (data b) = None\<close> find_inv(1) [of t k]
        by (auto simp: block_find_def check_lock_def Let_def get_version_def block_map_def overflow_map_def map_add_def
            split: option.splits)
    qed
  qed
qed

lemma overflow_upsert:
  assumes h: "header_ok (h\<lparr>locked := 0\<rparr>)" and v: "v \<noteq> 0"
  shows "\<exists>t. upsert k v (open_overflow h) = Some (Inr (if overflow_map h k = None then 4 else 3, t))
    \<and> btree_inv t \<and> synced t \<and> (\<lambda>l. lookup l t) = (overflow_map h)(k \<mapsto> v)"
proof -
  let ?t = "open_overflow h"
  have t: "btree_inv ?t" "synced ?t" "\<And>l. lookup l ?t = overflow_map h l"
    using h btree_inv_init bt.get_empty
    by (auto simp: open_overflow_def header_ok_def overflow_map_def split: option.splits)
  from upsert_ok [OF t(1) v, of k] obtain ret t' where u: "upsert k v ?t = Some (Inr (ret, t'))" "btree_inv t'"
    "ret = (if \<exists>x. (k, x) \<in> content (heap_of ?t) then 3 else 4)" by blast
  then have "insert_run k v ?t = Some t'" by (simp add: insert_run_def)
  from lookup_upsert [OF t(1) v this] have "(\<lambda>l. lookup l t') = (overflow_map h)(k \<mapsto> v)"
    by (auto simp: t(3) fun_eq_iff)
  moreover have "ret = (if overflow_map h k = None then 4 else 3)"
    using u(3) content_lookup [OF t(1), of k] by (simp add: t(3))
  ultimately show ?thesis using u synced_upsert [OF u(1) t(2)] by blast
qed

text \<open>
  The three ways an \<^verbatim>\<open>upsert\<close> can go: update in a slot, insertion in a free slot, overflow tree.
\<close>

definition upserted :: "double \<Rightarrow> payload_t \<Rightarrow> leaf_block \<Rightarrow> leaf_block \<Rightarrow> bool" where
  "upserted k v b b' \<longleftrightarrow> block_ok b' \<and> (block_tight b \<longrightarrow> block_tight b')
     \<and> (\<forall>l. l \<noteq> FREE_FLAG \<longrightarrow> block_map b' l = ((block_map b)(k \<mapsto> v)) l)"

lemma fst_update_slot: "fst (d ! i) = k \<Longrightarrow> map fst (d[i := (k, v)]) = map fst d"
  by (cases "i < length d") (auto simp: map_update list_update_same_conv list_update_beyond)

lemma block_tightI:
  assumes "block_tight b" "map fst (data b') = map fst (data b)"
    "dom (overflow_map (hdr b')) = dom (overflow_map (hdr b))" "overflow_tree (hdr b') = None \<longleftrightarrow> overflow_tree (hdr b) = None"
  shows "block_tight b'"
proof -
  have "slot_keys b' = slot_keys b" using assms(2) by (simp add: slot_keys_def)
  moreover have "find_slot FREE_FLAG (data b') = None \<longleftrightarrow> find_slot FREE_FLAG (data b) = None"
    unfolding find_slot_None using arg_cong [OF assms(2), of set] by simp
  moreover have "overflow_map (hdr b') FREE_FLAG = None \<longleftrightarrow> overflow_map (hdr b) FREE_FLAG = None"
    using assms(3) by (metis domIff)
  ultimately show ?thesis using assms(1,3,4) by (simp add: block_tight_def)
qed

lemma upserted_slot:
  assumes "block_ok b" "find_slot k (data b) = Some i" "overflow_tree h = overflow_tree (hdr b)" "header_ok h"
  shows "upserted k v b (b\<lparr>hdr := h, data := (data b)[i := (k, v)]\<rparr>)"
proof -
  let ?b = "b\<lparr>hdr := h, data := (data b)[i := (k, v)]\<rparr>"
  have om: "overflow_map h = overflow_map (hdr b)" using assms(3) by (simp add: overflow_map_def)
  have "map fst (data ?b) = map fst (data b)" using find_slot_Some [OF assms(2)] by (simp add: fst_update_slot)
  then have "block_tight b \<longrightarrow> block_tight ?b" using block_tightI [of b ?b] om assms(3) by simp
  then show ?thesis using assms om by (simp add: upserted_def block_ok_def block_map_def map_of_update_slot)
qed

lemma distinct_filter_update:
  assumes "distinct (filter P xs)" "i < length xs" "\<not> P (xs ! i)" "k \<notin> set xs"
  shows "distinct (filter P (xs[i := k]))"
proof -
  have e: "xs = take i xs @ xs ! i # drop (Suc i) xs" using assms(2) by (simp add: id_take_nth_drop)
  have "distinct (filter P (take i xs) @ filter P (drop (Suc i) xs))"
    using assms(1,3) by (subst (asm) e) simp
  moreover have "k \<notin> set (take i xs)" "k \<notin> set (drop (Suc i) xs)"
    using assms(4) by (meson in_set_takeD in_set_dropD)+
  ultimately show ?thesis using assms(2) by (auto simp: upd_conv_take_nth_drop)
qed

lemma upserted_free:
  assumes b: "block_ok b" "find_slot k (data b) = None" "k \<noteq> FREE_FLAG" "find_slot FREE_FLAG (data b) = Some i"
    and h: "overflow_tree h = overflow_tree (hdr b)" "header_ok h"
  shows "upserted k v b (b\<lparr>hdr := h, data := (data b)[i := (k, v)]\<rparr>)"
proof -
  let ?b = "b\<lparr>hdr := h, data := (data b)[i := (k, v)]\<rparr>"
  have om: "overflow_map h = overflow_map (hdr b)" using h(1) by (simp add: overflow_map_def)
  have nk: "k \<notin> fst ` set (data b)" using b(2) by (simp add: find_slot_None)
  have i: "i < length (data b)" "fst (data b ! i) = FREE_FLAG" using find_slot_Some [OF b(4)] by simp_all
  have "block_tight ?b" if "block_tight b"
  proof -
    have "overflow_tree (hdr b) = None" using that b(4) by (auto simp: block_tight_def)
    moreover have "distinct (slot_keys ?b)" using distinct_filter_update [of _ "map fst (data b)" i k] that i nk
      by (simp add: slot_keys_def map_update block_tight_def)
    ultimately show ?thesis using h(1) by (simp add: block_tight_def overflow_map_def)
  qed
  then show ?thesis using map_of_fill_slot [OF b(4) nk] om b(1) h(2)
    by (simp add: upserted_def block_ok_def block_map_def map_add_def)
qed

lemma upserted_overflow:
  assumes b: "block_ok b" "find_slot k (data b) = None" "k \<noteq> FREE_FLAG" "find_slot FREE_FLAG (data b) = None"
    and h: "header_ok h" "overflow_tree h = Some t" "(\<lambda>l. lookup l t) = (overflow_map (hdr b))(k \<mapsto> v)"
  shows "upserted k v b (b\<lparr>hdr := h\<rparr>)"
proof -
  have om: "overflow_map h = (overflow_map (hdr b))(k \<mapsto> v)" using h(2,3) by (simp add: overflow_map_def)
  have nk: "k \<notin> fst ` set (data b)" "map_of (data b) k = None"
    using b(2) by (simp_all add: find_slot_None map_of_eq_None_iff)
  then have "k \<notin> set (slot_keys b)" by (auto simp: slot_keys_def)
  then have "block_tight b \<longrightarrow> block_tight (b\<lparr>hdr := h\<rparr>)"
    using b(3,4) om by (auto simp: block_tight_def slot_keys_def)
  then show ?thesis using b(1) h(1) om nk by (auto simp: upserted_def block_ok_def block_map_def map_add_def
        split: option.splits)
qed

definition upsert_code :: "double \<Rightarrow> leaf_block \<Rightarrow> nat" where
  "upsert_code k b = (if k \<in> fst ` set (data b) then 1 else if FREE_FLAG \<in> fst ` set (data b) then 2
     else if overflow_map (hdr b) k = None then 4 else 3)"

lemma upsert_code_new: "block_map b k = None \<Longrightarrow> upsert_code k b \<in> {2, 4}"
  by (auto simp: upsert_code_def block_map_def map_of_eq_None_iff)

lemma upsert_code_update:
  assumes "block_map b k \<noteq> None" "block_tight b"
  shows "upsert_code k b \<in> {1, 3}"
proof -
  have "map_of (data b) k = None \<longrightarrow> overflow_map (hdr b) k \<noteq> None"
    using assms(1) by (auto simp: block_map_def map_add_def)
  moreover have "overflow_map (hdr b) k \<noteq> None \<longrightarrow> FREE_FLAG \<notin> fst ` set (data b)"
    using assms(2) by (auto simp: block_tight_def find_slot_None [symmetric] overflow_map_def split: option.splits)
  ultimately show ?thesis by (auto simp: upsert_code_def map_of_eq_None_iff)
qed

lemma block_upsert_ok:
  assumes b: "block_ok b" and k: "k \<noteq> FREE_FLAG" and v: "v \<noteq> 0"
  shows "\<exists>ret b'. block_upsert gv k v b = Some (Inr (ret, b')) \<and> upserted k v b b'
    \<and> ret = upsert_code k b"
proof -
  have hb: "header_ok (hdr b)" using b by (simp add: block_ok_def)
  obtain h where h: "block_get_lock gv (hdr b) = Some h" "overflow_tree h = overflow_tree (hdr b)"
    "header_ok (h\<lparr>locked := 0\<rparr>)" using block_get_lock_ok [OF hb] by blast
  have r: "overflow_tree (block_release_lock h) = overflow_tree (hdr b)" "header_ok (block_release_lock h)"
    using h by (simp_all add: header_ok_release)
  have om: "overflow_map h = overflow_map (hdr b)" using h(2) by (simp add: overflow_map_def)
  note ns = find_slot_None [of k "data b"] find_slot_None [of FREE_FLAG "data b"]
  show ?thesis
  proof (cases "find_slot k (data b)")
    case (Some i)
    then show ?thesis using upserted_slot [OF b Some r] find_slot_Some [OF Some] h(1) ns by (simp add: block_upsert_def upsert_code_def)
  next
    case nk: None
    show ?thesis
    proof (cases "find_slot FREE_FLAG (data b)")
      case (Some i)
      then show ?thesis using upserted_free [OF b nk k Some r] h(1) nk ns by (simp add: block_upsert_def upsert_code_def)
    next
      case nf: None
      from overflow_upsert [OF h(3) v, of k] obtain t where t: "btree_inv t" "synced t"
        "upsert k v (open_overflow h) = Some (Inr (if overflow_map h k = None then 4 else 3, t))"
        "(\<lambda>l. lookup l t) = (overflow_map (hdr b))(k \<mapsto> v)" unfolding om by blast
      let ?h = "block_release_lock (h\<lparr>overflow_tree := Some t\<rparr>)"
      have "header_ok ?h" "overflow_tree ?h = Some t"
        using t(1,2) unfolding header_ok_release by (simp_all add: header_ok_def)
      from upserted_overflow [OF b nk k nf this t(4)] show ?thesis using h(1) nk nf ns t(3) om
        by (simp add: block_upsert_def Let_def upsert_code_def)
    qed
  qed
qed

section \<open>Removal from a slot\<close>

lemma map_of_clear_slot:
  "find_slot k d = Some i \<Longrightarrow> distinct (filter (\<lambda>k. k \<noteq> f) (map fst d)) \<Longrightarrow> k \<noteq> f \<Longrightarrow> l \<noteq> f \<Longrightarrow>
    map_of (d[i := (f, w)]) l = ((map_of d)(k := None)) l"
proof (induction d arbitrary: i)
  case (Cons s ss)
  show ?case
  proof (cases "fst s = k")
    case True
    then have "k \<notin> fst ` set ss" using Cons.prems by auto
    then have "map_of ss k = None" by (simp add: map_of_eq_None_iff)
    then show ?thesis using Cons.prems True by auto
  next
    case False
    then obtain j where "find_slot k ss = Some j" "i = Suc j" using Cons.prems(1) by auto
    then show ?thesis using Cons False by (auto split: if_splits)
  qed
qed simp

lemma distinct_filter_clear:
  assumes "distinct (filter P xs)" "\<not> P k"
  shows "distinct (filter P (xs[i := k]))"
proof (cases "i < length xs")
  case True
  then have e: "xs = take i xs @ xs ! i # drop (Suc i) xs" by (simp add: id_take_nth_drop)
  have "distinct (filter P (take i xs) @ filter P (drop (Suc i) xs))"
    using assms(1) by (subst (asm) e) (auto split: if_splits)
  then show ?thesis using True assms(2) by (simp add: upd_conv_take_nth_drop)
qed (use assms in \<open>simp add: list_update_beyond\<close>)

lemma block_remove_hit:
  assumes "block_ok b" "find_slot k (data b) = Some i"
  shows "\<exists>b'. block_remove gv k b = Some (Inr (1, b')) \<and> block_ok b' \<and> overflow_tree (hdr b') = overflow_tree (hdr b)
    \<and> data b' = (data b)[i := (FREE_FLAG, snd (data b ! i))]"
proof -
  have hb: "header_ok (hdr b)" using assms(1) by (simp add: block_ok_def)
  obtain h where "block_get_lock gv (hdr b) = Some h" "overflow_tree h = overflow_tree (hdr b)"
    "header_ok (h\<lparr>locked := 0\<rparr>)" using block_get_lock_ok [OF hb] by blast
  then show ?thesis using assms by (simp add: block_remove_def flags_coincide block_ok_def header_ok_release)
qed

lemma block_upsert_free_slot:
  assumes "block_ok b" "find_slot k (data b) = None" "find_slot FREE_FLAG (data b) = Some i"
  shows "\<exists>b'. block_upsert gv k v b = Some (Inr (2, b')) \<and> block_ok b' \<and> overflow_tree (hdr b') = overflow_tree (hdr b)
    \<and> data b' = (data b)[i := (k, v)]"
proof -
  have hb: "header_ok (hdr b)" using assms(1) by (simp add: block_ok_def)
  obtain h where "block_get_lock gv (hdr b) = Some h" "overflow_tree h = overflow_tree (hdr b)"
    "header_ok (h\<lparr>locked := 0\<rparr>)" using block_get_lock_ok [OF hb] by blast
  then show ?thesis using assms by (simp add: block_upsert_def block_ok_def header_ok_release)
qed

lemma block_remove_slot:
  assumes b: "block_ok b" "block_tight b" "k \<noteq> FREE_FLAG" "find_slot k (data b) = Some i"
  shows "\<exists>b'. block_remove gv k b = Some (Inr (1, b')) \<and> block_ok b'
    \<and> (\<forall>l. l \<noteq> FREE_FLAG \<longrightarrow> block_map b' l = ((block_map b)(k := None)) l)
    \<and> (overflow_tree (hdr b) = None \<longrightarrow> block_tight b')"
proof -
  from block_remove_hit [OF b(1,4), of gv] obtain b' where b': "block_remove gv k b = Some (Inr (1, b'))" "block_ok b'"
    "overflow_tree (hdr b') = overflow_tree (hdr b)" "data b' = (data b)[i := (FREE_FLAG, snd (data b ! i))]" by blast
  have om: "overflow_map (hdr b') = overflow_map (hdr b)" using b'(3) by (simp add: overflow_map_def)
  have d: "distinct (slot_keys b)" using b(2) by (simp add: block_tight_def)
  have "k \<in> fst ` set (data b)" using find_slot_Some [OF b(4)] by (metis image_eqI nth_mem)
  then have "k \<in> set (slot_keys b)" using b(3) by (simp add: slot_keys_def)
  then have nk: "overflow_map (hdr b) k = None" using b(2) by (auto simp: block_tight_def)
  have "map_of (data b') l = ((map_of (data b))(k := None)) l" if "l \<noteq> FREE_FLAG" for l
    unfolding b'(4) using map_of_clear_slot [OF b(4) _ b(3) that] d by (simp add: slot_keys_def)
  then have "\<forall>l. l \<noteq> FREE_FLAG \<longrightarrow> block_map b' l = ((block_map b)(k := None)) l"
    using nk om by (auto simp: block_map_def map_add_def)
  moreover have "overflow_tree (hdr b) = None \<longrightarrow> block_tight b'"
    using distinct_filter_clear [of _ "map fst (data b)" FREE_FLAG i] d b'(3,4)
    by (auto simp: block_tight_def slot_keys_def map_update overflow_map_def)
  ultimately show ?thesis using b'(1,2) by (intro exI [of _ b'] conjI)
qed

lemma fst_update_set: "x \<in> fst ` set (d[i := (f, w)]) \<Longrightarrow> x = f \<or> x \<in> fst ` set d"
  by (auto dest!: subsetD [OF set_update_subset_insert])

lemma find_slot_only:
  assumes "k \<notin> fst ` set d" "i < length d" "k \<noteq> f"
  shows "find_slot k (d[i := (k, v)]) = Some i \<and> k \<notin> fst ` set ((d[i := (k, v)])[i := (f, w)])"
  using assms
proof (induction d arbitrary: i)
  case (Cons s d)
  then show ?case by (cases i) auto
qed simp

text \<open>
  A slot freed in a block with an overflow tree is given to a key that the tree holds already; when
  that copy is removed, the one in the tree is found again.
\<close>

lemma freed_slot_duplicates:
  assumes b: "block_ok b" "block_tight b" and j: "j \<in> fst ` set (data b)" "j \<noteq> FREE_FLAG"
    and k: "k \<noteq> FREE_FLAG" "overflow_map (hdr b) k = Some w"
  shows "\<exists>b1 b2 b3 b4. block_remove gv j b = Some (Inr (1, b1)) \<and> block_upsert gv k v b1 = Some (Inr (2, b2))
    \<and> block_remove gv k b2 = Some (Inr (1, b3)) \<and> block_find gv k b3 = Some (Inr (1, Some w, b4))"
proof -
  obtain i where i: "find_slot j (data b) = Some i" using j(1) find_slot_None [of j "data b"] by (cases "find_slot j (data b)") auto
  from block_remove_hit [OF b(1) i, of gv] obtain b1 where b1: "block_remove gv j b = Some (Inr (1, b1))" "block_ok b1"
    "overflow_tree (hdr b1) = overflow_tree (hdr b)" "data b1 = (data b)[i := (FREE_FLAG, snd (data b ! i))]" by blast
  have "k \<notin> set (slot_keys b)" using b(2) k(2) by (auto simp: block_tight_def)
  then have "k \<notin> fst ` set (data b)" using k(1) by (auto simp: slot_keys_def)
  then have nk: "k \<notin> fst ` set (data b1)" unfolding b1(4) using k(1) fst_update_set [of k "data b" i] by blast
  have "FREE_FLAG \<in> fst ` set (data b1)"
    using find_slot_Some [OF i] set_update_memI [of i "data b" "(FREE_FLAG, snd (data b ! i))"] by (force simp: b1(4))
  then obtain i2 where i2: "find_slot FREE_FLAG (data b1) = Some i2"
    using find_slot_None [of FREE_FLAG "data b1"] by (cases "find_slot FREE_FLAG (data b1)") auto
  from nk have "find_slot k (data b1) = None" by (simp add: find_slot_None)
  from block_upsert_free_slot [OF b1(2) this i2, of gv v] obtain b2 where b2: "block_upsert gv k v b1 = Some (Inr (2, b2))"
    "block_ok b2" "overflow_tree (hdr b2) = overflow_tree (hdr b1)" "data b2 = (data b1)[i2 := (k, v)]" by blast
  note only = find_slot_only [OF nk, of i2 FREE_FLAG v] find_slot_Some [OF i2]
  then have f2: "find_slot k (data b2) = Some i2" using k(1) by (simp add: b2(4))
  from block_remove_hit [OF b2(2) this, of gv] obtain b3 where b3: "block_remove gv k b2 = Some (Inr (1, b3))" "block_ok b3"
    "overflow_tree (hdr b3) = overflow_tree (hdr b2)" "data b3 = (data b2)[i2 := (FREE_FLAG, snd (data b2 ! i2))]" by blast
  have "map_of (data b3) k = None" using only k(1) by (simp add: b3(4) b2(4) map_of_eq_None_iff)
  moreover have "overflow_map (hdr b3) k = Some w" using k(2) b1(3) b2(3) b3(3) by (simp add: overflow_map_def)
  ultimately have "block_map b3 k = Some w" by (simp add: block_map_def map_add_def)
  then show ?thesis using b1(1) b2(1) b3(1) block_find_ok [OF b3(2), of gv k] by auto
qed

lemma block_remove_absent:
  assumes b: "block_ok b" "find_slot k (data b) = None" "overflow_tree (hdr b) = None"
  shows "\<exists>b'. block_remove gv k b = Some (Inr (0, b')) \<and> block_ok b' \<and> block_map b' = block_map b
    \<and> (block_tight b \<longrightarrow> block_tight b')"
proof -
  have hb: "header_ok (hdr b)" using b(1) by (simp add: block_ok_def)
  obtain h where h: "block_get_lock gv (hdr b) = Some h" "overflow_tree h = overflow_tree (hdr b)"
    "header_ok (h\<lparr>locked := 0\<rparr>)" using block_get_lock_ok [OF hb] by blast
  then have om: "overflow_map h = overflow_map (hdr b)" by (simp add: overflow_map_def)
  let ?b = "b\<lparr>hdr := release_lock_without_change h\<rparr>"
  have "block_remove gv k b = Some (Inr (0, ?b))" using h b by (simp add: block_remove_def)
  moreover have "block_tight b \<longrightarrow> block_tight ?b" using block_tightI [of b ?b] om h(2) by simp
  ultimately show ?thesis using h b(1) om by (simp add: block_ok_def block_map_def header_ok_release)
qed

end
