(* ===== verification/Leaf_Heap.thy ===== *)
theory Leaf_Heap
  imports Leaf_Correct
begin

text \<open>
  Leaf nodes linked in key order: the walk to the node and block of a key ends, and lookups, upserts
  and removals along the chain act as on one map.
\<close>

section \<open>Well-formed nodes\<close>

definition node_ok :: "LeafNode \<Rightarrow> bool" where
  "node_ok lf \<longleftrightarrow> 3 \<le> unat (leaf_block_number lf) \<and> unat (leaf_block_number lf) \<le> 2 ^ 28
     \<and> length (leaf_slots lf) = unat (leaf_block_number lf) \<and> list_all block_ok (leaf_slots lf)"

definition key_block :: "LeafNode \<Rightarrow> double \<Rightarrow> nat" where
  "key_block lf key = unat (leaf_predict_block (Some key) (leaf_slope lf) (leaf_intercept lf) (leaf_block_number lf))"

definition leaf_map :: "LeafNode \<Rightarrow> double \<rightharpoonup> payload_t" where
  "leaf_map lf key = block_map (leaf_slots lf ! key_block lf key) key"

text \<open>Every node's successor starts at a larger key, so the chain has no cycle.\<close>

definition leaves_ok :: "leaves \<Rightarrow> bool" where
  "leaves_ok ls \<longleftrightarrow> finite (dom ls) \<and> (\<forall>a lf. ls a = Some lf \<longrightarrow> node_ok lf
     \<and> (next_node lf \<noteq> 0 \<longrightarrow> (\<exists>nx. ls (next_node lf) = Some nx \<and> first_key lf < first_key nx)))"

text \<open>An accelerator that carries the model of its node.\<close>

definition mirrors :: "InnerSlot \<Rightarrow> LeafNode \<Rightarrow> bool" where
  "mirrors s lf \<longleftrightarrow> slope s = leaf_slope lf \<and> intercept s = leaf_intercept lf \<and> block_number s = leaf_block_number lf"

lemma leaves_okD:
  assumes "leaves_ok ls" "ls a = Some lf"
  shows "node_ok lf" "next_node lf \<noteq> 0 \<Longrightarrow> \<exists>nx. ls (next_node lf) = Some nx \<and> first_key lf < first_key nx"
  using assms by (auto simp: leaves_ok_def)

lemma key_block_bound:
  assumes "node_ok lf"
  shows "key_block lf k < length (leaf_slots lf)"
proof -
  have e: "int (unat w) = uint w" for w :: u32 by simp
  have "3 \<le> uint (leaf_block_number lf)" using assms e [of "leaf_block_number lf"]
    unfolding node_ok_def by linarith
  from leaf_predict_block_bound [OF this, of "Some k" "leaf_slope lf" "leaf_intercept lf"]
  have "key_block lf k < unat (leaf_block_number lf)"
    unfolding key_block_def using e by (metis of_nat_less_iff)
  then show ?thesis using assms by (simp add: node_ok_def)
qed

lemma slot_block_id: "unat b < 2 ^ 28 \<Longrightarrow> slot_block b = unat b"
  by (simp add: slot_block_def LeafSlotsPerBlock_def unat_word_ariths)

section \<open>The walk\<close>

definition predicted :: "InnerSlot option \<Rightarrow> LeafNode \<Rightarrow> double \<Rightarrow> u32" where
  "predicted acc lf k = (case leaf_model acc lf of (sl, ic, bn) \<Rightarrow> leaf_predict_block (Some k) sl ic bn)"

lemma slot_block_predicted:
  assumes "node_ok lf" "\<forall>s. acc = Some s \<longrightarrow> mirrors s lf"
  shows "slot_block (predicted acc lf k) = key_block lf k"
proof -
  have p: "unat (predicted acc lf k) = key_block lf k"
    using assms(2) by (cases acc) (auto simp: predicted_def leaf_model_def key_block_def mirrors_def)
  moreover have "key_block lf k < 2 ^ 28" using key_block_bound [OF assms(1), of k] assms(1)
    by (simp add: node_ok_def)
  ultimately show ?thesis using slot_block_id [of "predicted acc lf k"] by simp
qed

text \<open>The walk ends: the first keys grow along the chain.\<close>

definition beyond :: "leaves \<Rightarrow> nat \<Rightarrow> nat set" where
  "beyond ls a = {b \<in> dom ls. first_key (the (ls a)) < first_key (the (ls b))}"

lemma beyond_next:
  assumes "leaves_ok ls" "ls a = Some lf" "next_node lf \<noteq> 0"
  shows "card (beyond ls (next_node lf)) < card (beyond ls a)"
proof (rule psubset_card_mono)
  obtain nx where nx: "ls (next_node lf) = Some nx" "first_key lf < first_key nx"
    using leaves_okD(2) [OF assms] by blast
  show "finite (beyond ls a)" using assms(1) by (auto simp: beyond_def leaves_ok_def)
  have "next_node lf \<in> beyond ls a - beyond ls (next_node lf)" using nx assms(2) by (auto simp: beyond_def)
  moreover have "beyond ls (next_node lf) \<subseteq> beyond ls a" using nx assms(2) by (auto simp: beyond_def)
  ultimately show "beyond ls (next_node lf) \<subset> beyond ls a" by blast
qed

lemma walk_total:
  assumes "leaves_ok ls" "ls a = Some lf" "\<forall>s. acc = Some s \<longrightarrow> mirrors s lf"
  shows "leaf_walk ls a k acc = Some (Inr Locked)
    \<or> (\<exists>c lc acc'. leaf_walk ls a k acc = Some (Inr (Reached c (key_block lc k) acc')) \<and> ls c = Some lc
        \<and> (acc' = None \<or> acc' = acc \<and> c = a))"
  using assms(2,3)
proof (induction "card (beyond ls a)" arbitrary: a lf acc rule: less_induct)
  case less
  have ok: "node_ok lf" using leaves_okD(1) [OF assms(1) less.prems(1)] .
  obtain sl ic bn where m: "leaf_model acc lf = (sl, ic, bn)" by (metis prod.exhaust)
  let ?forward = "leaf_predict_block (Some k) sl ic bn \<ge> bn - 2 \<and> next_node lf \<noteq> 0"
  have step: "leaf_walk ls a k acc = (if \<not> leaf_check_read_lock acc lf then Some (Inr Locked)
      else if ?forward then (case ls (next_node lf) of None \<Rightarrow> Some (Inl NullDeref)
        | Some nx \<Rightarrow> if first_key nx \<le> k then leaf_walk ls (next_node lf) k None
             else Some (Inr (Reached a (key_block lf k) acc)))
      else Some (Inr (Reached a (key_block lf k) acc)))"
    using less.prems(1) slot_block_predicted [OF ok less.prems(2), of k]
    unfolding predicted_def m prod.case by (subst leaf_walk.simps) (simp only: m prod.case Let_def option.case)
  show ?case
  proof (cases "leaf_check_read_lock acc lf \<and> ?forward \<and> (\<exists>nx. ls (next_node lf) = Some nx \<and> first_key nx \<le> k)")
    case True
    then obtain nx where nx: "ls (next_node lf) = Some nx" "first_key nx \<le> k" by blast
    have "leaf_walk ls a k acc = leaf_walk ls (next_node lf) k None" using step True nx by simp
    then show ?thesis using less.hyps [OF beyond_next [OF assms(1) less.prems(1)] nx(1), of None] True by auto
  next
    case False
    have "\<exists>nx. ls (next_node lf) = Some nx" if "next_node lf \<noteq> 0"
      using leaves_okD(2) [OF assms(1) less.prems(1) that] by blast
    then have "leaf_walk ls a k acc = Some (Inr Locked) \<or> leaf_walk ls a k acc = Some (Inr (Reached a (key_block lf k) acc))"
      using step False by (auto split: option.splits if_splits)
    then show ?thesis using less.prems(1) by blast
  qed
qed

text \<open>An unlocked chain is walked to its end.\<close>

definition unlocked :: "leaves \<Rightarrow> bool" where
  "unlocked ls \<longleftrightarrow> (\<forall>a lf. ls a = Some lf \<longrightarrow> node_locked lf AND 4 = 0 \<and> node_locked lf AND 2 = 0 \<and> \<not> abandoned lf)"

lemma walk_not_locked:
  assumes "unlocked ls" "\<forall>s. acc = Some s \<longrightarrow> slot_check_read_lock s" "leaf_walk ls a k acc = Some r"
  shows "r \<noteq> Inr Locked"
proof -
  let ?P = "\<lambda>ls' a k acc r. ls' = ls \<longrightarrow> (\<forall>s. acc = Some s \<longrightarrow> slot_check_read_lock s) \<longrightarrow> r \<noteq> Inr Locked"
  have "?P ls a k acc r"
  proof (rule leaf_walk.raw_induct [where P = ?P, OF _ assms(3)])
    fix f ls' this key acc r
    assume IH: "\<And>ls a k acc r. f ls a k acc = Some r \<Longrightarrow> ?P ls a k acc r"
      and run: "(case ls' this of None \<Rightarrow> Some (Inl NullDeref)
       | Some lf \<Rightarrow> if \<not> leaf_check_read_lock acc lf then Some (Inr Locked)
          else (case leaf_model acc lf of (sl, ic, bn) \<Rightarrow>
            let block = leaf_predict_block (Some key) sl ic bn;
                here = Some (Inr (Reached this (slot_block block) acc))
            in if block \<ge> bn - 2 \<and> next_node lf \<noteq> 0
               then (case ls' (next_node lf) of None \<Rightarrow> Some (Inl NullDeref)
                 | Some nx \<Rightarrow> if first_key nx \<le> key then f ls' (next_node lf) key None else here)
               else here)) = Some r"
    show "?P ls' this key acc r"
    proof (intro impI)
      assume e: "ls' = ls" and acc: "\<forall>s. acc = Some s \<longrightarrow> slot_check_read_lock s"
      have u: "leaf_check_read_lock acc lf" if "ls this = Some lf" for lf
        using acc assms(1) that by (auto simp: leaf_check_read_lock_def unlocked_def split: option.splits)
      show "r \<noteq> Inr Locked"
        using run u IH [of ls _ key None r] unfolding e
        by (auto simp: Let_def split: option.splits if_splits prod.splits)
    qed
  qed
  then show ?thesis using assms(2) by blast
qed

section \<open>What the walk looks at\<close>

definition walk_view :: "LeafNode \<Rightarrow> fp \<times> fp \<times> u32 \<times> nat \<times> double \<times> u32" where
  "walk_view lf = (leaf_slope lf, leaf_intercept lf, leaf_block_number lf, next_node lf, first_key lf, node_locked lf)"

lemma walk_view_cong:
  assumes "walk_view lf = walk_view lf'"
  shows "leaf_check_read_lock acc lf = leaf_check_read_lock acc lf'" "leaf_check_write_lock acc lf = leaf_check_write_lock acc lf'"
    "leaf_model acc lf = leaf_model acc lf'" "next_node lf = next_node lf'" "first_key lf = first_key lf'"
    "key_block lf k = key_block lf' k"
  using assms by (auto simp: walk_view_def leaf_check_read_lock_def leaf_check_write_lock_def leaf_model_def key_block_def
      split: option.splits)

lemma leaf_walk_mono:
  assumes same: "\<And>a. map_option walk_view (ls a) = map_option walk_view (ls' a)"
    and run: "leaf_walk ls a k acc = Some r"
  shows "leaf_walk ls' a k acc = Some r"
proof -
  let ?P = "\<lambda>l a k acc r. l = ls \<longrightarrow> leaf_walk ls' a k acc = Some r"
  have "?P ls a k acc r"
  proof (rule leaf_walk.raw_induct [where P = ?P, OF _ run])
    fix f ls0 this key acc r
    assume IH: "\<And>ls a k acc r. f ls a k acc = Some r \<Longrightarrow> ?P ls a k acc r"
      and run: "(case ls0 this of None \<Rightarrow> Some (Inl NullDeref)
       | Some lf \<Rightarrow> if \<not> leaf_check_read_lock acc lf then Some (Inr Locked)
          else (case leaf_model acc lf of (sl, ic, bn) \<Rightarrow>
            let block = leaf_predict_block (Some key) sl ic bn;
                here = Some (Inr (Reached this (slot_block block) acc))
            in if block \<ge> bn - 2 \<and> next_node lf \<noteq> 0
               then (case ls0 (next_node lf) of None \<Rightarrow> Some (Inl NullDeref)
                 | Some nx \<Rightarrow> if first_key nx \<le> key then f ls0 (next_node lf) key None else here)
               else here)) = Some r"
    show "?P ls0 this key acc r"
    proof
      assume e: "ls0 = ls"
      show "leaf_walk ls' this key acc = Some r"
      proof (cases "ls this")
        case None
        then show ?thesis using run same [of this] by (subst leaf_walk.simps) (simp add: e)
      next
        case (Some lf)
        then obtain lf' where lf': "ls' this = Some lf'" "walk_view lf = walk_view lf'"
          using same [of this] by (cases "ls' this") auto
        note w = walk_view_cong [OF lf'(2)]
        obtain sl ic bn where m: "leaf_model acc lf = (sl, ic, bn)" by (metis prod.exhaust)
        have n: "(case ls' (next_node lf) of None \<Rightarrow> Some (Inl NullDeref)
            | Some nx \<Rightarrow> if first_key nx \<le> key then leaf_walk ls' (next_node lf) key None else here) = Some r"
          if "(case ls (next_node lf) of None \<Rightarrow> Some (Inl NullDeref)
            | Some nx \<Rightarrow> if first_key nx \<le> key then f ls (next_node lf) key None else here) = Some r" for here
        proof (cases "ls (next_node lf)")
          case None
          then show ?thesis using that same [of "next_node lf"] by simp
        next
          case (Some nx)
          then obtain nx' where "ls' (next_node lf) = Some nx'" "walk_view nx = walk_view nx'"
            using same [of "next_node lf"] by (cases "ls' (next_node lf)") auto
          then show ?thesis using that Some walk_view_cong(5) [of nx nx'] IH [of ls "next_node lf" key None r]
            by (cases "first_key nx \<le> key") simp_all
        qed
        let ?b = "leaf_predict_block (Some key) sl ic bn"
        let ?here = "Some (Inr (Reached this (slot_block ?b) acc))" and ?fwd = "?b \<ge> bn - 2 \<and> next_node lf \<noteq> 0"
        have A: "leaf_walk ls' this key acc = (if \<not> leaf_check_read_lock acc lf then Some (Inr Locked)
          else if ?fwd then (case ls' (next_node lf) of None \<Rightarrow> Some (Inl NullDeref)
                 | Some nx \<Rightarrow> if first_key nx \<le> key then leaf_walk ls' (next_node lf) key None else ?here)
               else ?here)"
          by (subst leaf_walk.simps) (simp only: lf'(1) option.case w(1,3,4) [symmetric] m prod.case Let_def)
        have B: "(if \<not> leaf_check_read_lock acc lf then Some (Inr Locked)
          else if ?fwd then (case ls (next_node lf) of None \<Rightarrow> Some (Inl NullDeref)
                 | Some nx \<Rightarrow> if first_key nx \<le> key then f ls (next_node lf) key None else ?here)
               else ?here) = Some r"
          using run by (simp only: e Some option.case m prod.case Let_def)
        show ?thesis
        proof (cases "leaf_check_read_lock acc lf \<and> ?fwd")
          case True
          with B have "(case ls (next_node lf) of None \<Rightarrow> Some (Inl NullDeref)
             | Some nx \<Rightarrow> if first_key nx \<le> key then f ls (next_node lf) key None else ?here) = Some r" by simp
          from n [OF this] show ?thesis unfolding A using True by simp
        next
          case False
          with B show ?thesis unfolding A by (cases "leaf_check_read_lock acc lf") auto
        qed
      qed
    qed
  qed
  then show ?thesis by blast
qed

lemma leaf_walk_same:
  assumes "\<And>a. map_option walk_view (ls a) = map_option walk_view (ls' a)"
  shows "leaf_walk ls a k acc = leaf_walk ls' a k acc"
  using leaf_walk_mono [of ls ls' a k acc, OF assms] leaf_walk_mono [of ls' ls a k acc, OF assms [symmetric]]
  by (cases "leaf_walk ls a k acc"; cases "leaf_walk ls' a k acc") auto

section \<open>Lookups\<close>

definition answer :: "(nat \<times> payload_t option \<times> leaves) run \<Rightarrow> (nat \<times> payload_t option) run" where
  "answer r = bind_run r (\<lambda>(ret, pl, _). Some (Inr (ret, pl)))"

definition found_as :: "payload_t option \<Rightarrow> (nat \<times> payload_t option) run" where
  "found_as m = Some (Inr (if m = None then 0 else 1, m))"

lemma leaf_find_reached:
  assumes "leaf_walk ls a k acc = Some (Inr (Reached c i acc'))" "ls c = Some lf" "i < length (leaf_slots lf)"
    "block_ok (leaf_slots lf ! i)"
  shows "answer (leaf_find ls a k gv acc) = found_as (block_map (leaf_slots lf ! i) k)"
  using assms by (simp add: answer_def leaf_find_def get_block_def block_find_ok found_as_def)

lemma node_ok_block: "node_ok lf \<Longrightarrow> i < length (leaf_slots lf) \<Longrightarrow> block_ok (leaf_slots lf ! i)"
  by (simp add: node_ok_def list_all_length)

text \<open>Replacing one node by another with the same view changes the answers of its blocks only.\<close>

lemma leaf_find_frame:
  assumes ls: "leaves_ok ls" "ls c = Some lf" and lf': "walk_view lf' = walk_view lf" "node_ok lf'"
    and same: "\<And>i. i < length (leaf_slots lf) \<Longrightarrow> block_map (leaf_slots lf' ! i) l = block_map (leaf_slots lf ! i) l"
  shows "answer (leaf_find (ls(c \<mapsto> lf')) a l gv acc) = answer (leaf_find ls a l gv acc)"
proof -
  let ?ls = "ls(c \<mapsto> lf')"
  have w: "leaf_walk ?ls a l acc = leaf_walk ls a l acc"
    by (rule leaf_walk_same) (use ls(2) lf'(1) in auto)
  have len: "length (leaf_slots lf') = length (leaf_slots lf)"
    using lf' leaves_okD(1) [OF ls] by (auto simp: node_ok_def walk_view_def)
  show ?thesis
  proof (cases "\<exists>d i acc' ld. leaf_walk ls a l acc = Some (Inr (Reached d i acc')) \<and> ls d = Some ld \<and> i < length (leaf_slots ld)")
    case True
    then obtain d i acc' ld where r: "leaf_walk ls a l acc = Some (Inr (Reached d i acc'))" "ls d = Some ld"
      "i < length (leaf_slots ld)" by blast
    have old: "answer (leaf_find ls a l gv acc) = found_as (block_map (leaf_slots ld ! i) l)"
      using leaf_find_reached [OF r node_ok_block [OF leaves_okD(1) [OF ls(1) r(2)] r(3)]] .
    obtain ld' where ld': "?ls d = Some ld'" "i < length (leaf_slots ld')" "node_ok ld'"
      "block_map (leaf_slots ld' ! i) l = block_map (leaf_slots ld ! i) l"
      using r ls lf'(2) len same leaves_okD(1) by (cases "d = c") auto
    then show ?thesis using leaf_find_reached [of ?ls a l acc d i acc' ld' gv] w r(1) old node_ok_block by simp
  next
    case False
    have "(?ls d = None) = (ls d = None)" for d using ls(2) by auto
    then show ?thesis using False w len ls(2)
      by (auto simp: answer_def leaf_find_def bind_run_def get_block_def fun_upd_apply split: option.splits sum.splits walk.splits)
  qed
qed

section \<open>Updates of one block\<close>

text \<open>A node whose keys all live in the block predicted for them, without duplicates.\<close>

definition leaf_tight :: "LeafNode \<Rightarrow> bool" where
  "leaf_tight lf \<longleftrightarrow> list_all block_tight (leaf_slots lf)
     \<and> (\<forall>i<length (leaf_slots lf). \<forall>k. k \<noteq> FREE_FLAG \<longrightarrow> block_map (leaf_slots lf ! i) k \<noteq> None \<longrightarrow> key_block lf k = i)"

lemma put_block_slots [simp]: "leaf_slots (put_block i b lf) = (leaf_slots lf)[i := b]"
  by (simp add: put_block_def)

lemma walk_view_put_block [simp]:
  "walk_view (put_block i b lf) = walk_view lf" "walk_view (lf\<lparr>overflow_number := n\<rparr>) = walk_view lf"
  by (simp_all add: walk_view_def put_block_def)

lemma abandoned_put_block [simp]: "abandoned (put_block i b lf) = abandoned lf"
  by (simp add: put_block_def)

text \<open>\<^verbatim>\<open>changed k m lf lf'\<close>: the answer for \<^verbatim>\<open>k\<close> in its own block has become \<^verbatim>\<open>m\<close>, and nothing else changed.\<close>

definition changed :: "double \<Rightarrow> payload_t option \<Rightarrow> LeafNode \<Rightarrow> LeafNode \<Rightarrow> bool" where
  "changed k m lf lf' \<longleftrightarrow> walk_view lf' = walk_view lf \<and> abandoned lf' = abandoned lf \<and> node_ok lf'
     \<and> (\<forall>i<length (leaf_slots lf). \<forall>l. l \<noteq> FREE_FLAG \<longrightarrow> block_map (leaf_slots lf' ! i) l
         = (if l = k \<and> i = key_block lf k then m else block_map (leaf_slots lf ! i) l))"

lemma changed_block:
  assumes "node_ok lf" "block_ok b"
    "\<And>l. l \<noteq> FREE_FLAG \<Longrightarrow> block_map b l = ((block_map (leaf_slots lf ! key_block lf k))(k := m)) l"
    "walk_view lf' = walk_view lf" "abandoned lf' = abandoned lf" "leaf_slots lf' = (leaf_slots lf)[key_block lf k := b]"
  shows "changed k m lf lf'"
proof -
  have "leaf_block_number lf' = leaf_block_number lf" using assms(4) by (simp add: walk_view_def)
  moreover have "list_all block_ok (leaf_slots lf')" using assms(1,2,6)
    by (auto simp: node_ok_def list_all_iff dest: subsetD [OF set_update_subset_insert])
  ultimately have "node_ok lf'" using assms(1,6) by (simp add: node_ok_def)
  then show ?thesis using assms(3-6) key_block_bound [OF assms(1), of k] by (auto simp: changed_def nth_list_update)
qed

lemma changed_find:
  assumes ls: "leaves_ok ls" "ls c = Some lc" and ch: "changed k m lc lc'" and k: "k \<noteq> FREE_FLAG"
    and w: "leaf_walk ls a k acc = Some (Inr (Reached c (key_block lc k) acc'))"
  shows "answer (leaf_find (ls(c \<mapsto> lc')) a k gv acc) = found_as m"
    "l \<noteq> k \<Longrightarrow> l \<noteq> FREE_FLAG \<Longrightarrow> answer (leaf_find (ls(c \<mapsto> lc')) a2 l gv2 acc2) = answer (leaf_find ls a2 l gv2 acc2)"
    "leaves_ok (ls(c \<mapsto> lc'))"
proof -
  let ?ls = "ls(c \<mapsto> lc')"
  have v: "walk_view lc' = walk_view lc" "node_ok lc'" using ch by (simp_all add: changed_def)
  have ok: "node_ok lc" using leaves_okD(1) [OF ls] .
  have len: "length (leaf_slots lc') = length (leaf_slots lc)" using v ok by (auto simp: node_ok_def walk_view_def)
  have i: "key_block lc k < length (leaf_slots lc')" using key_block_bound [OF ok] len by simp
  have w': "leaf_walk ?ls a k acc = Some (Inr (Reached c (key_block lc k) acc'))"
    unfolding w [symmetric] by (rule leaf_walk_same) (use ls(2) v(1) in auto)
  show "answer (leaf_find ?ls a k gv acc) = found_as m"
    using leaf_find_reached [OF w' _ i node_ok_block [OF v(2) i]] ch k i len by (simp add: changed_def)
  show "answer (leaf_find ?ls a2 l gv2 acc2) = answer (leaf_find ls a2 l gv2 acc2)" if "l \<noteq> k" "l \<noteq> FREE_FLAG"
    by (rule leaf_find_frame [OF ls v]) (use ch that in \<open>simp add: changed_def\<close>)
  have fk: "first_key lc' = first_key lc" "next_node lc' = next_node lc" using v(1) by (simp_all add: walk_view_def)
  have "\<exists>nx. ?ls (next_node lf) = Some nx \<and> first_key lf < first_key nx" if x: "?ls x = Some lf" "next_node lf \<noteq> 0" for x lf
  proof -
    obtain lf0 where "ls x = Some lf0" "next_node lf0 = next_node lf" "first_key lf0 = first_key lf"
      using x(1) ls(2) fk by (cases "x = c") auto
    then obtain nx where "ls (next_node lf) = Some nx" "first_key lf < first_key nx"
      using leaves_okD(2) [OF ls(1), of x lf0] x(2) by auto
    then show ?thesis using ls(2) fk by (cases "next_node lf = c") auto
  qed
  then show "leaves_ok ?ls" using ls(1) v(2) by (auto simp: leaves_ok_def split: if_splits)
qed

lemma unlocked_changed: "unlocked ls \<Longrightarrow> ls c = Some lc \<Longrightarrow> changed k m lc lc' \<Longrightarrow> unlocked (ls(c \<mapsto> lc'))"
  by (auto simp: unlocked_def changed_def walk_view_def)

section \<open>Upsert and remove along the chain\<close>

definition accessible :: "leaves \<Rightarrow> nat \<Rightarrow> InnerSlot option \<Rightarrow> bool" where
  "accessible ls a acc \<longleftrightarrow> leaves_ok ls \<and> unlocked ls \<and> (\<exists>lf. ls a = Some lf \<and> (case acc of None \<Rightarrow> True
     | Some s \<Rightarrow> mirrors s lf \<and> slot_check_read_lock s \<and> slot_check_write_lock s))"

lemma accessible_walk:
  assumes "accessible ls a acc"
  obtains c lc acc' where "leaf_walk ls a k acc = Some (Inr (Reached c (key_block lc k) acc'))" "ls c = Some lc"
    "node_ok lc" "leaf_check_write_lock acc' lc" "\<not> abandoned lc" "get_block (key_block lc k) lc = Inr (leaf_slots lc ! key_block lc k)"
    "block_ok (leaf_slots lc ! key_block lc k)"
proof -
  from assms obtain lf where lf: "leaves_ok ls" "unlocked ls" "ls a = Some lf" "\<forall>s. acc = Some s \<longrightarrow> mirrors s lf"
    "\<forall>s. acc = Some s \<longrightarrow> slot_check_read_lock s" "\<forall>s. acc = Some s \<longrightarrow> slot_check_write_lock s"
    by (auto simp: accessible_def split: option.splits)
  have nl: "leaf_walk ls a k acc \<noteq> Some (Inr Locked)" using walk_not_locked [OF lf(2,5)] by blast
  then obtain c lc acc' where w: "leaf_walk ls a k acc = Some (Inr (Reached c (key_block lc k) acc'))" "ls c = Some lc"
    "acc' = None \<or> acc' = acc" using walk_total [OF lf(1,3,4), of k] by blast
  have ok: "node_ok lc" using leaves_okD(1) [OF lf(1) w(2)] .
  have "leaf_check_write_lock acc' lc" "\<not> abandoned lc"
    using w(2,3) lf(2,6) by (auto simp: leaf_check_write_lock_def unlocked_def split: option.splits)
  then show ?thesis using that [OF w(1,2) ok] key_block_bound [OF ok, of k] node_ok_block [OF ok]
    by (simp add: get_block_def)
qed

lemma changed_tight:
  assumes "leaf_tight lc" "changed k m lc lc'" "leaf_slots lc' = (leaf_slots lc)[key_block lc k := b]" "block_tight b"
  shows "leaf_tight lc'"
proof -
  have "walk_view lc' = walk_view lc" using assms(2) by (simp add: changed_def)
  note kb = walk_view_cong(6) [OF this]
  have "list_all block_tight (leaf_slots lc')" using assms(1,4) unfolding assms(3)
    by (auto simp: leaf_tight_def list_all_iff dest: subsetD [OF set_update_subset_insert])
  moreover have "key_block lc l = j" if "j < length (leaf_slots lc)" "l \<noteq> FREE_FLAG"
    "block_map (leaf_slots lc' ! j) l \<noteq> None" for j l
  proof (cases "l = k \<and> j = key_block lc k")
    case False
    then have "block_map (leaf_slots lc ! j) l \<noteq> None" using that assms(2) by (auto simp: changed_def)
    then show ?thesis using assms(1) that(1,2) by (simp add: leaf_tight_def)
  qed simp
  ultimately show ?thesis using assms(3) by (simp add: leaf_tight_def kb)
qed

lemma leaf_upsert_ok:
  assumes acc: "accessible ls a acc" and k: "k \<noteq> FREE_FLAG" and v: "v \<noteq> 0"
  shows "\<exists>ret sp c lc lc' acc'. leaf_upsert ls a k v gv acc = Some (Inr (ret, sp, ls(c \<mapsto> lc'))) \<and> ls c = Some lc
    \<and> leaf_walk ls a k acc = Some (Inr (Reached c (key_block lc k) acc'))
    \<and> changed k (Some v) lc lc' \<and> (leaf_tight lc \<longrightarrow> leaf_tight lc')
    \<and> (leaf_map lc k = None \<longrightarrow> ret \<in> {2, 4, 5, 6})
    \<and> (leaf_map lc k \<noteq> None \<longrightarrow> leaf_tight lc \<longrightarrow> ret \<in> {1, 3}) \<and> (sp \<noteq> None \<longleftrightarrow> ret \<in> {5, 6})"
proof -
  obtain c lc acc' where w: "leaf_walk ls a k acc = Some (Inr (Reached c (key_block lc k) acc'))" "ls c = Some lc"
    "node_ok lc" "leaf_check_write_lock acc' lc" "\<not> abandoned lc" "get_block (key_block lc k) lc = Inr (leaf_slots lc ! key_block lc k)"
    "block_ok (leaf_slots lc ! key_block lc k)" using accessible_walk [OF acc] by metis
  let ?i = "key_block lc k" and ?b = "leaf_slots lc ! key_block lc k"
  have i: "?i < length (leaf_slots lc)" using key_block_bound [OF w(3)] .
  from block_upsert_ok [OF w(7) k v, of gv] obtain r b' where u: "block_upsert gv k v ?b = Some (Inr (r, b'))" "upserted k v ?b b'"
    "r = upsert_code k ?b" by blast
  define lc' where "lc' = (if r = 4 then (put_block ?i b' lc)\<lparr>overflow_number := overflow_number lc + 1\<rparr> else put_block ?i b' lc)"
  define full where "full \<longleftrightarrow> r = 4 \<and> overflow_number lc' > number_to_split lc'"
  have run: "leaf_upsert ls a k v gv acc = Some (Inr (if full then (if acc' \<noteq> None then 5 else 6) else r,
      if full then Some c else None, ls(c \<mapsto> lc')))"
    using w u(1) by (simp add: leaf_upsert_def lc'_def full_def Let_def put_block_def)
  have s: "leaf_slots lc' = (leaf_slots lc)[?i := b']" "walk_view lc' = walk_view lc" "abandoned lc' = abandoned lc"
    by (simp_all add: lc'_def put_block_def walk_view_def)
  have ch: "changed k (Some v) lc lc'"
    by (rule changed_block [OF w(3) _ _ s(2,3,1)]) (use u(2) in \<open>auto simp: upserted_def\<close>)
  have bt: "block_tight ?b" if "leaf_tight lc" using that i by (simp add: leaf_tight_def list_all_length)
  then have "leaf_tight lc \<longrightarrow> leaf_tight lc'" using changed_tight [OF _ ch s(1)] u(2) by (simp add: upserted_def)
  moreover have "leaf_map lc k = None \<longrightarrow> r \<in> {2, 4}" "leaf_map lc k \<noteq> None \<longrightarrow> leaf_tight lc \<longrightarrow> r \<in> {1, 3}"
    using upsert_code_new [of ?b k] upsert_code_update [of ?b k] bt u(3) by (simp_all add: leaf_map_def)
  moreover have "r \<noteq> 5" "r \<noteq> 6" using u(3) by (simp_all add: upsert_code_def)
  ultimately show ?thesis using run w(1,2) ch by (auto simp: full_def)
qed

lemma leaf_find_ok:
  assumes "accessible ls a acc"
  shows "\<exists>c lc acc'. leaf_walk ls a k acc = Some (Inr (Reached c (key_block lc k) acc')) \<and> ls c = Some lc
    \<and> answer (leaf_find ls a k gv acc) = found_as (leaf_map lc k)"
proof -
  obtain c lc acc' where w: "leaf_walk ls a k acc = Some (Inr (Reached c (key_block lc k) acc'))" "ls c = Some lc"
    "node_ok lc" "block_ok (leaf_slots lc ! key_block lc k)" using accessible_walk [OF assms] by metis
  then show ?thesis using leaf_find_reached [OF w(1,2) key_block_bound [OF w(3)] w(4)] by (auto simp: leaf_map_def)
qed

lemma accessible_single:
  assumes "node_ok lf" "next_node lf = 0" "node_locked lf = 0" "\<not> abandoned lf"
    "acc = None \<or> acc = Some s \<and> mirrors s lf \<and> slot_check_read_lock s \<and> slot_check_write_lock s"
  shows "accessible [a \<mapsto> lf] a acc"
  using assms by (auto simp: accessible_def leaves_ok_def unlocked_def split: if_splits)

lemma accessible_changed:
  assumes acc: "accessible ls a acc" and c: "ls c = Some lc" "changed k m lc lc'"
    and ok: "leaves_ok (ls(c \<mapsto> lc'))"
  shows "accessible (ls(c \<mapsto> lc')) a acc"
proof -
  have "mirrors s lc' = mirrors s lc" for s using c(2) by (auto simp: changed_def walk_view_def mirrors_def)
  then show ?thesis using acc ok unlocked_changed [of ls c lc k m lc'] c
    by (auto simp: accessible_def split: option.splits)
qed

lemma leaf_remove_ok:
  assumes acc: "accessible ls a acc" and k: "k \<noteq> FREE_FLAG"
    and w: "leaf_walk ls a k acc = Some (Inr (Reached c (key_block lc k) acc'))" "ls c = Some lc" and t: "leaf_tight lc"
    and no: "overflow_tree (hdr (leaf_slots lc ! key_block lc k)) = None"
  shows "\<exists>lc'. leaf_remove ls a k gv acc = Some (Inr (if leaf_map lc k = None then 0 else 1, ls(c \<mapsto> lc')))
    \<and> changed k None lc lc' \<and> leaf_tight lc'"
proof -
  have x: "node_ok lc" "leaf_check_write_lock acc' lc" "get_block (key_block lc k) lc = Inr (leaf_slots lc ! key_block lc k)"
    "block_ok (leaf_slots lc ! key_block lc k)"
    using accessible_walk [OF acc, of k] w by (metis Inr_inject option.inject walk.inject)+
  let ?i = "key_block lc k" and ?b = "leaf_slots lc ! key_block lc k"
  have i: "?i < length (leaf_slots lc)" using key_block_bound [OF x(1)] .
  have bt: "block_tight ?b" using t i by (simp add: leaf_tight_def list_all_length)
  have m: "leaf_map lc k = map_of (data ?b) k" using no by (simp add: leaf_map_def block_map_def overflow_map_def)
  have fin: ?thesis if "block_remove gv k ?b = Some (Inr (if leaf_map lc k = None then 0 else 1, b'))" "block_ok b'"
    "\<And>l. l \<noteq> FREE_FLAG \<Longrightarrow> block_map b' l = ((block_map ?b)(k := None)) l" "block_tight b'" for b'
  proof -
    have ch: "changed k None lc (put_block ?i b' lc)"
      by (rule changed_block [OF x(1) that(2,3)]) simp_all
    moreover have "leaf_remove ls a k gv acc = Some (Inr (if leaf_map lc k = None then 0 else 1, ls(c \<mapsto> put_block ?i b' lc)))"
      using w x that(1) by (simp add: leaf_remove_def Let_def)
    ultimately show ?thesis using changed_tight [OF t ch _ that(4)] by auto
  qed
  show ?thesis
  proof (cases "find_slot k (data ?b)")
    case None
    then have n: "leaf_map lc k = None" unfolding m by (simp add: find_slot_None map_of_eq_None_iff)
    from block_remove_absent [OF x(4) None no, of gv] obtain b' where b': "block_remove gv k ?b = Some (Inr (0, b'))"
      "block_ok b'" "block_map b' = block_map ?b" "block_tight b'" using bt by blast
    then show ?thesis by (intro fin [of b']) (use n in \<open>auto simp: leaf_map_def\<close>)
  next
    case (Some j)
    then have n: "leaf_map lc k \<noteq> None" unfolding m using find_slot_Some [OF Some] by simp
    from block_remove_slot [OF x(4) bt k Some, of gv] no obtain b' where "block_remove gv k ?b = Some (Inr (1, b'))"
      "block_ok b'" "\<forall>l. l \<noteq> FREE_FLAG \<longrightarrow> block_map b' l = ((block_map ?b)(k := None)) l" "block_tight b'" by blast
    then show ?thesis by (intro fin [of b']) (use n in simp_all)
  qed
qed

end
