(* ===== verification/Leaf_Build.thy ===== *)
theory Leaf_Build
  imports Leaf_Heap "HOL-Library.Multiset"
begin

text \<open>
  Construction of a leaf node from its keys, and the collection of its data when it is rebuilt.
\<close>

section \<open>Model-based placement\<close>

lemma leaf_map_changed:
  assumes "changed k m lf lf'" "node_ok lf" "l \<noteq> FREE_FLAG"
  shows "leaf_map lf' l = ((leaf_map lf)(k := m)) l"
proof -
  have "walk_view lf' = walk_view lf" using assms(1) by (simp add: changed_def)
  note kb = walk_view_cong(6) [OF this]
  show ?thesis using assms(1,3) key_block_bound [OF assms(2), of l] by (auto simp: leaf_map_def kb changed_def)
qed

lemma placement_ok:
  assumes lf: "node_ok lf" "leaf_tight lf" and k: "k \<noteq> FREE_FLAG" and v: "v \<noteq> 0" and new: "leaf_map lf k = None"
  shows "\<exists>lf'. leaf_data_placement k v lf = Some (Inr lf') \<and> changed k (Some v) lf lf' \<and> leaf_tight lf'"
proof -
  let ?i = "key_block lf k" let ?b = "leaf_slots lf ! ?i"
  have i: "?i < length (leaf_slots lf)" using key_block_bound [OF lf(1)] .
  have b: "block_ok ?b" using node_ok_block [OF lf(1) i] .
  then have hb: "header_ok (hdr ?b)" by (simp add: block_ok_def)
  have nk: "find_slot k (data ?b) = None" using new
    by (auto simp: leaf_map_def block_map_def find_slot_None map_of_eq_None_iff)
  have fin: "\<exists>lf'. leaf_data_placement k v lf = Some (Inr lf') \<and> changed k (Some v) lf lf' \<and> leaf_tight lf'"
    if "leaf_data_placement k v lf = Some (Inr lf')" "leaf_slots lf' = (leaf_slots lf)[?i := b']"
      "walk_view lf' = walk_view lf" "abandoned lf' = abandoned lf" "upserted k v ?b b'" for lf' b'
  proof -
    have ch: "changed k (Some v) lf lf'"
      by (rule changed_block [OF lf(1) _ _ that(3,4,2)]) (use that(5) in \<open>auto simp: upserted_def\<close>)
    moreover have "block_tight ?b" using lf(2) i by (simp add: leaf_tight_def list_all_length)
    ultimately show ?thesis using changed_tight [OF lf(2) ch that(2)] that(1,5) by (auto simp: upserted_def)
  qed
  have gb: "get_block ?i lf = Inr ?b" using i by (simp add: get_block_def)
  show ?thesis
  proof (cases "find_slot FREE_FLAG (data ?b)")
    case (Some j)
    have "upserted k v ?b (?b\<lparr>hdr := hdr ?b, data := (data ?b)[j := (k, v)]\<rparr>)"
      by (rule upserted_free [OF b nk k Some refl hb])
    then show ?thesis using Some gb
      by (intro fin [of "put_block ?i (?b\<lparr>data := (data ?b)[j := (k, v)]\<rparr>) lf"])
        (simp_all add: leaf_data_placement_def key_block_def [symmetric] Let_def)
  next
    case None
    have "header_ok ((hdr ?b)\<lparr>locked := 0\<rparr>)" using hb by (simp add: header_ok_def)
    from overflow_upsert [OF this v, of k] obtain r t where t: "upsert k v (open_overflow (hdr ?b)) = Some (Inr (r, t))"
      "btree_inv t" "synced t" "(\<lambda>l. lookup l t) = (overflow_map (hdr ?b))(k \<mapsto> v)" by blast
    let ?h = "(hdr ?b)\<lparr>overflow_tree := Some t\<rparr>"
    have "upserted k v ?b (?b\<lparr>hdr := ?h\<rparr>)"
      by (rule upserted_overflow [OF b nk k None _ _ t(4)]) (use hb t(2,3) in \<open>simp_all add: header_ok_def\<close>)
    then show ?thesis using None gb t(1)
      by (intro fin [of "(put_block ?i (?b\<lparr>hdr := ?h\<rparr>) lf)\<lparr>overflow_number := overflow_number lf + 1\<rparr>"])
        (simp_all add: leaf_data_placement_def key_block_def [symmetric] Let_def bt_insert_upsert put_block_def walk_view_def)
  qed
qed

definition placeable :: "(double \<times> payload_t) list \<Rightarrow> bool" where
  "placeable kvs \<longleftrightarrow> distinct (map fst kvs) \<and> list_all (\<lambda>kv. fst kv \<noteq> FREE_FLAG \<and> snd kv \<noteq> 0) kvs"

lemma place_all_ok:
  assumes "node_ok lf" "leaf_tight lf" "placeable kvs" "\<forall>k\<in>fst ` set kvs. leaf_map lf k = None"
  shows "\<exists>lf'. leaf_place_all kvs lf = Some (Inr lf') \<and> node_ok lf' \<and> leaf_tight lf' \<and> walk_view lf' = walk_view lf
    \<and> abandoned lf' = abandoned lf \<and> (\<forall>l. l \<noteq> FREE_FLAG \<longrightarrow> leaf_map lf' l = (leaf_map lf ++ map_of kvs) l)"
  using assms
proof (induction kvs arbitrary: lf)
  case (Cons kv kvs)
  obtain k v where kv: "kv = (k, v)" by (cases kv)
  then have k: "k \<noteq> FREE_FLAG" "v \<noteq> 0" "k \<notin> fst ` set kvs" "leaf_map lf k = None" "placeable kvs"
    using Cons.prems by (auto simp: placeable_def)
  from placement_ok [OF Cons.prems(1,2) k(1,2,4)] obtain lf1 where
    lf1: "leaf_data_placement k v lf = Some (Inr lf1)" "changed k (Some v) lf lf1" "leaf_tight lf1" by blast
  note m = leaf_map_changed [OF lf1(2) Cons.prems(1)]
  have v1: "node_ok lf1" "walk_view lf1 = walk_view lf" "abandoned lf1 = abandoned lf" using lf1(2) by (simp_all add: changed_def)
  have "\<forall>l\<in>fst ` set kvs. leaf_map lf1 l = None"
  proof
    fix l assume l: "l \<in> fst ` set kvs"
    then have "l \<noteq> FREE_FLAG" using k(5) by (auto simp: placeable_def list_all_iff)
    then show "leaf_map lf1 l = None" using m [of l] k(3) l Cons.prems(4) by (auto simp: fun_upd_def)
  qed
  from Cons.IH [OF v1(1) lf1(3) k(5) this] obtain lf' where lf': "leaf_place_all kvs lf1 = Some (Inr lf')" "node_ok lf'"
    "leaf_tight lf'" "walk_view lf' = walk_view lf" "abandoned lf' = abandoned lf"
    "\<forall>l. l \<noteq> FREE_FLAG \<longrightarrow> leaf_map lf' l = (leaf_map lf1 ++ map_of kvs) l" using v1 by auto
  have "map_of kvs k = None" using k(3) by (simp add: map_of_eq_None_iff)
  then have "leaf_map lf' l = (leaf_map lf ++ map_of (kv # kvs)) l" if "l \<noteq> FREE_FLAG" for l
    using m [OF that] lf'(6) that kv by (auto simp: map_add_def split: option.splits)
  moreover have "leaf_place_all (kv # kvs) lf = Some (Inr lf')" using lf'(1) lf1(1) kv by simp
  ultimately show ?case using lf'(2-5) by blast
qed simp

lemma empty_block_facts:
  "block_ok (empty_block gv)" "block_tight (empty_block gv)" "k \<noteq> FREE_FLAG \<Longrightarrow> block_map (empty_block gv) k = None"
  by (auto simp: empty_block_def block_ok_def header_ok_def LeafRealSlotsPerBlock_def LeafSlotsPerBlock_def lockSet_def
      block_tight_def slot_keys_def overflow_map_def block_map_def map_of_eq_None_iff)

lemma leaf_blank_ok:
  fixes bn :: u64
  assumes "3 \<le> unat bn" "unat bn \<le> 2 ^ 28" and lf_def: "lf = leaf_blank bn kvs number start sl ic gv p n"
  shows "node_ok lf" "leaf_tight lf" "l \<noteq> FREE_FLAG \<Longrightarrow> leaf_map lf l = None" "next_node lf = n"
    "node_locked lf = 0" "\<not> abandoned lf" "unat (leaf_block_number lf) = unat bn" "first_key lf = fst (kvs ! start)"
proof -
  have u: "unat (ucast bn :: u32) = unat bn" using assms(2) by (simp add: unsigned_ucast_eq take_bit_nat_eq_self)
  have f: "leaf_block_number lf = ucast bn" "leaf_slots lf = replicate (unat bn) (empty_block gv)"
    "next_node lf = n" "node_locked lf = 0" "\<not> abandoned lf" "first_key lf = fst (kvs ! start)"
    by (simp_all add: lf_def leaf_blank_def Let_def u split: prod.splits)
  show ok: "node_ok lf" using assms(1,2) u f by (simp add: node_ok_def list_all_iff empty_block_facts)
  show "leaf_tight lf" using f by (auto simp: leaf_tight_def list_all_iff empty_block_facts)
  show "leaf_map lf l = None" if "l \<noteq> FREE_FLAG"
    using key_block_bound [OF ok, of l] f that by (simp add: leaf_map_def empty_block_facts)
  show "next_node lf = n" "node_locked lf = 0" "\<not> abandoned lf" "unat (leaf_block_number lf) = unat bn"
    "first_key lf = fst (kvs ! start)" using f u by simp_all
qed


lemma accelerator_ok:
  assumes "node_ok lf"
  shows "\<exists>s. leaf_accelerator this lf acc = Inr s \<and> mirrors s lf \<and> slot_check_read_lock s \<and> slot_check_write_lock s
    \<and> ptr s = this \<and> min_key s = first_key lf"
proof -
  let ?n = "leaf_block_number lf"
  have n: "uint ?n < 2 ^ 29"
  proof -
    have e: "int (unat ?n) = uint ?n" by simp
    have "int m < 2 ^ 29" if "m \<le> 2 ^ 28" for m :: nat using that by simp
    then have "int (unat ?n) < 2 ^ 29" using assms by (simp only: node_ok_def)
    then show ?thesis unfolding e .
  qed
  then have "take_bit 29 ?n = ?n" by (simp add: word_uint_eq_iff unsigned_take_bit_eq take_bit_int_eq_self)
  then show ?thesis using n
    by (auto simp: leaf_accelerator_def set_block_number_def mirrors_def block_number_put_block_number check_locks_bit info_bits)
      (simp_all add: init_lock_def set_type_def put_block_number_def)
qed

lemma leaf_new_ok:
  fixes bn :: u64
  assumes bn: "3 \<le> unat bn" "unat bn \<le> 2 ^ 28" and n: "0 < number" "start + number \<le> length kvs"
    and kvs: "placeable (take number (drop start kvs))"
  shows "\<exists>lf s. leaf_new this acc bn kvs number start sl ic gv p nx = Some (Inr (lf, s)) \<and> node_ok lf \<and> leaf_tight lf
    \<and> mirrors s lf \<and> slot_check_read_lock s \<and> slot_check_write_lock s \<and> next_node lf = nx \<and> node_locked lf = 0
    \<and> \<not> abandoned lf \<and> first_key lf = fst (kvs ! start) \<and> min_key s = fst (kvs ! start)
    \<and> (\<forall>l. l \<noteq> FREE_FLAG \<longrightarrow> leaf_map lf l = map_of (take number (drop start kvs)) l)"
proof -
  note blank = leaf_blank_ok [OF bn, where lf = "leaf_blank bn kvs number start sl ic gv p nx", OF refl]
  let ?kvs = "take number (drop start kvs)"
  have "\<forall>k\<in>fst ` set ?kvs. leaf_map (leaf_blank bn kvs number start sl ic gv p nx) k = None"
    using kvs blank(3) by (auto simp: placeable_def list_all_iff)
  from place_all_ok [OF blank(1,2) kvs this] obtain lf where lf: "node_ok lf" "leaf_tight lf"
    "leaf_place_all ?kvs (leaf_blank bn kvs number start sl ic gv p nx) = Some (Inr lf)"
    "walk_view lf = walk_view (leaf_blank bn kvs number start sl ic gv p nx)" "\<not> abandoned lf"
    and m: "\<forall>l. l \<noteq> FREE_FLAG \<longrightarrow> leaf_map lf l = (leaf_map (leaf_blank bn kvs number start sl ic gv p nx) ++ map_of ?kvs) l"
    using blank(6) by auto
  have map: "\<forall>l. l \<noteq> FREE_FLAG \<longrightarrow> leaf_map lf l = map_of ?kvs l"
    using m blank(3) by (auto simp: map_add_def split: option.splits)
  from accelerator_ok [OF lf(1), of this acc] obtain s where s: "leaf_accelerator this lf acc = Inr s" "mirrors s lf"
    "slot_check_read_lock s" "slot_check_write_lock s" "min_key s = first_key lf" by blast
  have "next_node lf = nx" "node_locked lf = 0" "first_key lf = fst (kvs ! start)"
    using lf(4) blank(4,5,8) by (simp_all add: walk_view_def)
  moreover have "leaf_new this acc bn kvs number start sl ic gv p nx = Some (Inr (lf, s))"
    using n lf(3) s(1) by (simp add: leaf_new_def)
  ultimately show ?thesis using lf s map by auto
qed

section \<open>Collecting the data\<close>

lemma mset_merge_block: "\<forall>s\<in>set ss. \<not> is_flag s \<Longrightarrow> mset (merge_block ss os) = mset ss + mset os"
proof (induction ss os rule: merge_block.induct)
  case (2 s ss)
  have e: "(if ss \<noteq> [] \<and> is_flag (hd ss) then [] else ss) = ss" using "2.prems" by (cases ss) auto
  have "mset (merge_block ss []) = mset ss" using "2.IH" "2.prems" unfolding e by simp
  then show ?case unfolding merge_block.simps e by simp
next
  case (3 s ss p os)
  have e: "(if ss \<noteq> [] \<and> is_flag (hd ss) then [] else ss) = ss" using "3.prems" by (cases ss) auto
  show ?case
  proof (cases "fst p < fst s")
    case True
    then show ?thesis using "3.IH"(1) "3.prems" by simp
  next
    case False
    then have "mset (merge_block ss (p # os)) = mset ss + mset (p # os)" using "3.IH"(2) "3.prems" unfolding e by simp
    then show ?thesis using False unfolding merge_block.simps e by simp
  qed
qed simp

lemma map_of_live: "k \<noteq> f \<Longrightarrow> map_of (filter (\<lambda>s. fst s \<noteq> f) d) k = map_of d k"
  by (induction d) auto

lemma distinct_fst_mset: "mset xs = mset ys \<Longrightarrow> distinct (map fst xs) = distinct (map fst ys)"
  by (rule mset_eq_imp_distinct_iff) (metis mset_map)

definition lists :: "leaf_block \<Rightarrow> DataSlot list \<Rightarrow> bool" where
  "lists b xs \<longleftrightarrow> distinct (map fst xs) \<and> set xs = {(k, v). k \<noteq> FREE_FLAG \<and> block_map b k = Some v}"

lemma live_slots:
  assumes "distinct (slot_keys b)"
  shows "distinct (map fst (filter (\<lambda>s. fst s \<noteq> FREE_FLAG) (data b)))"
    "set (filter (\<lambda>s. fst s \<noteq> FREE_FLAG) (data b)) = {(k, v). k \<noteq> FREE_FLAG \<and> map_of (data b) k = Some v}"
proof -
  let ?l = "filter (\<lambda>s. fst s \<noteq> FREE_FLAG) (data b)"
  have "map fst ?l = slot_keys b" by (simp add: slot_keys_def filter_map o_def)
  then show d: "distinct (map fst ?l)" using assms by simp
  have "(k, v) \<in> set ?l \<longleftrightarrow> k \<noteq> FREE_FLAG \<and> map_of (data b) k = Some v" for k v
    using map_of_eq_Some_iff [OF d, of k v] map_of_live [of k FREE_FLAG "data b"] by auto
  then have "x \<in> set ?l \<longleftrightarrow> x \<in> {(k, v). k \<noteq> FREE_FLAG \<and> map_of (data b) k = Some v}" for x
    by (cases x) (simp only: mem_Collect_eq prod.case)
  then show "set ?l = {(k, v). k \<noteq> FREE_FLAG \<and> map_of (data b) k = Some v}" by (rule set_eqI)
qed

lemma block_get_data_ok:
  assumes "block_ok b" "block_tight b"
  shows "\<exists>xs b'. block_get_data gv b = Some (Inr (xs, b')) \<and> lists b xs"
proof -
  let ?live = "filter (\<lambda>s. fst s \<noteq> FREE_FLAG) (data b)"
  note live = live_slots [of b]
  have t: "distinct (slot_keys b)" "set (slot_keys b) \<inter> dom (overflow_map (hdr b)) = {}"
    "overflow_map (hdr b) FREE_FLAG = None" using assms(2) by (simp_all add: block_tight_def)
  show ?thesis
  proof (cases "overflow_tree (hdr b)")
    case None
    have "mset (filter (\<lambda>s. fst s \<noteq> FREE_FLAG) (sort_key fst (data b))) = mset ?live" by (simp add: mset_filter)
    then have "distinct (map fst (filter (\<lambda>s. fst s \<noteq> FREE_FLAG) (sort_key fst (data b))))"
      using live(1) [OF t(1)] distinct_fst_mset by blast
    moreover have "set (filter (\<lambda>s. fst s \<noteq> FREE_FLAG) (sort_key fst (data b))) = set ?live" by simp
    ultimately show ?thesis using None live(2) [OF t(1)]
      by (simp add: block_get_data_def check_lock_def Let_def lists_def block_map_def overflow_map_def)
  next
    case (Some tr)
    then have tr: "btree_inv tr" "synced tr" using assms(1) by (simp_all add: block_ok_def header_ok_def)
    obtain res where res: "get_data tr = Some (Inr res)" "sorted_wrt (<) (map fst res)"
      "set res = {(k, v). overflow_map (hdr b) k = Some v}"
      using get_data_ok [OF tr(1)] find_inv(1) [OF tr(1)] Some by (auto simp: overflow_map_def)
    have "FREE_FLAG \<notin> fst ` set (data b)" using assms(2) Some by (simp add: block_tight_def find_slot_None)
    then have full: "\<forall>s\<in>set (data b). fst s \<noteq> FREE_FLAG" by (metis image_eqI)
    then have e: "?live = data b" "slot_keys b = map fst (data b)"
      by (auto simp: slot_keys_def filter_map intro!: filter_True)
    let ?xs = "merge_block (sort_key fst (data b)) res"
    have m: "mset ?xs = mset (data b @ res)" using mset_merge_block [of "sort_key fst (data b)" res] full by simp
    have disj: "fst ` set (data b) \<inter> fst ` set res = {}" using t(2) e(2) res(3) by (auto simp: dom_def)
    have "distinct (map fst (data b @ res))" using live(1) [OF t(1)] e(1) disj strict_sorted_iff res(2) by auto
    then have "distinct (map fst ?xs)" using m distinct_fst_mset by blast
    moreover have "set ?xs = {(k, v). k \<noteq> FREE_FLAG \<and> block_map b k = Some v}"
    proof -
      have "set ?xs = {(k, v). k \<noteq> FREE_FLAG \<and> map_of (data b) k = Some v} \<union> {(k, v). overflow_map (hdr b) k = Some v}"
        using arg_cong [OF m, of set_mset] live(2) [OF t(1)] res(3) e(1) by simp
      moreover have "map_of (data b) k = None" if "overflow_map (hdr b) k = Some v" for k v
        using that t(2) e(2) by (auto simp: map_of_eq_None_iff dom_def)
      ultimately show ?thesis using t(3) by (auto simp: block_map_def map_add_Some_iff)
    qed
    moreover have "block_get_data gv b = Some (Inr (?xs, \<lparr>hdr = check_global_version gv (hdr b), data = sort_key fst (data b)\<rparr>))"
      using Some tr(2) res(1) full dropWhile_eq_self_iff [of is_flag "sort_key fst (data b)"]
      by (simp add: block_get_data_def check_lock_def Let_def) (metis list.set_sel(1) set_sort)
    ultimately show ?thesis by (auto simp: lists_def)
  qed
qed


lemma blocks_get_data_ok:
  "list_all (\<lambda>b. block_ok b \<and> block_tight b) bs \<Longrightarrow>
    \<exists>xss bs'. blocks_get_data gv bs = Some (Inr (concat xss, bs')) \<and> list_all2 lists bs xss"
proof (induction bs)
  case (Cons b bs)
  then obtain xss bs' where a: "blocks_get_data gv bs = Some (Inr (concat xss, bs'))" "list_all2 lists bs xss" by auto
  from Cons block_get_data_ok [of b gv] obtain xs b' where "block_get_data gv b = Some (Inr (xs, b'))" "lists b xs" by auto
  then show ?case using a by (intro exI [of _ "xs # xss"]) simp
qed (simp add: exI [of _ "[]"])

lemma in_concat_nth: "s \<in> set (concat xss) \<longleftrightarrow> (\<exists>j<length xss. s \<in> set (xss ! j))"
  by (auto simp: in_set_conv_nth [of _ xss]) (metis nth_mem)

lemma distinct_concat_home:
  "\<forall>j<length xss. distinct (map fst (xss ! j)) \<and> (\<forall>s\<in>set (xss ! j). h (fst s) = n + j) \<Longrightarrow>
    distinct (map fst (concat xss))"
proof (induction xss arbitrary: n)
  case (Cons xs xss)
  have a: "distinct (map fst xs)" "\<forall>s\<in>set xs. h (fst s) = n" using Cons.prems by force+
  have b: "\<forall>j<length xss. distinct (map fst (xss ! j)) \<and> (\<forall>s\<in>set (xss ! j). h (fst s) = Suc n + j)"
    using Cons.prems by force
  have "h (fst s) \<noteq> n" if "s \<in> set (concat xss)" for s
  proof -
    from that obtain j where "j < length xss" "s \<in> set (xss ! j)" unfolding in_concat_nth by blast
    then show ?thesis using b by auto
  qed
  then have "fst ` set xs \<inter> fst ` set (concat xss) = {}" using a(2) by force
  then show ?case using a(1) Cons.IH [OF b] by auto
qed simp

lemma leaf_get_data_ok:
  assumes lf: "node_ok lf" "leaf_tight lf"
  shows "\<exists>xs lf'. leaf_get_data gv lf = Some (Inr (xs, lf')) \<and> sorted_wrt (<) (map fst xs)
    \<and> set xs = {(k, v). k \<noteq> FREE_FLAG \<and> leaf_map lf k = Some v}"
proof -
  let ?bs = "leaf_slots lf"
  have "list_all (\<lambda>b. block_ok b \<and> block_tight b) ?bs" using lf by (simp add: node_ok_def leaf_tight_def list_all_iff)
  from blocks_get_data_ok [OF this, of gv] obtain xss bs' where
    run: "blocks_get_data gv ?bs = Some (Inr (concat xss, bs'))" and l: "list_all2 lists ?bs xss" by blast
  have len: "length xss = length ?bs" using l by (simp add: list_all2_lengthD)
  have xs: "distinct (map fst (xss ! j))" "(k, v) \<in> set (xss ! j) \<longleftrightarrow> k \<noteq> FREE_FLAG \<and> block_map (?bs ! j) k = Some v"
    if "j < length ?bs" for j k v using list_all2_nthD [OF l that] by (auto simp: lists_def)
  have home: "key_block lf k = j" if "j < length ?bs" "(k, v) \<in> set (xss ! j)" for j k v
    using lf(2) that xs(2) [OF that(1), of k v] by (auto simp: leaf_tight_def)
  have d: "distinct (map fst (concat xss))"
    by (rule distinct_concat_home [where h = "key_block lf" and n = 0]) (use xs(1) home len in auto)
  have mem: "(k, v) \<in> set (concat xss) \<longleftrightarrow> k \<noteq> FREE_FLAG \<and> leaf_map lf k = Some v" for k v
  proof -
    have "(k, v) \<in> set (concat xss) \<longleftrightarrow> (\<exists>j<length ?bs. (k, v) \<in> set (xss ! j))"
      unfolding in_concat_nth len ..
    also have "\<dots> \<longleftrightarrow> (k, v) \<in> set (xss ! key_block lf k)"
      using home key_block_bound [OF lf(1), of k] by blast
    also have "\<dots> \<longleftrightarrow> k \<noteq> FREE_FLAG \<and> leaf_map lf k = Some v"
      using xs(2) [OF key_block_bound [OF lf(1), of k]] by (simp add: leaf_map_def)
    finally show ?thesis .
  qed
  let ?xs = "sort_key fst (concat xss)"
  have f: "filter (\<lambda>s. fst s \<noteq> FREE_FLAG) ?xs = ?xs"
    by (rule filter_True) (use mem in \<open>auto simp del: set_concat\<close>)
  have "distinct (map fst ?xs)" using d distinct_fst_mset [of ?xs "concat xss"] by simp
  then have "sorted_wrt (<) (map fst ?xs)" by (simp add: strict_sorted_iff)
  moreover have "set ?xs = {(k, v). k \<noteq> FREE_FLAG \<and> leaf_map lf k = Some v}"
    using mem by (auto simp del: set_concat)
  moreover have "leaf_get_data gv lf = Some (Inr (?xs, lf\<lparr>leaf_slots := bs'\<rparr>))"
    using run lf(1) f by (simp add: leaf_get_data_def node_ok_def)
  ultimately show ?thesis by blast
qed

text \<open>Rows in key order are determined by the map they present.\<close>

lemma sorted_rows_unique:
  assumes xs: "sorted_wrt (<) (map fst xs)" "set xs = {(k, v). k \<noteq> FREE_FLAG \<and> m k = Some v}"
    and rows: "sorted_wrt (<) (map fst rows)" "FREE_FLAG \<notin> fst ` set rows" "\<And>k. k \<noteq> FREE_FLAG \<Longrightarrow> m k = map_of rows k"
  shows "xs = rows"
proof -
  have d: "distinct (map fst rows)" "distinct (map fst xs)" using xs(1) rows(1) by (simp_all add: strict_sorted_iff)
  have "(k, v) \<in> set xs \<longleftrightarrow> (k, v) \<in> set rows" for k v
    unfolding xs(2) using rows(2,3) d(1) by (auto simp: image_iff)
  then have "set xs = set rows" by auto
  moreover have "inj_on fst (set xs)" using d(2) by (simp add: distinct_map)
  ultimately show ?thesis using d xs(1) rows(1)
    by (intro map_sorted_distinct_set_unique [where f = fst]) (simp_all add: strict_sorted_iff)
qed

end
