(* ===== verification/Leaf_Props.thy ===== *)
theory Leaf_Props
  imports Leaf_Build BPlus_Props
begin

text \<open>
  The properties of the learned leaf node: construction, lookup, upsert, removal and the collection
  of its data, for every linear model.
\<close>

text \<open>C11: A leaf node built by its constructor from distinct keys answers \<^verbatim>\<open>find\<close> exactly: 1 with the
  payload for each of its keys and 0 for every other key, with or without the accelerator the
  constructor fills in, whatever slope and intercept the model has.  The construction returns.\<close>

theorem leaf_built_answers:
  fixes bn :: u64
  assumes "3 \<le> unat bn" "unat bn \<le> 2 ^ 28" "0 < number" "start + number \<le> length kvs"
    "placeable (take number (drop start kvs))"
  shows "\<exists>lf s. leaf_new this acc bn kvs number start sl ic gv p 0 = Some (Inr (lf, s))
    \<and> (\<forall>k gv' acc'. k \<noteq> FREE_FLAG \<longrightarrow> acc' = None \<or> acc' = Some s \<longrightarrow>
        answer (leaf_find [this \<mapsto> lf] this k gv' acc') = found_as (map_of (take number (drop start kvs)) k))"
proof -
  from leaf_new_ok [OF assms, of this acc sl ic gv p 0] obtain lf s where
    lf: "leaf_new this acc bn kvs number start sl ic gv p 0 = Some (Inr (lf, s))" "node_ok lf" "next_node lf = 0"
    "node_locked lf = 0" "\<not> abandoned lf" "mirrors s lf" "slot_check_read_lock s" "slot_check_write_lock s"
    "\<forall>l. l \<noteq> FREE_FLAG \<longrightarrow> leaf_map lf l = map_of (take number (drop start kvs)) l" by blast
  have "answer (leaf_find [this \<mapsto> lf] this k gv' acc') = found_as (map_of (take number (drop start kvs)) k)"
    if k: "k \<noteq> FREE_FLAG" and a: "acc' = None \<or> acc' = Some s" for k gv' acc'
  proof -
    have "accessible [this \<mapsto> lf] this acc'" by (rule accessible_single [OF lf(2-5), of acc' s]) (use a lf(6-8) in blast)
    from leaf_find_ok [OF this, of k gv'] show ?thesis using lf(9) k by (auto split: if_splits)
  qed
  then show ?thesis using lf(1) by blast
qed

definition some_slot :: InnerSlot where
  "some_slot = \<lparr>min_key = FREE_FLAG, ptr = 0, slope = fp_zero, intercept = fp_zero, info = 0\<rparr>"

theorem leaf_built_answers_witness:
  "placeable [(Dbl 4, 1), (Dbl 9, 2)] \<and> (\<exists>lf s. leaf_new 1 some_slot 3 [(Dbl 4, 1), (Dbl 9, 2)] 2 0 fp_zero fp_half 0 0 0 = Some (Inr (lf, s))
    \<and> (\<forall>k gv' acc'. k \<noteq> FREE_FLAG \<longrightarrow> acc' = None \<or> acc' = Some s \<longrightarrow>
        answer (leaf_find [1 \<mapsto> lf] 1 k gv' acc') = found_as (map_of (take 2 (drop 0 [(Dbl 4, 1), (Dbl 9, 2)])) k)))"
proof -
  have "placeable [(Dbl 4, 1), (Dbl 9, 2)]" by (simp add: placeable_def FREE_FLAG_def)
  then show ?thesis
    using leaf_built_answers [of 3 2 0 "[(Dbl 4, 1), (Dbl 9, 2)]" 1 some_slot fp_zero fp_half 0 0] by simp
qed

text \<open>C10: On a chain of unlocked leaf nodes \<^verbatim>\<open>upsert\<close> of a key with a non-null payload returns, keeps
  the chain well formed, and afterwards \<^verbatim>\<open>find\<close> answers the new payload for its key and, from every
  starting node, the old answer for every other key.  It asks for a split exactly when it returns 5
  or 6, and it returns an insertion code when the key was absent.\<close>

theorem leaf_upsert_refines_map:
  assumes "accessible ls a acc" "k \<noteq> FREE_FLAG" "v \<noteq> 0"
  shows "\<exists>ret sp ls'. leaf_upsert ls a k v gv acc = Some (Inr (ret, sp, ls')) \<and> accessible ls' a acc
    \<and> answer (leaf_find ls' a k gv' acc) = Some (Inr (1, Some v))
    \<and> (\<forall>a2 l gv2 acc2. l \<noteq> k \<longrightarrow> l \<noteq> FREE_FLAG \<longrightarrow>
        answer (leaf_find ls' a2 l gv2 acc2) = answer (leaf_find ls a2 l gv2 acc2))
    \<and> (sp \<noteq> None \<longleftrightarrow> ret \<in> {5, 6}) \<and> (answer (leaf_find ls a k gv' acc) = Some (Inr (0, None)) \<longrightarrow> ret \<in> {2, 4, 5, 6})"
proof -
  have ok: "leaves_ok ls" using assms(1) by (simp add: accessible_def)
  from leaf_upsert_ok [OF assms, of gv] obtain ret sp c lc lc' acc' where
    u: "leaf_upsert ls a k v gv acc = Some (Inr (ret, sp, ls(c \<mapsto> lc')))" "ls c = Some lc"
    "leaf_walk ls a k acc = Some (Inr (Reached c (key_block lc k) acc'))" "changed k (Some v) lc lc'"
    "leaf_map lc k = None \<longrightarrow> ret \<in> {2, 4, 5, 6}" "sp \<noteq> None \<longleftrightarrow> ret \<in> {5, 6}"
    by (elim exE conjE)
  note ch = changed_find [OF ok u(2,4) assms(2) u(3)]
  have "answer (leaf_find ls a k gv' acc) = found_as (leaf_map lc k)"
    using leaf_find_ok [OF assms(1), of k gv'] u(2,3) by auto
  then show ?thesis using u(1,5,6) ch accessible_changed [OF assms(1) u(2,4) ch(3)]
    by (intro exI [of _ ret] exI [of _ sp] exI [of _ "ls(c \<mapsto> lc')"]) (auto simp: found_as_def split: if_splits)
qed

text \<open>A node of three empty blocks.\<close>

definition blank_leaf :: LeafNode where
  "blank_leaf = leaf_blank 3 [(Dbl 4, 1)] 1 0 fp_zero fp_zero 0 0 0"

lemma blank_leaf_accessible: "accessible [1 \<mapsto> blank_leaf] 1 None"
proof -
  have "3 \<le> unat (3 :: u64)" "unat (3 :: u64) \<le> 2 ^ 28" by simp_all
  note b = leaf_blank_ok [OF this, of blank_leaf, OF blank_leaf_def]
  show ?thesis by (rule accessible_single) (use b in auto)
qed

theorem leaf_upsert_refines_map_witness:
  "accessible [1 \<mapsto> blank_leaf] 1 None \<and> Dbl 4 \<noteq> FREE_FLAG \<and> (7 :: u64) \<noteq> 0
    \<and> (\<exists>ret sp ls'. leaf_upsert [1 \<mapsto> blank_leaf] 1 (Dbl 4) 7 0 None = Some (Inr (ret, sp, ls')) \<and> accessible ls' 1 None
      \<and> answer (leaf_find ls' 1 (Dbl 4) 0 None) = Some (Inr (1, Some 7)))"
proof -
  have k: "Dbl 4 \<noteq> FREE_FLAG" by (simp add: FREE_FLAG_def)
  show ?thesis using leaf_upsert_refines_map [OF blank_leaf_accessible k, of 7 0 0] blank_leaf_accessible k by auto
qed

text \<open>A block without an overflow tree holds as many keys as it has slots, so a node with more keys has one.\<close>

lemma node_overflows:
  assumes ok: "node_ok lf" and k: "K \<subseteq> dom (leaf_map lf)" "LeafRealSlotsPerBlock * length (leaf_slots lf) < card K"
  shows "\<exists>b\<in>set (leaf_slots lf). overflow_tree (hdr b) \<noteq> None"
proof (rule ccontr)
  assume n: "\<not> (\<exists>b\<in>set (leaf_slots lf). overflow_tree (hdr b) \<noteq> None)"
  let ?S = "\<Union>b\<in>set (leaf_slots lf). fst ` set (data b)"
  have "l \<in> ?S" if "l \<in> K" for l
  proof -
    let ?b = "leaf_slots lf ! key_block lf l"
    have "?b \<in> set (leaf_slots lf)" using key_block_bound [OF ok] by (rule nth_mem)
    moreover from this have "overflow_tree (hdr ?b) = None" using n by blast
    ultimately show ?thesis using that k(1) by (force simp: leaf_map_def block_map_def overflow_map_def dest: map_of_SomeD)
  qed
  then have "card K \<le> card ?S" by (intro card_mono) auto
  also have "\<dots> \<le> (\<Sum>b\<in>set (leaf_slots lf). card (fst ` set (data b)))" by (rule card_UN_le) simp
  also have "\<dots> \<le> (\<Sum>b\<in>set (leaf_slots lf). LeafRealSlotsPerBlock)"
  proof (rule sum_mono)
    fix b assume "b \<in> set (leaf_slots lf)"
    then have "length (data b) = LeafRealSlotsPerBlock" using ok by (auto simp: node_ok_def block_ok_def list_all_iff)
    then show "card (fst ` set (data b)) \<le> LeafRealSlotsPerBlock" by (metis card_length length_map set_map)
  qed
  also have "\<dots> \<le> LeafRealSlotsPerBlock * length (leaf_slots lf)" using card_length [of "leaf_slots lf"] by (simp add: mult.commute)
  finally show False using k(2) by simp
qed

text \<open>A node of three blocks that was built from forty-six rows, one more than its slots.\<close>

definition crowded_rows :: "(double \<times> payload_t) list" where
  "crowded_rows = map (\<lambda>i. (Dbl (int i), of_nat i)) [1..<47]"

definition crowded_leaf :: LeafNode where
  "crowded_leaf = (case leaf_place_all crowded_rows (leaf_blank 3 crowded_rows 46 0 fp_zero fp_half 0 0 0) of
     Some (Inr lf) \<Rightarrow> lf | _ \<Rightarrow> blank_leaf)"

lemma crowded_rows_facts: "placeable crowded_rows" "sorted_wrt (<) (map fst crowded_rows)" "FREE_FLAG \<notin> fst ` set crowded_rows"
  "length crowded_rows = 46"
  by code_simp+

lemma crowded_leaf_ok: "node_ok crowded_leaf" "leaf_tight crowded_leaf" "length (leaf_slots crowded_leaf) = 3"
  "k \<noteq> FREE_FLAG \<Longrightarrow> leaf_map crowded_leaf k = map_of crowded_rows k"
proof -
  let ?b = "leaf_blank 3 crowded_rows 46 0 fp_zero fp_half 0 0 0"
  have "3 \<le> unat (3 :: u64)" "unat (3 :: u64) \<le> 2 ^ 28" by simp_all
  note b = leaf_blank_ok [OF this, of ?b, OF refl]
  have "\<forall>k\<in>fst ` set crowded_rows. leaf_map ?b k = None" using b(3) crowded_rows_facts(3) by metis
  from place_all_ok [OF b(1,2) crowded_rows_facts(1) this] obtain lf where
    lf: "leaf_place_all crowded_rows ?b = Some (Inr lf)" "node_ok lf" "leaf_tight lf" "walk_view lf = walk_view ?b"
    "\<forall>l. l \<noteq> FREE_FLAG \<longrightarrow> leaf_map lf l = (leaf_map ?b ++ map_of crowded_rows) l" by blast
  have e: "crowded_leaf = lf" using lf(1) by (simp add: crowded_leaf_def)
  show "node_ok crowded_leaf" "leaf_tight crowded_leaf" using lf(2,3) e by simp_all
  show "length (leaf_slots crowded_leaf) = 3" using lf(2,4) b(7) e by (simp add: node_ok_def walk_view_def)
  show "leaf_map crowded_leaf k = map_of crowded_rows k" if "k \<noteq> FREE_FLAG"
    using lf(5) b(3) that e by (auto simp: map_add_def split: option.splits)
qed

lemma crowded_leaf_overflows: "\<exists>b\<in>set (leaf_slots crowded_leaf). overflow_tree (hdr b) \<noteq> None"
proof (rule node_overflows [OF crowded_leaf_ok(1)])
  show "fst ` set crowded_rows \<subseteq> dom (leaf_map crowded_leaf)"
    using crowded_leaf_ok(4) crowded_rows_facts(3) by (metis domIff map_of_eq_None_iff subsetI)
  have "distinct (map fst crowded_rows)" using crowded_rows_facts(2) by (simp add: strict_sorted_iff)
  then have "card (fst ` set crowded_rows) = 46" using distinct_card [of "map fst crowded_rows"] crowded_rows_facts(4) by simp
  then show "LeafRealSlotsPerBlock * length (leaf_slots crowded_leaf) < card (fst ` set crowded_rows)"
    by (simp add: crowded_leaf_ok(3) LeafRealSlotsPerBlock_def LeafSlotsPerBlock_def)
qed

text \<open>C39: When a node is rebuilt, \<^verbatim>\<open>get_data\<close> collects slots and overflow trees of all its blocks: it
  returns every live pair of the node exactly once, in strictly increasing key order, provided no key
  was removed from a block with an overflow tree.\<close>

theorem leaf_rebuild_data_exact:
  assumes "node_ok lf" "leaf_tight lf"
  shows "\<exists>xs lf'. leaf_get_data gv lf = Some (Inr (xs, lf')) \<and> sorted_wrt (<) (map fst xs)
    \<and> set xs = {(k, v). k \<noteq> FREE_FLAG \<and> leaf_map lf k = Some v}"
  using leaf_get_data_ok [OF assms] .

theorem leaf_rebuild_data_exact_witness:
  "node_ok crowded_leaf \<and> leaf_tight crowded_leaf \<and> (\<exists>b\<in>set (leaf_slots crowded_leaf). overflow_tree (hdr b) \<noteq> None)
    \<and> (\<exists>lf'. leaf_get_data 0 crowded_leaf = Some (Inr (crowded_rows, lf')))"
proof -
  from leaf_rebuild_data_exact [OF crowded_leaf_ok(1,2), of 0] obtain xs lf' where
    xs: "leaf_get_data 0 crowded_leaf = Some (Inr (xs, lf'))" "sorted_wrt (<) (map fst xs)"
    "set xs = {(k, v). k \<noteq> FREE_FLAG \<and> leaf_map crowded_leaf k = Some v}" by blast
  have "xs = crowded_rows" by (rule sorted_rows_unique [OF xs(2,3) crowded_rows_facts(2,3) crowded_leaf_ok(4)])
  then show ?thesis using crowded_leaf_ok(1,2) crowded_leaf_overflows xs(1) by blast
qed

text \<open>Removal from a block without an overflow tree is exact: \<^verbatim>\<open>remove\<close> returns 1 or 0 for a present
  or absent key, afterwards \<^verbatim>\<open>find\<close> answers 0 for it, and every other answer is unchanged.\<close>

theorem leaf_remove_refines_map:
  assumes "accessible ls a acc" "k \<noteq> FREE_FLAG" "leaf_walk ls a k acc = Some (Inr (Reached c i acc'))" "ls c = Some lc"
    "leaf_tight lc" "overflow_tree (hdr (leaf_slots lc ! i)) = None"
  shows "\<exists>ls'. leaf_remove ls a k gv acc = Some (Inr (if leaf_map lc k = None then 0 else 1, ls')) \<and> accessible ls' a acc
    \<and> answer (leaf_find ls' a k gv' acc) = Some (Inr (0, None))
    \<and> (\<forall>a2 l gv2 acc2. l \<noteq> k \<longrightarrow> l \<noteq> FREE_FLAG \<longrightarrow>
        answer (leaf_find ls' a2 l gv2 acc2) = answer (leaf_find ls a2 l gv2 acc2))"
proof -
  have ok: "leaves_ok ls" using assms(1) by (simp add: accessible_def)
  have i: "i = key_block lc k" using leaf_find_ok [OF assms(1), of k] assms(3,4) by auto
  from leaf_remove_ok [OF assms(1,2) assms(3) [unfolded i] assms(4,5) assms(6) [unfolded i], of gv] obtain lc' where
    r: "leaf_remove ls a k gv acc = Some (Inr (if leaf_map lc k = None then 0 else 1, ls(c \<mapsto> lc')))" "changed k None lc lc'"
    by blast
  note ch = changed_find [OF ok assms(4) r(2) assms(2) assms(3) [unfolded i]]
  show ?thesis using r(1) ch accessible_changed [OF assms(1,4) r(2) ch(3)]
    by (intro exI [of _ "ls(c \<mapsto> lc')"]) (simp add: found_as_def)
qed

theorem leaf_remove_refines_map_witness:
  "accessible [1 \<mapsto> blank_leaf] 1 None \<and> leaf_tight blank_leaf
    \<and> (\<exists>ls'. leaf_remove [1 \<mapsto> blank_leaf] 1 (Dbl 4) 0 None = Some (Inr (0, ls')) \<and> accessible ls' 1 None)"
proof -
  have "3 \<le> unat (3 :: u64)" "unat (3 :: u64) \<le> 2 ^ 28" by simp_all
  note b = leaf_blank_ok [OF this, of blank_leaf, OF blank_leaf_def]
  have k: "Dbl 4 \<noteq> FREE_FLAG" by (simp add: FREE_FLAG_def)
  from leaf_find_ok [OF blank_leaf_accessible, of "Dbl 4" 0] obtain acc' where
    w: "leaf_walk [1 \<mapsto> blank_leaf] 1 (Dbl 4) None = Some (Inr (Reached 1 (key_block blank_leaf (Dbl 4)) acc'))"
    by (auto split: if_splits)
  have "leaf_slots blank_leaf = replicate 3 (empty_block 0)"
    by (simp add: blank_leaf_def leaf_blank_def Let_def split: prod.splits)
  then have n: "overflow_tree (hdr (leaf_slots blank_leaf ! key_block blank_leaf (Dbl 4))) = None"
    using key_block_bound [OF b(1), of "Dbl 4"] by (simp add: empty_block_def)
  show ?thesis using leaf_remove_refines_map [OF blank_leaf_accessible k w _ b(2) n, of 0 0] b(3) [OF k] blank_leaf_accessible b(2)
    by auto
qed


text \<open>C40: A removed key can come back.  In a block with an overflow tree, removing a key from a slot marks
  the slot with \<^verbatim>\<open>DELETE_FLAG\<close>, which equals \<^verbatim>\<open>FREE_FLAG\<close>; an upsert of a key that lives in the tree
  then takes the slot for free and stores a second copy, and removing that key deletes only this copy,
  so \<^verbatim>\<open>find\<close> returns the old payload from the tree.\<close>

theorem leaf_removed_key_comes_back:
  assumes "block_ok b" "block_tight b" "j \<in> fst ` set (data b)" "j \<noteq> FREE_FLAG" "k \<noteq> FREE_FLAG"
    "overflow_map (hdr b) k = Some w"
  shows "\<exists>b1 b2 b3 b4. block_remove gv j b = Some (Inr (1, b1)) \<and> block_upsert gv k v b1 = Some (Inr (2, b2))
    \<and> block_remove gv k b2 = Some (Inr (1, b3)) \<and> block_find gv k b3 = Some (Inr (1, Some w, b4))"
  using freed_slot_duplicates [OF assms] .

definition full_block :: leaf_block where
  "full_block = \<lparr>hdr = \<lparr>locked = 0, local_version = 0, overflow_tree = Some one_key\<rparr>,
     data = map (\<lambda>i. (Dbl (10 + i), 1)) [0, 1, 2, 3, 4, 5, 6, 7, 8, 9, 10, 11, 12, 13, 14]\<rparr>"

lemma full_block_facts: "block_ok full_block" "block_tight full_block" "overflow_map (hdr full_block) (Dbl 5) = Some 7"
proof -
  have s: "synced one_key" by code_simp
  have l: "lookup k one_key = (if k = Dbl 5 then Some 7 else None)" for k
  proof -
    from upsert_ok [OF btree_inv_init, of 7 "Dbl 5"] obtain r t where u: "upsert (Dbl 5) 7 btree_plus_init = Some (Inr (r, t))" by auto
    then have e: "one_key = t" "insert_run (Dbl 5) 7 btree_plus_init = Some t" by (simp_all add: one_key_def insert_run_def)
    then show ?thesis using lookup_upsert(2) [OF btree_inv_init _ e(2), of k] bt.get_empty by simp
  qed
  show "block_ok full_block" using s one_key_inv
    by (simp add: block_ok_def header_ok_def full_block_def LeafRealSlotsPerBlock_def LeafSlotsPerBlock_def)
  show "overflow_map (hdr full_block) (Dbl 5) = Some 7" by (simp add: overflow_map_def full_block_def l)
  have d: "dom (overflow_map (hdr full_block)) = {Dbl 5}"
    by (auto simp: overflow_map_def full_block_def l split: if_splits)
  have "slot_keys full_block = map (\<lambda>i. Dbl (10 + i)) [0, 1, 2, 3, 4, 5, 6, 7, 8, 9, 10, 11, 12, 13, 14]"
    by (simp add: slot_keys_def full_block_def FREE_FLAG_def)
  then show "block_tight full_block" unfolding block_tight_def d
    by (simp add: full_block_def FREE_FLAG_def overflow_map_def l)
qed

theorem leaf_removed_key_comes_back_witness:
  "block_ok full_block \<and> block_tight full_block \<and> (\<exists>b1 b2 b3 b4. block_remove 0 (Dbl 12) full_block = Some (Inr (1, b1))
    \<and> block_upsert 0 (Dbl 5) 8 b1 = Some (Inr (2, b2))
    \<and> block_remove 0 (Dbl 5) b2 = Some (Inr (1, b3)) \<and> block_find 0 (Dbl 5) b3 = Some (Inr (1, Some 7, b4)))"
proof -
  have "Dbl 12 \<in> fst ` set (data full_block)" by (simp add: full_block_def)
  moreover have "Dbl 12 \<noteq> FREE_FLAG" "Dbl 5 \<noteq> FREE_FLAG" by (simp_all add: FREE_FLAG_def)
  ultimately show ?thesis using leaf_removed_key_comes_back [OF full_block_facts(1,2), of "Dbl 12" "Dbl 5" 7 0 8] full_block_facts
    by blast
qed

end
