(* ===== verification/Inner_Node.thy ===== *)
theory Inner_Node
  imports Learned_Model BPlus_Tree
begin

text \<open>
  The learned inner node of \<^verbatim>\<open>src/core/index/inner_node.h\<close>: an array of \<^verbatim>\<open>InnerSlot\<close>s, eight to a block,
  each the accelerator of a child.  Inner nodes live in a heap of their own; a slot whose \<^verbatim>\<open>min_key\<close> is
  \<^verbatim>\<open>FREE_FLAG\<close> is free.  Slot indices are \<^verbatim>\<open>uint64_t\<close> and stay far below their limit; the only wrap-around
  is the decrement of index 0, which is an access out of bounds.
\<close>

record InnerNode =
  inner_slope :: fp
  inner_intercept :: fp
  inner_block_number :: u32
  record_number :: nat
  inner_first_key :: double
  inner_level :: u32
  inner_slots :: "InnerSlot list"

type_synonym inners = "nat \<Rightarrow> InnerNode option"

text \<open>A new slot has only its key set; the other fields are unset and 0 here.\<close>

definition free_slot :: InnerSlot where
  "free_slot = \<lparr>min_key = FREE_FLAG, ptr = 0, slope = fp_zero, intercept = fp_zero, info = 0\<rparr>"

definition is_free :: "InnerSlot \<Rightarrow> bool" where
  "is_free s \<longleftrightarrow> min_key s = FREE_FLAG"

section \<open>Construction\<close>

text \<open>The first free slot in \<^verbatim>\<open>[a, a + n)\<close>.\<close>

fun first_free :: "InnerSlot list \<Rightarrow> nat \<Rightarrow> nat \<Rightarrow> nat option" where
  "first_free ss a 0 = None"
| "first_free ss a (Suc n) = (if is_free (ss ! a) then Some a else first_free ss (Suc a) n)"

text \<open>
  The predicted block first, then every slot behind it; the assertion fails when there is none.
\<close>

definition inner_data_placement :: "double \<Rightarrow> InnerSlot \<Rightarrow> InnerNode \<Rightarrow> bt_err + InnerNode" where
  "inner_data_placement key node nd =
     (let slot = unat (inner_predict_block (Some key) (inner_slope nd) (inner_intercept nd) (inner_block_number nd)) * InnerSlotsPerBlock;
          total = unat (inner_block_number nd) * InnerSlotsPerBlock
      in if length (inner_slots nd) < slot + InnerSlotsPerBlock \<or> length (inner_slots nd) < total then Inl OutOfBounds
         else case first_free (inner_slots nd) slot InnerSlotsPerBlock of
           Some i \<Rightarrow> Inr (nd\<lparr>inner_slots := (inner_slots nd)[i := node]\<rparr>)
         | None \<Rightarrow> (case first_free (inner_slots nd) (slot + InnerSlotsPerBlock) (total - (slot + InnerSlotsPerBlock)) of
             Some i \<Rightarrow> Inr (nd\<lparr>inner_slots := (inner_slots nd)[i := node]\<rparr>)
           | None \<Rightarrow> Inl AssertFail))"

fun inner_place_all :: "(double \<times> InnerSlot) list \<Rightarrow> InnerNode \<Rightarrow> bt_err + InnerNode" where
  "inner_place_all [] nd = Inr nd"
| "inner_place_all ((k, s) # kss) nd = bind_res (inner_data_placement k s nd) (inner_place_all kss)"

text \<open>\<^verbatim>\<open>INNER_NODE_INIT_RATIO\<close> is 0.2.\<close>

definition INNER_NODE_INIT_RATIO :: fp where "INNER_NODE_INIT_RATIO = Some (Dbl 0x3FC999999999999A)"

definition inner_blank :: "u64 \<Rightarrow> double list \<Rightarrow> nat \<Rightarrow> nat \<Rightarrow> fp \<Rightarrow> fp \<Rightarrow> u32 \<Rightarrow> InnerNode" where
  "inner_blank bn keys number start_pos sl ic lvl =
     (let lo = keys ! start_pos;
          hi = keys ! (start_pos + number - 1);
          sl1 = fp_div sl INNER_NODE_INIT_RATIO;
          ic1 = fp_to_float (fp_div (fp_sub (fp_sub ic (fp_of_int (int start_pos))) (fp_mul (Some lo) sl)) INNER_NODE_INIT_RATIO);
          bn32 = ucast bn :: u32;
          (sl2, ic2) = model_correction sl1 ic1 (ucast (bn32 - 3) * 8) lo hi
      in \<lparr>inner_slope = sl2, inner_intercept = ic2, inner_block_number = bn32, record_number = number,
          inner_first_key = lo, inner_level = lvl, inner_slots = replicate (unat bn * 8) free_slot\<rparr>)"

definition inner_accelerator :: "nat \<Rightarrow> InnerNode \<Rightarrow> InnerSlot \<Rightarrow> bt_err + InnerSlot" where
  "inner_accelerator this nd acc = (case set_block_number (inner_block_number nd)
       (acc\<lparr>min_key := inner_first_key nd, ptr := this, slope := inner_slope nd, intercept := inner_intercept nd\<rparr>) of
     None \<Rightarrow> Inl AssertFail | Some s \<Rightarrow> Inr (init_lock (set_type 1 s)))"

definition inner_new :: "nat \<Rightarrow> InnerSlot \<Rightarrow> u64 \<Rightarrow> double list \<Rightarrow> InnerSlot list \<Rightarrow> nat \<Rightarrow> nat \<Rightarrow> fp \<Rightarrow> fp \<Rightarrow> u32 \<Rightarrow>
    bt_err + InnerNode \<times> InnerSlot" where
  "inner_new this acc bn keys nodes number start_pos sl ic lvl =
     (if number = 0 \<or> length keys < start_pos + number \<or> length nodes < start_pos + number then Inl OutOfBounds
      else bind_res (inner_place_all (take number (drop start_pos (zip keys nodes))) (inner_blank bn keys number start_pos sl ic lvl)) (\<lambda>nd.
        bind_res (inner_accelerator this nd acc) (\<lambda>s. Inr (nd, s))))"

section \<open>Search\<close>

text \<open>\<^verbatim>\<open>while (inner_slots[--slot].min_key == FREE_FLAG)\<close>; below index 0 it leaves the array.\<close>

fun search_left :: "InnerSlot list \<Rightarrow> nat \<Rightarrow> bt_err + nat" where
  "search_left ss 0 = Inl OutOfBounds"
| "search_left ss (Suc n) = (if length ss \<le> n then Inl OutOfBounds
     else if is_free (ss ! n) then search_left ss n else Inr n)"

text \<open>The loop to the right, with the number of slots left as its counter; the result is the slot before its end.\<close>

fun search_right :: "InnerSlot list \<Rightarrow> double \<Rightarrow> nat \<Rightarrow> nat \<Rightarrow> bt_err + nat" where
  "search_right ss key slot 0 = Inr (slot - 1)"
| "search_right ss key slot (Suc n) = (if length ss \<le> slot then Inl OutOfBounds
     else if \<not> is_free (ss ! slot) \<and> key \<ge> min_key (ss ! slot) then search_right ss key (Suc slot) n
     else Inr (slot - 1))"

text \<open>The slot of a key in one node; \<^verbatim>\<open>slot_number\<close> is a \<^verbatim>\<open>uint32_t\<close>.\<close>

definition inner_locate :: "InnerSlot list \<Rightarrow> double \<Rightarrow> InnerSlot \<Rightarrow> bt_err + nat \<times> nat" where
  "inner_locate ss key acc =
     (let bn = block_number acc;
          slot = unat (inner_predict_block (Some key) (slope acc) (intercept acc) bn) * InnerSlotsPerBlock
      in if length ss \<le> slot then Inl OutOfBounds
         else bind_res (if is_free (ss ! slot) \<or> key < min_key (ss ! slot) then search_left ss slot
             else search_right ss key slot (unat (bn * 8) - slot)) (\<lambda>i. Inr (slot, i)))"

text \<open>The result is a pointer to a slot: the node and the index.\<close>

partial_function (option) find_leaf_node :: "inners \<Rightarrow> nat \<Rightarrow> double \<Rightarrow> InnerSlot \<Rightarrow> (nat \<times> nat) run" where
  [code]: "find_leaf_node ins this key acc = (case ins this of None \<Rightarrow> Some (Inl NullDeref)
     | Some nd \<Rightarrow> bind_run (Some (inner_locate (inner_slots nd) key acc)) (\<lambda>r.
         let s = inner_slots nd ! snd r in
         if slot_type s \<noteq> 0 then find_leaf_node ins (ptr s) key s else Some (Inr (this, snd r))))"

partial_function (option) inner_leftmost_leaf :: "inners \<Rightarrow> nat \<Rightarrow> nat run" where
  [code]: "inner_leftmost_leaf ins this = (case ins this of None \<Rightarrow> Some (Inl NullDeref)
     | Some nd \<Rightarrow> (case dropWhile is_free (inner_slots nd) of [] \<Rightarrow> Some (Inl OutOfBounds)
         | s # _ \<Rightarrow> if slot_type s = 0 then Some (Inr (ptr s)) else inner_leftmost_leaf ins (ptr s)))"

section \<open>Insertion of a node\<close>

text \<open>
  \<^verbatim>\<open>while (inner_slots[++target_slot].min_key <= node.min_key)\<close>, counted by the slots that are left.
\<close>

fun target_right :: "InnerSlot list \<Rightarrow> double \<Rightarrow> nat \<Rightarrow> nat \<Rightarrow> bt_err + nat" where
  "target_right ss key t 0 = Inl OutOfBounds"
| "target_right ss key t (Suc n) = (if min_key (ss ! Suc t) \<le> key then target_right ss key (Suc t) n else Inr (Suc t))"

text \<open>\<^verbatim>\<open>for (; slot > target; --slot) inner_slots[slot] = inner_slots[slot - 1]\<close>.\<close>

fun move_slots :: "InnerSlot list \<Rightarrow> nat \<Rightarrow> nat \<Rightarrow> InnerSlot list" where
  "move_slots ss slot 0 = ss"
| "move_slots ss slot (Suc n) = move_slots (ss[slot := ss ! (slot - 1)]) (slot - 1) n"

text \<open>The insertion into the predicted block, behind its last slot being free.\<close>

definition insert_slot :: "InnerSlot \<Rightarrow> nat \<Rightarrow> nat \<Rightarrow> InnerSlot list \<Rightarrow> bt_err + InnerSlot list" where
  "insert_slot node predicted slot ss =
     bind_res (if slot \<ge> predicted then target_right ss (min_key node) predicted (length ss - Suc predicted) else Inr predicted) (\<lambda>target.
     bind_res (search_left ss (predicted + InnerSlotsPerBlock - 1)) (\<lambda>last.
     Inr ((move_slots ss (Suc last) (Suc last - target))[target := node])))"

text \<open>
  Result: 1 for an update, 2 for an insertion, 3 for a full block; the inner nodes and the accelerator,
  whose lock is taken and released around a change.
\<close>

partial_function (option) inner_upsert_node ::
    "inners \<Rightarrow> nat \<Rightarrow> InnerSlot \<Rightarrow> InnerSlot \<Rightarrow> (nat \<times> inners \<times> InnerSlot) run" where
  [code]: "inner_upsert_node ins this node acc = (case ins this of None \<Rightarrow> Some (Inl NullDeref)
     | Some nd \<Rightarrow> bind_run (Some (inner_locate (inner_slots nd) (min_key node) acc)) (\<lambda>r.
         let ss = inner_slots nd; s = ss ! snd r in
         if slot_type s \<noteq> 0
         then bind_run (inner_upsert_node ins (ptr s) node s) (\<lambda>x. case fst (snd x) this of None \<Rightarrow> Some (Inl NullDeref)
           | Some nd' \<Rightarrow> Some (Inr (fst x, (fst (snd x))(this \<mapsto>
               nd'\<lparr>inner_slots := (inner_slots nd')[snd r := snd (snd x)]\<rparr>), acc)))
         else if min_key s = min_key node
         then (case slot_get_lock acc of None \<Rightarrow> None
           | Some a \<Rightarrow> Some (Inr (1, ins(this \<mapsto> nd\<lparr>inner_slots := ss[snd r := node]\<rparr>), slot_release_lock a)))
         else if length ss < fst r + InnerSlotsPerBlock then Some (Inl OutOfBounds)
         else if is_free (ss ! (fst r + InnerSlotsPerBlock - 1))
         then (case slot_get_lock acc of None \<Rightarrow> None
           | Some a \<Rightarrow> bind_run (Some (insert_slot node (fst r) (snd r) ss)) (\<lambda>ss'.
               Some (Inr (2, ins(this \<mapsto> nd\<lparr>inner_slots := ss'\<rparr>), slot_release_lock a))))
         else Some (Inr (3, ins, acc))))"

text \<open>
  \<^verbatim>\<open>destroy\<close> frees a node and, above level 1, the nodes of its occupied slots; the recursion is a work list.
\<close>

partial_function (option) inner_destroy :: "inners \<Rightarrow> nat list \<Rightarrow> inners run" where
  [code]: "inner_destroy ins todo = (case todo of [] \<Rightarrow> Some (Inr ins)
     | a # rest \<Rightarrow> (case ins a of None \<Rightarrow> Some (Inl NullDeref)
       | Some nd \<Rightarrow> inner_destroy (ins(a := None))
           ((if 1 < inner_level nd then map ptr (filter (\<lambda>s. \<not> is_free s) (inner_slots nd)) else []) @ rest)))"

end
