(* ===== verification/Segmentation.thy ===== *)
theory Segmentation
  imports Learned_Model BPlus_Tree
begin

text \<open>
  The piecewise linear segmentation of \<^verbatim>\<open>src/core/index/piecewise_linear_model.h\<close> for keys of type
  \<^verbatim>\<open>double\<close> and positions of type \<^verbatim>\<open>size_t\<close>: \<^verbatim>\<open>SX\<close> is \<^verbatim>\<open>long double\<close> and \<^verbatim>\<open>SY\<close> is \<^verbatim>\<open>__int128\<close>.
\<close>

section \<open>Long doubles\<close>

text \<open>
  The x87 extended format: a significand of 64 bits.  \<^verbatim>\<open>Fin m e\<close> is \<^verbatim>\<open>m * 2^e\<close>.  Its exponent has fifteen
  bits, which the differences, products and quotients formed here of finite doubles and positions do not
  leave, so the model does not bound it.  A zero divisor counts as positive zero.
\<close>

datatype ld = Fin int int | Infinite int | NotANumber

fun ld_num :: "ld \<Rightarrow> int" where
  "ld_num (Fin m e) = m * pow2 e"
| "ld_num _ = 0"

fun ld_den :: "ld \<Rightarrow> int" where
  "ld_den (Fin m e) = pow2 (- e)"
| "ld_den _ = 1"

text \<open>The fraction \<^verbatim>\<open>n / d\<close>, for positive \<^verbatim>\<open>d\<close>, rounded to 64 significant bits, ties to even.\<close>

definition ld_round :: "int \<Rightarrow> int \<Rightarrow> ld" where
  "ld_round n d = (if n = 0 then Fin 0 0
     else let u = frac_log2 \<bar>n\<bar> d - 63 in Fin (sgn n * round_units u \<bar>n\<bar> d) u)"

definition ld_of_int :: "int \<Rightarrow> ld" where
  "ld_of_int i = ld_round i 1"

definition ld_of_double :: "double \<Rightarrow> ld" where
  "ld_of_double d = (if is_inf d then Infinite (sgn (ordinal d)) else ld_round (num_of d) (den_of d))"

definition ld_to_double :: "ld \<Rightarrow> fp" where
  "ld_to_double a = (case a of Fin m e \<Rightarrow> Some (round_frac (ld_num a) (ld_den a))
     | Infinite s \<Rightarrow> Some (signed_inf s) | NotANumber \<Rightarrow> None)"

definition ld_sign :: "ld \<Rightarrow> int" where
  "ld_sign a = (case a of Fin m e \<Rightarrow> sgn m | Infinite s \<Rightarrow> s | NotANumber \<Rightarrow> 0)"

fun ld_neg :: "ld \<Rightarrow> ld" where
  "ld_neg (Fin m e) = Fin (- m) e"
| "ld_neg (Infinite s) = Infinite (- s)"
| "ld_neg NotANumber = NotANumber"

fun ld_add :: "ld \<Rightarrow> ld \<Rightarrow> ld" where
  "ld_add NotANumber b = NotANumber"
| "ld_add a NotANumber = NotANumber"
| "ld_add (Infinite s) (Infinite t) = (if s = t then Infinite s else NotANumber)"
| "ld_add (Infinite s) b = Infinite s"
| "ld_add a (Infinite t) = Infinite t"
| "ld_add a b = ld_round (ld_num a * ld_den b + ld_num b * ld_den a) (ld_den a * ld_den b)"

definition ld_sub :: "ld \<Rightarrow> ld \<Rightarrow> ld" where
  "ld_sub a b = ld_add a (ld_neg b)"

fun ld_mul :: "ld \<Rightarrow> ld \<Rightarrow> ld" where
  "ld_mul NotANumber b = NotANumber"
| "ld_mul a NotANumber = NotANumber"
| "ld_mul (Fin m e) (Fin n f) = ld_round (ld_num (Fin m e) * ld_num (Fin n f)) (ld_den (Fin m e) * ld_den (Fin n f))"
| "ld_mul a b = (if ld_sign a = 0 \<or> ld_sign b = 0 then NotANumber else Infinite (ld_sign a * ld_sign b))"

fun ld_div :: "ld \<Rightarrow> ld \<Rightarrow> ld" where
  "ld_div NotANumber b = NotANumber"
| "ld_div a NotANumber = NotANumber"
| "ld_div (Infinite s) (Infinite t) = NotANumber"
| "ld_div a (Infinite t) = Fin 0 0"
| "ld_div a (Fin n f) = (if n = 0 then (if ld_sign a = 0 then NotANumber else Infinite (ld_sign a))
     else case a of Infinite s \<Rightarrow> Infinite (s * sgn n)
       | _ \<Rightarrow> ld_round (sgn n * ld_num a * ld_den (Fin n f)) (ld_den a * \<bar>ld_num (Fin n f)\<bar>))"

fun ld_less :: "ld \<Rightarrow> ld \<Rightarrow> bool" where
  "ld_less NotANumber b = False"
| "ld_less a NotANumber = False"
| "ld_less (Fin m e) (Fin n f) = (ld_num (Fin m e) * ld_den (Fin n f) < ld_num (Fin n f) * ld_den (Fin m e))"
| "ld_less (Infinite s) (Infinite t) = (s < t)"
| "ld_less (Infinite s) b = (s < 0)"
| "ld_less a (Infinite t) = (0 < t)"

definition ld_nan :: "ld \<Rightarrow> bool" where
  "ld_nan a = (case a of NotANumber \<Rightarrow> True | _ \<Rightarrow> False)"

definition ld_eq :: "ld \<Rightarrow> ld \<Rightarrow> bool" where
  "ld_eq a b \<longleftrightarrow> \<not> ld_nan a \<and> \<not> ld_nan b \<and> \<not> ld_less a b \<and> \<not> ld_less b a"

definition ld_le :: "ld \<Rightarrow> ld \<Rightarrow> bool" where
  "ld_le a b \<longleftrightarrow> ld_less a b \<or> ld_eq a b"

section \<open>Points and slopes\<close>

record Slope =
  dx :: ld
  dy :: int

definition slope_less :: "Slope \<Rightarrow> Slope \<Rightarrow> bool" where
  "slope_less s p \<longleftrightarrow> ld_less (ld_mul (ld_of_int (dy s)) (dx p)) (ld_mul (dx s) (ld_of_int (dy p)))"

definition slope_greater :: "Slope \<Rightarrow> Slope \<Rightarrow> bool" where
  "slope_greater s p \<longleftrightarrow> ld_less (ld_mul (dx s) (ld_of_int (dy p))) (ld_mul (ld_of_int (dy s)) (dx p))"

definition slope_eq :: "Slope \<Rightarrow> Slope \<Rightarrow> bool" where
  "slope_eq s p \<longleftrightarrow> ld_eq (ld_mul (ld_of_int (dy s)) (dx p)) (ld_mul (dx s) (ld_of_int (dy p)))"

definition slope_value :: "Slope \<Rightarrow> ld" where
  "slope_value s = ld_div (ld_of_int (dy s)) (dx s)"

record Point =
  px :: double
  py :: int

definition point_sub :: "Point \<Rightarrow> Point \<Rightarrow> Slope" where
  "point_sub a b = \<lparr>dx = ld_sub (ld_of_double (px a)) (ld_of_double (px b)), dy = py a - py b\<rparr>"

definition cross :: "Point \<Rightarrow> Point \<Rightarrow> Point \<Rightarrow> ld" where
  "cross P A B = (let OA = point_sub A P; OB = point_sub B P in
     ld_sub (ld_mul (dx OA) (ld_of_int (dy OB))) (ld_mul (ld_of_int (dy OA)) (dx OB)))"

section \<open>The optimal piecewise linear model\<close>

text \<open>\<^verbatim>\<open>SX\<close> and the hulls: a stored point with the error bound added to or taken from its position.\<close>

type_synonym StoredPoint = "double \<times> nat"

record OptimalPiecewiseLinearModel =
  epsilon :: nat
  lower :: "StoredPoint list"
  upper :: "StoredPoint list"
  first_x :: double
  last_x :: double
  lower_start :: nat
  upper_start :: nat
  points_in_hull :: nat
  rect0 :: Point
  rect1 :: Point
  rect2 :: Point
  rect3 :: Point

definition lower_at :: "OptimalPiecewiseLinearModel \<Rightarrow> nat \<Rightarrow> Point" where
  "lower_at opt i = (let p = lower opt ! i in \<lparr>px = fst p, py = int (snd p) + (- int (epsilon opt))\<rparr>)"

definition upper_at :: "OptimalPiecewiseLinearModel \<Rightarrow> nat \<Rightarrow> Point" where
  "upper_at opt i = (let p = upper opt ! i in \<lparr>px = fst p, py = int (snd p) + int (epsilon opt)\<rparr>)"

definition no_point :: Point where "no_point = \<lparr>px = Dbl 0, py = 0\<rparr>"

definition model_init :: "nat \<Rightarrow> OptimalPiecewiseLinearModel" where
  "model_init eps = \<lparr>epsilon = eps, lower = [], upper = [], first_x = Dbl 0, last_x = Dbl 0, lower_start = 0,
     upper_start = 0, points_in_hull = 0, rect0 = no_point, rect1 = no_point, rect2 = no_point, rect3 = no_point\<rparr>"

text \<open>The search for the extreme slope: it stops at the first point that is \<^verbatim>\<open>worse\<close> than the best so far.\<close>

fun extreme :: "(Slope \<Rightarrow> Slope \<Rightarrow> bool) \<Rightarrow> (nat \<Rightarrow> Slope) \<Rightarrow> nat \<Rightarrow> nat \<Rightarrow> Slope \<Rightarrow> nat \<Rightarrow> nat" where
  "extreme worse slope_at i 0 best best_i = best_i"
| "extreme worse slope_at i (Suc n) best best_i = (let val = slope_at i in
     if worse val best then best_i else extreme worse slope_at (Suc i) n val i)"

text \<open>The end of a hull after the points that are no longer on it are dropped.\<close>

function hull_end :: "(nat \<Rightarrow> bool) \<Rightarrow> nat \<Rightarrow> nat \<Rightarrow> nat" where
  "hull_end off start e = (if start + 2 \<le> e \<and> off e then hull_end off start (e - 1) else e)"
  by pat_completeness auto
termination
  by (relation "measure (\<lambda>(off, start, e). e)") auto

declare hull_end.simps [simp del]

definition tighten_max :: "Point \<Rightarrow> double \<Rightarrow> nat \<Rightarrow> OptimalPiecewiseLinearModel \<Rightarrow> OptimalPiecewiseLinearModel" where
  "tighten_max p1 x y opt =
     (let s = lower_start opt;
          min_i = extreme slope_greater (\<lambda>i. point_sub (lower_at opt i) p1) (s + 1) (length (lower opt) - (s + 1))
            (point_sub (lower_at opt s) p1) s;
          e = hull_end (\<lambda>e. ld_le (cross (upper_at opt (e - 2)) (upper_at opt (e - 1)) p1) (Fin 0 0)) (upper_start opt) (length (upper opt))
      in opt\<lparr>rect1 := lower_at opt min_i, rect3 := p1, lower_start := min_i, upper := take e (upper opt) @ [(x, y)]\<rparr>)"

definition tighten_min :: "Point \<Rightarrow> double \<Rightarrow> nat \<Rightarrow> OptimalPiecewiseLinearModel \<Rightarrow> OptimalPiecewiseLinearModel" where
  "tighten_min p2 x y opt =
     (let s = upper_start opt;
          max_i = extreme slope_less (\<lambda>i. point_sub (upper_at opt i) p2) (s + 1) (length (upper opt) - (s + 1))
            (point_sub (upper_at opt s) p2) s;
          e = hull_end (\<lambda>e. ld_le (Fin 0 0) (cross (lower_at opt (e - 2)) (lower_at opt (e - 1)) p2)) (lower_start opt) (length (lower opt))
      in opt\<lparr>rect0 := upper_at opt max_i, rect2 := p2, upper_start := max_i, lower := take e (lower opt) @ [(x, y)]\<rparr>)"

text \<open>
  \<^verbatim>\<open>add_point\<close>; a key that does not increase throws.  The two hull updates use the rectangle that the
  first of them leaves, but the slopes from before.
\<close>

definition add_point :: "double \<Rightarrow> nat \<Rightarrow> OptimalPiecewiseLinearModel \<Rightarrow> bt_err + bool \<times> OptimalPiecewiseLinearModel" where
  "add_point x y opt =
     (if 0 < points_in_hull opt \<and> x \<le> last_x opt then Inl Throws
      else let opt = opt\<lparr>last_x := x\<rparr>;
               p1 = \<lparr>px = x, py = int y + int (epsilon opt)\<rparr>;
               p2 = \<lparr>px = x, py = int y - int (epsilon opt)\<rparr>
        in if points_in_hull opt = 0
           then Inr (True, opt\<lparr>first_x := x, rect0 := p1, rect1 := p2, upper := [(x, y)], lower := [(x, y)],
             upper_start := 0, lower_start := 0, points_in_hull := 1\<rparr>)
           else if points_in_hull opt = 1
           then Inr (True, opt\<lparr>rect2 := p2, rect3 := p1, upper := upper opt @ [(x, y)], lower := lower opt @ [(x, y)],
             points_in_hull := 2\<rparr>)
           else let slope1 = point_sub (rect2 opt) (rect0 opt);
                    slope2 = point_sub (rect3 opt) (rect1 opt)
             in if slope_less (point_sub p1 (rect2 opt)) slope1 \<or> slope_greater (point_sub p2 (rect3 opt)) slope2
                then Inr (False, opt\<lparr>points_in_hull := 0\<rparr>)
                else let opt1 = (if slope_less (point_sub p1 (rect1 opt)) slope2 then tighten_max p1 x y opt else opt);
                         opt2 = (if slope_greater (point_sub p2 (rect0 opt1)) slope1 then tighten_min p2 x y opt1 else opt1)
                  in Inr (True, opt2\<lparr>points_in_hull := points_in_hull opt2 + 1\<rparr>))"

section \<open>Segments\<close>

record CanonicalSegment =
  seg0 :: Point
  seg1 :: Point
  seg2 :: Point
  seg3 :: Point
  seg_first :: double
  seg_number :: nat

definition get_segment :: "nat \<Rightarrow> OptimalPiecewiseLinearModel \<Rightarrow> CanonicalSegment" where
  "get_segment number opt = (if points_in_hull opt = 1
     then \<lparr>seg0 = rect0 opt, seg1 = rect1 opt, seg2 = rect0 opt, seg3 = rect1 opt, seg_first = first_x opt, seg_number = 1\<rparr>
     else \<lparr>seg0 = rect0 opt, seg1 = rect1 opt, seg2 = rect2 opt, seg3 = rect3 opt, seg_first = first_x opt, seg_number = number\<rparr>)"

definition one_point :: "CanonicalSegment \<Rightarrow> bool" where
  "one_point c \<longleftrightarrow> seg0 c = seg2 c \<and> seg1 c = seg3 c"

definition get_intersection :: "CanonicalSegment \<Rightarrow> ld \<times> ld" where
  "get_intersection c =
     (let slope1 = point_sub (seg2 c) (seg0 c); slope2 = point_sub (seg3 c) (seg1 c) in
      if one_point c \<or> slope_eq slope1 slope2 then (ld_of_double (px (seg0 c)), ld_of_int (py (seg0 c)))
      else let d = point_sub (seg1 c) (seg0 c);
               a = ld_sub (ld_mul (dx slope1) (ld_of_int (dy slope2))) (ld_mul (ld_of_int (dy slope1)) (dx slope2));
               b = ld_div (ld_sub (ld_mul (dx d) (ld_of_int (dy slope2))) (ld_mul (ld_of_int (dy d)) (dx slope2))) a
           in (ld_add (ld_of_double (px (seg0 c))) (ld_mul b (dx slope1)),
               ld_add (ld_of_int (py (seg0 c))) (ld_mul b (ld_of_int (dy slope1)))))"

definition get_slope_range :: "CanonicalSegment \<Rightarrow> ld \<times> ld" where
  "get_slope_range c = (if one_point c then (ld_of_int 0, ld_of_int 1)
     else (slope_value (point_sub (seg2 c) (seg0 c)), slope_value (point_sub (seg3 c) (seg1 c))))"

text \<open>\<^verbatim>\<open>__int128\<close> division by two truncates.\<close>

definition get_floating_point_segment :: "double \<Rightarrow> CanonicalSegment \<Rightarrow> ld \<times> ld" where
  "get_floating_point_segment origin c =
     (if one_point c then (ld_of_int 0, ld_of_int (trunc_frac (py (seg0 c) + py (seg1 c)) 2))
      else let (i_x, i_y) = get_intersection c;
               (min_slope, max_slope) = get_slope_range c;
               sl = ld_div (ld_add min_slope max_slope) (ld_of_int 2)
           in (sl, ld_sub i_y (ld_mul (ld_sub i_x (ld_of_double origin)) sl)))"

section \<open>Segmentation of a key sequence\<close>

text \<open>
  The loop of \<^verbatim>\<open>make_segmentation\<close>: \<^verbatim>\<open>i\<close> is the next point, \<^verbatim>\<open>start\<close> the first of the open segment and
  \<^verbatim>\<open>p\<close> the last key taken.  A rejected point closes the segment and is tried again as the first of the next.
\<close>

lemma add_point_False:
  "add_point x y opt = Inr (False, opt') \<Longrightarrow> 2 \<le> points_in_hull opt \<and> points_in_hull opt' = 0"
  by (auto simp: add_point_def Let_def split: if_splits)

function seg_loop :: "double list \<Rightarrow> nat \<Rightarrow> nat \<Rightarrow> double \<Rightarrow> OptimalPiecewiseLinearModel \<Rightarrow> bt_err + CanonicalSegment list" where
  "seg_loop ks i start p opt =
     (if length ks \<le> i then Inr [get_segment (length ks - start) opt]
      else if i \<noteq> start \<and> ks ! i = p then seg_loop ks (Suc i) start p opt
      else (case add_point (ks ! i) i opt of Inl e \<Rightarrow> Inl e
        | Inr (True, opt') \<Rightarrow> seg_loop ks (Suc i) start (ks ! i) opt'
        | Inr (False, opt') \<Rightarrow> bind_res (seg_loop ks i i (ks ! i) opt') (\<lambda>cs. Inr (get_segment (i - start) opt' # cs))))"
  by pat_completeness auto
termination
  by (relation "measure (\<lambda>(ks, i, start, p, opt). 2 * (length ks - i) + (if 0 < points_in_hull opt then 1 else 0))")
    (auto dest: add_point_False)

declare seg_loop.simps [simp del]

definition make_segmentation :: "double list \<Rightarrow> nat \<Rightarrow> bt_err + CanonicalSegment list" where
  "make_segmentation ks eps = (if ks = [] then Inr []
     else bind_res (add_point (ks ! 0) 0 (model_init eps)) (\<lambda>(_, opt). seg_loop ks 1 0 (ks ! 0) opt))"

end
