(* ===== verification/Param_Model.thy ===== *)
theory Param_Model
  imports Learned_Model
begin

text \<open>
  The model parameters an Edge pushes to its Ends: \<^verbatim>\<open>t_record\<close>, \<^verbatim>\<open>Param\<close> and \<^verbatim>\<open>local_model\<close> of
  \<^verbatim>\<open>src/core/index/cache_model.h\<close>, their byte images of \<^verbatim>\<open>src/core/index/serialize.h\<close>, and the End's
  replica of \<^verbatim>\<open>src/end/parent_plin_cache.h\<close>.  Floating-point fields are kept as the 64-bit patterns
  that \<^verbatim>\<open>write\<close> and \<^verbatim>\<open>read\<close> move.  Memory is taken to be large enough for the vectors that
  \<^verbatim>\<open>resize\<close> accepts.
\<close>

section \<open>Records and streams\<close>

record t_record =
  t_key :: u64
  t_addr :: u64
  t_valid :: byte

record Param =
  p_first_key :: u64
  p_slope :: u64
  p_intercept :: u64
  p_block_num :: u64

text \<open>
  An input stream: the unread bytes and whether it has failed.  \<^verbatim>\<open>read(n)\<close> on a good stream with
  too few bytes delivers what there is and fails; on a failed stream it delivers nothing.
\<close>

type_synonym istream = "byte list \<times> bool"

definition is_read :: "nat \<Rightarrow> istream \<Rightarrow> byte list \<times> istream" where
  "is_read n s = (if snd s then ([], s)
     else (take n (fst s), (drop n (fst s), length (fst s) < n)))"

text \<open>A read into a zero-initialised field overwrites its first bytes only.\<close>

definition read_u64 :: "istream \<Rightarrow> u64 \<times> istream" where
  "read_u64 s = (let r = is_read 8 s in (bytes_u64 (fst r @ replicate (8 - length (fst r)) 0), snd r))"

definition read_u8 :: "istream \<Rightarrow> byte \<times> istream" where
  "read_u8 s = (let r = is_read 1 s in (case fst r of [] \<Rightarrow> 0 | b # _ \<Rightarrow> b, snd r))"

datatype load_err = uninitialised_size | runtime_error | length_error

text \<open>
  A vector length: the local \<^verbatim>\<open>size_t\<close> is not initialised, so a short read leaves it indeterminate.
\<close>

definition read_size :: "istream \<Rightarrow> load_err + nat \<times> istream" where
  "read_size s = (let r = is_read 8 s in
     if length (fst r) < 8 then Inl uninitialised_size else Inr (unat (bytes_u64 (fst r)), snd r))"

text \<open>\<^verbatim>\<open>vector::resize\<close> throws \<^verbatim>\<open>length_error\<close> above the largest object size.\<close>

definition resize_ok :: "nat \<Rightarrow> nat \<Rightarrow> bool" where
  "resize_ok elem n \<longleftrightarrow> n * elem \<le> 2 ^ 63 - 1"

text \<open>The element loops: each element is overwritten in turn.\<close>

fun read_elems :: "(istream \<Rightarrow> load_err + 'a \<times> istream) \<Rightarrow> nat \<Rightarrow> istream \<Rightarrow> load_err + 'a list \<times> istream" where
  "read_elems dec 0 s = Inr ([], s)"
| "read_elems dec (Suc n) s = bind_res (dec s) (\<lambda>(x, s1).
     bind_res (read_elems dec n s1) (\<lambda>(xs, s2). Inr (x # xs, s2)))"

section \<open>Serialisation\<close>

definition t_record_serialize :: "t_record \<Rightarrow> byte list" where
  "t_record_serialize r = u64_bytes (t_key r) @ u64_bytes (t_addr r) @ [t_valid r]"

definition t_record_deserialize :: "istream \<Rightarrow> load_err + t_record \<times> istream" where
  "t_record_deserialize s0 = (let (k, s1) = read_u64 s0; (a, s2) = read_u64 s1; (v, s3) = read_u8 s2
     in Inr (\<lparr>t_key = k, t_addr = a, t_valid = v\<rparr>, s3))"

definition Param_serialize :: "Param \<Rightarrow> byte list" where
  "Param_serialize p = u64_bytes (p_first_key p) @ u64_bytes (p_slope p) @ u64_bytes (p_intercept p)
     @ u64_bytes (p_block_num p)"

definition Param_deserialize :: "istream \<Rightarrow> load_err + Param \<times> istream" where
  "Param_deserialize s0 = (let (f, s1) = read_u64 s0; (sl, s2) = read_u64 s1; (ic, s3) = read_u64 s2;
       (b, s4) = read_u64 s3
     in Inr (\<lparr>p_first_key = f, p_slope = sl, p_intercept = ic, p_block_num = b\<rparr>, s4))"

definition serialize_vector :: "t_record list \<Rightarrow> byte list" where
  "serialize_vector table = u64_bytes (of_nat (length table)) @ concat (map t_record_serialize table)"

definition deserialize_vector :: "istream \<Rightarrow> load_err + t_record list \<times> istream" where
  "deserialize_vector s = bind_res (read_size s) (\<lambda>(n, s1).
     if \<not> resize_ok 24 n then Inl length_error else read_elems t_record_deserialize n s1)"

definition serialize_vector_of_params :: "Param list \<Rightarrow> byte list" where
  "serialize_vector_of_params vec = u64_bytes (of_nat (length vec)) @ concat (map Param_serialize vec)"

definition serialize_parameter :: "Param list list \<Rightarrow> byte list" where
  "serialize_parameter ps = u64_bytes (of_nat (length ps)) @ concat (map serialize_vector_of_params ps)"

definition deserialize_vector_of_params :: "istream \<Rightarrow> load_err + Param list \<times> istream" where
  "deserialize_vector_of_params s = bind_res (read_size s) (\<lambda>(n, s1).
     if \<not> resize_ok 32 n then Inl length_error else read_elems Param_deserialize n s1)"

definition deserialize_parameter :: "istream \<Rightarrow> load_err + Param list list \<times> istream" where
  "deserialize_parameter s = bind_res (read_size s) (\<lambda>(n, s1).
     if n > 100 then Inl runtime_error else read_elems deserialize_vector_of_params n s1)"

section \<open>Prediction\<close>

text \<open>Error values of a prediction: an empty level indexes \<^verbatim>\<open>level_params[size - 1]\<close> out of bounds.\<close>

datatype predict_err = empty_level

definition fp_of_bits :: "u64 \<Rightarrow> fp" where
  "fp_of_bits w = double_of_bits w"

text \<open>\<^verbatim>\<open>>=\<close> on doubles, false on a NaN.\<close>

fun fp_ge :: "fp \<Rightarrow> fp \<Rightarrow> bool" where
  "fp_ge (Some a) (Some b) = (b \<le> a)"
| "fp_ge _ _ = False"

definition segment_of :: "fp \<Rightarrow> Param list \<Rightarrow> nat" where
  "segment_of v ps = length (takeWhile (\<lambda>p. fp_ge v (fp_of_bits (p_first_key p))) ps)"

text \<open>One level of \<^verbatim>\<open>predict_pos\<close>.\<close>

definition predict_level :: "Param list \<Rightarrow> fp \<Rightarrow> predict_err + fp" where
  "predict_level ps v = (if ps = [] then Inl empty_level
     else let k = segment_of v ps;
              p = ps ! (if k \<ge> length ps then length ps - 1 else k);
              b = local_predict_block v (fp_of_bits (p_slope p)) (fp_to_float (fp_of_bits (p_intercept p)))
                    (ucast (p_block_num p))
          in Inr (fp_of_int (uint b * int InnerSlotsPerBlock)))"

fun predict_levels :: "Param list list \<Rightarrow> fp \<Rightarrow> predict_err + fp" where
  "predict_levels [] v = Inr v"
| "predict_levels (ps # pss) v = bind_res (predict_level ps v) (predict_levels pss)"

text \<open>\<^verbatim>\<open>int(double)\<close> on x86-64: truncation, or the 32-bit integer indefinite value.\<close>

definition fp_to_int32 :: "fp \<Rightarrow> int" where
  "fp_to_int32 v = (let t = fp_to_int64 v in if - (2 ^ 31) \<le> t \<and> t < 2 ^ 31 then t else - (2 ^ 31))"

text \<open>The levels are walked from the last (the top) to the first.\<close>

definition predict_pos :: "Param list list \<Rightarrow> fp \<Rightarrow> predict_err + int" where
  "predict_pos params key = bind_res (predict_levels (rev params) key) (\<lambda>v. Inr (fp_to_int32 v))"

section \<open>The End's replica\<close>

record ParentPlinCache =
  parameter :: "Param list list"

definition loaded :: "ParentPlinCache \<Rightarrow> bool" where
  "loaded c \<longleftrightarrow> parameter c \<noteq> []"

definition load_from_push :: "byte list \<Rightarrow> ParentPlinCache \<Rightarrow> load_err + ParentPlinCache" where
  "load_from_push data c = bind_res (deserialize_parameter (data, False)) (\<lambda>(ps, _). Inr (c\<lparr>parameter := ps\<rparr>))"

definition cache_predict_pos :: "ParentPlinCache \<Rightarrow> fp \<Rightarrow> predict_err + int" where
  "cache_predict_pos c k = (if parameter c = [] then Inr (- 1) else predict_pos (parameter c) k)"

section \<open>Codecs\<close>

text \<open>
  The contract of a pair of \<^verbatim>\<open>serialize\<close> and \<^verbatim>\<open>deserialize\<close>: reading what was written gives the value
  back and leaves the stream behind it, still good.
\<close>

locale codec =
  fixes enc :: "'a \<Rightarrow> byte list"
    and dec :: "istream \<Rightarrow> load_err + 'a \<times> istream"
    and valid :: "'a \<Rightarrow> bool"
  assumes dec_enc: "valid x \<Longrightarrow> dec (enc x @ rest, False) = Inr (x, (rest, False))"
begin

lemma read_elems_enc:
  "\<forall>x\<in>set xs. valid x \<Longrightarrow> read_elems dec (length xs) (concat (map enc xs) @ rest, False) = Inr (xs, (rest, False))"
  by (induction xs) (auto simp: dec_enc)

text \<open>A vector of encodable elements with its length in front.\<close>

lemma vector_enc:
  assumes "\<forall>x\<in>set xs. valid x" "length xs < 2 ^ 64"
  shows "bind_res (read_size (u64_bytes (of_nat (length xs)) @ concat (map enc xs) @ rest, False))
    (\<lambda>(n, s). read_elems dec n s) = Inr (xs, (rest, False))"
proof -
  have "unat (of_nat (length xs) :: u64) = length xs" using assms(2) by (simp add: unat_of_nat)
  then show ?thesis using read_elems_enc [OF assms(1)] by (simp add: read_size_def is_read_def Let_def)
qed

lemma enc_inj:
  assumes "valid x" "valid y" "enc x = enc y"
  shows "x = y"
  using dec_enc [OF assms(1), of "[]"] dec_enc [OF assms(2), of "[]"] assms(3) by simp

end

lemma read_u64_bytes [simp]: "read_u64 (u64_bytes v @ rest, False) = (v, (rest, False))"
  by (simp add: read_u64_def is_read_def Let_def)

interpretation t_record_codec: codec t_record_serialize t_record_deserialize "\<lambda>_. True"
  by unfold_locales
    (simp add: t_record_serialize_def t_record_deserialize_def read_u8_def is_read_def Let_def)

interpretation Param_codec: codec Param_serialize Param_deserialize "\<lambda>_. True"
  by unfold_locales (simp add: Param_serialize_def Param_deserialize_def)

lemma read_size_length:
  "n < 2 ^ 64 \<Longrightarrow> read_size (u64_bytes (of_nat n) @ rest, False) = Inr (n, (rest, False))"
  by (simp add: read_size_def is_read_def unat_of_nat Let_def)

lemma resize_ok_less: "resize_ok k n \<Longrightarrow> 0 < k \<Longrightarrow> n < 2 ^ 64"
proof -
  assume a: "resize_ok k n" "0 < k"
  have "n \<le> n * k" using a(2) by simp
  also have "\<dots> < 2 ^ 64" using a(1) by (simp add: resize_ok_def)
  finally show "n < 2 ^ 64" .
qed

interpretation params_codec: codec serialize_vector_of_params deserialize_vector_of_params "\<lambda>v. resize_ok 32 (length v)"
proof
  fix x :: "Param list" and rest assume "resize_ok 32 (length x)"
  then show "deserialize_vector_of_params (serialize_vector_of_params x @ rest, False) = Inr (x, (rest, False))"
    using Param_codec.read_elems_enc [of x rest] resize_ok_less [of 32 "length x"]
    by (simp add: serialize_vector_of_params_def deserialize_vector_of_params_def read_size_length)
qed

text \<open>The parameters an Edge may push: at most 100 levels, each of a size a vector can have.\<close>

definition pushable :: "Param list list \<Rightarrow> bool" where
  "pushable ps \<longleftrightarrow> length ps \<le> 100 \<and> (\<forall>v\<in>set ps. resize_ok 32 (length v))"

interpretation parameter_codec: codec serialize_parameter deserialize_parameter pushable
proof
  fix x :: "Param list list" and rest assume p: "pushable x"
  then have "\<forall>v\<in>set x. resize_ok 32 (length v)" "length x < 2 ^ 64" by (auto simp: pushable_def)
  then show "deserialize_parameter (serialize_parameter x @ rest, False) = Inr (x, (rest, False))"
    using params_codec.read_elems_enc [of x rest] p
    by (simp add: serialize_parameter_def deserialize_parameter_def read_size_length pushable_def)
qed

lemma load_from_push_serialized:
  "pushable ps \<Longrightarrow> load_from_push (serialize_parameter ps) c = Inr (c\<lparr>parameter := ps\<rparr>)"
  using parameter_codec.dec_enc [of ps "[]"] by (simp add: load_from_push_def)

lemma predict_pos_range: "predict_pos ps k = Inr v \<Longrightarrow> - (2 ^ 31) \<le> v \<and> v < 2 ^ 31"
  by (auto simp: predict_pos_def bind_res_Inr_iff fp_to_int32_def Let_def)

lemma predict_levels_total: "[] \<notin> set pss \<Longrightarrow> \<exists>v. predict_levels pss k = Inr v"
  by (induction pss arbitrary: k) (auto simp: predict_level_def Let_def)

lemma predict_pos_total: "[] \<notin> set ps \<Longrightarrow> \<exists>v. predict_pos ps k = Inr v"
  using predict_levels_total [of "rev ps" k] by (auto simp: predict_pos_def)

end
