(* ===== verification/Plin_Index.thy ===== *)
theory Plin_Index
  imports Leaf_Node Inner_Node Segmentation Param_Model
begin

text \<open>
  The index of \<^verbatim>\<open>src/core/index/plin_index.h\<close>: bulk loading, lookups, range queries, upsert and remove,
  the split of a leaf node and the rebuilding of the inner nodes.  Leaf nodes and inner nodes live in two
  heaps with one allocation counter; address 0 is \<^verbatim>\<open>NULL\<close>.  An accelerator is a reference to a root slot or
  to a slot of an inner node, because the code changes it through the pointer.  The operations run alone,
  so a loop that waits for a lock passes at once or does not end.  \<^verbatim>\<open>BACKGROUND_SPLIT\<close> is defined, so
  \<^verbatim>\<open>upsert\<close> starts a thread for a split: the started splits are a component of the state.  The statistics
  files, the workload logger and the flushes are output only and have no part in the state.
\<close>

section \<open>State\<close>

record split_log =
  leaf_to_split :: nat
  left_sibling :: nat
  right_sibling :: nat
  left_node :: nat
  right_node :: nat
  log_locked :: u32

datatype slot_ref = RootSlot nat | NodeSlot nat nat

text \<open>The entries of \<^verbatim>\<open>local_table\<close>: key, leaf address, validity.\<close>

type_synonym table_entry = "double \<times> nat \<times> bool"

text \<open>\<^verbatim>\<open>plin_metadata\<close>, the \<^verbatim>\<open>meta_table\<close>, the heaps and the splits that were started.\<close>

record PlinIndex =
  plin_min_key :: double
  plin_max_key :: double
  left_buffer :: btree_plus
  right_buffer :: btree_plus
  leaf_number :: u32
  orphan_number :: u32
  left_buffer_number :: u32
  right_buffer_number :: u32
  root_number :: u32
  plin_level :: u32
  smo_lock :: u32
  global_version :: u32
  roots :: "InnerSlot list"
  logs :: "split_log list"
  abandoned_nodes :: "nat list"
  local_table :: "table_entry list"
  meta_min_key :: double
  meta_max_key :: double
  valid_leaf :: u64
  split_times :: int
  meta_parameter :: "Param list list"
  rebuild_times :: u32
  leaf_heap :: leaves
  inner_heap :: inners
  next_addr :: nat
  split_threads :: "(nat \<times> slot_ref option) list"

definition zero_slot :: InnerSlot where
  "zero_slot = \<lparr>min_key = Dbl 0, ptr = 0, slope = fp_zero, intercept = fp_zero, info = 0\<rparr>"

definition zero_log :: split_log where
  "zero_log = \<lparr>leaf_to_split = 0, left_sibling = 0, right_sibling = 0, left_node = 0, right_node = 0, log_locked = 0\<rparr>"

text \<open>
  The constructor zeroes \<^verbatim>\<open>plin_metadata\<close> and creates the two buffers.  The bounds and the counter of
  \<^verbatim>\<open>local_model\<close> are left unset; they are zero here.
\<close>

definition PlinIndex_new :: PlinIndex where
  "PlinIndex_new = \<lparr>plin_min_key = Dbl 0, plin_max_key = Dbl 0, left_buffer = btree_plus_init, right_buffer = btree_plus_init,
     leaf_number = 0, orphan_number = 0, left_buffer_number = 0, right_buffer_number = 0, root_number = 0, plin_level = 0,
     smo_lock = 0, global_version = 0, roots = replicate ROOT_SIZE zero_slot, logs = replicate LOG_NUMBER zero_log,
     abandoned_nodes = [], local_table = [], meta_min_key = Dbl 0, meta_max_key = Dbl 0, valid_leaf = 0, split_times = 0,
     meta_parameter = [], rebuild_times = 0, leaf_heap = (\<lambda>_. None), inner_heap = (\<lambda>_. None), next_addr = 1, split_threads = []\<rparr>"

section \<open>The locks of the index\<close>

definition log_try_get_lock :: "split_log \<Rightarrow> bool \<times> split_log" where
  "log_try_get_lock l = (if log_locked l AND 1 = 0 then (True, l\<lparr>log_locked := log_locked l OR 1\<rparr>) else (False, l))"

definition log_check_lock :: "split_log \<Rightarrow> bool" where "log_check_lock l \<longleftrightarrow> log_locked l AND 1 = 0"
definition log_check_valid :: "split_log \<Rightarrow> bool" where "log_check_valid l \<longleftrightarrow> log_locked l AND 2 \<noteq> 0"
definition log_check_orphan :: "split_log \<Rightarrow> bool" where "log_check_orphan l \<longleftrightarrow> log_locked l AND 4 \<noteq> 0"
definition log_set_valid :: "split_log \<Rightarrow> split_log" where "log_set_valid l = l\<lparr>log_locked := log_locked l + 2\<rparr>"
definition log_set_orphan :: "split_log \<Rightarrow> split_log" where "log_set_orphan l = l\<lparr>log_locked := log_locked l + 4\<rparr>"
definition log_release_lock :: "split_log \<Rightarrow> split_log" where "log_release_lock l = l\<lparr>log_locked := 0\<rparr>"

text \<open>\<^verbatim>\<open>get_write_lock\<close> waits for the readers after it has set the lock bit.\<close>

definition smo_get_write_lock :: "PlinIndex \<Rightarrow> (bool \<times> PlinIndex) option" where
  "smo_get_write_lock ix = (if smo_lock ix AND lockSet \<noteq> 0 then Some (False, ix)
     else if smo_lock ix AND lockMask = 0 then Some (True, ix\<lparr>smo_lock := smo_lock ix OR lockSet\<rparr>) else None)"

definition try_get_read_lock :: "PlinIndex \<Rightarrow> bool \<times> PlinIndex" where
  "try_get_read_lock ix = (if smo_lock ix AND lockSet \<noteq> 0 then (False, ix) else (True, ix\<lparr>smo_lock := smo_lock ix + 1\<rparr>))"

definition release_read_lock :: "PlinIndex \<Rightarrow> PlinIndex" where
  "release_read_lock ix = ix\<lparr>smo_lock := smo_lock ix - 1\<rparr>"

definition release_write_lock :: "PlinIndex \<Rightarrow> PlinIndex" where
  "release_write_lock ix = ix\<lparr>smo_lock := 0\<rparr>"

section \<open>Accelerators\<close>

definition slot_at :: "slot_ref \<Rightarrow> PlinIndex \<Rightarrow> bt_err + InnerSlot" where
  "slot_at r ix = (case r of RootSlot i \<Rightarrow> if i < length (roots ix) then Inr (roots ix ! i) else Inl OutOfBounds
     | NodeSlot n q \<Rightarrow> (case inner_heap ix n of None \<Rightarrow> Inl NullDeref
         | Some nd \<Rightarrow> if q < length (inner_slots nd) then Inr (inner_slots nd ! q) else Inl OutOfBounds))"

definition put_slot :: "slot_ref \<Rightarrow> InnerSlot \<Rightarrow> PlinIndex \<Rightarrow> PlinIndex" where
  "put_slot r s ix = (case r of RootSlot i \<Rightarrow> ix\<lparr>roots := (roots ix)[i := s]\<rparr>
     | NodeSlot n q \<Rightarrow> (case inner_heap ix n of None \<Rightarrow> ix
         | Some nd \<Rightarrow> ix\<lparr>inner_heap := (inner_heap ix)(n \<mapsto> nd\<lparr>inner_slots := (inner_slots nd)[q := s]\<rparr>)\<rparr>))"

definition mod_slot :: "slot_ref \<Rightarrow> (InnerSlot \<Rightarrow> InnerSlot) \<Rightarrow> PlinIndex \<Rightarrow> bt_err + PlinIndex" where
  "mod_slot r f ix = bind_res (slot_at r ix) (\<lambda>s. Inr (put_slot r (f s) ix))"

definition mod_leaf :: "nat \<Rightarrow> (LeafNode \<Rightarrow> LeafNode) \<Rightarrow> PlinIndex \<Rightarrow> bt_err + PlinIndex" where
  "mod_leaf a f ix = (case leaf_heap ix a of None \<Rightarrow> Inl NullDeref
     | Some lf \<Rightarrow> Inr (ix\<lparr>leaf_heap := (leaf_heap ix)(a \<mapsto> f lf)\<rparr>))"

text \<open>
  The scan of the roots; \<^verbatim>\<open>--i\<close> at 0 wraps around and leaves the array.
\<close>

definition root_slot :: "double \<Rightarrow> PlinIndex \<Rightarrow> bt_err + nat" where
  "root_slot key ix = (let i = length (takeWhile (\<lambda>s. key \<ge> min_key s) (take (unat (root_number ix)) (roots ix)))
     in if i = 0 then Inl OutOfBounds else Inr (i - 1))"

definition locate_leaf :: "double \<Rightarrow> PlinIndex \<Rightarrow> slot_ref run" where
  "locate_leaf key ix = bind_run (Some (root_slot key ix)) (\<lambda>i.
     bind_run (Some (slot_at (RootSlot i) ix)) (\<lambda>s.
       if slot_type s \<noteq> 0
       then bind_run (find_leaf_node (inner_heap ix) (ptr s) key s) (\<lambda>r. Some (Inr (NodeSlot (fst r) (snd r))))
       else Some (Inr (RootSlot i))))"

section \<open>Lookups\<close>

text \<open>
  The search loop of \<^verbatim>\<open>find\<close>: the leaf that the accelerator points to and the payload, when the key is found.
\<close>

partial_function (option) plin_search :: "double \<Rightarrow> PlinIndex \<Rightarrow> ((nat \<times> payload_t) option \<times> PlinIndex) run" where
  [code]: "plin_search key ix = bind_run (locate_leaf key ix) (\<lambda>r. bind_run (Some (slot_at r ix)) (\<lambda>s.
     if slot_check_read_lock s
     then bind_run (leaf_find (leaf_heap ix) (ptr s) key (global_version ix) (Some s)) (\<lambda>x.
       let ix' = ix\<lparr>leaf_heap := snd (snd x)\<rparr> in
       if fst x = 1 then Some (Inr (map_option (\<lambda>v. (ptr s, v)) (fst (snd x)), ix'))
       else if fst x = 0 then Some (Inr (None, ix'))
       else plin_search key ix')
     else plin_search key ix))"

text \<open>The payload is a reference parameter that keeps its value when the key is not found.\<close>

definition in_buffer :: "btree_plus \<Rightarrow> double \<Rightarrow> payload_t \<Rightarrow> PlinIndex \<Rightarrow> (bool \<times> payload_t \<times> PlinIndex) run" where
  "in_buffer t key payload ix = bind_run (find key (btree_plus_open t)) (\<lambda>r.
     Some (Inr (case r of Some v \<Rightarrow> (True, v, ix) | None \<Rightarrow> (False, payload, ix))))"

definition plin_find :: "double \<Rightarrow> payload_t \<Rightarrow> PlinIndex \<Rightarrow> (bool \<times> payload_t \<times> PlinIndex) run" where
  "plin_find key payload ix =
     (if key \<ge> plin_min_key ix \<and> key \<le> plin_max_key ix
      then bind_run (plin_search key ix) (\<lambda>(r, ix').
        Some (Inr (case r of Some (_, v) \<Rightarrow> (True, v, ix') | None \<Rightarrow> (False, payload, ix'))))
      else if key < plin_min_key ix then in_buffer (left_buffer ix) key payload ix
      else in_buffer (right_buffer ix) key payload ix)"

definition plin_find_leaf :: "double \<Rightarrow> payload_t \<Rightarrow> nat \<Rightarrow> PlinIndex \<Rightarrow> (bool \<times> payload_t \<times> nat \<times> PlinIndex) run" where
  "plin_find_leaf key payload leaf ix =
     (if key \<ge> plin_min_key ix \<and> key \<le> plin_max_key ix
      then bind_run (plin_search key ix) (\<lambda>(r, ix').
        Some (Inr (case r of Some (a, v) \<Rightarrow> (True, v, a, ix') | None \<Rightarrow> (False, payload, leaf, ix'))))
      else Some (Inr (False, payload, leaf, ix)))"

text \<open>
  \<^verbatim>\<open>find_through_net\<close> first runs \<^verbatim>\<open>find\<close>, which may set the payload, and then searches from the leaf of the
  given position.  The position is compared with an unsigned bound after negative values are cut off.
\<close>

definition clamp_logic_id :: "int \<Rightarrow> u32 \<Rightarrow> nat" where
  "clamp_logic_id logic_id leaves = (let i = max logic_id 0 in
     if i > uint (leaves - 1) then unat (leaves - 1) else nat i)"

definition find_through_net :: "double \<Rightarrow> payload_t \<Rightarrow> int \<Rightarrow> PlinIndex \<Rightarrow> (nat \<times> payload_t \<times> PlinIndex) run" where
  "find_through_net key payload logic_id ix = bind_run (plin_find key payload ix) (\<lambda>(_, payload, ix).
     let i = clamp_logic_id logic_id (leaf_number ix) in
     if length (local_table ix) \<le> i then Some (Inl OutOfBounds)
     else let leaf = fst (snd (local_table ix ! i)) in
       if key \<ge> plin_min_key ix \<and> key \<le> plin_max_key ix
       then (case leaf_heap ix leaf of None \<Rightarrow> Some (Inl NullDeref)
         | Some lf \<Rightarrow> if leaf_check_read_lock None lf
             then bind_run (leaf_find (leaf_heap ix) leaf key (global_version ix) None) (\<lambda>(ret, pl, ls).
               Some (Inr (ret, case pl of Some v \<Rightarrow> v | None \<Rightarrow> payload, ix\<lparr>leaf_heap := ls\<rparr>)))
             else None)
       else Some (Inr (0, payload, ix)))"

definition find_in_buffer_net :: "double \<Rightarrow> payload_t \<Rightarrow> PlinIndex \<Rightarrow> (bool \<times> payload_t \<times> PlinIndex) run" where
  "find_in_buffer_net key payload ix =
     (if key < plin_min_key ix then in_buffer (left_buffer ix) key payload ix
      else in_buffer (right_buffer ix) key payload ix)"

text \<open>The answers are appended in the order the three parts are searched; the bounds move on the way.\<close>

definition plin_range_query :: "double \<Rightarrow> double \<Rightarrow> PlinIndex \<Rightarrow> DataSlot list run" where
  "plin_range_query lo hi ix =
     bind_run (if lo < plin_min_key ix then range_query lo hi (btree_plus_open (left_buffer ix)) else Some (Inr [])) (\<lambda>as.
     let lo = (if lo < plin_min_key ix then plin_min_key ix else lo) in
     bind_run (if hi > plin_max_key ix then range_query lo hi (btree_plus_open (right_buffer ix)) else Some (Inr [])) (\<lambda>bs.
     let hi = (if hi > plin_max_key ix then plin_max_key ix else hi) in
     if hi \<ge> plin_min_key ix \<and> lo \<le> plin_max_key ix
     then bind_run (locate_leaf lo ix) (\<lambda>r. bind_run (Some (slot_at r ix)) (\<lambda>s.
       bind_run (leaf_range_query (leaf_heap ix) (ptr s) lo hi (Some s)) (\<lambda>cs.
       Some (Inr (as @ bs @ cs)))))
     else Some (Inr (as @ bs))))"

section \<open>Segments and block numbers\<close>

record Segment =
  sg_first_key :: double
  sg_slope :: fp
  sg_intercept :: fp
  sg_number :: nat

definition Segment_of :: "CanonicalSegment \<Rightarrow> Segment" where
  "Segment_of cs = (let (sl, ic) = get_floating_point_segment (seg_first cs) cs in
     \<lparr>sg_first_key = seg_first cs, sg_slope = ld_to_double sl, sg_intercept = ld_to_double ic, sg_number = seg_number cs\<rparr>)"

text \<open>
  The block numbers are computed in doubles and truncated: \<^verbatim>\<open>number / 7.5 + 3\<close> for a leaf node and
  \<^verbatim>\<open>number / (0.2 * 8) + 8 / 8 + extra\<close> for an inner node, with 3 extra blocks when it is loaded and 2 when
  it is rebuilt.
\<close>

definition leaf_blocks :: "nat \<Rightarrow> u64" where
  "leaf_blocks number = of_int (fp_to_int64 (fp_add (fp_div (fp_of_int (int number)) leaf_fill) (fp_of_int 3)))"

definition inner_fill :: fp where "inner_fill = fp_mul INNER_NODE_INIT_RATIO (fp_of_int 8)"

definition inner_blocks :: "int \<Rightarrow> nat \<Rightarrow> u64" where
  "inner_blocks extra number = of_int (fp_to_int64 (fp_add (fp_add (fp_div (fp_of_int (int number)) inner_fill)
     (fp_of_int (int (EPSILON_INNER_NODE div InnerSlotsPerBlock)))) (fp_of_int extra)))"

section \<open>Building the leaves\<close>

text \<open>
  One leaf node per segment, each with its predecessor as \<^verbatim>\<open>prev\<close>: the addresses and the accelerators.
\<close>

fun build_leaves :: "(double \<times> payload_t) list \<Rightarrow> Segment list \<Rightarrow> nat \<Rightarrow> nat \<Rightarrow> PlinIndex \<Rightarrow>
    ((nat \<times> InnerSlot) list \<times> PlinIndex) run" where
  "build_leaves kvs [] start_pos prev ix = Some (Inr ([], ix))"
| "build_leaves kvs (sg # sgs) start_pos prev ix =
     (let a = next_addr ix in
      bind_run (leaf_new a zero_slot (leaf_blocks (sg_number sg)) kvs (sg_number sg) start_pos (sg_slope sg) (sg_intercept sg)
        (global_version ix) prev 0) (\<lambda>(lf, acc).
      bind_run (build_leaves kvs sgs (start_pos + sg_number sg) a
        (ix\<lparr>leaf_heap := (leaf_heap ix)(a \<mapsto> lf), next_addr := Suc a\<rparr>)) (\<lambda>(accs, ix').
      Some (Inr ((a, acc) # accs, ix')))))"

fun link_leaves :: "nat list \<Rightarrow> PlinIndex \<Rightarrow> bt_err + PlinIndex" where
  "link_leaves (a # b # as) ix = bind_res (mod_leaf a (set_next b) ix) (link_leaves (b # as))"
| "link_leaves as ix = Inr ix"

section \<open>Building the inner levels\<close>

text \<open>The bit pattern of a coefficient; any NaN is the default one.\<close>

definition fp_bits :: "fp \<Rightarrow> u64" where
  "fp_bits x = (case x of None \<Rightarrow> 0xFFF8000000000000 | Some d \<Rightarrow> bits_of_double d)"

fun build_inners :: "int \<Rightarrow> double list \<Rightarrow> InnerSlot list \<Rightarrow> Segment list \<Rightarrow> nat \<Rightarrow> u32 \<Rightarrow> PlinIndex \<Rightarrow>
    bt_err + (InnerSlot list \<times> Param list \<times> PlinIndex)" where
  "build_inners extra keys nodes [] start_pos lvl ix = Inr ([], [], ix)"
| "build_inners extra keys nodes (sg # sgs) start_pos lvl ix =
     (let a = next_addr ix; bn = inner_blocks extra (sg_number sg) in
      bind_res (inner_new a zero_slot bn keys nodes (sg_number sg) start_pos (sg_slope sg) (sg_intercept sg) lvl) (\<lambda>(nd, acc).
      bind_res (build_inners extra keys nodes sgs (start_pos + sg_number sg) lvl
        (ix\<lparr>inner_heap := (inner_heap ix)(a \<mapsto> nd), next_addr := Suc a\<rparr>)) (\<lambda>(accs, ps, ix').
      Inr (acc # accs, \<lparr>p_first_key = bits_of_double (sg_first_key sg), p_slope = fp_bits (slope acc),
        p_intercept = fp_bits (intercept acc), p_block_num = bn\<rparr> # ps, ix'))))"

text \<open>The level loop, with the keys and the accelerators of the current level.\<close>

partial_function (option) build_levels ::
    "int \<Rightarrow> double list \<Rightarrow> InnerSlot list \<Rightarrow> u32 \<Rightarrow> PlinIndex \<Rightarrow> (InnerSlot list \<times> u32 \<times> PlinIndex) run" where
  [code]: "build_levels extra keys nodes lvl ix =
     (if lvl = 0 \<or> length nodes > ROOT_SIZE
      then bind_run (Some (make_segmentation keys EPSILON_INNER_NODE)) (\<lambda>cs.
        let sgs = map Segment_of cs in
        bind_run (Some (build_inners extra keys nodes sgs 0 (lvl + 1) ix)) (\<lambda>x.
        build_levels extra (map sg_first_key sgs) (fst x) (lvl + 1)
          ((snd (snd x))\<lparr>meta_parameter := meta_parameter (snd (snd x)) @ [fst (snd x)]\<rparr>)))
      else Some (Inr (nodes, lvl, ix)))"

section \<open>Bulk loading\<close>

text \<open>
  The new roots: the slots behind the last keep the rest of their content and get the free key.
\<close>

definition set_roots :: "InnerSlot list \<Rightarrow> InnerSlot list \<Rightarrow> InnerSlot list" where
  "set_roots new old = new @ map (\<lambda>s. s\<lparr>min_key := FREE_FLAG\<rparr>) (drop (length new) old)"

text \<open>
  Loading nothing leaves the arrays: the loop over \<^verbatim>\<open>last_n - 1\<close> nodes wraps around.
\<close>

definition bulk_load :: "(double \<times> payload_t) list \<Rightarrow> PlinIndex \<Rightarrow> PlinIndex run" where
  "bulk_load kvs ix = (if kvs = [] then Some (Inl OutOfBounds) else
     bind_run (Some (make_segmentation (map fst kvs) EPSILON_LEAF_NODE)) (\<lambda>cs.
     let sgs = map Segment_of cs; first_keys = map sg_first_key sgs in
     bind_run (build_leaves kvs sgs 0 0 ix) (\<lambda>(ls, ix).
     bind_run (Some (link_leaves (map fst ls) ix)) (\<lambda>ix.
     let ix = ix\<lparr>local_table := local_table ix @ map (\<lambda>(k, a). (k, a, True)) (zip first_keys (map fst ls)),
                leaf_number := of_nat (length ls), meta_parameter := []\<rparr> in
     bind_run (build_levels 3 first_keys (map snd ls) 0 ix) (\<lambda>(accs, lvl, ix).
     Some (Inr (ix\<lparr>plin_min_key := fst (hd kvs), plin_max_key := fst (last kvs),
       meta_max_key := fst (last kvs), meta_min_key := fst (hd kvs),
       root_number := of_nat (length accs), plin_level := lvl, global_version := 0,
       roots := set_roots accs (roots ix)\<rparr>)))))))"

end
