(* ===== verification/Plin_Update.thy ===== *)
theory Plin_Update
  imports Plin_Index
begin

text \<open>
  The operations of \<^verbatim>\<open>src/core/index/plin_index.h\<close> that change the index: upsert, remove, the split of a
  leaf node with its log, and the rebuilding of the inner nodes.  The flag \<^verbatim>\<open>rebuilding\<close> is set only inside
  \<^verbatim>\<open>rebuild_inner_nodes\<close>, so it is 0 whenever another operation runs alone.
\<close>

section \<open>Upsert and remove\<close>

text \<open>
  The loop of \<^verbatim>\<open>upsert\<close> repeats while the node is locked (code 7).  Codes 5 and 6 start a split thread, with
  and without the accelerator.
\<close>

partial_function (option) plin_upsert_loop :: "double \<Rightarrow> payload_t \<Rightarrow> PlinIndex \<Rightarrow> PlinIndex run" where
  [code]: "plin_upsert_loop key payload ix = bind_run (locate_leaf key ix) (\<lambda>r. bind_run (Some (slot_at r ix)) (\<lambda>s.
     if ptr s = 0 then plin_upsert_loop key payload ix
     else (case leaf_heap ix (ptr s) of None \<Rightarrow> Some (Inl NullDeref) | Some lf \<Rightarrow>
       if \<not> check_split_lock lf then plin_upsert_loop key payload ix
       else bind_run (leaf_upsert (leaf_heap ix) (ptr s) key payload (global_version ix) (Some s)) (\<lambda>x.
         let ix' = ix\<lparr>leaf_heap := snd (snd x)\<rparr> in
         if fst x = 7 then plin_upsert_loop key payload ix'
         else if fst x = 5 \<or> fst x = 6
         then (case fst (snd x) of None \<Rightarrow> Some (Inl NullDeref)
           | Some a \<Rightarrow> Some (Inr (ix'\<lparr>split_threads := split_threads ix' @ [(a, if fst x = 5 then Some r else None)]\<rparr>)))
         else Some (Inr ix')))))"

text \<open>The count of a full buffer has no effect: merging is not implemented.\<close>

definition plin_upsert :: "double \<Rightarrow> payload_t \<Rightarrow> PlinIndex \<Rightarrow> PlinIndex run" where
  "plin_upsert key payload ix =
     (if key > plin_min_key ix \<and> key < plin_max_key ix then plin_upsert_loop key payload ix
      else if key < plin_min_key ix
      then bind_run (upsert key payload (btree_plus_open (left_buffer ix))) (\<lambda>(ret, t). Some (Inr (ix\<lparr>left_buffer := t,
        left_buffer_number := (if ret = 4 then left_buffer_number ix + 1 else left_buffer_number ix)\<rparr>)))
      else bind_run (upsert key payload (btree_plus_open (right_buffer ix))) (\<lambda>(ret, t). Some (Inr (ix\<lparr>right_buffer := t,
        right_buffer_number := (if ret = 4 then right_buffer_number ix + 1 else right_buffer_number ix)\<rparr>))))"

partial_function (option) plin_remove_loop :: "double \<Rightarrow> PlinIndex \<Rightarrow> PlinIndex run" where
  [code]: "plin_remove_loop key ix = bind_run (locate_leaf key ix) (\<lambda>r. bind_run (Some (slot_at r ix)) (\<lambda>s.
     bind_run (leaf_remove (leaf_heap ix) (ptr s) key (global_version ix) (Some s)) (\<lambda>x.
       let ix' = ix\<lparr>leaf_heap := snd x\<rparr> in
       if fst x = 3 then plin_remove_loop key ix' else Some (Inr ix'))))"

definition plin_remove :: "double \<Rightarrow> PlinIndex \<Rightarrow> PlinIndex run" where
  "plin_remove key ix =
     (if key > plin_min_key ix \<and> key < plin_max_key ix then plin_remove_loop key ix
      else if key < plin_min_key ix
      then bind_run (delete_entry key (btree_plus_open (left_buffer ix))) (\<lambda>(del, t). Some (Inr (ix\<lparr>left_buffer := t,
        left_buffer_number := (if del then left_buffer_number ix - 1 else left_buffer_number ix)\<rparr>)))
      else bind_run (delete_entry key (btree_plus_open (right_buffer ix))) (\<lambda>(del, t). Some (Inr (ix\<lparr>right_buffer := t,
        right_buffer_number := (if del then right_buffer_number ix - 1 else right_buffer_number ix)\<rparr>))))"

section \<open>Inner nodes of the index\<close>

definition get_parent :: "InnerSlot \<Rightarrow> PlinIndex \<Rightarrow> bt_err + nat" where
  "get_parent node ix = root_slot (min_key node) ix"

definition plin_upsert_node :: "InnerSlot \<Rightarrow> PlinIndex \<Rightarrow> (nat \<times> PlinIndex) run" where
  "plin_upsert_node node ix = bind_run (Some (root_slot (min_key node) ix)) (\<lambda>i.
     bind_run (Some (slot_at (RootSlot i) ix)) (\<lambda>s.
     bind_run (inner_upsert_node (inner_heap ix) (ptr s) node s) (\<lambda>(ret, ins, s').
     Some (Inr (ret, ix\<lparr>inner_heap := ins, roots := (roots ix)[i := s'],
       leaf_number := (if ret > 1 then leaf_number ix + 1 else leaf_number ix),
       orphan_number := (if ret > 2 then orphan_number ix + 1 else orphan_number ix)\<rparr>)))))"

fun upsert_nodes :: "InnerSlot list \<Rightarrow> PlinIndex \<Rightarrow> PlinIndex run" where
  "upsert_nodes [] ix = Some (Inr ix)"
| "upsert_nodes (s # ss) ix = bind_run (plin_upsert_node s ix) (\<lambda>(_, ix). upsert_nodes ss ix)"

definition get_leftmost_leaf :: "PlinIndex \<Rightarrow> nat run" where
  "get_leftmost_leaf ix = bind_run (Some (slot_at (RootSlot 0) ix)) (\<lambda>s. inner_leftmost_leaf (inner_heap ix) (ptr s))"

text \<open>The leaves are freed along the chain, then the inner nodes from the roots.\<close>

partial_function (option) destroy_leaves :: "leaves \<Rightarrow> nat \<Rightarrow> leaves run" where
  [code]: "destroy_leaves ls a = (case ls a of None \<Rightarrow> Some (Inl NullDeref)
     | Some lf \<Rightarrow> if next_node lf = 0 then Some (Inr (ls(a := None)))
         else destroy_leaves (ls(a := None)) (next_node lf))"

definition plin_destroy :: "PlinIndex \<Rightarrow> PlinIndex run" where
  "plin_destroy ix = bind_run (get_leftmost_leaf ix) (\<lambda>a.
     bind_run (destroy_leaves (leaf_heap ix) a) (\<lambda>ls.
     bind_run (inner_destroy (inner_heap ix) (map ptr (take (unat (root_number ix)) (roots ix)))) (\<lambda>ins.
     Some (Inr (ix\<lparr>leaf_heap := ls, inner_heap := ins\<rparr>)))))"

section \<open>Rebuilding the inner nodes\<close>

fun collect_info :: "nat \<Rightarrow> leaves \<Rightarrow> nat \<Rightarrow> bt_err + (double \<times> InnerSlot) list" where
  "collect_info 0 ls a = Inr []"
| "collect_info (Suc n) ls a = (case ls a of None \<Rightarrow> Inl NullDeref
     | Some lf \<Rightarrow> bind_res (leaf_get_info a lf zero_slot) (\<lambda>x.
         bind_res (collect_info n ls (next_node lf)) (\<lambda>xs. Inr (x # xs))))"

text \<open>
  The old inner nodes are freed after the new roots are in place.  \<^verbatim>\<open>rebuild_times\<close> is incremented twice.
  \<^verbatim>\<open>rebuilding\<close> and \<^verbatim>\<open>old_plin_\<close> have their initial values again at the end.
\<close>

definition rebuild_inner_nodes :: "PlinIndex \<Rightarrow> PlinIndex run" where
  "rebuild_inner_nodes ix = (case smo_get_write_lock ix of None \<Rightarrow> None
     | Some (False, ix) \<Rightarrow> Some (Inr ix)
     | Some (True, ix) \<Rightarrow> bind_run (get_leftmost_leaf ix) (\<lambda>a.
         bind_run (Some (collect_info (unat (leaf_number ix)) (leaf_heap ix) a)) (\<lambda>xs.
         let old = map ptr (take (unat (root_number ix)) (roots ix)) in
         bind_run (build_levels 2 (map fst xs) (map snd xs) 0 (ix\<lparr>meta_parameter := []\<rparr>)) (\<lambda>(accs, lvl, ix).
         bind_run (inner_destroy (inner_heap ix) old) (\<lambda>ins.
         Some (Inr (release_write_lock (ix\<lparr>root_number := of_nat (length accs), plin_level := lvl, orphan_number := 0,
           roots := set_roots accs (roots ix), rebuild_times := rebuild_times ix + 2, inner_heap := ins\<rparr>))))))))"

section \<open>The split of a leaf node\<close>

fun table_erase :: "nat \<Rightarrow> table_entry list \<Rightarrow> table_entry list" where
  "table_erase addr [] = []"
| "table_erase addr (e # es) = (if fst (snd e) = addr then es else e # table_erase addr es)"

text \<open>Insertion at \<^verbatim>\<open>lower_bound\<close>: before the first entry whose key is not smaller.\<close>

definition table_insert :: "table_entry \<Rightarrow> table_entry list \<Rightarrow> table_entry list" where
  "table_insert e es = takeWhile (\<lambda>x. fst x < fst e) es @ e # dropWhile (\<lambda>x. fst x < fst e) es"

definition pess_insert_tabel :: "nat \<Rightarrow> table_entry list \<Rightarrow> PlinIndex \<Rightarrow> PlinIndex" where
  "pess_insert_tabel addr rnd ix = ix\<lparr>local_table := fold table_insert rnd (table_erase addr (local_table ix))\<rparr>"

text \<open>The first log whose lock is free; with none the loop does not end.\<close>

fun take_log :: "nat \<Rightarrow> split_log list \<Rightarrow> (nat \<times> split_log list) option" where
  "take_log i [] = None"
| "take_log i (l # ls) = (case log_try_get_lock l of (True, l') \<Rightarrow> Some (i, l' # ls)
     | (False, _) \<Rightarrow> map_option (\<lambda>(j, ls'). (j, l # ls')) (take_log (Suc i) ls))"

definition mod_log :: "nat \<Rightarrow> (split_log \<Rightarrow> split_log) \<Rightarrow> PlinIndex \<Rightarrow> PlinIndex" where
  "mod_log i f ix = ix\<lparr>logs := (logs ix)[i := f (logs ix ! i)]\<rparr>"

text \<open>
  The locks of a split, in the order of the code: the index against rebuilding, the node, its left and its
  right sibling.  A missing sibling counts as a lock that cannot be taken; what was taken is released.
\<close>

definition try_split_lock :: "nat \<Rightarrow> PlinIndex \<Rightarrow> bt_err + (bool \<times> PlinIndex)" where
  "try_split_lock a ix = (case leaf_heap ix a of None \<Rightarrow> Inl NullDeref
     | Some lf \<Rightarrow> (case try_get_split_lock lf of (ok, lf') \<Rightarrow> Inr (ok, ix\<lparr>leaf_heap := (leaf_heap ix)(a \<mapsto> lf')\<rparr>)))"

definition lock_for_split :: "nat \<Rightarrow> nat \<Rightarrow> nat \<Rightarrow> PlinIndex \<Rightarrow> bt_err + (bool \<times> PlinIndex)" where
  "lock_for_split leaf left right ix = (case try_get_read_lock ix of (False, ix) \<Rightarrow> Inr (False, ix)
     | (True, ix) \<Rightarrow> bind_res (try_split_lock leaf ix) (\<lambda>(ok, ix).
         if \<not> ok then Inr (False, release_read_lock ix)
         else bind_res (if left = 0 then Inr (False, ix) else try_split_lock left ix) (\<lambda>(ok, ix).
           if \<not> ok then bind_res (mod_leaf leaf leaf_release_lock ix) (\<lambda>ix. Inr (False, release_read_lock ix))
           else bind_res (if right = 0 then Inr (False, ix) else try_split_lock right ix) (\<lambda>(ok, ix).
             if \<not> ok then bind_res (mod_leaf left leaf_release_lock ix) (\<lambda>ix.
               bind_res (mod_leaf leaf leaf_release_lock ix) (\<lambda>ix. Inr (False, release_read_lock ix)))
             else Inr (True, ix)))))"

text \<open>
  The new nodes between the siblings.  A node without data has no segment; the code then accesses its arrays
  at index \<^verbatim>\<open>last_n - 1\<close>, which wraps around.
\<close>

definition split_nodes :: "(double \<times> payload_t) list \<Rightarrow> nat \<Rightarrow> nat \<Rightarrow> PlinIndex \<Rightarrow>
    ((nat \<times> InnerSlot) list \<times> PlinIndex) run" where
  "split_nodes kvs left right ix =
     bind_run (Some (make_segmentation (map fst kvs) EPSILON_LEAF_NODE)) (\<lambda>cs.
     bind_run (build_leaves kvs (map Segment_of cs) 0 left ix) (\<lambda>(ls, ix).
     if ls = [] then Some (Inl OutOfBounds)
     else bind_run (Some (link_leaves (map fst ls) ix)) (\<lambda>ix.
       bind_run (Some (mod_leaf (fst (last ls)) (set_next right) ix)) (\<lambda>ix.
       Some (Inr (ls, ix\<lparr>valid_leaf := valid_leaf ix + of_nat (length ls) - 1\<rparr>))))))"

text \<open>\<^verbatim>\<open>abandoned_nodes\<close>: once it has two entries the oldest goes and the node is pushed twice.\<close>

definition push_abandoned :: "nat \<Rightarrow> nat list \<Rightarrow> nat list" where
  "push_abandoned a ns = (if 2 \<le> length ns then tl ns @ [a] else ns) @ [a]"

text \<open>With the new nodes built: the log entry, the links of the siblings and the parents.\<close>

definition install_nodes :: "nat \<Rightarrow> nat \<Rightarrow> nat \<Rightarrow> slot_ref option \<Rightarrow> nat \<Rightarrow> (nat \<times> InnerSlot) list \<Rightarrow> PlinIndex \<Rightarrow> PlinIndex run" where
  "install_nodes leaf left right acc lg ls ix =
     bind_run (Some (case acc of Some r \<Rightarrow> mod_slot r slot_get_read_lock ix
       | None \<Rightarrow> bind_res (mod_leaf leaf leaf_get_read_lock ix) (\<lambda>ix. Inr (mod_log lg log_set_orphan ix)))) (\<lambda>ix.
     let ix = mod_log lg (\<lambda>l. log_set_valid (l\<lparr>left_node := fst (hd ls), right_node := fst (last ls)\<rparr>)) ix in
     bind_run (Some (mod_leaf left (set_next (fst (hd ls))) ix)) (\<lambda>ix.
     bind_run (Some (mod_leaf right (set_prev (fst (last ls))) ix)) (\<lambda>ix.
     bind_run (Some (mod_leaf leaf set_abandoned ix)) (\<lambda>ix.
     let ix = ix\<lparr>abandoned_nodes := push_abandoned leaf (abandoned_nodes ix)\<rparr> in
     case acc of Some _ \<Rightarrow> upsert_nodes (map snd ls) ix
       | None \<Rightarrow> Some (Inr (ix\<lparr>orphan_number := orphan_number ix + of_nat (length ls) - 1\<rparr>))))))"

definition release_after_split :: "nat \<Rightarrow> nat \<Rightarrow> nat \<Rightarrow> slot_ref option \<Rightarrow> nat \<Rightarrow> PlinIndex \<Rightarrow> bt_err + PlinIndex" where
  "release_after_split leaf left right acc lg ix =
     bind_res (case acc of Some r \<Rightarrow> mod_slot r slot_release_lock ix | None \<Rightarrow> mod_leaf leaf leaf_release_lock ix) (\<lambda>ix.
     bind_res (mod_leaf left leaf_release_lock (release_read_lock ix)) (\<lambda>ix.
     bind_res (mod_leaf right leaf_release_lock ix) (\<lambda>ix. Inr (mod_log lg log_release_lock ix))))"

definition MAX_ORPHAN_RATIO :: fp where "MAX_ORPHAN_RATIO = Some (Dbl 0x3FA999999999999A)"

definition too_many_orphans :: "PlinIndex \<Rightarrow> bool" where
  "too_many_orphans ix \<longleftrightarrow> fp_less MAX_ORPHAN_RATIO
     (fp_div (fp_of_int (uint (orphan_number ix))) (fp_of_int (uint (leaf_number ix))))"

text \<open>
  The split once its locks are held: the log, the data of the old node, the new nodes, their installation,
  the table and the locks.  \<^verbatim>\<open>debug\<close> only counts the leaves for the statistics file.
\<close>

definition split_body :: "nat \<Rightarrow> nat \<Rightarrow> nat \<Rightarrow> slot_ref option \<Rightarrow> PlinIndex \<Rightarrow> PlinIndex run" where
  "split_body leaf left right acc ix =
     bind_run (Some (case acc of Some r \<Rightarrow> mod_slot r slot_get_write_lock ix | None \<Rightarrow> mod_leaf leaf leaf_get_write_lock ix)) (\<lambda>ix.
     case take_log 0 (logs ix) of None \<Rightarrow> None
     | Some (lg, ls) \<Rightarrow>
       (let ix = mod_log lg (\<lambda>l. l\<lparr>leaf_to_split := leaf, left_sibling := left, right_sibling := right\<rparr>) (ix\<lparr>logs := ls\<rparr>) in
        case leaf_heap ix leaf of None \<Rightarrow> Some (Inl NullDeref)
        | Some lf \<Rightarrow> bind_run (leaf_get_data (global_version ix) lf) (\<lambda>(kvs, lf').
            bind_run (split_nodes kvs left right (ix\<lparr>leaf_heap := (leaf_heap ix)(leaf \<mapsto> lf')\<rparr>)) (\<lambda>(nodes, ix).
            bind_run (install_nodes leaf left right acc lg nodes ix) (\<lambda>ix.
            let tbl = map (\<lambda>(a, s). (min_key s, a, True)) nodes;
                ix = pess_insert_tabel leaf tbl ix in
            bind_run (Some (release_after_split leaf left right acc lg ix)) (\<lambda>ix.
            Some (Inr (ix\<lparr>split_times := split_times ix + 1\<rparr>))))))))"

definition split_locked :: "nat \<Rightarrow> nat \<Rightarrow> nat \<Rightarrow> slot_ref option \<Rightarrow> PlinIndex \<Rightarrow> PlinIndex run" where
  "split_locked leaf left right acc ix = bind_run (split_body leaf left right acc ix) (\<lambda>ix.
     if too_many_orphans ix then rebuild_inner_nodes ix else Some (Inr ix))"

definition plin_split :: "nat \<Rightarrow> slot_ref option \<Rightarrow> PlinIndex \<Rightarrow> PlinIndex run" where
  "plin_split leaf acc ix = (case leaf_heap ix leaf of None \<Rightarrow> Some (Inl NullDeref)
     | Some lf \<Rightarrow> bind_run (Some (lock_for_split leaf (prev_node lf) (next_node lf) ix)) (\<lambda>(ok, ix).
         if ok then split_locked leaf (prev_node lf) (next_node lf) acc ix else Some (Inr ix)))"

text \<open>A started split thread runs.\<close>

definition run_split_thread :: "nat \<Rightarrow> PlinIndex \<Rightarrow> PlinIndex run" where
  "run_split_thread i ix = (if i < length (split_threads ix)
     then case split_threads ix ! i of (leaf, acc) \<Rightarrow>
       plin_split leaf acc (ix\<lparr>split_threads := take i (split_threads ix) @ drop (Suc i) (split_threads ix)\<rparr>)
     else Some (Inr ix))"

end
