(* ===== verification/Float_Mono.thy ===== *)
theory Float_Mono
  imports Complex_Main Learned_Model
begin

text \<open>
  Rounding to the nearest double is monotone, and with it the arithmetic the block predictions use:
  a model with a non-negative slope predicts blocks in key order.
\<close>

section \<open>Powers and logarithms\<close>

lemma pow2_nat: "pow2 e = 2 ^ nat e"
proof (induction "nat e" arbitrary: e)
  case 0
  then show ?case by (subst pow2.simps) simp
next
  case (Suc n)
  then have "pow2 (e - 1) = 2 ^ nat (e - 1)" "nat e = Suc (nat (e - 1))" "\<not> e \<le> 0" by auto
  then show ?case by (subst pow2.simps) simp
qed

lemma pow2_pos [simp]: "0 < pow2 e"
  by (simp add: pow2_nat)

lemma pow2_quot: "real_of_int (pow2 e) / real_of_int (pow2 (- e)) = 2 powr real_of_int e"
proof (cases "0 \<le> e")
  case True
  then have "real (nat e) = real_of_int e" "nat (- e) = 0" by simp_all
  then show ?thesis by (simp add: pow2_nat powr_realpow [symmetric])
next
  case False
  then have "real (nat (- e)) = - real_of_int e" "nat e = 0" by simp_all
  then have "2 ^ nat (- e) = 2 powr (- real_of_int e)" by (simp add: powr_realpow [symmetric])
  then show ?thesis using \<open>nat e = 0\<close> by (simp add: pow2_nat powr_minus_divide)
qed

lemma log2_from_bounds:
  "0 < p \<Longrightarrow> p \<le> n \<Longrightarrow> 0 \<le> log2_from n p \<and> 2 ^ nat (log2_from n p) * p \<le> n \<and> n < 2 ^ nat (log2_from n p) * (2 * p)"
proof (induction n p rule: log2_from.induct)
  case (1 n p)
  show ?case
  proof (cases "n < 2 * p")
    case True
    then show ?thesis using 1 by (subst (1 2 3) log2_from.simps) simp
  next
    case False
    then have IH: "0 \<le> log2_from n (2 * p)" "2 ^ nat (log2_from n (2 * p)) * (2 * p) \<le> n"
      "n < 2 ^ nat (log2_from n (2 * p)) * (2 * (2 * p))" using 1 by auto
    have e: "log2_from n p = 1 + log2_from n (2 * p)" using False 1 by (subst log2_from.simps) simp
    have "nat (log2_from n p) = Suc (nat (log2_from n (2 * p)))" unfolding e using IH(1) by simp
    then show ?thesis using IH e by (simp add: mult.assoc mult.left_commute)
  qed
qed

lemma log2i_bounds:
  assumes "0 < n"
  shows "2 powr real_of_int (log2i n) \<le> real_of_int n" "real_of_int n < 2 powr real_of_int (log2i n + 1)" "0 \<le> log2i n"
proof -
  let ?l = "log2i n"
  have l: "0 \<le> ?l" "2 ^ nat ?l \<le> n" "n < 2 ^ nat ?l * 2" using log2_from_bounds [of 1 n] assms by (simp_all add: log2i_def)
  have e: "2 powr real_of_int ?l = 2 ^ nat ?l" using l(1) by (simp add: powr_realpow [symmetric])
  show "0 \<le> ?l" by (rule l(1))
  have "real_of_int (2 ^ nat ?l) \<le> real_of_int n" "real_of_int n < real_of_int (2 ^ nat ?l * 2)" using l by linarith+
  then show "2 powr real_of_int ?l \<le> real_of_int n" "real_of_int n < 2 powr real_of_int (?l + 1)"
    using e by (simp_all add: powr_add)
qed

lemma frac_log2_bounds:
  assumes "0 < n" "0 < d"
  shows "2 powr real_of_int (frac_log2 n d) \<le> real_of_int n / real_of_int d"
    "real_of_int n / real_of_int d < 2 powr (real_of_int (frac_log2 n d) + 1)"
proof -
  let ?l = "log2i n - log2i d" and ?x = "real_of_int n / real_of_int d"
  have d: "0 < real_of_int d" using assms by simp
  have up: "?x < 2 powr (real_of_int ?l + 1)"
  proof -
    have "real_of_int n < 2 powr real_of_int (log2i n + 1)" by (rule log2i_bounds(2) [OF assms(1)])
    also have "\<dots> = 2 powr (real_of_int ?l + 1) * 2 powr real_of_int (log2i d)" by (simp add: powr_add [symmetric])
    also have "\<dots> \<le> 2 powr (real_of_int ?l + 1) * real_of_int d" using log2i_bounds(1) [OF assms(2)] by simp
    finally show ?thesis using d by (simp add: field_simps)
  qed
  have low: "2 powr (real_of_int ?l - 1) \<le> ?x"
  proof -
    have "2 powr (real_of_int ?l - 1) * real_of_int d \<le> 2 powr (real_of_int ?l - 1) * 2 powr real_of_int (log2i d + 1)"
      using log2i_bounds(2) [OF assms(2)] by simp
    also have "\<dots> = 2 powr real_of_int (log2i n)" by (simp add: powr_add [symmetric])
    also have "\<dots> \<le> real_of_int n" by (rule log2i_bounds(1) [OF assms(1)])
    finally show ?thesis using d by (simp add: field_simps)
  qed
  have cond: "pow2 ?l * d \<le> n * pow2 (- ?l) \<longleftrightarrow> 2 powr real_of_int ?l \<le> ?x"
  proof -
    have "pow2 ?l * d \<le> n * pow2 (- ?l) \<longleftrightarrow> real_of_int (pow2 ?l) * real_of_int d \<le> real_of_int n * real_of_int (pow2 (- ?l))"
      by (metis of_int_le_iff of_int_mult)
    also have "\<dots> \<longleftrightarrow> real_of_int (pow2 ?l) / real_of_int (pow2 (- ?l)) \<le> ?x"
      using d by (simp add: field_simps)
    finally show ?thesis unfolding pow2_quot .
  qed
  show "2 powr real_of_int (frac_log2 n d) \<le> ?x" "?x < 2 powr (real_of_int (frac_log2 n d) + 1)"
    using cond up low by (auto simp: frac_log2_def adjust_log2_def not_le)
qed

section \<open>Rounding\<close>

text \<open>The nearest integer, ties to even, of a real number.\<close>

definition rne :: "real \<Rightarrow> int" where
  "rne x = (let f = \<lfloor>x\<rfloor>; r = x - real_of_int f in if 2 * r < 1 then f else if 2 * r > 1 then f + 1 else if even f then f else f + 1)"

lemma rne_bounds: "\<lfloor>x\<rfloor> \<le> rne x" "rne x \<le> \<lfloor>x\<rfloor> + 1"
  by (auto simp: rne_def Let_def)

lemma rne_of_int [simp]: "rne (real_of_int i) = i"
  by (simp add: rne_def)

lemma rne_mono: "x \<le> y \<Longrightarrow> rne x \<le> rne y"
proof -
  assume xy: "x \<le> y"
  show ?thesis
  proof (cases "\<lfloor>x\<rfloor> = \<lfloor>y\<rfloor>")
    case True
    then show ?thesis using xy by (auto simp: rne_def Let_def)
  next
    case False
    then have "\<lfloor>x\<rfloor> + 1 \<le> \<lfloor>y\<rfloor>" using floor_mono [OF xy] by simp
    then show ?thesis using rne_bounds [of x] rne_bounds [of y] by linarith
  qed
qed

lemma round_half_even_rne:
  assumes "0 < d"
  shows "round_half_even n d = rne (real_of_int n / real_of_int d)"
proof -
  have f: "\<lfloor>real_of_int n / real_of_int d\<rfloor> = n div d" by (simp add: floor_divide_of_int_eq)
  have n: "real_of_int n = real_of_int (n div d) * real_of_int d + real_of_int (n mod d)"
    by (metis div_mult_mod_eq of_int_add of_int_mult)
  have d: "0 < real_of_int d" using assms by simp
  have r: "real_of_int n / real_of_int d - real_of_int (n div d) = real_of_int (n mod d) / real_of_int d"
    using d by (subst n) (simp add: add_divide_distrib)
  have "2 * (n mod d) < d \<longleftrightarrow> 2 * (real_of_int (n mod d) / real_of_int d) < 1"
    "2 * (n mod d) > d \<longleftrightarrow> 2 * (real_of_int (n mod d) / real_of_int d) > 1"
    using d by (simp_all add: field_simps) linarith+
  then show ?thesis unfolding round_half_even_def nearest_even_def rne_def Let_def f r by simp
qed

lemma round_units_rne:
  assumes "0 < d"
  shows "round_units u n d = rne (real_of_int n / real_of_int d / 2 powr real_of_int u)"
proof -
  have "real_of_int (n * pow2 (- u)) / real_of_int (d * pow2 u) = real_of_int n / real_of_int d / (real_of_int (pow2 u) / real_of_int (pow2 (- u)))"
    by (simp add: field_simps)
  then show ?thesis using assms by (simp add: round_units_def round_half_even_rne pow2_quot)
qed

lemma frac_log2_mono:
  assumes "0 < n" "0 < d" "0 < n'" "0 < d'" "real_of_int n / real_of_int d \<le> real_of_int n' / real_of_int d'"
  shows "frac_log2 n d \<le> frac_log2 n' d'"
proof -
  have "2 powr real_of_int (frac_log2 n d) < 2 powr (real_of_int (frac_log2 n' d') + 1)"
    using frac_log2_bounds(1) [OF assms(1,2)] frac_log2_bounds(2) [OF assms(3,4)] assms(5) by linarith
  then have "real_of_int (frac_log2 n d) < real_of_int (frac_log2 n' d') + 1" by simp
  then show ?thesis by linarith
qed

lemma round_units_upper:
  assumes "0 < d" "real_of_int n / real_of_int d \<le> 2 powr real_of_int (u + 53)"
  shows "round_units u n d \<le> 2 ^ 53"
proof -
  have "real_of_int n / real_of_int d / 2 powr real_of_int u \<le> 2 powr real_of_int (u + 53) / 2 powr real_of_int u"
    using assms(2) by (rule divide_right_mono) simp
  also have "\<dots> = 2 powr real (53 :: nat)" by (simp add: powr_diff [symmetric])
  also have "\<dots> = real_of_int (2 ^ 53)" by (subst powr_realpow) simp_all
  finally show ?thesis unfolding round_units_rne [OF assms(1)] using rne_mono rne_of_int by metis
qed

lemma round_units_lower:
  assumes "0 < d" "2 powr real_of_int (u + 52) \<le> real_of_int n / real_of_int d"
  shows "2 ^ 52 \<le> round_units u n d"
proof -
  have "real_of_int (2 ^ 52) = 2 powr real (52 :: nat)" by (subst powr_realpow) simp_all
  also have "\<dots> = 2 powr real_of_int (u + 52) / 2 powr real_of_int u" by (simp add: powr_diff [symmetric])
  also have "\<dots> \<le> real_of_int n / real_of_int d / 2 powr real_of_int u"
    using assms(2) by (rule divide_right_mono) simp
  finally show ?thesis unfolding round_units_rne [OF assms(1)] using rne_mono rne_of_int by metis
qed

lemma round_units_mono:
  assumes "0 < d" "0 < d'" "real_of_int n / real_of_int d \<le> real_of_int n' / real_of_int d'"
  shows "round_units u n d \<le> round_units u n' d'"
  unfolding round_units_rne [OF assms(1)] round_units_rne [OF assms(2)]
  by (intro rne_mono divide_right_mono assms(3)) simp

lemma round_units_nonneg: "0 < d \<Longrightarrow> 0 \<le> n \<Longrightarrow> 0 \<le> round_units u n d"
  using round_units_mono [of d d 0 n u] by (simp add: round_units_rne rne_def)

lemma round_mag_mono:
  assumes p: "0 < n" "0 < d" "0 < n'" "0 < d'" and le: "real_of_int n / real_of_int d \<le> real_of_int n' / real_of_int d'"
  shows "round_mag n d \<le> round_mag n' d'"
proof -
  define l l' e e' where "l = frac_log2 n d" and "l' = frac_log2 n' d'" and "e = max (- 1022) l" and "e' = max (- 1022) l'"
  note defs = l_def l'_def e_def e'_def
  have ee: "e \<le> e'" using frac_log2_mono [OF p le] by (simp add: defs)
  show ?thesis
  proof (cases "e = e'")
    case True
    then show ?thesis using round_units_mono [OF p(2,4) le, of "e - 52"]
      by (simp add: round_mag_def mag_at_def defs)
  next
    case False
    then have lt: "e + 1 \<le> e'" "e' = l'" using ee by (auto simp: defs)
    have "real_of_int n / real_of_int d < 2 powr (real_of_int l + 1)" using frac_log2_bounds(2) [OF p(1,2)] by (simp add: defs)
    also have "\<dots> \<le> 2 powr real_of_int ((e - 52) + 53)" by (simp add: defs)
    finally have "round_units (e - 52) n d \<le> 2 ^ 53" using round_units_upper [OF p(2)] by simp
    moreover have "2 powr real_of_int ((e' - 52) + 52) \<le> real_of_int n' / real_of_int d'"
      using frac_log2_bounds(1) [OF p(3,4)] lt(2) by (simp add: defs)
    then have "2 ^ 52 \<le> round_units (e' - 52) n' d'" by (rule round_units_lower [OF p(4)])
    ultimately have "(e + 1022) * 2 ^ 52 + round_units (e - 52) n d \<le> (e' + 1022) * 2 ^ 52 + round_units (e' - 52) n' d'"
      using lt(1) by simp
    then show ?thesis unfolding round_mag_def mag_at_def e_def [unfolded l_def, symmetric] e'_def [unfolded l'_def, symmetric] by simp
  qed
qed

lemma round_mag_nonneg: "0 < n \<Longrightarrow> 0 < d \<Longrightarrow> 0 \<le> round_mag n d"
  using round_units_nonneg [of d n] by (simp add: round_mag_def mag_at_def inf_ordinal_def)

lemma round_frac_mono:
  assumes "0 < d" "0 < d'" "real_of_int n / real_of_int d \<le> real_of_int n' / real_of_int d'"
  shows "round_frac n d \<le> round_frac n' d'"
proof -
  have s: "0 < real_of_int d" "0 < real_of_int d'" using assms by simp_all
  consider "0 < n" | "n = 0" | "n < 0" by linarith
  then show ?thesis
  proof cases
    case 1
    then have "0 < real_of_int n' / real_of_int d'" using assms(3) s by (smt (verit) divide_pos_pos of_int_pos)
    then have "0 < n'" using s by (simp add: zero_less_divide_iff)
    then show ?thesis using 1 round_mag_mono [OF 1 assms(1) _ assms(2,3)] by (simp add: round_frac_def)
  next
    case 2
    then have "0 \<le> n'" using assms(3) s by (simp add: zero_le_divide_iff)
    then show ?thesis using 2 round_mag_nonneg [OF _ assms(2)] by (simp add: round_frac_def)
  next
    case 3
    show ?thesis
    proof (cases "n' < 0")
      case True
      have "real_of_int (- n') / real_of_int d' \<le> real_of_int (- n) / real_of_int d" using assms(3) by simp
      then show ?thesis using 3 True round_mag_mono [of "- n'" d' "- n" d] assms(1,2) by (simp add: round_frac_def)
    next
      case False
      then show ?thesis using 3 round_mag_nonneg [of "- n" d] round_mag_nonneg [of n' d'] assms(1,2)
        by (auto simp: round_frac_def)
    qed
  qed
qed

section \<open>Values\<close>

definition val :: "double \<Rightarrow> real" where
  "val d = real_of_int (num_of d) / real_of_int (den_of d)"

definition mag_val :: "int \<Rightarrow> real" where
  "mag_val m = (if m div 2 ^ 52 = 0 then real_of_int (m mod 2 ^ 52) * 2 powr (- 1074)
     else real_of_int (2 ^ 52 + m mod 2 ^ 52) * 2 powr (real_of_int (m div 2 ^ 52) - 1075))"

lemma den_of_pos [simp]: "0 < den_of d"
  by (simp add: den_of_def Let_def)

lemma pow2_shift: "real_of_int (pow2 (e - 1075)) / real_of_int (pow2 (1075 - e)) = 2 powr (real_of_int e - 1075)"
  using pow2_quot [of "e - 1075"] by simp

lemma val_mag: "val d = (if ordinal d < 0 then - mag_val \<bar>ordinal d\<bar> else mag_val \<bar>ordinal d\<bar>)"
proof -
  have z: "1 / real_of_int (pow2 1074) = 2 powr (- 1074)"
    using pow2_quot [of "- 1074"] by (simp add: pow2_nat powr_minus_divide)
  define m e where "m = \<bar>ordinal d\<bar> mod 2 ^ 52" and "e = \<bar>ordinal d\<bar> div 2 ^ 52"
  have "real_of_int (if e = 0 then m else (2 ^ 52 + m) * pow2 (e - 1075)) / real_of_int (if e = 0 then pow2 1074 else pow2 (1075 - e))
    = mag_val \<bar>ordinal d\<bar>"
    using z pow2_shift [of e] unfolding mag_val_def m_def [symmetric] e_def [symmetric]
    by (simp add: divide_inverse)
  then show ?thesis by (auto simp: val_def num_of_def den_of_def Let_def m_def e_def)
qed

lemma mag_val_mono:
  assumes "0 \<le> a" "a \<le> b"
  shows "mag_val a \<le> mag_val b"
proof -
  define ea ma eb mb where "ea = a div 2 ^ 52" and "ma = a mod 2 ^ 52" and "eb = b div 2 ^ 52" and "mb = b mod 2 ^ 52"
  note defs = ea_def ma_def eb_def mb_def
  have bd: "0 \<le> ma" "ma < 2 ^ 52" "0 \<le> mb" "0 \<le> ea" using assms by (simp_all add: defs pos_imp_zdiv_nonneg_iff)
  have ee: "ea \<le> eb" using assms(2) by (simp add: defs zdiv_mono1)
  show ?thesis
  proof (cases "ea = eb")
    case True
    have "ma \<le> mb" using assms(2) True by (metis defs div_mult_mod_eq add_le_cancel_left)
    then show ?thesis using True unfolding mag_val_def defs [symmetric] by (auto intro: mult_right_mono)
  next
    case False
    then have lt: "ea + 1 \<le> eb" using ee by simp
    have p52: "real_of_int (2 ^ 52) = 2 powr 52" "real_of_int (2 ^ 53) = 2 powr 53"
      using powr_realpow [of 2 52] powr_realpow [of 2 53] by simp_all
    have "mag_val a \<le> 2 powr (real_of_int ea - 1022)"
    proof (cases "ea = 0")
      case True
      have "real_of_int ma * 2 powr (- 1074) \<le> 2 powr 52 * 2 powr (- 1074)" using bd p52(1) by (intro mult_right_mono; (linarith | simp))
      also have "\<dots> = 2 powr (real_of_int ea - 1022)" using True unfolding powr_add [symmetric] by simp
      finally show ?thesis using True unfolding mag_val_def defs [symmetric] by simp
    next
      case neq: False
      have "real_of_int (2 ^ 52 + ma) * 2 powr (real_of_int ea - 1075) \<le> 2 powr 53 * 2 powr (real_of_int ea - 1075)"
        using bd p52 by (intro mult_right_mono; (linarith | simp))
      also have "\<dots> = 2 powr (real_of_int ea - 1022)" unfolding powr_add [symmetric] by simp
      finally show ?thesis using neq unfolding mag_val_def defs [symmetric] by simp
    qed
    also have "\<dots> \<le> 2 powr (real_of_int eb - 1023)" using lt by simp
    also have "\<dots> = 2 powr 52 * 2 powr (real_of_int eb - 1075)" unfolding powr_add [symmetric] by simp
    also have "\<dots> \<le> real_of_int (2 ^ 52 + mb) * 2 powr (real_of_int eb - 1075)"
      using bd(3) p52(1) by (intro mult_right_mono; (linarith | simp))
    also have "\<dots> = mag_val b" using lt bd(4) unfolding mag_val_def defs [symmetric] by auto
    finally show ?thesis .
  qed
qed

lemma mag_val_nonneg: "0 \<le> m \<Longrightarrow> 0 \<le> mag_val m"
  by (simp add: mag_val_def)

lemma val_mono: "a \<le> b \<Longrightarrow> val a \<le> val b"
  unfolding val_mag less_eq_double_def
  using mag_val_mono [of "ordinal a" "ordinal b"] mag_val_mono [of "- ordinal b" "- ordinal a"]
    mag_val_nonneg [of "- ordinal a"] mag_val_nonneg [of "ordinal b"]
  by (auto simp: abs_if)

section \<open>Monotone arithmetic\<close>

definition finite_double :: "double \<Rightarrow> bool" where
  "finite_double d \<longleftrightarrow> \<bar>ordinal d\<bar> < inf_ordinal"

lemma finite_not_inf: "finite_double d \<Longrightarrow> \<not> is_inf d"
  by (simp add: finite_double_def is_inf_def)

lemma is_double_le:
  "is_double d \<Longrightarrow> d \<le> Dbl inf_ordinal" "is_double d \<Longrightarrow> Dbl (- inf_ordinal) \<le> d"
  by (cases d; simp add: is_double_def less_eq_double_def inf_ordinal_def abs_if split: if_splits)+

lemma round_frac_double: "0 < d \<Longrightarrow> is_double (round_frac n d)"
  using round_mag_nonneg [of n d] round_mag_nonneg [of "- n" d]
  by (auto simp: round_frac_def is_double_def round_mag_def mag_at_def inf_ordinal_def)

lemma val_nonneg: "0 \<le> ordinal d \<Longrightarrow> 0 \<le> val d"
  using mag_val_nonneg by (simp add: val_mag)

lemma val_quot_mult: "real_of_int (num_of a * num_of b) / real_of_int (den_of a * den_of b) = val a * val b"
  by (simp add: val_def)

lemma val_quot_add:
  "real_of_int (num_of a * den_of b + num_of b * den_of a) / real_of_int (den_of a * den_of b) = val a + val b"
proof -
  have "real_of_int (den_of x) \<noteq> 0" for x using den_of_pos [of x] by (metis less_irrefl of_int_eq_0_iff)
  then show ?thesis by (simp add: val_def add_divide_distrib)
qed

lemma fp_mul_mono:
  assumes "finite_double a" "finite_double b" "finite_double s" "0 \<le> ordinal s" "a \<le> b"
  obtains x y where "fp_mul (Some a) (Some s) = Some x" "fp_mul (Some b) (Some s) = Some y"
    "x \<le> y" "is_double x" "is_double y"
proof -
  let ?r = "\<lambda>a. round_frac (num_of a * num_of s) (den_of a * den_of s)"
  have "?r a \<le> ?r b" using val_mono [OF assms(5)] val_nonneg [OF assms(4)]
    by (intro round_frac_mono) (simp_all add: val_quot_mult mult_right_mono del: of_int_mult)
  then show ?thesis using assms(1-3) finite_not_inf
    by (intro that [of "?r a" "?r b"]) (simp_all add: round_frac_double)
qed

lemma fp_add_mono:
  assumes "is_double a" "is_double b" "finite_double c" "a \<le> b"
  obtains x y where "fp_add (Some a) (Some c) = Some x" "fp_add (Some b) (Some c) = Some y"
    "x \<le> y" "is_double x" "is_double y"
proof -
  let ?r = "\<lambda>a. if is_inf a then a else round_frac (num_of a * den_of c + num_of c * den_of a) (den_of a * den_of c)"
  have d: "is_double (?r a)" "is_double (?r b)" using assms(1,2) by (simp_all add: round_frac_double)
  have run: "fp_add (Some a) (Some c) = Some (?r a)" "fp_add (Some b) (Some c) = Some (?r b)"
    using finite_not_inf [OF assms(3)] by auto
  have "?r a \<le> ?r b"
  proof (cases "is_inf a \<or> is_inf b")
    case False
    then show ?thesis using val_mono [OF assms(4)]
      by (simp, intro round_frac_mono) (simp_all add: val_quot_add del: of_int_mult of_int_add)
  next
    case True
    then consider "a = Dbl (- inf_ordinal)" | "b = Dbl inf_ordinal" | "a = Dbl inf_ordinal" | "b = Dbl (- inf_ordinal)"
      by (cases a; cases b) (auto simp: is_inf_def abs_if split: if_splits)
    then show ?thesis
    proof cases
      case 1
      then show ?thesis using is_double_le(2) [OF d(2)] by (simp add: is_inf_def inf_ordinal_def)
    next
      case 2
      then show ?thesis using is_double_le(1) [OF d(1)] by (simp add: is_inf_def inf_ordinal_def)
    next
      case 3
      then have "b = a" using assms(4) is_double_le(1) [OF assms(2)] by simp
      then show ?thesis by simp
    next
      case 4
      then have "a = b" using assms(4) is_double_le(2) [OF assms(1)] by simp
      then show ?thesis by simp
    qed
  qed
  then show ?thesis using that run d by blast
qed


lemma fp_div_mono:
  assumes "is_double a" "is_double b" "finite_double c" "0 < num_of c" "0 < ordinal c" "a \<le> b"
  obtains x y where "fp_div (Some a) (Some c) = Some x" "fp_div (Some b) (Some c) = Some y"
    "x \<le> y" "is_double x" "is_double y"
proof -
  let ?r = "\<lambda>a. if is_inf a then signed_inf (sgn (ordinal a) * sgn (ordinal c)) else round_frac (num_of a * den_of c) (den_of a * num_of c)"
  have inf: "signed_inf (sgn (ordinal x) * sgn (ordinal c)) = x" if "is_inf x" for x
    using that assms(5) by (cases x) (auto simp: is_inf_def signed_inf_def sgn_if inf_ordinal_def abs_if split: if_splits)
  have d: "is_double (?r a)" "is_double (?r b)" using assms(1,2,4) inf by (simp_all add: round_frac_double)
  have run: "fp_div (Some x) (Some c) = Some (?r x)" for x
    using finite_not_inf [OF assms(3)] assms(4,5) by simp
  have "?r a \<le> ?r b"
  proof (cases "is_inf a \<or> is_inf b")
    case False
    have "real_of_int (num_of x * den_of c) / real_of_int (den_of x * num_of c) = val x * (real_of_int (den_of c) / real_of_int (num_of c))" for x
      by (simp add: val_def)
    moreover have "val a * (real_of_int (den_of c) / real_of_int (num_of c)) \<le> val b * (real_of_int (den_of c) / real_of_int (num_of c))"
      using val_mono [OF assms(6)] assms(4) by (intro mult_right_mono) (simp_all add: order_less_imp_le)
    ultimately show ?thesis using False assms(4)
      by (simp, intro round_frac_mono) (simp_all del: of_int_mult)
  next
    case True
    then consider "a = Dbl (- inf_ordinal)" | "b = Dbl inf_ordinal" | "a = Dbl inf_ordinal" | "b = Dbl (- inf_ordinal)"
      by (cases a; cases b) (auto simp: is_inf_def abs_if split: if_splits)
    then show ?thesis
    proof cases
      case 1
      then have "is_inf a" by (simp add: is_inf_def inf_ordinal_def)
      then have "?r a = a" using inf [of a] by simp
      moreover have "a \<le> ?r b" unfolding 1 by (rule is_double_le(2) [OF d(2)])
      ultimately show ?thesis by (rule ord_eq_le_trans)
    next
      case 2
      then have "is_inf b" by (simp add: is_inf_def inf_ordinal_def)
      then have "?r b = b" using inf [of b] by simp
      moreover have "?r a \<le> b" unfolding 2 by (rule is_double_le(1) [OF d(1)])
      ultimately show ?thesis using ord_le_eq_trans [of "?r a" b "?r b"] by (simp only:)
    next
      case 3
      then have "b = a" using assms(6) is_double_le(1) [OF assms(2)] by simp
      then show ?thesis by simp
    next
      case 4
      then have "a = b" using assms(6) is_double_le(2) [OF assms(1)] by simp
      then show ?thesis by simp
    qed
  qed
  then show ?thesis using that run d by blast
qed

definition rtrunc :: "real \<Rightarrow> int" where
  "rtrunc x = (if x < 0 then - \<lfloor>- x\<rfloor> else \<lfloor>x\<rfloor>)"

lemma rtrunc_mono: "x \<le> y \<Longrightarrow> rtrunc x \<le> rtrunc y"
  unfolding rtrunc_def using floor_mono [of x y] floor_mono [of "- y" "- x"]
  by (auto simp: not_less) (metis add.inverse_inverse floor_mono le_minus_iff neg_le_0_iff_le order.trans zero_le_floor less_imp_le)

lemma trunc_frac_val: "0 < d \<Longrightarrow> trunc_frac n d = rtrunc (real_of_int n / real_of_int d)"
proof -
  assume d: "0 < d"
  then have "real_of_int n / real_of_int d < 0 \<longleftrightarrow> n < 0" by (simp add: divide_less_0_iff)
  moreover have "\<lfloor>- (real_of_int n / real_of_int d)\<rfloor> = - n div d"
    using floor_divide_of_int_eq [of "- n" d, where 'a = real] by simp
  ultimately show ?thesis by (simp add: trunc_frac_def rtrunc_def floor_divide_of_int_eq)
qed

lemma to_int64_mono:
  assumes "is_double a" "finite_double b" "num_of b < 2 ^ 63 * den_of b" "a \<le> b"
  shows "fp_to_int64 (Some a) \<le> fp_to_int64 (Some b)"
proof (cases "is_inf a")
  case True
  then show ?thesis using fp_to_int64_range [of "Some b"] by simp
next
  case False
  let ?t = "\<lambda>d. trunc_frac (num_of d) (den_of d)"
  have le: "?t a \<le> ?t b" using rtrunc_mono [OF val_mono [OF assms(4)]] by (simp add: trunc_frac_val val_def)
  have "?t b < 2 ^ 63"
  proof (cases "num_of b < 0")
    case True
    then have "0 \<le> - num_of b div den_of b" using den_of_pos [of b] by (simp add: pos_imp_zdiv_nonneg_iff)
    then show ?thesis using True by (simp add: trunc_frac_def)
  next
    case False
    have "num_of b div den_of b * den_of b \<le> num_of b"
      using pos_mod_sign [OF den_of_pos [of b], of "num_of b"] div_mult_mod_eq [of "num_of b" "den_of b"] by linarith
    then have "num_of b div den_of b * den_of b < 2 ^ 63 * den_of b" using assms(3) by linarith
    then have "num_of b div den_of b < 2 ^ 63" using den_of_pos [of b] by (metis mult_less_cancel_right_pos)
    then show ?thesis using False by (simp add: trunc_frac_def)
  qed
  then show ?thesis using le False finite_not_inf [OF assms(2)] by (auto simp: Let_def)
qed


section \<open>Monotone predictions\<close>

definition raw_fp :: "fp \<Rightarrow> fp \<Rightarrow> fp \<Rightarrow> nat \<Rightarrow> fp" where
  "raw_fp key sl ic n = fp_div (fp_add (fp_add (fp_mul key sl) ic) fp_half) (fp_of_int (int n))"

lemma raw_block_fp: "raw_block key sl ic n = fp_to_int64 (raw_fp key sl ic n)"
  by (simp add: raw_block_def raw_fp_def)

definition is_fin :: "fp \<Rightarrow> bool" where
  "is_fin x = (case x of None \<Rightarrow> False | Some d \<Rightarrow> finite_double d)"

definition bad_fp :: "fp \<Rightarrow> bool" where
  "bad_fp x \<longleftrightarrow> (case x of None \<Rightarrow> True | Some d \<Rightarrow> is_inf d)"

text \<open>
  A model is steady up to \<^verbatim>\<open>hi\<close> when its slope is not negative and the prediction for \<^verbatim>\<open>hi\<close> stays inside
  the range of \<^verbatim>\<open>int64_t\<close>.  A model with an infinite or undefined coefficient always predicts the first block.
\<close>

definition steady :: "fp \<Rightarrow> fp \<Rightarrow> nat \<Rightarrow> double \<Rightarrow> bool" where
  "steady sl ic n hi \<longleftrightarrow> bad_fp sl \<or> bad_fp ic \<or> (is_fin sl \<and> is_fin ic
     \<and> (case sl of None \<Rightarrow> False | Some s \<Rightarrow> 0 \<le> ordinal s)
     \<and> (case raw_fp (Some hi) sl ic n of None \<Rightarrow> False
        | Some r \<Rightarrow> finite_double r \<and> num_of r < 2 ^ 63 * den_of r))"

lemma fp_half_finite: "fp_half = Some h \<Longrightarrow> finite_double h"
  by (auto simp: fp_half_def finite_double_def inf_ordinal_def)

lemma bad_add: "bad_fp x \<Longrightarrow> bad_fp (fp_add x y)" "bad_fp y \<Longrightarrow> bad_fp (fp_add x y)"
  by (cases x; cases y; auto simp: bad_fp_def)+

lemma bad_mul: "bad_fp y \<Longrightarrow> bad_fp (fp_mul x y)"
  by (cases x; cases y) (auto simp: bad_fp_def is_inf_def signed_inf_def sgn_if)

lemma bad_div: "bad_fp x \<Longrightarrow> \<not> bad_fp y \<Longrightarrow> fp_to_int64 (fp_div x y) = - (2 ^ 63)"
  by (cases x; cases y) (auto simp: bad_fp_def is_inf_def signed_inf_def sgn_if)

definition block_width :: "nat \<Rightarrow> bool" where
  "block_width n \<longleftrightarrow> (case fp_of_int (int n) of None \<Rightarrow> False | Some w \<Rightarrow> finite_double w \<and> 0 < num_of w \<and> 0 < ordinal w)"

lemma block_width_8: "block_width InnerSlotsPerBlock" and block_width_16: "block_width LeafSlotsPerBlock"
  by code_simp+

lemma raw_block_degenerate:
  assumes "block_width n" "bad_fp sl \<or> bad_fp ic"
  shows "raw_block key sl ic n = - (2 ^ 63)"
proof -
  have "bad_fp (fp_add (fp_add (fp_mul key sl) ic) fp_half)" using assms(2) bad_add bad_mul by blast
  moreover have "\<not> bad_fp (fp_of_int (int n))" using assms(1)
    by (auto simp: block_width_def bad_fp_def finite_not_inf split: option.splits)
  ultimately show ?thesis unfolding raw_block_def by (rule bad_div)
qed

lemma raw_block_mono:
  assumes w: "block_width n" and st: "steady sl ic n hi"
    and k: "finite_double a" "finite_double b" "finite_double hi" "a \<le> b" "b \<le> hi"
  shows "raw_block (Some a) sl ic n \<le> raw_block (Some b) sl ic n"
proof (cases "bad_fp sl \<or> bad_fp ic")
  case True
  then show ?thesis using raw_block_degenerate [OF w] by simp
next
  case False
  then obtain s c where s: "sl = Some s" "ic = Some c" "finite_double s" "finite_double c" "0 \<le> ordinal s"
    using st by (auto simp: is_fin_def steady_def split: option.splits)
  obtain h where h: "fp_half = Some h" "finite_double h" using fp_half_finite by (auto simp: fp_half_def)
  obtain v where v: "fp_of_int (int n) = Some v" "finite_double v" "0 < num_of v" "0 < ordinal v"
    using w by (auto simp: block_width_def split: option.splits)
  have chain: "\<exists>p q. raw_fp (Some x) sl ic n = Some p \<and> raw_fp (Some y) sl ic n = Some q \<and> p \<le> q \<and> is_double p"
    if x: "finite_double x" "finite_double y" "x \<le> y" for x y
  proof -
    obtain p1 q1 where 1: "fp_mul (Some x) sl = Some p1" "fp_mul (Some y) sl = Some q1" "p1 \<le> q1" "is_double p1" "is_double q1"
      using fp_mul_mono [OF x(1,2) s(3,5) x(3)] s(1) by metis
    obtain p2 q2 where 2: "fp_add (Some p1) ic = Some p2" "fp_add (Some q1) ic = Some q2" "p2 \<le> q2" "is_double p2" "is_double q2"
      using fp_add_mono [OF 1(4,5) s(4) 1(3)] s(2) by metis
    obtain p3 q3 where 3: "fp_add (Some p2) fp_half = Some p3" "fp_add (Some q2) fp_half = Some q3" "p3 \<le> q3" "is_double p3" "is_double q3"
      using fp_add_mono [OF 2(4,5) h(2) 2(3)] h(1) by metis
    obtain p4 q4 where "fp_div (Some p3) (fp_of_int (int n)) = Some p4" "fp_div (Some q3) (fp_of_int (int n)) = Some q4" "p4 \<le> q4" "is_double p4"
      using fp_div_mono [OF 3(4,5) v(2-4) 3(3)] v(1) by metis
    then show ?thesis using 1 2 3 by (simp add: raw_fp_def)
  qed
  from chain [OF k(1,2,4)] obtain p q where pq: "raw_fp (Some a) sl ic n = Some p" "raw_fp (Some b) sl ic n = Some q" "p \<le> q" "is_double p" by blast
  from chain [OF k(2,3,5)] pq obtain r where r: "raw_fp (Some hi) sl ic n = Some r" "q \<le> r" "is_double q" by auto
  have rr: "finite_double r" "num_of r < 2 ^ 63 * den_of r" using st False r(1) by (simp_all add: steady_def)
  show ?thesis
  proof (cases "is_inf q")
    case True
    then have "q = Dbl (- inf_ordinal)" using r(2) rr(1)
      by (cases q; cases r) (auto simp: is_inf_def finite_double_def abs_if split: if_splits)
    then have "p = q" using pq(3) is_double_le(2) [OF pq(4)] by simp
    then show ?thesis using pq by (simp add: raw_block_fp)
  next
    case fin: False
    have "val q < 2 ^ 63"
    proof -
      have "real_of_int (num_of r) < real_of_int (2 ^ 63 * den_of r)" using rr(2) by (rule of_int_less_iff [THEN iffD2])
      then have "val r < 2 ^ 63" using den_of_pos [of r] by (simp add: val_def divide_less_eq)
      then show ?thesis using val_mono [OF r(2)] by linarith
    qed
    then have "real_of_int (num_of q) < real_of_int (2 ^ 63 * den_of q)" using den_of_pos [of q] by (simp add: val_def divide_less_eq)
    then have "num_of q < 2 ^ 63 * den_of q" by (simp only: of_int_less_iff)
    moreover have "finite_double q" using fin r(3) by (simp add: finite_double_def is_inf_def is_double_def)
    ultimately show ?thesis using to_int64_mono [OF pq(4) _ _ pq(3)] pq(1,2) by (simp add: raw_block_fp)
  qed
qed


lemma clamp_block_mono:
  assumes "uint g \<le> uint bn" "0 < uint u" "uint u < uint g" "p \<le> q"
  shows "uint (clamp_block g u bn p) \<le> uint (clamp_block g u bn q)"
proof -
  have sub: "uint (bn - x) = uint bn - uint x" if "uint x \<le> uint bn" for x :: u32
    using that by (simp add: uint_sub_if')
  have b: "uint bn < 2 ^ 32" using unsigned_less [of bn, where 'a = int] by simp
  have s: "uint (bn - g) = uint bn - uint g" "uint (bn - u) = uint bn - uint u" using sub assms by simp_all
  have w: "uint (of_int (x + 1) :: u32) = x + 1" if "0 \<le> x" "x \<le> uint (bn - g)" for x
    using that b s(1) assms by (subst uint_word_of_int) simp
  show ?thesis
    using assms s w [of p] w [of q] by (auto simp: clamp_block_def not_less)
qed

lemma inner_predict_mono:
  assumes "4 \<le> uint bn" "steady sl ic InnerSlotsPerBlock hi" "finite_double a" "finite_double b" "finite_double hi" "a \<le> b" "b \<le> hi"
  shows "unat (inner_predict_block (Some a) sl ic bn) \<le> unat (inner_predict_block (Some b) sl ic bn)"
proof -
  have "uint (inner_predict_block (Some a) sl ic bn) \<le> uint (inner_predict_block (Some b) sl ic bn)"
    unfolding inner_predict_block_def
    by (rule clamp_block_mono) (use assms raw_block_mono [OF block_width_8 assms(2-7)] in simp_all)
  moreover have "int (unat w) = uint w" for w :: u32 by simp
  ultimately show ?thesis by (metis of_nat_le_iff)
qed

end
