(* ===== verification/Inner_Correct.thy ===== *)
theory Inner_Correct
  imports Inner_Node Float_Mono
begin

text \<open>
  Model-based placement keeps the slots of an inner node in key order, and the search from the
  predicted slot finds the child responsible for a key, provided the predictions are monotone.
\<close>

definition live :: "InnerSlot list \<Rightarrow> InnerSlot list" where
  "live ss = filter (\<lambda>s. \<not> is_free s) ss"

text \<open>Every occupied slot is reached from its predicted block without meeting a free slot.\<close>

definition packed :: "(double \<Rightarrow> nat) \<Rightarrow> InnerSlot list \<Rightarrow> bool" where
  "packed p ss \<longleftrightarrow> (\<forall>q<length ss. \<not> is_free (ss ! q) \<longrightarrow> 8 * p (min_key (ss ! q)) \<le> q
     \<and> (\<forall>r. 8 * p (min_key (ss ! q)) \<le> r \<longrightarrow> r \<le> q \<longrightarrow> \<not> is_free (ss ! r)))"

lemma packedD:
  assumes "packed p ss" "q < length ss" "\<not> is_free (ss ! q)"
  shows "8 * p (min_key (ss ! q)) \<le> q" "8 * p (min_key (ss ! q)) \<le> r \<Longrightarrow> r \<le> q \<Longrightarrow> \<not> is_free (ss ! r)"
  using assms by (auto simp: packed_def)

lemma packed_free [simp]: "packed p (replicate n free_slot)" "live (replicate n free_slot) = []"
  by (auto simp: packed_def is_free_def free_slot_def live_def)

section \<open>Placement\<close>

lemma first_free_Some:
  "first_free ss a n = Some i \<Longrightarrow> a \<le> i \<and> i < a + n \<and> is_free (ss ! i) \<and> (\<forall>r. a \<le> r \<longrightarrow> r < i \<longrightarrow> \<not> is_free (ss ! r))"
proof (induction ss a n rule: first_free.induct)
  case (2 ss a n)
  show ?case
  proof (cases "is_free (ss ! a)")
    case False
    then have "Suc a \<le> i \<and> i < Suc a + n \<and> is_free (ss ! i) \<and> (\<forall>r. Suc a \<le> r \<longrightarrow> r < i \<longrightarrow> \<not> is_free (ss ! r))"
      using 2 by simp
    moreover have "\<not> is_free (ss ! r)" if "a \<le> r" "r < i" for r
      using calculation False that by (cases "r = a") auto
    ultimately show ?thesis by auto
  qed (use 2 in auto)
qed simp

lemma first_free_None: "first_free ss a n = None \<Longrightarrow> a \<le> r \<Longrightarrow> r < a + n \<Longrightarrow> \<not> is_free (ss ! r)"
proof (induction ss a n rule: first_free.induct)
  case (2 ss a n)
  then show ?case by (cases "r = a") (auto split: if_splits)
qed simp

lemma live_snoc:
  assumes "q < length ss" "is_free (ss ! q)" "\<And>r. q < r \<Longrightarrow> r < length ss \<Longrightarrow> is_free (ss ! r)" "\<not> is_free x"
  shows "live (ss[q := x]) = live ss @ [x]"
proof -
  have e: "ss = take q ss @ ss ! q # drop (Suc q) ss" using assms(1) by (simp add: id_take_nth_drop)
  have "\<forall>s\<in>set (drop (Suc q) ss). is_free s"
    using assms(3) by (auto simp: in_set_conv_nth)
  then have n: "live (drop (Suc q) ss) = []" by (simp add: live_def filter_empty_conv)
  have "live ss = live (take q ss)" using assms(2) n by (subst e) (simp add: live_def)
  moreover have "live (ss[q := x]) = live (take q ss) @ [x]"
    using assms(1,4) n by (simp add: upd_conv_take_nth_drop live_def)
  ultimately show ?thesis by simp
qed

lemma nth_live: "q < length ss \<Longrightarrow> \<not> is_free (ss ! q) \<Longrightarrow> ss ! q \<in> set (live ss)"
  by (simp add: live_def)

lemma place_slot:
  assumes p: "packed p ss" and old: "\<forall>s\<in>set (live ss). p (min_key s) \<le> p (min_key x)" and x: "\<not> is_free x"
    and q: "q < length ss" "is_free (ss ! q)" "8 * p (min_key x) \<le> q"
      "\<And>r. 8 * p (min_key x) \<le> r \<Longrightarrow> r < q \<Longrightarrow> \<not> is_free (ss ! r)"
  shows "packed p (ss[q := x]) \<and> live (ss[q := x]) = live ss @ [x]"
proof
  have free: "is_free (ss ! r)" if "q < r" "r < length ss" for r
  proof (rule ccontr)
    assume r: "\<not> is_free (ss ! r)"
    have "p (min_key (ss ! r)) \<le> p (min_key x)" using old nth_live [OF that(2) r] by simp
    then have "8 * p (min_key (ss ! r)) \<le> q" using q(3) by linarith
    then show False using packedD(2) [OF p that(2) r, of q] that(1) q(2) by simp
  qed
  show "live (ss[q := x]) = live ss @ [x]" by (rule live_snoc [OF q(1,2) free x])
  show "packed p (ss[q := x])"
    unfolding packed_def
  proof (intro allI impI)
    fix r assume r: "r < length (ss[q := x])" "\<not> is_free (ss[q := x] ! r)"
    show "8 * p (min_key (ss[q := x] ! r)) \<le> r \<and> (\<forall>t. 8 * p (min_key (ss[q := x] ! r)) \<le> t \<longrightarrow> t \<le> r \<longrightarrow> \<not> is_free (ss[q := x] ! t))"
    proof (cases "r = q")
      case True
      then show ?thesis using q x by (auto simp: nth_list_update)
    next
      case False
      then have "\<not> is_free (ss ! r)" "r < q" using r free [of r] by (cases "r < q"; auto)+
      then show ?thesis using packedD [OF p, of r] r q(1) by (auto simp: nth_list_update)
    qed
  qed
qed

section \<open>Search\<close>

lemma search_left_ok:
  assumes "n \<le> length ss" "q0 < n" "\<not> is_free (ss ! q0)"
  shows "\<exists>q. search_left ss n = Inr q \<and> q < n \<and> q0 \<le> q \<and> \<not> is_free (ss ! q) \<and> (\<forall>r. q < r \<longrightarrow> r < n \<longrightarrow> is_free (ss ! r))"
  using assms
proof (induction n)
  case (Suc n)
  show ?case
  proof (cases "is_free (ss ! n)")
    case True
    then have "q0 < n" using Suc.prems by (cases "q0 = n") auto
    then obtain q where "search_left ss n = Inr q" "q < n" "q0 \<le> q" "\<not> is_free (ss ! q)" "\<forall>r. q < r \<longrightarrow> r < n \<longrightarrow> is_free (ss ! r)"
      using Suc by auto
    then show ?thesis using True Suc.prems by (auto simp: less_Suc_eq)
  next
    case False
    then show ?thesis using Suc.prems by auto
  qed
qed simp

lemma search_right_ok:
  assumes "slot + n = length ss" "0 < slot"
  shows "\<exists>q. search_right ss k slot n = Inr q \<and> slot - 1 \<le> q \<and> q < length ss
    \<and> (\<forall>r. slot \<le> r \<longrightarrow> r \<le> q \<longrightarrow> \<not> is_free (ss ! r) \<and> min_key (ss ! r) \<le> k)
    \<and> (Suc q < length ss \<longrightarrow> is_free (ss ! Suc q) \<or> k < min_key (ss ! Suc q))"
  using assms
proof (induction ss k slot n rule: search_right.induct)
  case (1 ss k slot)
  then have "\<not> (slot \<le> r \<and> r \<le> slot - 1)" for r by arith
  then show ?case using 1 by (intro exI [of _ "slot - 1"]) auto
next
  case (2 ss k slot n)
  show ?case
  proof (cases "\<not> is_free (ss ! slot) \<and> k \<ge> min_key (ss ! slot)")
    case True
    then obtain q where q: "search_right ss k (Suc slot) n = Inr q" "slot \<le> q" "q < length ss"
      "\<forall>r. Suc slot \<le> r \<longrightarrow> r \<le> q \<longrightarrow> \<not> is_free (ss ! r) \<and> min_key (ss ! r) \<le> k"
      "Suc q < length ss \<longrightarrow> is_free (ss ! Suc q) \<or> k < min_key (ss ! Suc q)" using 2 by auto
    have "\<not> is_free (ss ! r) \<and> min_key (ss ! r) \<le> k" if "slot \<le> r" "r \<le> q" for r
      using q(4) that True by (cases "r = slot") auto
    then show ?thesis using q True "2.prems" by auto
  next
    case False
    then show ?thesis using "2.prems" by (auto simp: not_le)
  qed
qed


definition key_sorted :: "InnerSlot list \<Rightarrow> bool" where
  "key_sorted = sorted_wrt (\<lambda>a b. min_key a < min_key b)"

lemma live_sorted_nth:
  assumes "key_sorted (live ss)" "q < r" "r < length ss" "\<not> is_free (ss ! q)" "\<not> is_free (ss ! r)"
  shows "min_key (ss ! q) < min_key (ss ! r)"
proof -
  have "live ss = live (take r ss) @ live (drop r ss)" by (metis append_take_drop_id filter_append live_def)
  moreover have "ss ! q \<in> set (live (take r ss))" using assms(2-4) by (auto simp: live_def in_set_conv_nth intro!: exI [of _ q])
  moreover have "ss ! r \<in> set (live (drop r ss))" using assms(3,5) by (auto simp: live_def in_set_conv_nth intro!: exI [of _ 0])
  ultimately show ?thesis using assms(1) by (simp add: key_sorted_def sorted_wrt_append)
qed

text \<open>
  The slot that is found has the largest key not above the searched one.  The predictions need to be
  monotone only on the keys of the node and the searched key.
\<close>

definition routes_to :: "InnerSlot list \<Rightarrow> double \<Rightarrow> InnerSlot \<Rightarrow> bool" where
  "routes_to xs k s \<longleftrightarrow> s \<in> set xs \<and> min_key s \<le> k \<and> (\<forall>t\<in>set xs. min_key t \<le> k \<longrightarrow> min_key t \<le> min_key s)"

definition predicts :: "InnerSlot \<Rightarrow> double \<Rightarrow> nat" where
  "predicts acc k = unat (inner_predict_block (Some k) (slope acc) (intercept acc) (block_number acc))"

definition searchable :: "(double \<Rightarrow> nat) \<Rightarrow> InnerSlot list \<Rightarrow> double \<Rightarrow> bool" where
  "searchable p ss k \<longleftrightarrow> packed p ss \<and> key_sorted (live ss) \<and> (\<exists>s\<in>set (live ss). min_key s \<le> k)
     \<and> (\<forall>s\<in>set (live ss). (min_key s \<le> k \<longrightarrow> p (min_key s) \<le> p k) \<and> (k \<le> min_key s \<longrightarrow> p k \<le> p (min_key s)))"

lemma searchableD:
  assumes "searchable p ss k" "q < length ss" "\<not> is_free (ss ! q)"
  shows "8 * p (min_key (ss ! q)) \<le> q" "8 * p (min_key (ss ! q)) \<le> r \<Longrightarrow> r \<le> q \<Longrightarrow> \<not> is_free (ss ! r)"
    "min_key (ss ! q) \<le> k \<Longrightarrow> p (min_key (ss ! q)) \<le> p k" "k \<le> min_key (ss ! q) \<Longrightarrow> p k \<le> p (min_key (ss ! q))"
    "r < q \<Longrightarrow> \<not> is_free (ss ! r) \<Longrightarrow> min_key (ss ! r) < min_key (ss ! q)"
  using packedD [of p ss q] live_sorted_nth [of ss r q] nth_live [OF assms(2,3)] assms by (auto simp: searchable_def)

lemma routes_toI:
  assumes so: "key_sorted (live ss)" and q: "q < length ss" "\<not> is_free (ss ! q)" "min_key (ss ! q) \<le> k"
    and gap: "\<And>r. q < r \<Longrightarrow> r < length ss \<Longrightarrow> \<not> is_free (ss ! r) \<Longrightarrow> k < min_key (ss ! r)"
  shows "routes_to (live ss) k (ss ! q)"
  unfolding routes_to_def
proof (intro conjI ballI impI)
  fix t assume t: "t \<in> set (live ss)" "min_key t \<le> k"
  then obtain r where r: "r < length ss" "ss ! r = t" "\<not> is_free t" by (auto simp: live_def in_set_conv_nth)
  then have "r \<le> q" using gap [of r] t(2) by (meson leD leI)
  then show "min_key t \<le> min_key (ss ! q)" using live_sorted_nth [OF so, of r q] r q by (cases "r = q") auto
qed (use q nth_live in auto)

text \<open>Behind a slot that is free, or holds a larger key, all keys are larger.\<close>

lemma above_slot:
  assumes sr: "searchable p ss k" and s: "8 * p k \<le> s" "is_free (ss ! s) \<or> k < min_key (ss ! s)"
    and r: "s \<le> r" "r < length ss" "\<not> is_free (ss ! r)"
  shows "k < min_key (ss ! r)"
proof (rule ccontr)
  assume "\<not> k < min_key (ss ! r)"
  then have le: "min_key (ss ! r) \<le> k" by simp
  note d = searchableD [OF sr r(2,3)]
  have nf: "\<not> is_free (ss ! s)" using d(2) [of s] d(3) [OF le] s(1) r(1) by simp
  then have "k < min_key (ss ! s)" using s(2) by simp
  moreover have "min_key (ss ! s) \<le> min_key (ss ! r)" using d(5) [of s] nf r(1) by (cases "r = s") auto
  ultimately show False using le by simp
qed

lemma locate_left:
  assumes sr: "searchable p ss k" and s: "8 * p k < length ss" "is_free (ss ! (8 * p k)) \<or> k < min_key (ss ! (8 * p k))"
  shows "\<exists>q. search_left ss (8 * p k) = Inr q \<and> q < length ss \<and> routes_to (live ss) k (ss ! q)"
proof -
  let ?s = "8 * p k"
  note above = above_slot [OF sr order_refl s(2)]
  obtain q0 where q0: "q0 < length ss" "\<not> is_free (ss ! q0)" "min_key (ss ! q0) \<le> k"
    using sr by (auto simp: searchable_def live_def in_set_conv_nth)
  then have "q0 < ?s" using above by (meson leD leI)
  from search_left_ok [OF _ this q0(2)] s obtain q where q: "search_left ss ?s = Inr q" "q < ?s" "\<not> is_free (ss ! q)"
    "\<forall>r. q < r \<longrightarrow> r < ?s \<longrightarrow> is_free (ss ! r)" by auto
  then have ql: "q < length ss" using s(1) by simp
  have "min_key (ss ! q) \<le> k"
    using searchableD(1,4) [OF sr ql q(3)] q(2) by (metis leD le_cases mult_le_mono2 order.trans)
  moreover have "k < min_key (ss ! r)" if "q < r" "r < length ss" "\<not> is_free (ss ! r)" for r
    using above [of r] q(4) that by (meson leI)
  ultimately show ?thesis using routes_toI [of ss q k] sr q ql by (auto simp: searchable_def)
qed

lemma locate_right:
  assumes sr: "searchable p ss k" and s: "8 * p k < length ss" "\<not> is_free (ss ! (8 * p k))" "min_key (ss ! (8 * p k)) \<le> k"
  shows "\<exists>q. search_right ss k (8 * p k) (length ss - 8 * p k) = Inr q \<and> q < length ss \<and> routes_to (live ss) k (ss ! q)"
proof -
  let ?s = "8 * p k"
  have "Suc ?s + (length ss - Suc ?s) = length ss" using s(1) by linarith
  from search_right_ok [OF this, of k] obtain q where
    q: "search_right ss k (Suc ?s) (length ss - Suc ?s) = Inr q" "?s \<le> q" "q < length ss"
    "\<forall>r. Suc ?s \<le> r \<longrightarrow> r \<le> q \<longrightarrow> \<not> is_free (ss ! r) \<and> min_key (ss ! r) \<le> k"
    "Suc q < length ss \<longrightarrow> is_free (ss ! Suc q) \<or> k < min_key (ss ! Suc q)" by auto
  have qq: "\<not> is_free (ss ! q)" "min_key (ss ! q) \<le> k" using q(2,4) s by (cases "q = ?s"; auto)+
  have "k < min_key (ss ! r)" if "q < r" "r < length ss" "\<not> is_free (ss ! r)" for r
    using above_slot [OF sr, of "Suc q" r] q(2,5) that by auto
  then have "routes_to (live ss) k (ss ! q)" using routes_toI [OF _ q(3) qq] sr by (auto simp: searchable_def)
  moreover have "search_right ss k ?s (length ss - ?s) = Inr q"
    using q(1) s by (simp add: Suc_diff_Suc [symmetric])
  ultimately show ?thesis using q(3) by blast
qed

lemma inner_locate_ok:
  assumes sr: "searchable (predicts acc) ss k" and bn: "4 \<le> uint (block_number acc)" "unat (block_number acc) < 2 ^ 29"
    and len: "length ss = unat (block_number acc) * 8"
  shows "\<exists>q. inner_locate ss k acc = Inr (8 * predicts acc k, q) \<and> q < length ss \<and> routes_to (live ss) k (ss ! q)"
proof -
  have e: "int (unat w) = uint w" for w :: u32 by simp
  have "uint (inner_predict_block (Some k) (slope acc) (intercept acc) (block_number acc)) < uint (block_number acc)"
    by (rule inner_predict_block_bound [OF bn(1)])
  then have "predicts acc k < unat (block_number acc)" unfolding predicts_def using e by (metis of_nat_less_iff)
  then have s: "8 * predicts acc k < length ss" using len by simp
  have n8: "unat (block_number acc * 8) = length ss" using bn(2) len by (simp add: unat_word_ariths)
  show ?thesis using locate_left [OF sr s] locate_right [OF sr s] s n8
    by (auto simp: inner_locate_def Let_def predicts_def InnerSlotsPerBlock_def mult.commute not_less)
qed

section \<open>A node built from its children\<close>

definition node_predicts :: "InnerNode \<Rightarrow> double \<Rightarrow> nat" where
  "node_predicts nd k = unat (inner_predict_block (Some k) (inner_slope nd) (inner_intercept nd) (inner_block_number nd))"

lemma inner_data_placement_alt:
  "inner_data_placement key x nd =
     (let slot = 8 * node_predicts nd key; total = unat (inner_block_number nd) * 8; ss = inner_slots nd in
      if length ss < slot + 8 \<or> length ss < total then Inl OutOfBounds
      else case first_free ss slot 8 of Some i \<Rightarrow> Inr (nd\<lparr>inner_slots := ss[i := x]\<rparr>)
        | None \<Rightarrow> (case first_free ss (slot + 8) (total - (slot + 8)) of
            Some i \<Rightarrow> Inr (nd\<lparr>inner_slots := ss[i := x]\<rparr>) | None \<Rightarrow> Inl AssertFail))"
  unfolding inner_data_placement_def InnerSlotsPerBlock_def Let_def node_predicts_def by (simp only: mult.commute [of 8])

lemma inner_data_placement_ok:
  assumes run: "inner_data_placement (min_key x) x nd = Inr nd'"
    and pk: "packed (node_predicts nd) (inner_slots nd)"
    and old: "\<forall>s\<in>set (live (inner_slots nd)). node_predicts nd (min_key s) \<le> node_predicts nd (min_key x)" and x: "\<not> is_free x"
  shows "\<exists>ss. nd' = nd\<lparr>inner_slots := ss\<rparr> \<and> packed (node_predicts nd) ss \<and> live ss = live (inner_slots nd) @ [x]
    \<and> length ss = length (inner_slots nd)"
proof -
  let ?ss = "inner_slots nd" and ?s = "8 * node_predicts nd (min_key x)"
  let ?t = "unat (inner_block_number nd) * 8"
  have fits: "?s + 8 \<le> length ?ss" "?t \<le> length ?ss"
    using run by (auto simp: inner_data_placement_alt Let_def split: if_splits)
  have "\<exists>q. nd' = nd\<lparr>inner_slots := ?ss[q := x]\<rparr> \<and> q < length ?ss \<and> is_free (?ss ! q) \<and> ?s \<le> q
      \<and> (\<forall>r. ?s \<le> r \<longrightarrow> r < q \<longrightarrow> \<not> is_free (?ss ! r))"
  proof (cases "first_free ?ss ?s 8")
    case (Some q)
    then have "nd' = nd\<lparr>inner_slots := ?ss[q := x]\<rparr>"
      using run fits by (simp add: inner_data_placement_alt Let_def)
    then show ?thesis using first_free_Some [OF Some] fits by (intro exI [of _ q]) auto
  next
    case None
    then obtain q where q: "first_free ?ss (?s + 8) (?t - (?s + 8)) = Some q" "nd' = nd\<lparr>inner_slots := ?ss[q := x]\<rparr>"
      using run fits by (auto simp: inner_data_placement_alt Let_def split: option.splits)
    note f = first_free_Some [OF q(1)]
    have "\<not> is_free (?ss ! r)" if "?s \<le> r" "r < q" for r
      using first_free_None [OF None that(1)] f that by (cases "r < ?s + 8") auto
    then show ?thesis using f fits q(2) by (intro exI [of _ q]) auto
  qed
  then obtain q where q: "nd' = nd\<lparr>inner_slots := ?ss[q := x]\<rparr>" "q < length ?ss" "is_free (?ss ! q)" "?s \<le> q"
    "\<forall>r. ?s \<le> r \<longrightarrow> r < q \<longrightarrow> \<not> is_free (?ss ! r)" by blast
  from place_slot [OF pk old x q(2-4)] q(5) show ?thesis using q(1) by auto
qed

text \<open>The children in key order, with their keys.\<close>

definition with_keys :: "InnerSlot list \<Rightarrow> (double \<times> InnerSlot) list" where
  "with_keys xs = map (\<lambda>x. (min_key x, x)) xs"

definition pred_mono :: "(double \<Rightarrow> nat) \<Rightarrow> double list \<Rightarrow> bool" where
  "pred_mono p ks \<longleftrightarrow> sorted_wrt (\<lambda>a b. p a \<le> p b) ks"

lemma inner_place_all_ok:
  assumes "inner_place_all (with_keys xs) nd = Inr nd'" "packed (node_predicts nd) (inner_slots nd)"
    "pred_mono (node_predicts nd) (map min_key (live (inner_slots nd) @ xs))" "\<forall>x\<in>set xs. \<not> is_free x"
  shows "\<exists>ss. nd' = nd\<lparr>inner_slots := ss\<rparr> \<and> packed (node_predicts nd) ss \<and> live ss = live (inner_slots nd) @ xs
    \<and> length ss = length (inner_slots nd)"
  using assms
proof (induction xs arbitrary: nd)
  case Nil
  then have "nd' = nd\<lparr>inner_slots := inner_slots nd\<rparr>" by (simp add: with_keys_def)
  then show ?case using Nil.prems(2) by (intro exI [of _ "inner_slots nd"]) simp
next
  case (Cons x xs)
  then obtain nd1 where nd1: "inner_data_placement (min_key x) x nd = Inr nd1" "inner_place_all (with_keys xs) nd1 = Inr nd'"
    by (auto simp: with_keys_def bind_res_Inr_iff)
  have old: "\<forall>s\<in>set (live (inner_slots nd)). node_predicts nd (min_key s) \<le> node_predicts nd (min_key x)"
    using Cons.prems(3) by (auto simp: pred_mono_def sorted_wrt_append)
  from inner_data_placement_ok [OF nd1(1) Cons.prems(2) old] Cons.prems(4) obtain ss where
    ss: "nd1 = nd\<lparr>inner_slots := ss\<rparr>" "packed (node_predicts nd) ss" "live ss = live (inner_slots nd) @ [x]"
    "length ss = length (inner_slots nd)" by auto
  have p: "node_predicts nd1 = node_predicts nd" by (simp add: fun_eq_iff node_predicts_def ss(1))
  have "inner_slots nd1 = ss" by (simp add: ss(1))
  then obtain ss' where "nd' = nd1\<lparr>inner_slots := ss'\<rparr>" "packed (node_predicts nd) ss'" "live ss' = live ss @ xs" "length ss' = length ss"
    using Cons.IH [OF nd1(2)] Cons.prems(3,4) ss p by auto
  then show ?case using ss by auto
qed

lemma inner_place_all_frame: "inner_place_all kss nd = Inr nd' \<Longrightarrow> \<exists>ss. nd' = nd\<lparr>inner_slots := ss\<rparr>"
proof (induction kss nd rule: inner_place_all.induct)
  case (1 nd)
  then show ?case by (intro exI [of _ "inner_slots nd"]) simp
next
  case (2 k s kss nd)
  then obtain nd1 where nd1: "inner_data_placement k s nd = Inr nd1" "inner_place_all kss nd1 = Inr nd'"
    by (auto simp: bind_res_Inr_iff)
  moreover have "\<exists>ss. nd1 = nd\<lparr>inner_slots := ss\<rparr>"
    using nd1(1) by (auto simp: inner_data_placement_alt Let_def split: if_splits option.splits)
  ultimately show ?case using "2.IH" by fastforce
qed

lemma with_keys_zip:
  "map min_key nodes = keys \<Longrightarrow> take n (drop m (zip keys nodes)) = with_keys (take n (drop m nodes))"
proof -
  assume "map min_key nodes = keys"
  then have "zip keys nodes = with_keys nodes" by (auto simp: with_keys_def zip_map1 zip_same_conv_map)
  then show ?thesis by (simp add: with_keys_def take_map drop_map)
qed

text \<open>What a node promises its parent: its slots are its children, and the accelerator predicts like the node.\<close>

definition inner_node_ok :: "InnerNode \<Rightarrow> InnerSlot \<Rightarrow> InnerSlot list \<Rightarrow> bool" where
  "inner_node_ok nd acc xs \<longleftrightarrow> packed (predicts acc) (inner_slots nd) \<and> live (inner_slots nd) = xs
     \<and> 4 \<le> uint (block_number acc) \<and> unat (block_number acc) < 2 ^ 29 \<and> length (inner_slots nd) = unat (block_number acc) * 8"

lemma inner_blank_fields:
  "inner_slots (inner_blank bn keys number start sl ic lvl) = replicate (unat bn * 8) free_slot"
  "inner_block_number (inner_blank bn keys number start sl ic lvl) = ucast bn"
  "inner_first_key (inner_blank bn keys number start sl ic lvl) = keys ! start"
  by (simp_all add: inner_blank_def Let_def split: prod.split)

lemma inner_accelerator_ok:
  assumes "inner_accelerator this nd acc = Inr s"
  shows "block_number s = inner_block_number nd" "slot_type s = 1" "ptr s = this" "min_key s = inner_first_key nd"
    "slope s = inner_slope nd" "intercept s = inner_intercept nd"
proof -
  let ?n = "inner_block_number nd"
  let ?s = "acc\<lparr>min_key := inner_first_key nd, ptr := this, slope := inner_slope nd, intercept := inner_intercept nd\<rparr>"
  have n: "uint ?n < 2 ^ 29" and s: "s = init_lock (set_type 1 (put_block_number ?n ?s))"
    using assms by (auto simp: inner_accelerator_def set_block_number_def split: if_splits)
  from n have "take_bit 29 ?n = ?n" by (simp add: word_uint_eq_iff unsigned_take_bit_eq take_bit_int_eq_self)
  then show "block_number s = ?n" by (simp add: s block_number_put_block_number)
  show "slot_type s = 1" by (simp add: s)
  show "ptr s = this" "min_key s = inner_first_key nd" "slope s = inner_slope nd" "intercept s = inner_intercept nd"
    by (simp_all add: s init_lock_def set_type_def put_block_number_def)
qed

lemma inner_new_ok:
  fixes bn :: u64
  assumes run: "inner_new this acc bn keys nodes number start sl ic lvl = Inr (nd, s)"
    and bn: "4 \<le> unat bn" "unat bn < 2 ^ 29" and keys: "map min_key nodes = keys" "\<forall>x\<in>set nodes. \<not> is_free x"
    and mono: "pred_mono (predicts s) (map min_key (take number (drop start nodes)))"
  shows "inner_node_ok nd s (take number (drop start nodes))" "slot_type s = 1" "ptr s = this" "min_key s = keys ! start"
proof -
  let ?xs = "take number (drop start nodes)" and ?b = "inner_blank bn keys number start sl ic lvl"
  have place: "inner_place_all (with_keys ?xs) ?b = Inr nd" and acc: "inner_accelerator this nd acc = Inr s"
    using run keys(1) by (auto simp: inner_new_def bind_res_Inr_iff with_keys_zip split: if_splits)
  note s = inner_accelerator_ok [OF acc] and b = inner_blank_fields [of bn keys number start sl ic lvl]
  obtain ss0 where ss0: "nd = ?b\<lparr>inner_slots := ss0\<rparr>" using inner_place_all_frame [OF place] by blast
  have p: "node_predicts ?b = predicts s"
    by (simp add: fun_eq_iff node_predicts_def predicts_def s ss0)
  have fr': "\<forall>x\<in>set ?xs. \<not> is_free x" using keys(2) by (meson in_set_dropD in_set_takeD)
  have "\<exists>ss. nd = ?b\<lparr>inner_slots := ss\<rparr> \<and> packed (node_predicts ?b) ss \<and> live ss = live (inner_slots ?b) @ ?xs
      \<and> length ss = length (inner_slots ?b)"
    by (rule inner_place_all_ok [OF place]) (use mono fr' in \<open>simp_all add: b p\<close>)
  then obtain ss where ss: "nd = ?b\<lparr>inner_slots := ss\<rparr>" "packed (predicts s) ss" "live ss = ?xs" "length ss = unat bn * 8"
    by (auto simp: b p)
  have "unat (block_number s) = unat bn" using bn(2) by (simp add: s ss(1) b unsigned_ucast_eq take_bit_nat_eq_self)
  moreover have e: "uint (block_number s) = int (unat (block_number s))" by simp
  have "int 4 \<le> int (unat bn)" using bn(1) by (rule of_nat_mono)
  then have "4 \<le> int (unat bn)" unfolding of_nat_numeral .
  then have "4 \<le> uint (block_number s)" unfolding e calculation .
  ultimately show "inner_node_ok nd s ?xs" using bn ss by (simp add: inner_node_ok_def)
  show "slot_type s = 1" "ptr s = this" "min_key s = keys ! start" by (simp_all add: s ss(1) b)
qed

end
