(* ===== verification/Inner_Tree.thy ===== *)
theory Inner_Tree
  imports Inner_Correct
begin

text \<open>
  Several levels of inner nodes: \<^verbatim>\<open>find_leaf_node\<close> from an accelerator reaches the leaf slot with the largest
  key not above the searched one.
\<close>

section \<open>Trees of accelerators\<close>

text \<open>
  \<^verbatim>\<open>inner_tree ins d acc xs\<close>: below the accelerator there are \<^verbatim>\<open>d\<close> levels of inner nodes, whose leaf slots
  in order are \<^verbatim>\<open>xs\<close>.
\<close>

fun inner_tree :: "inners \<Rightarrow> nat \<Rightarrow> InnerSlot \<Rightarrow> InnerSlot list \<Rightarrow> bool" where
  "inner_tree ins 0 acc xs \<longleftrightarrow> xs = [acc] \<and> slot_type acc = 0"
| "inner_tree ins (Suc d) acc xs \<longleftrightarrow> slot_type acc \<noteq> 0 \<and> (\<exists>nd cs yss. ins (ptr acc) = Some nd \<and> slope acc = inner_slope nd \<and> intercept acc = inner_intercept nd \<and> inner_node_ok nd acc cs
     \<and> cs \<noteq> [] \<and> min_key acc = min_key (hd cs) \<and> list_all2 (inner_tree ins d) cs yss \<and> xs = concat yss)"

text \<open>All inner nodes predict monotonically up to \<^verbatim>\<open>hi\<close>.\<close>

definition steady_slot :: "double \<Rightarrow> InnerSlot \<Rightarrow> bool" where
  "steady_slot hi s \<longleftrightarrow> steady (slope s) (intercept s) InnerSlotsPerBlock hi"

definition steady_heap :: "double \<Rightarrow> inners \<Rightarrow> bool" where
  "steady_heap hi ins \<longleftrightarrow> (\<forall>a nd. ins a = Some nd \<longrightarrow> steady (inner_slope nd) (inner_intercept nd) InnerSlotsPerBlock hi)"

lemma inner_tree_steady: "inner_tree ins (Suc d) acc xs \<Longrightarrow> steady_heap hi ins \<Longrightarrow> steady_slot hi acc"
  by (auto simp: steady_slot_def steady_heap_def)

lemma inner_tree_head: "inner_tree ins d acc xs \<Longrightarrow> xs \<noteq> [] \<and> min_key (hd xs) = min_key acc"
proof (induction d arbitrary: acc xs)
  case (Suc d)
  then obtain cs yss where cs: "cs \<noteq> []" "min_key acc = min_key (hd cs)" "list_all2 (inner_tree ins d) cs yss" "xs = concat yss"
    by auto
  then obtain c cs' ys yss' where e: "cs = c # cs'" "yss = ys # yss'" "inner_tree ins d c ys"
    by (cases cs; cases yss) auto
  with Suc.IH [OF e(3)] cs show ?case by (cases ys) auto
qed auto

lemma inner_tree_mono:
  "inner_tree ins d acc xs \<Longrightarrow> (\<And>a nd. ins a = Some nd \<Longrightarrow> ins' a = Some nd) \<Longrightarrow> inner_tree ins' d acc xs"
proof (induction d arbitrary: acc xs)
  case (Suc d)
  then obtain nd cs yss where x: "slot_type acc \<noteq> 0" "ins (ptr acc) = Some nd" "inner_node_ok nd acc cs" "cs \<noteq> []"
    "min_key acc = min_key (hd cs)" "slope acc = inner_slope nd" "intercept acc = inner_intercept nd"
    "list_all2 (inner_tree ins d) cs yss" "xs = concat yss" by auto
  have "list_all2 (inner_tree ins' d) cs yss"
    by (rule list_all2_mono [OF x(8)]) (use Suc.IH Suc.prems(2) in blast)
  then show ?case using x Suc.prems(2) by auto
qed auto

section \<open>Routing\<close>

lemma set_drop_nth: "y \<in> set (drop i ys) \<Longrightarrow> \<exists>j. i \<le> j \<and> j < length ys \<and> y = ys ! j"
  by (auto simp: in_set_conv_nth) (metis le_add1 less_diff_conv add.commute)

lemma hd_in_concat: "i < length yss \<Longrightarrow> yss ! i \<noteq> [] \<Longrightarrow> hd (yss ! i) \<in> set (concat yss)"
  unfolding set_concat by (rule UN_I [of "yss ! i"]) simp_all

lemma key_sorted_append:
  "key_sorted (xs @ ys) \<longleftrightarrow> key_sorted xs \<and> key_sorted ys \<and> (\<forall>x\<in>set xs. \<forall>y\<in>set ys. min_key x < min_key y)"
  by (simp add: key_sorted_def sorted_wrt_append)

lemma key_sorted_heads:
  "list_all2 (\<lambda>c ys. ys \<noteq> [] \<and> min_key (hd ys) = min_key c) cs yss \<Longrightarrow> key_sorted (concat yss) \<Longrightarrow> key_sorted cs"
proof (induction rule: list_all2_induct)
  case (Cons c cs ys yss)
  have so: "key_sorted (concat yss)" "\<forall>x\<in>set ys. \<forall>y\<in>set (concat yss). min_key x < min_key y"
    using Cons.prems by (simp_all add: key_sorted_append)
  have "min_key c < min_key c'" if c': "c' \<in> set cs" for c'
  proof -
    obtain i where i: "i < length cs" "cs ! i = c'" using c' by (auto simp: in_set_conv_nth)
    then have "yss ! i \<noteq> []" "min_key (hd (yss ! i)) = min_key c'" "yss ! i \<in> set yss"
      using Cons.hyps(2) by (auto simp: list_all2_conv_all_nth)
    then have "hd (yss ! i) \<in> set (concat yss)" using hd_in_set by fastforce
    then show ?thesis using so(2) Cons.hyps(1) \<open>min_key (hd (yss ! i)) = min_key c'\<close> by (metis hd_in_set)
  qed
  then show ?case using Cons.IH so(1) by (simp add: key_sorted_def)
qed (simp add: key_sorted_def)

text \<open>The leaf slot below the child that a key is routed to is the leaf slot of the key.\<close>

lemma routes_to_concat:
  assumes t: "list_all2 (\<lambda>c ys. ys \<noteq> [] \<and> min_key (hd ys) = min_key c) cs yss" and so: "key_sorted (concat yss)"
    and i: "i < length cs" "routes_to cs k (cs ! i)" and s: "routes_to (yss ! i) k s"
  shows "routes_to (concat yss) k s"
proof -
  have len: "length yss = length cs" and hd: "\<And>j. j < length cs \<Longrightarrow> yss ! j \<noteq> [] \<and> min_key (hd (yss ! j)) = min_key (cs ! j)"
    using t by (auto simp: list_all2_conv_all_nth)
  have e: "concat yss = concat (take i yss) @ yss ! i @ concat (drop (Suc i) yss)"
    using i len by (metis concat.simps(2) concat_append id_take_nth_drop)
  note so' = so [unfolded e key_sorted_append]
  have si: "s \<in> set (yss ! i)" "min_key s \<le> k" using s by (simp_all add: routes_to_def)
  have "min_key t \<le> min_key s" if tm: "t \<in> set (concat yss)" "min_key t \<le> k" for t
  proof -
    consider "t \<in> set (concat (take i yss))" | "t \<in> set (yss ! i)" | "t \<in> set (concat (drop (Suc i) yss))"
      using tm(1) unfolding e by auto
    then show ?thesis
    proof cases
      case 1
      moreover have "s \<in> set (yss ! i @ concat (drop (Suc i) yss))" using si(1) by simp
      ultimately show ?thesis using so' by (meson less_imp_le)
    next
      case 2
      then show ?thesis using s tm(2) by (simp add: routes_to_def)
    next
      case 3
      then obtain ys where "ys \<in> set (drop (Suc i) yss)" "t \<in> set ys" by auto
      then obtain j where j: "Suc i \<le> j" "j < length yss" "t \<in> set (yss ! j)"
        by (metis set_drop_nth)
      have cs: "key_sorted cs" by (rule key_sorted_heads [OF t so])
      have "min_key (cs ! j) \<le> min_key t"
      proof -
        have "key_sorted (yss ! j)" using so j(2)
          by (metis concat.simps(2) concat_append id_take_nth_drop key_sorted_append)
        then show ?thesis using hd [of j] j len by (cases "yss ! j") (auto simp: key_sorted_def less_imp_le)
      qed
      then have "min_key (cs ! j) \<le> min_key (cs ! i)" using i(2) tm(2) j len by (auto simp: routes_to_def)
      moreover have "min_key (cs ! i) < min_key (cs ! j)"
        using cs j len by (auto simp: key_sorted_def sorted_wrt_iff_nth_less)
      ultimately show ?thesis by simp
    qed
  qed
  then show ?thesis using si i len unfolding routes_to_def by auto
qed

lemma node_searchable:
  assumes nd: "inner_node_ok nd acc cs" and so: "key_sorted cs" and hi: "steady_slot hi acc" "finite_double hi"
    and fin: "\<forall>c\<in>set cs. finite_double (min_key c) \<and> min_key c \<le> hi"
    and k: "finite_double k" "k \<le> hi" "cs \<noteq> []" "min_key (hd cs) \<le> k"
  shows "searchable (predicts acc) (inner_slots nd) k"
proof -
  have bn: "4 \<le> uint (block_number acc)" and lv: "live (inner_slots nd) = cs" using nd by (auto simp: inner_node_ok_def)
  have mono: "predicts acc a \<le> predicts acc b" if "finite_double a" "finite_double b" "a \<le> b" "b \<le> hi" for a b
    unfolding predicts_def using inner_predict_mono [OF bn hi(1) [unfolded steady_slot_def]] that hi(2) by simp
  show ?thesis unfolding searchable_def lv
    using nd so mono fin k by (auto simp: inner_node_ok_def intro!: bexI [of _ "hd cs"])
qed

text \<open>One node: the search finds the slot of the child, whose leaf slots hold the one of the key.\<close>

lemma inner_tree_step:
  assumes tr: "inner_tree ins (Suc d) acc xs" and so: "key_sorted xs" and st: "steady_slot hi acc" "finite_double hi"
    and fin: "\<forall>x\<in>set xs. finite_double (min_key x) \<and> min_key x \<le> hi" and k: "finite_double k" "k \<le> hi" "min_key acc \<le> k"
  obtains nd q ys p where "ins (ptr acc) = Some nd" "inner_locate (inner_slots nd) k acc = Inr (p, q)" "q < length (inner_slots nd)"
    "inner_slots nd ! q \<in> set (live (inner_slots nd))" "inner_tree ins d (inner_slots nd ! q) ys" "set ys \<subseteq> set xs" "key_sorted ys"
    "min_key (inner_slots nd ! q) \<le> k" "\<And>s. routes_to ys k s \<Longrightarrow> routes_to xs k s"
proof -
  from tr obtain nd cs yss where nd: "ins (ptr acc) = Some nd" "inner_node_ok nd acc cs" "cs \<noteq> []"
    "min_key acc = min_key (hd cs)" and t: "list_all2 (inner_tree ins d) cs yss" and xs: "xs = concat yss" by auto
  have h: "list_all2 (\<lambda>c ys. ys \<noteq> [] \<and> min_key (hd ys) = min_key c) cs yss"
    by (rule list_all2_mono [OF t]) (rule inner_tree_head)
  have len: "length yss = length cs" and at: "\<And>j. j < length cs \<Longrightarrow> inner_tree ins d (cs ! j) (yss ! j)"
    using t by (auto simp: list_all2_conv_all_nth)
  have cs: "key_sorted cs" using key_sorted_heads [OF h] so xs by simp
  have lv: "live (inner_slots nd) = cs" using nd(2) by (simp add: inner_node_ok_def)
  have "finite_double (min_key c) \<and> min_key c \<le> hi" if c: "c \<in> set cs" for c
  proof -
    obtain j where j: "j < length cs" "cs ! j = c" using c by (auto simp: in_set_conv_nth)
    then have "yss ! j \<noteq> []" "min_key (hd (yss ! j)) = min_key c" using inner_tree_head [OF at] by auto
    moreover have "hd (yss ! j) \<in> set xs" unfolding xs using calculation(1) j len by (intro hd_in_concat) simp_all
    ultimately show ?thesis using fin by metis
  qed
  then have "searchable (predicts acc) (inner_slots nd) k"
    using node_searchable [OF nd(2) cs st _ k(1,2) nd(3)] nd(4) k(3) by auto
  then obtain q where q: "inner_locate (inner_slots nd) k acc = Inr (8 * predicts acc k, q)" "q < length (inner_slots nd)"
    "routes_to cs k (inner_slots nd ! q)" using inner_locate_ok [of acc "inner_slots nd" k] nd(2) lv by (auto simp: inner_node_ok_def)
  then obtain i where i: "i < length cs" "cs ! i = inner_slots nd ! q" by (auto simp: routes_to_def in_set_conv_nth)
  have "yss ! i \<in> set yss" using i len by simp
  moreover have "key_sorted (yss ! i)" using so xs i len
    by (metis concat.simps(2) concat_append id_take_nth_drop key_sorted_append)
  moreover have "set (yss ! i) \<subseteq> set xs" using calculation(1) xs by auto
  moreover have "routes_to xs k s" if "routes_to (yss ! i) k s" for s
    unfolding xs by (rule routes_to_concat [OF h _ i(1) _ that]) (use so xs q(3) i(2) in simp_all)
  moreover have "inner_slots nd ! q \<in> set (live (inner_slots nd))" "min_key (inner_slots nd ! q) \<le> k"
    using q(3) lv by (simp_all add: routes_to_def)
  moreover have "inner_tree ins d (inner_slots nd ! q) (yss ! i)" using at [OF i(1)] i(2) by simp
  ultimately show ?thesis using that [OF nd(1) q(1,2), of "yss ! i"] by blast
qed

lemma find_leaf_node_ok:
  assumes "inner_tree ins (Suc d) acc xs" "key_sorted xs" "steady_heap hi ins" "finite_double hi"
    "\<forall>x\<in>set xs. finite_double (min_key x) \<and> min_key x \<le> hi" "finite_double k" "k \<le> hi" "min_key acc \<le> k"
  shows "\<exists>n q nd. find_leaf_node ins (ptr acc) k acc = Some (Inr (n, q)) \<and> ins n = Some nd \<and> q < length (inner_slots nd)
    \<and> routes_to xs k (inner_slots nd ! q)"
  using assms
proof (induction d arbitrary: acc xs)
  case (0 acc xs)
  from inner_tree_step [OF 0(1,2) inner_tree_steady [OF 0(1,3)] 0(4-8)] obtain nd q ys p where
    s: "ins (ptr acc) = Some nd" "inner_locate (inner_slots nd) k acc = Inr (p, q)" "q < length (inner_slots nd)"
    "inner_tree ins 0 (inner_slots nd ! q) ys" "min_key (inner_slots nd ! q) \<le> k" "\<And>s. routes_to ys k s \<Longrightarrow> routes_to xs k s" by metis
  have "routes_to ys k (inner_slots nd ! q)" using s(4,5) by (simp add: routes_to_def)
  then show ?case using s by (subst find_leaf_node.simps) (auto simp: Let_def)
next
  case (Suc d acc xs)
  from inner_tree_step [OF Suc.prems(1,2) inner_tree_steady [OF Suc.prems(1,3)] Suc.prems(4-8)] obtain nd q ys p where
    s: "ins (ptr acc) = Some nd" "inner_locate (inner_slots nd) k acc = Inr (p, q)" "q < length (inner_slots nd)"
    "inner_slots nd ! q \<in> set (live (inner_slots nd))" "inner_tree ins (Suc d) (inner_slots nd ! q) ys" "set ys \<subseteq> set xs" "key_sorted ys"
    "min_key (inner_slots nd ! q) \<le> k" "\<And>s. routes_to ys k s \<Longrightarrow> routes_to xs k s" by metis
  let ?c = "inner_slots nd ! q"
  have ty: "slot_type ?c \<noteq> 0" using s(5) by simp
  from Suc.IH [OF s(5,7) Suc.prems(3,4) _ Suc.prems(6,7) s(8)] Suc.prems(5) s(6) obtain n i nd' where
    "find_leaf_node ins (ptr ?c) k ?c = Some (Inr (n, i))" "ins n = Some nd'" "i < length (inner_slots nd')"
    "routes_to ys k (inner_slots nd' ! i)" by blast
  then show ?case using s(1,2,9) ty by (subst find_leaf_node.simps) (auto simp: Let_def)
qed

end
