(* ===== verification/Segmentation_Correct.thy ===== *)
theory Segmentation_Correct
  imports Segmentation
begin

text \<open>
  The segmentation of strictly increasing keys never throws and cuts them into consecutive runs; every run
  but the last has at least two keys.  The indices into the two hulls stay in range.
\<close>

section \<open>Hull indices\<close>

definition starts_in_hull :: "OptimalPiecewiseLinearModel \<Rightarrow> bool" where
  "starts_in_hull opt \<longleftrightarrow> lower_start opt < length (lower opt) \<and> upper_start opt < length (upper opt)"

definition hulls_ok :: "OptimalPiecewiseLinearModel \<Rightarrow> bool" where
  "hulls_ok opt \<longleftrightarrow> (0 < points_in_hull opt \<longrightarrow> starts_in_hull opt)"

lemma extreme_bounds: "b < i \<Longrightarrow> b \<le> extreme w f i n m b \<and> extreme w f i n m b < i + n"
proof (induction w f i n m b rule: extreme.induct)
  case (2 w f i n m b)
  then show ?case by (fastforce simp: Let_def)
qed simp

lemma hull_end_bounds: "s < e \<Longrightarrow> s < hull_end off s e \<and> hull_end off s e \<le> e"
proof (induction off s e rule: hull_end.induct)
  case (1 off s e)
  then show ?case by (subst (1 2) hull_end.simps) fastforce
qed

lemma tighten_ok:
  assumes "starts_in_hull opt"
  shows "starts_in_hull (tighten_max p x y opt)" "starts_in_hull (tighten_min p x y opt)"
proof -
  have x: "extreme w f (s + 1) (n - (s + 1)) m s < n" if "s < n" for w f s n m
    using extreme_bounds [of s "s + 1" w f "n - (s + 1)" m] that by simp
  have s: "lower_start opt < length (lower opt)" "upper_start opt < length (upper opt)"
    using assms by (simp_all add: starts_in_hull_def)
  show "starts_in_hull (tighten_max p x y opt)" "starts_in_hull (tighten_min p x y opt)"
    using x [OF s(1)] x [OF s(2)] hull_end_bounds [OF s(1)] hull_end_bounds [OF s(2)]
    by (simp_all add: tighten_max_def tighten_min_def Let_def starts_in_hull_def min_absorb2 less_SucI)
qed

lemma add_point_hulls_ok:
  assumes "hulls_ok opt" "add_point x y opt = Inr (b, opt')"
  shows "hulls_ok opt'"
proof (cases "points_in_hull opt \<le> 1")
  case True
  then show ?thesis using assms by (auto simp: add_point_def Let_def hulls_ok_def starts_in_hull_def split: if_splits)
next
  case False
  then have "starts_in_hull (opt\<lparr>last_x := x\<rparr>)" using assms(1) by (simp add: hulls_ok_def starts_in_hull_def)
  then have t: "starts_in_hull (tighten_max p x y (opt\<lparr>last_x := x\<rparr>))" "starts_in_hull (tighten_min q x y (opt\<lparr>last_x := x\<rparr>))"
    "starts_in_hull (tighten_min q x y (tighten_max p x y (opt\<lparr>last_x := x\<rparr>)))" "starts_in_hull (opt\<lparr>last_x := x\<rparr>)" for p q
    using tighten_ok by blast+
  show ?thesis using assms(2) False t
    by (auto simp: add_point_def Let_def hulls_ok_def starts_in_hull_def split: if_splits)
qed

section \<open>What a point changes\<close>

lemma tighten_frame [simp]:
  "points_in_hull (tighten_max p x y opt) = points_in_hull opt" "points_in_hull (tighten_min p x y opt) = points_in_hull opt"
  "first_x (tighten_max p x y opt) = first_x opt" "first_x (tighten_min p x y opt) = first_x opt"
  "last_x (tighten_max p x y opt) = last_x opt" "last_x (tighten_min p x y opt) = last_x opt"
  by (simp_all add: tighten_max_def tighten_min_def Let_def)

lemma add_point_True:
  assumes "add_point x y opt = Inr (True, opt')"
  shows "points_in_hull opt' = points_in_hull opt + 1" "last_x opt' = x"
    "first_x opt' = (if points_in_hull opt = 0 then x else first_x opt)"
  using assms by (auto simp: add_point_def Let_def split: if_splits)

lemma add_point_rejected:
  "add_point x y opt = Inr (False, opt') \<Longrightarrow> first_x opt' = first_x opt"
  by (auto simp: add_point_def Let_def split: if_splits)

lemma add_point_returns:
  "points_in_hull opt = 0 \<or> last_x opt < x \<Longrightarrow> \<exists>b opt'. add_point x y opt = Inr (b, opt')"
  "points_in_hull opt = 0 \<Longrightarrow> \<exists>opt'. add_point x y opt = Inr (True, opt')"
  by (auto simp: add_point_def Let_def)

section \<open>The partition\<close>

fun cuts :: "double list \<Rightarrow> nat \<Rightarrow> CanonicalSegment list \<Rightarrow> bool" where
  "cuts ks s [] \<longleftrightarrow> s = length ks"
| "cuts ks s (c # cs) \<longleftrightarrow> 0 < seg_number c \<and> s + seg_number c \<le> length ks \<and> seg_first c = ks ! s
     \<and> (cs \<noteq> [] \<longrightarrow> 2 \<le> seg_number c) \<and> cuts ks (s + seg_number c) cs"

text \<open>The open segment: the points from \<^verbatim>\<open>start\<close> to before \<^verbatim>\<open>i\<close> are in the hull.\<close>

definition open_segment :: "double list \<Rightarrow> nat \<Rightarrow> nat \<Rightarrow> double \<Rightarrow> OptimalPiecewiseLinearModel \<Rightarrow> bool" where
  "open_segment ks i start p opt \<longleftrightarrow> start \<le> i \<and> i \<le> length ks \<and> start < length ks \<and> points_in_hull opt = i - start
     \<and> (start < i \<longrightarrow> p = ks ! (i - 1) \<and> last_x opt = ks ! (i - 1) \<and> first_x opt = ks ! start)"

lemma seg_loop_ok:
  assumes "sorted_wrt (<) ks" "open_segment ks i start p opt"
  shows "\<exists>cs. seg_loop ks i start p opt = Inr cs \<and> cuts ks start cs \<and> cs \<noteq> []"
  using assms
proof (induction ks i start p opt rule: seg_loop.induct)
  case (1 ks i start p opt)
  note inv = "1.prems"(2) [unfolded open_segment_def]
  show ?case
  proof (cases "length ks \<le> i")
    case True
    then have "seg_loop ks i start p opt = Inr [get_segment (length ks - start) opt]" by (subst seg_loop.simps) simp
    moreover have "cuts ks start [get_segment (length ks - start) opt]"
      using inv True by (auto simp: get_segment_def)
    ultimately show ?thesis by blast
  next
    case False
    have inc: "last_x opt < ks ! i" "ks ! i \<noteq> p" if "start < i"
      using sorted_wrt_nth_less [OF "1.prems"(1), of "i - 1" i] False inv that by auto
    have new: "\<not> (i \<noteq> start \<and> ks ! i = p)" using inc inv by auto
    have "points_in_hull opt = 0 \<or> last_x opt < ks ! i" using inc inv by (cases "start < i") auto
    then obtain b opt' where add: "add_point (ks ! i) i opt = Inr (b, opt')" using add_point_returns(1) by blast
    show ?thesis
    proof (cases b)
      case True
      then have "open_segment ks (Suc i) start (ks ! i) opt'"
        using inv False add_point_True [of "ks ! i" i opt opt'] add by (auto simp: open_segment_def less_Suc_eq)
      then show ?thesis using "1.IH"(2) [OF False new add] True add new False "1.prems"(1) by (subst seg_loop.simps) auto
    next
      case b: False
      then have r: "2 \<le> points_in_hull opt" "points_in_hull opt' = 0" "first_x opt' = first_x opt"
        using add_point_False [of "ks ! i" i opt opt'] add_point_rejected [of "ks ! i" i opt opt'] add by auto
      then have "open_segment ks i i (ks ! i) opt'" using inv False by (auto simp: open_segment_def)
      then obtain cs where cs: "seg_loop ks i i (ks ! i) opt' = Inr cs" "cuts ks i cs"
        using "1.IH"(3) [OF False new add] b "1.prems"(1) by auto
      moreover have "seg_number (get_segment (i - start) opt') = i - start" "seg_first (get_segment (i - start) opt') = ks ! start"
        using r inv by (simp_all add: get_segment_def)
      ultimately have "cuts ks start (get_segment (i - start) opt' # cs)" using r(1) inv by auto
      then show ?thesis using cs(1) add b new False by (subst seg_loop.simps) auto
    qed
  qed
qed

lemma make_segmentation_ok:
  assumes "sorted_wrt (<) ks"
  shows "\<exists>cs. make_segmentation ks eps = Inr cs \<and> cuts ks 0 cs"
proof (cases "ks = []")
  case True
  then show ?thesis by (simp add: make_segmentation_def)
next
  case False
  obtain opt where opt: "add_point (ks ! 0) 0 (model_init eps) = Inr (True, opt)"
    using add_point_returns(2) [of "model_init eps" "ks ! 0" 0] by (auto simp: model_init_def)
  have "open_segment ks 1 0 (ks ! 0) opt" using add_point_True [OF opt] False
    by (auto simp: open_segment_def model_init_def Suc_le_eq)
  from seg_loop_ok [OF assms this] show ?thesis using opt False by (auto simp: make_segmentation_def)
qed

text \<open>The number of segments is at most half the number of keys, rounded up.\<close>

lemma cuts_length: "cuts ks s cs \<Longrightarrow> s \<le> length ks \<and> 2 * length cs \<le> length ks - s + 1"
  by (induction ks s cs rule: cuts.induct) auto

text \<open>The runs are consecutive and make up the keys.\<close>

lemma cuts_sum: "cuts ks s cs \<Longrightarrow> s + sum_list (map seg_number cs) = length ks"
  by (induction ks s cs rule: cuts.induct) auto

end
