(* ===== verification/Plin_Build.thy ===== *)
theory Plin_Build
  imports Plin_Index Leaf_Build Inner_Tree Segmentation_Correct
begin

text \<open>
  Bulk loading: the block numbers stay in their ranges, the leaf nodes hold the rows of their segments, and
  every level of inner nodes is a forest over the leaf slots.
\<close>

section \<open>Block numbers\<close>

definition scaled :: "fp \<Rightarrow> fp list \<Rightarrow> int \<Rightarrow> fp" where
  "scaled c ds n = fold (\<lambda>d x. fp_add x d) ds (fp_div (fp_of_int n) c)"

definition positive_fp :: "fp \<Rightarrow> bool" where
  "positive_fp c = (case c of None \<Rightarrow> False | Some w \<Rightarrow> finite_double w \<and> 0 < num_of w \<and> 0 < ordinal w)"

definition small_fp :: "fp \<Rightarrow> bool" where
  "small_fp c = (case c of None \<Rightarrow> False | Some w \<Rightarrow> finite_double w \<and> num_of w < 2 ^ 63 * den_of w)"

lemma fp_of_int_mono: "a \<le> b \<Longrightarrow> \<exists>x y. fp_of_int a = Some x \<and> fp_of_int b = Some y \<and> x \<le> y \<and> is_double x \<and> is_double y"
  by (simp add: fp_of_int_def round_frac_double round_frac_mono)

lemma fold_add_mono:
  assumes "list_all is_fin ds" "u \<le> v" "is_double u" "is_double v"
  shows "\<exists>x y. fold (\<lambda>d x. fp_add x d) ds (Some u) = Some x \<and> fold (\<lambda>d x. fp_add x d) ds (Some v) = Some y
    \<and> x \<le> y \<and> is_double x \<and> is_double y"
  using assms
proof (induction ds arbitrary: u v)
  case (Cons d ds)
  from Cons.prems obtain dw where dw: "d = Some dw" "finite_double dw" by (auto simp: is_fin_def split: option.splits)
  from fp_add_mono [OF Cons.prems(3,4) dw(2) Cons.prems(2)] obtain r s where
    rs: "fp_add (Some u) (Some dw) = Some r" "fp_add (Some v) (Some dw) = Some s" "r \<le> s" "is_double r" "is_double s" .
  from Cons.IH [OF _ rs(3-5)] Cons.prems(1) obtain x y where
    "fold (\<lambda>d x. fp_add x d) ds (Some r) = Some x \<and> fold (\<lambda>d x. fp_add x d) ds (Some s) = Some y \<and> x \<le> y \<and> is_double x \<and> is_double y"
    by auto
  then show ?case unfolding fold_simps dw(1) rs(1,2) by blast
qed simp

lemma scaled_mono:
  assumes c: "positive_fp c" and d: "list_all is_fin ds" and ab: "a \<le> b"
  shows "\<exists>x y. scaled c ds a = Some x \<and> scaled c ds b = Some y \<and> x \<le> y \<and> is_double x \<and> is_double y"
proof -
  from c obtain cw where cw: "c = Some cw" "finite_double cw" "0 < num_of cw" "0 < ordinal cw"
    by (auto simp: positive_fp_def split: option.splits)
  from fp_of_int_mono [OF ab] obtain x y where xy: "fp_of_int a = Some x" "fp_of_int b = Some y" "x \<le> y" "is_double x" "is_double y"
    by blast
  from fp_div_mono [OF xy(4,5) cw(2-4) xy(3)] obtain u v where
    uv: "fp_div (Some x) (Some cw) = Some u" "fp_div (Some y) (Some cw) = Some v" "u \<le> v" "is_double u" "is_double v" .
  from fold_add_mono [OF d uv(3-5)] show ?thesis unfolding scaled_def xy(1,2) cw(1) uv(1,2) .
qed

lemma small_between:
  assumes "finite_double x" "finite_double z" "num_of z < 2 ^ 63 * den_of z" "x \<le> y" "y \<le> z"
  shows "finite_double y" "num_of y < 2 ^ 63 * den_of y"
proof -
  show "finite_double y" using assms(1,2,4,5) by (simp add: finite_double_def less_eq_double_def)
  have v: "val d < 2 ^ 63 \<longleftrightarrow> num_of d < 2 ^ 63 * den_of d" for d
  proof -
    have "val d < 2 ^ 63 \<longleftrightarrow> real_of_int (num_of d) < real_of_int (2 ^ 63 * den_of d)"
      using den_of_pos [of d] by (simp add: val_def pos_divide_less_eq)
    then show ?thesis by (simp only: of_int_less_iff)
  qed
  show "num_of y < 2 ^ 63 * den_of y" using val_mono [OF assms(5)] assms(3) v [of y] v [of z] by linarith
qed

lemma scaled_between:
  assumes c: "positive_fp c" "list_all is_fin ds" and n: "b \<le> n" "n \<le> m" and s: "small_fp (scaled c ds b)" "small_fp (scaled c ds m)"
  shows "fp_to_int64 (scaled c ds b) \<le> fp_to_int64 (scaled c ds n)" "fp_to_int64 (scaled c ds n) \<le> fp_to_int64 (scaled c ds m)"
proof -
  obtain x y where xy: "scaled c ds b = Some x" "scaled c ds n = Some y" "x \<le> y" "is_double x"
    using scaled_mono [OF c n(1)] by blast
  obtain z where z: "scaled c ds m = Some z" "y \<le> z" "is_double y" using scaled_mono [OF c n(2)] xy(2) by (metis option.inject)
  from s xy(1) z(1) have t: "finite_double x" "finite_double z" "num_of z < 2 ^ 63 * den_of z" by (simp_all add: small_fp_def)
  note y = small_between [OF t xy(3) z(2)]
  show "fp_to_int64 (scaled c ds n) \<le> fp_to_int64 (scaled c ds m)"
    unfolding xy(2) z(1) by (rule to_int64_mono [OF z(3) t(2,3) z(2)])
  show "fp_to_int64 (scaled c ds b) \<le> fp_to_int64 (scaled c ds n)"
    unfolding xy(1,2) by (rule to_int64_mono [OF xy(4) y xy(3)])
qed

text \<open>Up to \<^verbatim>\<open>2^28\<close> keys; the constants are those of \<^verbatim>\<open>parameters.h\<close>.\<close>

lemma fill_values:
  "fp_div (fp_of_int 1) leaf_fill = Some (Dbl 4593971859893063953)" "fp_div (fp_of_int 268435456) leaf_fill = Some (Dbl 4720072649459437841)"
  "fp_div (fp_of_int 1) inner_fill = Some (Dbl 4603804719079489536)" "fp_div (fp_of_int 268435456) inner_fill = Some (Dbl 4729905508645863424)"
  by code_simp+

lemma add_values:
  "fp_add (Some (Dbl 4593971859893063953)) (fp_of_int 3) = Some (Dbl 4614238058216231185)" "fp_add (Some (Dbl 4720072649459437841)) (fp_of_int 3) = Some (Dbl 4720072649862091025)"
  "fp_add (Some (Dbl 4603804719079489536)) (fp_of_int 1) = Some (Dbl 4609997168567123968)" "fp_add (Some (Dbl 4609997168567123968)) (fp_of_int 3) = Some (Dbl 4616893305496535040)"
  "fp_add (Some (Dbl 4729905508645863424)) (fp_of_int 1) = Some (Dbl 4729905508679417856)" "fp_add (Some (Dbl 4729905508679417856)) (fp_of_int 3) = Some (Dbl 4729905508780081152)"
  by code_simp+

lemma small_values:
  "small_fp (Some (Dbl 4614238058216231185))" "small_fp (Some (Dbl 4720072649862091025))" "small_fp (Some (Dbl 4616893305496535040))" "small_fp (Some (Dbl 4729905508780081152))"
  "fp_to_int64 (Some (Dbl 4614238058216231185)) = 3" "fp_to_int64 (Some (Dbl 4720072649862091025)) = 35791397"
  "fp_to_int64 (Some (Dbl 4616893305496535040)) = 4" "fp_to_int64 (Some (Dbl 4729905508780081152)) = 167772164"
  by code_simp+

lemma fill_constants: "positive_fp leaf_fill" "positive_fp inner_fill" "is_fin (fp_of_int 1)" "is_fin (fp_of_int 3)"
  by code_simp+

lemma scaled_values:
  "scaled leaf_fill [fp_of_int 3] 1 = Some (Dbl 4614238058216231185)" "scaled leaf_fill [fp_of_int 3] 268435456 = Some (Dbl 4720072649862091025)"
  "scaled inner_fill [fp_of_int 1, fp_of_int 3] 1 = Some (Dbl 4616893305496535040)"
  "scaled inner_fill [fp_of_int 1, fp_of_int 3] 268435456 = Some (Dbl 4729905508780081152)"
  unfolding scaled_def fold_simps id_def fill_values add_values by (rule refl)+

lemma leaf_scale:
  assumes "1 \<le> n" "n \<le> 268435456"
  shows "3 \<le> fp_to_int64 (scaled leaf_fill [fp_of_int 3] n)" "fp_to_int64 (scaled leaf_fill [fp_of_int 3] n) \<le> 35791397"
  using scaled_between [OF fill_constants(1) _ assms, of "[fp_of_int 3]"] fill_constants(4) small_values
  unfolding scaled_values by simp_all

lemma inner_scale:
  assumes "1 \<le> n" "n \<le> 268435456"
  shows "4 \<le> fp_to_int64 (scaled inner_fill [fp_of_int 1, fp_of_int 3] n)"
    "fp_to_int64 (scaled inner_fill [fp_of_int 1, fp_of_int 3] n) \<le> 167772164"
  using scaled_between [OF fill_constants(2) _ assms, of "[fp_of_int 1, fp_of_int 3]"] fill_constants(3,4) small_values
  unfolding scaled_values by simp_all

lemma unat_of_small: "0 \<le> z \<Longrightarrow> z < 2 ^ 29 \<Longrightarrow> unat (of_int z :: u64) = nat z"
  unfolding unat_eq_nat_uint by (simp add: uint_word_of_int)

lemma leaf_blocks_range:
  assumes "0 < n" "n \<le> 2 ^ 28"
  shows "3 \<le> unat (leaf_blocks n)" "unat (leaf_blocks n) \<le> 2 ^ 28"
proof -
  have "1 \<le> int n" "int n \<le> 268435456" using assms by simp_all
  note b = leaf_scale [OF this]
  have "leaf_blocks n = of_int (fp_to_int64 (scaled leaf_fill [fp_of_int 3] (int n)))" by (simp add: leaf_blocks_def scaled_def)
  then show "3 \<le> unat (leaf_blocks n)" "unat (leaf_blocks n) \<le> 2 ^ 28"
    using b unat_of_small [of "fp_to_int64 (scaled leaf_fill [fp_of_int 3] (int n))"] by simp_all
qed

lemma inner_blocks_range:
  assumes "0 < n" "n \<le> 2 ^ 28"
  shows "4 \<le> unat (inner_blocks 3 n)" "unat (inner_blocks 3 n) < 2 ^ 29"
proof -
  have "1 \<le> int n" "int n \<le> 268435456" using assms by simp_all
  note b = inner_scale [OF this]
  have "inner_blocks 3 n = of_int (fp_to_int64 (scaled inner_fill [fp_of_int 1, fp_of_int 3] (int n)))"
    by (simp add: inner_blocks_def scaled_def EPSILON_INNER_NODE_def InnerSlotsPerBlock_def)
  then show "4 \<le> unat (inner_blocks 3 n)" "unat (inner_blocks 3 n) < 2 ^ 29"
    using b unat_of_small [of "fp_to_int64 (scaled inner_fill [fp_of_int 1, fp_of_int 3] (int n))"] by simp_all
qed

section \<open>The leaf nodes\<close>

text \<open>All block headers carry the version, so a lookup does not touch them.\<close>

definition current :: "u32 \<Rightarrow> LeafNode \<Rightarrow> bool" where
  "current gv lf \<longleftrightarrow> list_all (\<lambda>b. local_version (hdr b) = gv) (leaf_slots lf)"

lemma current_put:
  "current gv lf \<Longrightarrow> local_version (hdr b) = gv \<Longrightarrow> current gv (put_block i b lf)"
  by (auto simp: current_def put_block_def list_all_iff dest!: subsetD [OF set_update_subset_insert])

lemma placement_current:
  assumes "leaf_data_placement k v lf = Some (Inr lf')" "current gv lf"
  shows "current gv lf' \<and> prev_node lf' = prev_node lf"
proof -
  let ?i = "unat (leaf_predict_block (Some k) (leaf_slope lf) (leaf_intercept lf) (leaf_block_number lf))"
  obtain b where b: "get_block ?i lf = Inr b" using assms(1)
    by (cases "get_block ?i lf") (auto simp: leaf_data_placement_def Let_def)
  then have ver: "local_version (hdr b) = gv" using assms(2)
    by (auto simp: get_block_def current_def list_all_length split: if_splits)
  show ?thesis
  proof (cases "find_slot FREE_FLAG (data b)")
    case (Some j)
    then show ?thesis using assms b ver current_put [OF assms(2)]
      by (auto simp: leaf_data_placement_def Let_def put_block_def)
  next
    case None
    then obtain t where "lf' = (put_block ?i (b\<lparr>hdr := (hdr b)\<lparr>overflow_tree := Some t\<rparr>\<rparr>) lf)\<lparr>overflow_number := overflow_number lf + 1\<rparr>"
      using assms(1) b by (auto simp: leaf_data_placement_def Let_def bind_run_def split: option.splits sum.splits)
    then show ?thesis using current_put [OF assms(2), of "b\<lparr>hdr := (hdr b)\<lparr>overflow_tree := Some t\<rparr>\<rparr>" ?i] ver
      by (auto simp: current_def put_block_def)
  qed
qed

lemma place_all_current:
  "leaf_place_all kvs lf = Some (Inr lf') \<Longrightarrow> current gv lf \<Longrightarrow> current gv lf' \<and> prev_node lf' = prev_node lf"
proof (induction kvs lf rule: leaf_place_all.induct)
  case (2 k v kvs lf)
  then obtain lf1 where "leaf_data_placement k v lf = Some (Inr lf1)" "leaf_place_all kvs lf1 = Some (Inr lf')"
    by (auto simp: bind_run_def split: option.splits sum.splits)
  then show ?case using placement_current "2.IH" "2.prems"(2) by (metis (no_types, lifting))
qed simp

lemma slot_ptr_frames [simp]:
  "ptr (init_lock s) = ptr s" "ptr (set_type n s) = ptr s" "ptr (put_block_number m s) = ptr s"
  by (simp_all add: init_lock_def set_type_def put_block_number_def)

lemma leaf_accelerator_fields:
  "leaf_accelerator this lf acc = Inr s \<Longrightarrow> ptr s = this \<and> slot_type s = 0"
  by (auto simp: leaf_accelerator_def set_block_number_def split: if_splits)

lemma leaf_new_fields:
  assumes "leaf_new this acc bn kvs number start sl ic gv p nx = Some (Inr (lf, s))"
  shows "current gv lf" "prev_node lf = p" "ptr s = this" "slot_type s = 0"
proof -
  let ?b = "leaf_blank bn kvs number start sl ic gv p nx"
  have r: "leaf_place_all (take number (drop start kvs)) ?b = Some (Inr lf)" "leaf_accelerator this lf acc = Inr s"
    using assms by (auto simp: leaf_new_def bind_run_def split: if_splits option.splits sum.splits)
  have "current gv ?b" "prev_node ?b = p"
    by (simp_all add: leaf_blank_def Let_def current_def empty_block_def list_all_iff split: prod.splits)
  then show "current gv lf" "prev_node lf = p" using place_all_current [OF r(1)] by auto
  show "ptr s = this" "slot_type s = 0" using leaf_accelerator_fields [OF r(2)] by auto
qed

text \<open>What the index knows of a leaf node with its accelerator: it holds exactly the rows of its segment.\<close>

definition leaf_ready :: "u32 \<Rightarrow> (double \<times> payload_t) list \<Rightarrow> nat \<Rightarrow> InnerSlot \<Rightarrow> LeafNode \<Rightarrow> bool" where
  "leaf_ready gv chunk a s lf \<longleftrightarrow> node_ok lf \<and> leaf_tight lf \<and> mirrors s lf \<and> slot_check_read_lock s \<and> slot_check_write_lock s
     \<and> slot_type s = 0 \<and> ptr s = a \<and> min_key s = fst (hd chunk) \<and> first_key lf = fst (hd chunk) \<and> node_locked lf = 0
     \<and> \<not> abandoned lf \<and> current gv lf \<and> (\<forall>l. l \<noteq> FREE_FLAG \<longrightarrow> leaf_map lf l = map_of chunk l)"

lemma leaf_ready_next [simp]: "leaf_ready gv chunk a s (lf\<lparr>next_node := n\<rparr>) = leaf_ready gv chunk a s lf"
  by (simp add: leaf_ready_def node_ok_def leaf_tight_def mirrors_def current_def leaf_map_def key_block_def)

definition leaf_holds :: "leaves \<Rightarrow> u32 \<Rightarrow> (nat \<Rightarrow> nat) \<Rightarrow> (double \<times> payload_t) list \<Rightarrow> nat \<times> InnerSlot \<Rightarrow> bool" where
  "leaf_holds h gv nxt chunk x \<longleftrightarrow> (\<exists>lf. h (fst x) = Some lf \<and> leaf_ready gv chunk (fst x) (snd x) lf \<and> next_node lf = nxt (fst x))"

fun chunks :: "'a list \<Rightarrow> nat list \<Rightarrow> 'a list list" where
  "chunks xs [] = []"
| "chunks xs (n # ns) = take n xs # chunks (drop n xs) ns"

lemma length_chunks [simp]: "length (chunks xs ns) = length ns"
  by (induction xs ns rule: chunks.induct) auto

lemma Segment_of_fields [simp]: "sg_number (Segment_of c) = seg_number c" "sg_first_key (Segment_of c) = seg_first c"
  by (simp_all add: Segment_of_def split: prod.split)

lemma placeable_sub: "placeable kvs \<Longrightarrow> placeable (take n (drop m kvs))"
  by (auto simp: placeable_def list_all_iff distinct_map take_map [symmetric] drop_map [symmetric]
      intro: inj_on_subset dest!: in_set_takeD in_set_dropD)

lemma build_leaves_ok:
  assumes kvs: "placeable kvs" "length kvs \<le> 2 ^ 28"
  shows "cuts (map fst kvs) start cs \<Longrightarrow> 0 < next_addr ix \<Longrightarrow> \<exists>ls h. build_leaves kvs (map Segment_of cs) start prev ix
      = Some (Inr (ls, ix\<lparr>leaf_heap := h, next_addr := next_addr ix + length cs\<rparr>))
    \<and> map fst ls = [next_addr ix..<next_addr ix + length cs]
    \<and> (\<forall>a. a < next_addr ix \<or> next_addr ix + length cs \<le> a \<longrightarrow> h a = leaf_heap ix a)
    \<and> list_all2 (leaf_holds h (global_version ix) (\<lambda>_. 0)) (chunks (drop start kvs) (map seg_number cs)) ls"
proof (induction cs arbitrary: start prev ix)
  case (Nil start prev ix)
  then show ?case by (intro exI [of _ "[]"] exI [of _ "leaf_heap ix"]) simp
next
  case (Cons c cs)
  let ?n = "seg_number c" and ?a = "next_addr ix" and ?sg = "Segment_of c"
  have n: "0 < ?n" "start + ?n \<le> length kvs" "?n \<le> 2 ^ 28" and rest: "cuts (map fst kvs) (start + ?n) cs"
    using Cons.prems(1) kvs(2) by auto
  from leaf_new_ok [OF leaf_blocks_range [OF n(1,3)] n(1,2) placeable_sub [OF kvs(1)],
      of ?a zero_slot "sg_slope ?sg" "sg_intercept ?sg" "global_version ix" prev 0]
  obtain lf s where lf: "leaf_new ?a zero_slot (leaf_blocks ?n) kvs ?n start (sg_slope ?sg) (sg_intercept ?sg) (global_version ix) prev 0
      = Some (Inr (lf, s))" "node_ok lf" "leaf_tight lf" "mirrors s lf" "slot_check_read_lock s" "slot_check_write_lock s"
      "next_node lf = 0" "node_locked lf = 0" "\<not> abandoned lf" "first_key lf = fst (kvs ! start)" "min_key s = fst (kvs ! start)"
      "\<forall>l. l \<noteq> FREE_FLAG \<longrightarrow> leaf_map lf l = map_of (take ?n (drop start kvs)) l" by blast
  note fl = leaf_new_fields [OF lf(1)]
  have hd: "hd (take ?n (drop start kvs)) = kvs ! start" using n by (simp add: hd_drop_conv_nth)
  let ?ix = "ix\<lparr>leaf_heap := (leaf_heap ix)(?a \<mapsto> lf), next_addr := Suc ?a\<rparr>"
  from Cons.IH [OF rest, of ?ix ?a] obtain ls h where
    IH: "build_leaves kvs (map Segment_of cs) (start + ?n) ?a ?ix = Some (Inr (ls, ?ix\<lparr>leaf_heap := h, next_addr := Suc ?a + length cs\<rparr>))"
    "map fst ls = [Suc ?a..<Suc ?a + length cs]"
    "\<forall>a. a < Suc ?a \<or> Suc ?a + length cs \<le> a \<longrightarrow> h a = ((leaf_heap ix)(?a \<mapsto> lf)) a"
    "list_all2 (leaf_holds h (global_version ix) (\<lambda>_. 0)) (chunks (drop (start + ?n) kvs) (map seg_number cs)) ls" by auto
  have "leaf_holds h (global_version ix) (\<lambda>_. 0) (take ?n (drop start kvs)) (?a, s)"
    using IH(3) lf fl hd by (simp add: leaf_holds_def leaf_ready_def)
  then have "list_all2 (leaf_holds h (global_version ix) (\<lambda>_. 0)) (chunks (drop start kvs) (map seg_number (c # cs))) ((?a, s) # ls)"
    using IH(4) by (simp add: add.commute)
  moreover have "build_leaves kvs (map Segment_of (c # cs)) start prev ix
      = Some (Inr ((?a, s) # ls, ix\<lparr>leaf_heap := h, next_addr := ?a + length (c # cs)\<rparr>))"
    using lf(1) IH(1) by (simp add: Let_def)
  moreover have "map fst ((?a, s) # ls) = [?a..<?a + length (c # cs)]" using IH(2) by (simp add: upt_rec)
  ultimately show ?case using IH(3) by (intro exI [of _ "(?a, s) # ls"] exI [of _ h]) auto
qed

section \<open>The chain of leaf nodes\<close>

definition chained :: "nat \<Rightarrow> nat \<Rightarrow> leaves \<Rightarrow> leaves" where
  "chained m n h a = (if m \<le> a \<and> Suc a < n then map_option (\<lambda>lf. lf\<lparr>next_node := Suc a\<rparr>) (h a) else h a)"

lemma link_leaves_ok:
  "\<forall>a\<in>{m..<n}. leaf_heap ix a \<noteq> None \<Longrightarrow> link_leaves [m..<n] ix = Inr (ix\<lparr>leaf_heap := chained m n (leaf_heap ix)\<rparr>)"
proof (induction "n - m" arbitrary: m ix)
  case 0
  then have "chained m n (leaf_heap ix) = leaf_heap ix" by (auto simp: chained_def fun_eq_iff)
  then show ?case using 0 by simp
next
  case (Suc d)
  then have e: "[m..<n] = m # [Suc m..<n]" by (simp add: upt_rec)
  show ?case
  proof (cases "Suc m < n")
    case True
    obtain lf where lf: "leaf_heap ix m = Some lf" using Suc.prems True by fastforce
    let ?ix = "ix\<lparr>leaf_heap := (leaf_heap ix)(m \<mapsto> lf\<lparr>next_node := Suc m\<rparr>)\<rparr>"
    have e2: "[Suc m..<n] = Suc m # [Suc (Suc m)..<n]" using True by (simp add: upt_rec)
    have "link_leaves [m..<n] ix = link_leaves [Suc m..<n] ?ix"
      unfolding e unfolding e2 by (simp add: mod_leaf_def lf set_next_def)
    also have "\<dots> = Inr (?ix\<lparr>leaf_heap := chained (Suc m) n (leaf_heap ?ix)\<rparr>)"
      by (rule Suc.hyps(1)) (use Suc in auto)
    also have "chained (Suc m) n (leaf_heap ?ix) = chained m n (leaf_heap ix)"
      using lf True by (auto simp: chained_def fun_eq_iff)
    finally show ?thesis by simp
  next
    case False
    then have "chained m n (leaf_heap ix) = leaf_heap ix" by (auto simp: chained_def fun_eq_iff)
    moreover have nil: "[Suc m..<n] = []" using False by simp
    ultimately show ?thesis unfolding e nil by simp
  qed
qed

definition next_in :: "nat \<Rightarrow> nat \<Rightarrow> nat" where
  "next_in n a = (if Suc a < n then Suc a else 0)"

lemma leaf_holds_chained:
  assumes "list_all2 (leaf_holds h gv (\<lambda>_. 0)) cks ls" "map fst ls = [m..<n]"
  shows "list_all2 (leaf_holds (chained m n h) gv (next_in n)) cks ls"
proof -
  have "leaf_holds (chained m n h) gv (next_in n) ck x" if "leaf_holds h gv (\<lambda>_. 0) ck x" "x \<in> set ls" for ck x
  proof -
    have "fst x \<in> set (map fst ls)" using that(2) by simp
    then have x: "m \<le> fst x" unfolding assms(2) by simp
    from that(1) obtain lf where "h (fst x) = Some lf" "leaf_ready gv ck (fst x) (snd x) lf" "next_node lf = 0"
      by (auto simp: leaf_holds_def)
    then show ?thesis using x by (auto simp: leaf_holds_def chained_def next_in_def)
  qed
  then show ?thesis using assms(1) by (auto simp: list_all2_conv_all_nth)
qed

end
