(* ===== verification/Plin_Correct.thy ===== *)
theory Plin_Correct
  imports Plin_Update Leaf_Build Inner_Tree Plin_Build
begin

text \<open>
  The index as a map.  The invariant relates the state to a partial map from keys to payloads; lookups answer
  from the map and upserts update it.
\<close>

section \<open>The invariant\<close>

text \<open>The walk from a leaf node ends there.\<close>

definition stays :: "leaves \<Rightarrow> LeafNode \<Rightarrow> double \<Rightarrow> bool" where
  "stays h lf k \<longleftrightarrow> next_node lf = 0 \<or> (\<exists>nx. h (next_node lf) = Some nx \<and> k < first_key nx)"

definition usable :: "u32 \<Rightarrow> InnerSlot \<Rightarrow> LeafNode \<Rightarrow> bool" where
  "usable gv s lf \<longleftrightarrow> mirrors s lf \<and> slot_check_read_lock s \<and> slot_check_write_lock s \<and> node_locked lf = 0 \<and> \<not> abandoned lf
     \<and> current gv lf \<and> leaf_tight lf"

text \<open>
  \<^verbatim>\<open>ss\<close> are the accelerators of the leaf nodes in key order.  Each key up to \<^verbatim>\<open>hi\<close> is answered by the node it is
  routed to, and a node holds no other keys.
\<close>

definition leaves_inv :: "leaves \<Rightarrow> u32 \<Rightarrow> InnerSlot list \<Rightarrow> double \<Rightarrow> (double \<rightharpoonup> payload_t) \<Rightarrow> bool" where
  "leaves_inv h gv ss hi m \<longleftrightarrow> leaves_ok h \<and> dom h = ptr ` set ss \<and> inj_on ptr (set ss) \<and> 0 \<notin> ptr ` set ss \<and> key_sorted ss
     \<and> (\<forall>s\<in>set ss. \<exists>lf. h (ptr s) = Some lf \<and> usable gv s lf
         \<and> (\<forall>k. k \<noteq> FREE_FLAG \<longrightarrow> k \<le> hi \<longrightarrow> routes_to ss k s \<longrightarrow> leaf_map lf k = m k \<and> stays h lf k)
         \<and> (\<forall>k. k \<noteq> FREE_FLAG \<longrightarrow> leaf_map lf k \<noteq> None \<longrightarrow> k \<le> hi \<and> routes_to ss k s))"

definition buffer_inv :: "btree_plus \<Rightarrow> (double \<Rightarrow> bool) \<Rightarrow> (double \<rightharpoonup> payload_t) \<Rightarrow> bool" where
  "buffer_inv t P m \<longleftrightarrow> btree_inv t \<and> synced t \<and> (\<forall>k. P k \<longrightarrow> lookup k t = m k)"

definition routes_ok :: "PlinIndex \<Rightarrow> InnerSlot list \<Rightarrow> bool" where
  "routes_ok ix ss \<longleftrightarrow> (\<forall>k. plin_min_key ix \<le> k \<longrightarrow> k \<le> plin_max_key ix \<longrightarrow>
     (\<exists>r s. locate_leaf k ix = Some (Inr r) \<and> slot_at r ix = Inr s \<and> routes_to ss k s))"

definition plin_inv :: "PlinIndex \<Rightarrow> InnerSlot list \<Rightarrow> (double \<rightharpoonup> payload_t) \<Rightarrow> bool" where
  "plin_inv ix ss m \<longleftrightarrow> leaves_inv (leaf_heap ix) (global_version ix) ss (plin_max_key ix) m \<and> routes_ok ix ss
     \<and> plin_min_key ix \<le> plin_max_key ix \<and> plin_max_key ix < FREE_FLAG \<and> (\<forall>s\<in>set ss. plin_min_key ix \<le> min_key s)
     \<and> buffer_inv (left_buffer ix) (\<lambda>k. k < plin_min_key ix) m \<and> buffer_inv (right_buffer ix) (\<lambda>k. plin_max_key ix < k) m"

section \<open>Lookups\<close>

lemma block_find_same:
  assumes "block_find gv k b = Some (Inr (ret, pl, b'))" "local_version (hdr b) = gv"
  shows "b' = b"
  using assms by (auto simp: block_find_def check_lock_def check_global_version_def Let_def bind_run_def
      split: if_splits option.splits sum.splits)

lemma leaf_find_same:
  assumes "leaf_find h a k gv acc = Some (Inr (ret, pl, h'))" "\<And>b lf. h b = Some lf \<Longrightarrow> current gv lf"
  shows "h' = h"
proof -
  from assms(1) obtain c i acc' where w: "leaf_walk h a k acc = Some (Inr (Reached c i acc')) \<or> h' = h"
    by (auto simp: leaf_find_def bind_run_def split: option.splits sum.splits walk.splits)
  show ?thesis
  proof (cases "h' = h")
    case False
    then have w: "leaf_walk h a k acc = Some (Inr (Reached c i acc'))" using w by simp
    then obtain lf b b' where x: "h c = Some lf" "get_block i lf = Inr b" "block_find gv k b = Some (Inr (ret, pl, b'))"
      "h' = h(c \<mapsto> put_block i b' lf)"
      using assms(1) by (auto simp: leaf_find_def bind_run_def split: option.splits sum.splits)
    have "local_version (hdr b) = gv" using assms(2) [OF x(1)] x(2)
      by (auto simp: get_block_def current_def list_all_length split: if_splits)
    then have "b' = b" using block_find_same [OF x(3)] by simp
    then have "put_block i b' lf = lf" using x(2) by (auto simp: get_block_def put_block_def split: if_splits)
    then show ?thesis using x(1,4) by auto
  qed simp
qed

lemma walk_stays:
  assumes "h a = Some lf" "mirrors s lf" "slot_check_read_lock s" "stays h lf k" "node_ok lf"
  shows "leaf_walk h a k (Some s) = Some (Inr (Reached a (key_block lf k) (Some s)))"
proof -
  have "slot_block (predicted (Some s) lf k) = key_block lf k" using slot_block_predicted [OF assms(5)] assms(2) by simp
  then show ?thesis using assms
    by (subst leaf_walk.simps) (auto simp: leaf_check_read_lock_def stays_def Let_def predicted_def leaf_model_def split: option.splits)
qed

lemma leaves_invD:
  assumes "leaves_inv h gv ss hi m" "s \<in> set ss"
  obtains lf where "h (ptr s) = Some lf" "usable gv s lf" "node_ok lf" "accessible h (ptr s) (Some s)"
    "\<And>k. k \<noteq> FREE_FLAG \<Longrightarrow> k \<le> hi \<Longrightarrow> routes_to ss k s \<Longrightarrow> leaf_map lf k = m k \<and> stays h lf k"
    "\<And>k. k \<noteq> FREE_FLAG \<Longrightarrow> leaf_map lf k \<noteq> None \<Longrightarrow> k \<le> hi \<and> routes_to ss k s"
proof -
  from assms obtain lf where lf: "h (ptr s) = Some lf" "usable gv s lf"
    "\<And>k. k \<noteq> FREE_FLAG \<Longrightarrow> k \<le> hi \<Longrightarrow> routes_to ss k s \<Longrightarrow> leaf_map lf k = m k \<and> stays h lf k"
    "\<And>k. k \<noteq> FREE_FLAG \<Longrightarrow> leaf_map lf k \<noteq> None \<Longrightarrow> k \<le> hi \<and> routes_to ss k s" unfolding leaves_inv_def by blast
  have ok: "leaves_ok h" using assms(1) by (simp add: leaves_inv_def)
  have "unlocked h" unfolding unlocked_def
  proof (intro allI impI)
    fix a l assume a: "h a = Some l"
    then have "a \<in> ptr ` set ss" using assms(1) by (auto simp: leaves_inv_def)
    then obtain t where "t \<in> set ss" "ptr t = a" by blast
    then have "usable gv t l" using assms(1) a unfolding leaves_inv_def by fastforce
    then show "node_locked l AND 4 = 0 \<and> node_locked l AND 2 = 0 \<and> \<not> abandoned l" by (simp add: usable_def)
  qed
  then have "accessible h (ptr s) (Some s)" using ok lf by (simp add: accessible_def usable_def)
  then show ?thesis using that [OF lf(1,2) leaves_okD(1) [OF ok lf(1)]] lf(3,4) by blast
qed

lemma leaves_inv_current: "leaves_inv h gv ss hi m \<Longrightarrow> h a = Some lf \<Longrightarrow> current gv lf"
proof -
  assume i: "leaves_inv h gv ss hi m" and a: "h a = Some lf"
  then have "a \<in> ptr ` set ss" by (auto simp: leaves_inv_def)
  then obtain t where "t \<in> set ss" "ptr t = a" by blast
  then show "current gv lf" using leaves_invD [OF i] a by (metis option.inject usable_def)
qed

lemma answer_found:
  "answer r = found_as m \<Longrightarrow> \<exists>h. r = Some (Inr (if m = None then 0 else 1, m, h))"
  by (auto simp: answer_def found_as_def bind_run_def split: option.splits sum.splits)

lemma plin_search_ok:
  assumes inv: "leaves_inv (leaf_heap ix) (global_version ix) ss (plin_max_key ix) m" and ro: "routes_ok ix ss"
    and k: "plin_min_key ix \<le> k" "k \<le> plin_max_key ix" "k \<noteq> FREE_FLAG"
  shows "\<exists>a. plin_search k ix = Some (Inr (map_option (Pair a) (m k), ix))"
proof -
  from ro k obtain r s where r: "locate_leaf k ix = Some (Inr r)" "slot_at r ix = Inr s" "routes_to ss k s" by (auto simp: routes_ok_def)
  then have "s \<in> set ss" by (simp add: routes_to_def)
  from leaves_invD [OF inv this] obtain lf where lf: "leaf_heap ix (ptr s) = Some lf" "usable (global_version ix) s lf"
    "accessible (leaf_heap ix) (ptr s) (Some s)" "leaf_map lf k = m k" "stays (leaf_heap ix) lf k" "node_ok lf" using k r(3) by metis
  have w: "leaf_walk (leaf_heap ix) (ptr s) k (Some s) = Some (Inr (Reached (ptr s) (key_block lf k) (Some s)))"
    by (rule walk_stays) (use lf in \<open>auto simp: usable_def\<close>)
  have "answer (leaf_find (leaf_heap ix) (ptr s) k (global_version ix) (Some s)) = found_as (m k)"
    using leaf_find_ok [OF lf(3), of k "global_version ix"] w lf(1,4) by auto
  then obtain h where f: "leaf_find (leaf_heap ix) (ptr s) k (global_version ix) (Some s) = Some (Inr (if m k = None then 0 else 1, m k, h))"
    using answer_found by blast
  then have "h = leaf_heap ix" by (rule leaf_find_same) (rule leaves_inv_current [OF inv])
  then show ?thesis using r f lf(2) by (subst plin_search.simps) (cases "m k"; auto simp: usable_def Let_def)
qed

lemma buffer_find:
  "buffer_inv t P m \<Longrightarrow> P k \<Longrightarrow> in_buffer t k p ix = Some (Inr (case m k of Some v \<Rightarrow> (True, v, ix) | None \<Rightarrow> (False, p, ix)))"
  by (simp add: in_buffer_def buffer_inv_def find_inv(1))

lemma plin_find_ok:
  assumes inv: "plin_inv ix ss m" and k: "k \<noteq> FREE_FLAG"
  shows "plin_find k p ix = Some (Inr (case m k of Some v \<Rightarrow> (True, v, ix) | None \<Rightarrow> (False, p, ix)))"
proof (cases "plin_min_key ix \<le> k \<and> k \<le> plin_max_key ix")
  case True
  then obtain a where "plin_search k ix = Some (Inr (map_option (Pair a) (m k), ix))"
    using plin_search_ok [of ix ss m k] inv k by (auto simp: plin_inv_def)
  then show ?thesis using True by (cases "m k") (simp_all add: plin_find_def)
next
  case False
  then show ?thesis using inv buffer_find [of "left_buffer ix" _ m k] buffer_find [of "right_buffer ix" _ m k]
    by (auto simp: plin_find_def plin_inv_def not_le)
qed

text \<open>A free key is above every key of the index: it is looked up in the right buffer.\<close>

lemma plin_find_any:
  assumes inv: "plin_inv ix ss m"
  shows "plin_find k p ix = Some (Inr (case m k of Some v \<Rightarrow> (True, v, ix) | None \<Rightarrow> (False, p, ix)))"
proof (cases "k = FREE_FLAG")
  case True
  have b: "plin_max_key ix < k" "buffer_inv (right_buffer ix) (\<lambda>k. plin_max_key ix < k) m" using inv True by (simp_all add: plin_inv_def)
  have "\<not> k \<le> plin_max_key ix" using b by simp
  moreover have "\<not> k < plin_min_key ix \<or> k < plin_min_key ix \<and> buffer_inv (left_buffer ix) (\<lambda>k. k < plin_min_key ix) m"
    using inv by (auto simp: plin_inv_def)
  ultimately show ?thesis using buffer_find [OF b(2,1), of p ix] buffer_find [of "left_buffer ix" "\<lambda>k. k < plin_min_key ix" m k p ix]
    by (auto simp: plin_find_def)
qed (rule plin_find_ok [OF inv])

text \<open>A search from the leaf of any position finds nothing but what the map has.\<close>

lemma leaf_find_sound:
  assumes inv: "leaves_inv h gv ss hi m" and a: "h a = Some lf" and k: "k \<noteq> FREE_FLAG"
  shows "\<exists>r. leaf_find h a k gv None = Some (Inr (if r = None then 0 else 1, r, h)) \<and> (r = None \<or> r = m k)"
proof -
  have "a \<in> ptr ` set ss" using inv a by (auto simp: leaves_inv_def)
  then obtain s where s: "s \<in> set ss" "ptr s = a" by blast
  obtain "accessible h a (Some s)" using leaves_invD [OF inv s(1)] s(2) by metis
  then have "accessible h a None" by (auto simp: accessible_def)
  from leaf_find_ok [OF this, of k gv] obtain c lc acc' where
    c: "h c = Some lc" "answer (leaf_find h a k gv None) = found_as (leaf_map lc k)" by blast
  then obtain h' where f: "leaf_find h a k gv None = Some (Inr (if leaf_map lc k = None then 0 else 1, leaf_map lc k, h'))"
    using answer_found by blast
  then have "h' = h" by (rule leaf_find_same) (rule leaves_inv_current [OF inv])
  moreover have "leaf_map lc k = None \<or> leaf_map lc k = m k"
  proof -
    have "c \<in> ptr ` set ss" using inv c by (auto simp: leaves_inv_def)
    then obtain t where t: "t \<in> set ss" "ptr t = c" by blast
    show ?thesis using leaves_invD [OF inv t(1)] t(2) c(1) k by (metis option.inject)
  qed
  ultimately show ?thesis using f by blast
qed

lemma find_through_net_ok:
  assumes inv: "plin_inv ix ss m" and tbl: "local_table ix \<noteq> []" "uint (leaf_number ix) = int (length (local_table ix))"
    "\<forall>e\<in>set (local_table ix). leaf_heap ix (fst (snd e)) \<noteq> None"
  shows "\<exists>ret v. find_through_net k p slot ix = Some (Inr (ret, v, ix)) \<and> (ret = 1 \<longrightarrow> m k = Some v)"
proof -
  let ?i = "clamp_logic_id slot (leaf_number ix)"
  have i: "?i < length (local_table ix)"
  proof -
    have n: "0 < uint (leaf_number ix)" using tbl by simp
    then have "uint (leaf_number ix - 1) = uint (leaf_number ix) - 1" by (simp add: uint_sub_if')
    moreover have "int (unat (leaf_number ix - 1)) = uint (leaf_number ix - 1)" by simp
    ultimately have "int ?i \<le> uint (leaf_number ix) - 1" using n unfolding clamp_logic_id_def Let_def by (auto split: if_split)
    then show ?thesis using tbl(2) by linarith
  qed
  have "local_table ix ! ?i \<in> set (local_table ix)" using i by simp
  then obtain lf where lf: "leaf_heap ix (fst (snd (local_table ix ! ?i))) = Some lf" using tbl(3) by blast
  obtain b v where f: "plin_find k p ix = Some (Inr (b, v, ix))" using plin_find_any [OF inv, of k p] by (cases "m k") auto
  show ?thesis
  proof (cases "plin_min_key ix \<le> k \<and> k \<le> plin_max_key ix")
    case True
    then have k: "k \<noteq> FREE_FLAG" using inv by (auto simp: plin_inv_def)
    have l: "leaves_inv (leaf_heap ix) (global_version ix) ss (plin_max_key ix) m" using inv by (simp add: plin_inv_def)
    from leaf_find_sound [OF l lf k] obtain r where
      r: "leaf_find (leaf_heap ix) (fst (snd (local_table ix ! ?i))) k (global_version ix) None
        = Some (Inr (if r = None then 0 else 1, r, leaf_heap ix))" "r = None \<or> r = m k" by blast
    have "fst (snd (local_table ix ! ?i)) \<in> ptr ` set ss" using l lf by (auto simp: leaves_inv_def)
    then obtain s where "s \<in> set ss" "ptr s = fst (snd (local_table ix ! ?i))" by force
    then have "usable (global_version ix) s lf" using leaves_invD [OF l] lf by (metis option.inject)
    then have "leaf_check_read_lock None lf" by (simp add: usable_def leaf_check_read_lock_def)
    then have "find_through_net k p slot ix = Some (Inr (if r = None then 0 else 1, case r of Some w \<Rightarrow> w | None \<Rightarrow> v, ix))"
      using True f i lf r(1) by (simp add: find_through_net_def Let_def)
    then show ?thesis using r(2) by (cases r) auto
  next
    case False
    then show ?thesis using f i by (auto simp: find_through_net_def Let_def)
  qed
qed

section \<open>Upsert\<close>

lemma block_upsert_version:
  assumes "block_upsert gv k v b = Some (Inr (ret, b'))"
  shows "local_version (hdr b') = gv"
proof -
  obtain h where h: "block_get_lock gv (hdr b) = Some h" using assms by (auto simp: block_upsert_def split: option.splits)
  then have "local_version h = gv" by (auto simp: block_get_lock_def check_global_version_def Let_def split: if_splits)
  then show ?thesis using assms h by (auto simp: block_upsert_def block_release_lock_def Let_def bind_run_def
        split: option.splits sum.splits if_splits)
qed

lemma leaf_upsert_current:
  assumes "leaf_upsert h a k v gv acc = Some (Inr (ret, sp, h(c \<mapsto> lc')))" "h c = Some lc" "current gv lc"
    "leaf_walk h a k acc = Some (Inr (Reached c i acc'))" "leaf_check_write_lock acc' lc"
  shows "current gv lc'"
proof -
  from assms obtain b fl b' where b: "get_block i lc = Inr b" "block_upsert gv k v b = Some (Inr (fl, b'))"
    "h(c \<mapsto> lc') = h(c \<mapsto> (let lf' = put_block i b' lc in if fl = 4 then lf'\<lparr>overflow_number := overflow_number lf' + 1\<rparr> else lf'))"
    by (auto simp: leaf_upsert_def bind_run_def Let_def split: option.splits sum.splits)
  have "lc' = (let lf' = put_block i b' lc in if fl = 4 then lf'\<lparr>overflow_number := overflow_number lf' + 1\<rparr> else lf')"
    using fun_cong [OF b(3), of c] by simp
  moreover have "current gv (put_block i b' lc)" by (rule current_put [OF assms(3) block_upsert_version [OF b(2)]])
  ultimately show ?thesis by (simp add: current_def Let_def)
qed

lemma routes_to_unique: "key_sorted ss \<Longrightarrow> routes_to ss k s \<Longrightarrow> routes_to ss k t \<Longrightarrow> s = t"
proof -
  assume so: "key_sorted ss" and r: "routes_to ss k s" "routes_to ss k t"
  then have e: "min_key s = min_key t" by (meson antisym routes_to_def)
  from r obtain i j where i: "i < length ss" "ss ! i = s" "j < length ss" "ss ! j = t" by (auto simp: routes_to_def in_set_conv_nth)
  have "\<not> i < j" "\<not> j < i" using so e i by (metis key_sorted_def less_irrefl sorted_wrt_nth_less)+
  then show "s = t" using i by auto
qed

lemma stays_cong:
  assumes "h c = Some lc" "walk_view lc' = walk_view lc" "stays h lf k"
  shows "stays (h(c \<mapsto> lc')) lf k"
  using assms by (auto simp: stays_def walk_view_def)

lemma leaves_inv_upd:
  assumes inv: "leaves_inv h gv ss hi m" and s: "s \<in> set ss" "h (ptr s) = Some lf" "routes_to ss k s" "k \<noteq> FREE_FLAG" "k \<le> hi"
    and ch: "changed k v lf lf'" "leaf_tight lf'" "current gv lf'" "leaves_ok (h(ptr s \<mapsto> lf'))"
  shows "leaves_inv (h(ptr s \<mapsto> lf')) gv ss hi (m(k := v))"
proof -
  have v: "walk_view lf' = walk_view lf" "abandoned lf' = abandoned lf" using ch(1) by (simp_all add: changed_def)
  note m' = leaf_map_changed [OF ch(1)]
  have so: "key_sorted ss" and inj: "inj_on ptr (set ss)" using inv by (simp_all add: leaves_inv_def)
  have "\<exists>l. (h(ptr s \<mapsto> lf')) (ptr t) = Some l \<and> usable gv t l
      \<and> (\<forall>j. j \<noteq> FREE_FLAG \<longrightarrow> j \<le> hi \<longrightarrow> routes_to ss j t \<longrightarrow> leaf_map l j = (m(k := v)) j \<and> stays (h(ptr s \<mapsto> lf')) l j)
      \<and> (\<forall>j. j \<noteq> FREE_FLAG \<longrightarrow> leaf_map l j \<noteq> None \<longrightarrow> j \<le> hi \<and> routes_to ss j t)" if t: "t \<in> set ss" for t
  proof (cases "t = s")
    case True
    from leaves_invD [OF inv s(1)] s(2) have l: "usable gv s lf" "node_ok lf"
      "\<And>j. j \<noteq> FREE_FLAG \<Longrightarrow> j \<le> hi \<Longrightarrow> routes_to ss j s \<Longrightarrow> leaf_map lf j = m j \<and> stays h lf j"
      "\<And>j. j \<noteq> FREE_FLAG \<Longrightarrow> leaf_map lf j \<noteq> None \<Longrightarrow> j \<le> hi \<and> routes_to ss j s" by (metis option.inject)+
    have "usable gv s lf'" using l(1) v ch(2,3) by (auto simp: usable_def mirrors_def walk_view_def)
    moreover have "stays (h(ptr s \<mapsto> lf')) lf' j" if "stays h lf j" for j
      using stays_cong [of h "ptr s" lf lf' lf' j] s(2) v(1) that by (simp add: stays_def walk_view_def)
    ultimately show ?thesis using True l m' [OF l(2)] s(3-5) by (auto split: if_splits)
  next
    case False
    then have p: "ptr t \<noteq> ptr s" using inj t s(1) by (auto dest: inj_onD)
    from leaves_invD [OF inv t] obtain l where l: "h (ptr t) = Some l" "usable gv t l"
      "\<And>j. j \<noteq> FREE_FLAG \<Longrightarrow> j \<le> hi \<Longrightarrow> routes_to ss j t \<Longrightarrow> leaf_map l j = m j \<and> stays h l j"
      "\<And>j. j \<noteq> FREE_FLAG \<Longrightarrow> leaf_map l j \<noteq> None \<Longrightarrow> j \<le> hi \<and> routes_to ss j t" by metis
    have "\<not> routes_to ss k t" using routes_to_unique [OF so s(3)] False by blast
    then show ?thesis using l p stays_cong [of h "ptr s" lf lf', OF s(2) v(1)] by (intro exI [of _ l]) auto
  qed
  moreover have "dom (h(ptr s \<mapsto> lf')) = dom h" using s(2) by auto
  ultimately show ?thesis using inv ch(4) by (simp add: leaves_inv_def)
qed

text \<open>Routing depends on the roots and the inner nodes only.\<close>

lemma slot_at_cong: "roots ix' = roots ix \<Longrightarrow> inner_heap ix' = inner_heap ix \<Longrightarrow> slot_at r ix' = slot_at r ix"
  by (simp add: slot_at_def split: slot_ref.split)

lemma routes_ok_cong:
  assumes "routes_ok ix ss" "roots ix' = roots ix" "root_number ix' = root_number ix" "inner_heap ix' = inner_heap ix"
    "plin_min_key ix' = plin_min_key ix" "plin_max_key ix' = plin_max_key ix"
  shows "routes_ok ix' ss"
proof -
  note s = slot_at_cong [OF assms(2,4)]
  have "locate_leaf k ix' = locate_leaf k ix" for k unfolding locate_leaf_def root_slot_def s assms(2-4) ..
  then show ?thesis using assms s by (simp add: routes_ok_def)
qed

lemma plin_upsert_inside:
  assumes inv: "plin_inv ix ss m" and k: "plin_min_key ix < k" "k < plin_max_key ix" and v: "v \<noteq> 0"
  shows "\<exists>ix'. plin_upsert k v ix = Some (Inr ix') \<and> plin_inv ix' ss (m(k \<mapsto> v))
    \<and> plin_min_key ix' = plin_min_key ix \<and> plin_max_key ix' = plin_max_key ix
    \<and> (\<exists>a s ret sp. leaf_upsert (leaf_heap ix) a k v (global_version ix) s = Some (Inr (ret, sp, leaf_heap ix')))"
proof -
  have l: "leaves_inv (leaf_heap ix) (global_version ix) ss (plin_max_key ix) m" and ro: "routes_ok ix ss"
    and f: "k \<noteq> FREE_FLAG" using inv k by (auto simp: plin_inv_def)
  from ro k obtain r s where r: "locate_leaf k ix = Some (Inr r)" "slot_at r ix = Inr s" "routes_to ss k s"
    unfolding routes_ok_def using less_imp_le by blast
  then have s: "s \<in> set ss" by (simp add: routes_to_def)
  from leaves_invD [OF l s] obtain lf where lf: "leaf_heap ix (ptr s) = Some lf" "usable (global_version ix) s lf" "node_ok lf"
    "accessible (leaf_heap ix) (ptr s) (Some s)" "stays (leaf_heap ix) lf k" using k f r(3) by (metis less_imp_le)
  have u: "mirrors s lf" "slot_check_read_lock s" "slot_check_write_lock s" "node_locked lf = 0" "leaf_tight lf" "current (global_version ix) lf"
    using lf(2) by (simp_all add: usable_def)
  have w: "leaf_walk (leaf_heap ix) (ptr s) k (Some s) = Some (Inr (Reached (ptr s) (key_block lf k) (Some s)))"
    by (rule walk_stays [OF lf(1) u(1,2) lf(5,3)])
  from leaf_upsert_ok [OF lf(4) f v, of "global_version ix"] obtain ret sp c lc lc' acc' where
    up: "leaf_upsert (leaf_heap ix) (ptr s) k v (global_version ix) (Some s) = Some (Inr (ret, sp, (leaf_heap ix)(c \<mapsto> lc')))"
    "leaf_heap ix c = Some lc" "leaf_walk (leaf_heap ix) (ptr s) k (Some s) = Some (Inr (Reached c (key_block lc k) acc'))"
    "changed k (Some v) lc lc'" "leaf_tight lc \<longrightarrow> leaf_tight lc'" "leaf_map lc k = None \<longrightarrow> ret \<in> {2, 4, 5, 6}"
    "leaf_map lc k \<noteq> None \<longrightarrow> leaf_tight lc \<longrightarrow> ret \<in> {1, 3}" "sp \<noteq> None \<longleftrightarrow> ret \<in> {5, 6}" by (elim exE conjE)
  have c: "c = ptr s" "lc = lf" "acc' = Some s" using up(2,3) w lf(1) by auto
  have ret: "ret \<noteq> 7" using up(6,7) u(5) c(2) by (cases "leaf_map lf k = None") auto
  let ?ix = "ix\<lparr>leaf_heap := (leaf_heap ix)(ptr s \<mapsto> lc')\<rparr>"
  have ok: "leaves_ok ((leaf_heap ix)(ptr s \<mapsto> lc'))"
    using changed_find(3) [OF _ up(2,4) f up(3)] l c by (auto simp: leaves_inv_def)
  have "current (global_version ix) lc'"
    by (rule leaf_upsert_current [OF up(1,2) _ up(3)]) (use c u in \<open>simp_all add: leaf_check_write_lock_def\<close>)
  then have l': "leaves_inv ((leaf_heap ix)(ptr s \<mapsto> lc')) (global_version ix) ss (plin_max_key ix) (m(k \<mapsto> v))"
    using leaves_inv_upd [OF l s lf(1) r(3) f _ _ _ _ ok] up(4,5) c u(5) k by auto
  have inv': "plin_inv (?ix\<lparr>split_threads := ts\<rparr>) ss (m(k \<mapsto> v))" for ts
    using inv l' k routes_ok_cong [OF ro] by (auto simp: plin_inv_def buffer_inv_def)
  have "0 \<notin> ptr ` set ss" using l by (simp add: leaves_inv_def)
  then have p: "ptr s \<noteq> 0" using s by (metis image_eqI)
  have csl: "check_split_lock lf" using u(4) by (simp add: check_split_lock_def)
  have up': "leaf_upsert (leaf_heap ix) (ptr s) k v (global_version ix) (Some s) = Some (Inr (ret, sp, (leaf_heap ix)(ptr s \<mapsto> lc')))"
    using up(1) c(1) by simp
  have "\<exists>ts. plin_upsert_loop k v ix = Some (Inr (?ix\<lparr>split_threads := ts\<rparr>))"
  proof (cases "ret = 5 \<or> ret = 6")
    case True
    then obtain a where a: "sp = Some a" using up(8) by auto
    have "plin_upsert_loop k v ix = Some (Inr (?ix\<lparr>split_threads := split_threads ix @ [(a, if ret = 5 then Some r else None)]\<rparr>))"
      using True by (subst plin_upsert_loop.simps) (simp add: r(1,2) lf(1) p up' a ret csl Let_def)
    then show ?thesis by blast
  next
    case False
    then have "plin_upsert_loop k v ix = Some (Inr ?ix)"
      by (subst plin_upsert_loop.simps) (simp add: r(1,2) lf(1) p up' ret csl Let_def)
    moreover have "?ix = ?ix\<lparr>split_threads := split_threads ix\<rparr>" by simp
    ultimately show ?thesis by metis
  qed
  then obtain ts where "plin_upsert_loop k v ix = Some (Inr (?ix\<lparr>split_threads := ts\<rparr>))" by blast
  moreover have "\<exists>a s ret sp. leaf_upsert (leaf_heap ix) a k v (global_version ix) s = Some (Inr (ret, sp, leaf_heap (?ix\<lparr>split_threads := ts\<rparr>)))"
    using up' by auto
  ultimately show ?thesis using inv' [of ts] k by (intro exI [of _ "?ix\<lparr>split_threads := ts\<rparr>"]) (simp add: plin_upsert_def)
qed

lemma buffer_upsert:
  assumes "buffer_inv t P m" "v \<noteq> 0"
  shows "\<exists>ret t'. upsert k v (btree_plus_open t) = Some (Inr (ret, t')) \<and> buffer_inv t' P (m(k \<mapsto> v))
    \<and> (\<not> P k \<longrightarrow> buffer_inv t' P m)"
proof -
  let ?h = "\<lparr>locked = 0, local_version = 0, overflow_tree = Some t\<rparr>"
  have "header_ok (?h\<lparr>locked := 0\<rparr>)" using assms(1) by (simp add: header_ok_def buffer_inv_def)
  from overflow_upsert [OF this assms(2), of k] obtain ret t' where
    "upsert k v (btree_plus_open t) = Some (Inr (ret, t'))" "btree_inv t'" "synced t'" "(\<lambda>l. lookup l t') = (overflow_map ?h)(k \<mapsto> v)"
    by (auto simp: open_overflow_def)
  moreover have "overflow_map ?h l = lookup l t" for l by (simp add: overflow_map_def)
  ultimately have t': "upsert k v (btree_plus_open t) = Some (Inr (ret, t'))" "btree_inv t'" "synced t'"
    "\<And>l. lookup l t' = (if l = k then Some v else lookup l t)" by (auto simp: fun_eq_iff)
  then show ?thesis using assms(1) by (auto simp: buffer_inv_def)
qed

lemma leaves_inv_cong:
  assumes "leaves_inv h gv ss hi m" "\<And>l s. l \<le> hi \<Longrightarrow> routes_to ss l s \<Longrightarrow> m' l = m l"
  shows "leaves_inv h gv ss hi m'"
proof -
  have "\<exists>lf. h (ptr s) = Some lf \<and> usable gv s lf
      \<and> (\<forall>k. k \<noteq> FREE_FLAG \<longrightarrow> k \<le> hi \<longrightarrow> routes_to ss k s \<longrightarrow> leaf_map lf k = m' k \<and> stays h lf k)
      \<and> (\<forall>k. k \<noteq> FREE_FLAG \<longrightarrow> leaf_map lf k \<noteq> None \<longrightarrow> k \<le> hi \<and> routes_to ss k s)" if s: "s \<in> set ss" for s
    using leaves_invD [OF assms(1) s] assms(2) by (metis (no_types, opaque_lifting))
  then show ?thesis using assms(1) by (simp add: leaves_inv_def)
qed

text \<open>Keys outside the loaded range go to the buffers.\<close>

lemma plin_upsert_outside:
  assumes inv: "plin_inv ix ss m" and k: "k < plin_min_key ix \<or> plin_max_key ix < k" and v: "v \<noteq> 0"
  shows "\<exists>ix'. plin_upsert k v ix = Some (Inr ix') \<and> plin_inv ix' ss (m(k \<mapsto> v))
    \<and> plin_min_key ix' = plin_min_key ix \<and> plin_max_key ix' = plin_max_key ix
    \<and> leaf_heap ix' = leaf_heap ix"
proof -
  have i: "leaves_inv (leaf_heap ix) (global_version ix) ss (plin_max_key ix) m" "routes_ok ix ss" "plin_max_key ix < FREE_FLAG \<and> plin_min_key ix \<le> plin_max_key ix"
    "\<forall>s\<in>set ss. plin_min_key ix \<le> min_key s" "buffer_inv (left_buffer ix) (\<lambda>k. k < plin_min_key ix) m"
    "buffer_inv (right_buffer ix) (\<lambda>k. plin_max_key ix < k) m" using inv by (simp_all add: plin_inv_def)
  have l: "leaves_inv (leaf_heap ix) (global_version ix) ss (plin_max_key ix) (m(k \<mapsto> v))"
    by (rule leaves_inv_cong [OF i(1)]) (use k i(4) in \<open>auto simp: routes_to_def\<close>)
  have ro: "routes_ok (ix\<lparr>left_buffer := t, left_buffer_number := n\<rparr>) ss" "routes_ok (ix\<lparr>right_buffer := t, right_buffer_number := n\<rparr>) ss" for t n
    by (rule routes_ok_cong [OF i(2)]; simp)+
  show ?thesis
  proof (cases "k < plin_min_key ix")
    case True
    from buffer_upsert [OF i(5) v, of k] obtain ret t' where
      t': "upsert k v (btree_plus_open (left_buffer ix)) = Some (Inr (ret, t'))" "buffer_inv t' (\<lambda>k. k < plin_min_key ix) (m(k \<mapsto> v))"
      by blast
    then show ?thesis using True l ro i by (auto simp: plin_upsert_def plin_inv_def buffer_inv_def)
  next
    case False
    from buffer_upsert [OF i(6) v, of k] obtain ret t' where
      t': "upsert k v (btree_plus_open (right_buffer ix)) = Some (Inr (ret, t'))" "buffer_inv t' (\<lambda>k. plin_max_key ix < k) (m(k \<mapsto> v))"
      by blast
    then show ?thesis using False k l ro i by (auto simp: plin_upsert_def plin_inv_def buffer_inv_def)
  qed
qed

text \<open>The smallest and the largest loaded key go to the right buffer, where no lookup searches for them.\<close>

lemma plin_upsert_boundary:
  assumes inv: "plin_inv ix ss m" and k: "k = plin_min_key ix \<or> k = plin_max_key ix" and v: "v \<noteq> 0"
  shows "\<exists>ix'. plin_upsert k v ix = Some (Inr ix') \<and> plin_inv ix' ss m
    \<and> plin_min_key ix' = plin_min_key ix \<and> plin_max_key ix' = plin_max_key ix"
proof -
  have i: "leaves_inv (leaf_heap ix) (global_version ix) ss (plin_max_key ix) m" "routes_ok ix ss"
    "buffer_inv (right_buffer ix) (\<lambda>k. plin_max_key ix < k) m" using inv by (simp_all add: plin_inv_def)
  from buffer_upsert [OF i(3) v, of k] obtain ret t' where
    t': "upsert k v (btree_plus_open (right_buffer ix)) = Some (Inr (ret, t'))" "buffer_inv t' (\<lambda>k. plin_max_key ix < k) m"
    using k inv by (auto simp: plin_inv_def)
  have ro: "routes_ok (ix\<lparr>right_buffer := t, right_buffer_number := n\<rparr>) ss" for t n
    by (rule routes_ok_cong [OF i(2)]; simp)+
  have "\<not> (plin_min_key ix < k \<and> k < plin_max_key ix)" "\<not> k < plin_min_key ix" using k inv by (auto simp: plin_inv_def)
  then show ?thesis using t' ro inv by (auto simp: plin_upsert_def plin_inv_def)
qed

end
