(* ===== verification/Plin_Levels.thy ===== *)
theory Plin_Levels
  imports Plin_Build
begin

text \<open>
  The inner levels that bulk loading builds: every level is a forest over the leaf slots, and the level loop
  ends because a level has at most half as many nodes as the one below, rounded up.
\<close>

section \<open>Growing the heap of inner nodes\<close>

definition fresh :: "PlinIndex \<Rightarrow> bool" where
  "fresh ix \<longleftrightarrow> (\<forall>a\<ge>next_addr ix. inner_heap ix a = None)"

definition grown :: "PlinIndex \<Rightarrow> PlinIndex \<Rightarrow> bool" where
  "grown ix ix' \<longleftrightarrow> (\<exists>H n ps. ix' = ix\<lparr>inner_heap := H, next_addr := n, meta_parameter := ps\<rparr>)
     \<and> (\<forall>a nd. inner_heap ix a = Some nd \<longrightarrow> inner_heap ix' a = Some nd) \<and> fresh ix'"

lemma grown_refl: "fresh ix \<Longrightarrow> grown ix ix"
  unfolding grown_def by (intro conjI exI [of _ "inner_heap ix"] exI [of _ "next_addr ix"] exI [of _ "meta_parameter ix"]) simp_all

lemma grown_trans: "grown a b \<Longrightarrow> grown b c \<Longrightarrow> grown a c"
  unfolding grown_def by (elim exE conjE) (intro conjI, rule exI, rule exI, rule exI, simp, blast+)

lemma grown_parameter: "grown ix ix' \<Longrightarrow> grown ix (ix'\<lparr>meta_parameter := ps\<rparr>)"
  unfolding grown_def fresh_def by (elim exE conjE) (intro conjI, rule exI, rule exI, rule exI, simp_all)

text \<open>An accelerator and its node.\<close>

definition node_for :: "inners \<Rightarrow> InnerSlot list \<Rightarrow> InnerSlot \<Rightarrow> bool" where
  "node_for ins chunk acc \<longleftrightarrow> slot_type acc \<noteq> 0 \<and> chunk \<noteq> [] \<and> min_key acc = min_key (hd chunk)
     \<and> (\<exists>nd. ins (ptr acc) = Some nd \<and> slope acc = inner_slope nd \<and> intercept acc = inner_intercept nd \<and> inner_node_ok nd acc chunk)"

lemma node_for_mono: "node_for ins chunk acc \<Longrightarrow> (\<And>a nd. ins a = Some nd \<Longrightarrow> ins' a = Some nd) \<Longrightarrow> node_for ins' chunk acc"
  unfolding node_for_def by blast

lemma inner_new_fields:
  assumes "inner_new this acc bn keys nodes number start sl ic lvl = Inr (nd, s)"
  shows "slope s = inner_slope nd" "intercept s = inner_intercept nd" "block_number s = ucast bn"
    "ptr s = this" "min_key s = keys ! start" "slot_type s = 1"
proof -
  from assms obtain kss where r: "inner_place_all kss (inner_blank bn keys number start sl ic lvl) = Inr nd" "inner_accelerator this nd acc = Inr s"
    by (auto simp: inner_new_def bind_res_Inr_iff split: if_splits)
  then obtain ss where "nd = (inner_blank bn keys number start sl ic lvl)\<lparr>inner_slots := ss\<rparr>" using inner_place_all_frame by blast
  then show "slope s = inner_slope nd" "intercept s = inner_intercept nd" "block_number s = ucast bn"
    "ptr s = this" "min_key s = keys ! start" "slot_type s = 1"
    using inner_accelerator_ok [OF r(2)] inner_blank_fields by simp_all
qed

lemma pred_mono_steady:
  assumes "steady (slope s) (intercept s) InnerSlotsPerBlock hi" "4 \<le> uint (block_number s)" "finite_double hi"
    "sorted_wrt (<) ks" "\<forall>k\<in>set ks. finite_double k \<and> k \<le> hi"
  shows "pred_mono (predicts s) ks"
  unfolding pred_mono_def
proof (rule sorted_wrt_mono_rel [OF _ assms(4)])
  fix a b assume "a \<in> set ks" "b \<in> set ks" "a < b"
  then show "predicts s a \<le> predicts s b" unfolding predicts_def
    using inner_predict_mono [OF assms(2,1)] assms(3,5) by simp
qed

lemma build_inners_ok:
  assumes nodes: "keys = map min_key nodes" "sorted_wrt (<) keys" "length nodes \<le> 2 ^ 28" "finite_double hi" "hi < FREE_FLAG"
    "\<forall>k\<in>set keys. finite_double k \<and> k \<le> hi"
  shows "cuts keys start cs \<Longrightarrow> fresh ix \<Longrightarrow> build_inners 3 keys nodes (map Segment_of cs) start lvl ix = Inr (accs, ps, ix') \<Longrightarrow>
    grown ix ix' \<and> map min_key accs = map seg_first cs
      \<and> (steady_heap hi (inner_heap ix') \<longrightarrow> list_all2 (node_for (inner_heap ix')) (chunks (drop start nodes) (map seg_number cs)) accs)"
proof (induction cs arbitrary: start ix accs ps)
  case Nil
  then show ?case by (simp add: grown_refl)
next
  case (Cons c cs)
  let ?n = "seg_number c" and ?a = "next_addr ix" and ?sg = "Segment_of c" and ?ch = "take (seg_number c) (drop start nodes)"
  have n: "0 < ?n" "start + ?n \<le> length nodes" "?n \<le> 2 ^ 28" "seg_first c = keys ! start" and rest: "cuts keys (start + ?n) cs"
    using Cons.prems(1) nodes(1,3) by auto
  from Cons.prems(3) obtain nd s accs' ps' where new: "inner_new ?a zero_slot (inner_blocks 3 ?n) keys nodes ?n start (sg_slope ?sg) (sg_intercept ?sg) lvl = Inr (nd, s)"
    and more: "build_inners 3 keys nodes (map Segment_of cs) (start + ?n) lvl (ix\<lparr>inner_heap := (inner_heap ix)(?a \<mapsto> nd), next_addr := Suc ?a\<rparr>) = Inr (accs', ps', ix')"
    and accs: "accs = s # accs'"
    by (auto simp: Let_def bind_res_Inr_iff split: prod.splits)
  let ?ix = "ix\<lparr>inner_heap := (inner_heap ix)(?a \<mapsto> nd), next_addr := Suc ?a\<rparr>"
  note f = inner_new_fields [OF new] and bn = inner_blocks_range [OF n(1,3)]
  have fr: "fresh ?ix" using Cons.prems(2) by (auto simp: fresh_def)
  note IH = Cons.IH [OF rest fr more]
  have "grown ix ?ix" using fr Cons.prems(2) unfolding grown_def
    by (intro conjI exI [of _ "(inner_heap ix)(?a \<mapsto> nd)"] exI [of _ "Suc ?a"] exI [of _ "meta_parameter ix"]) (auto simp: fresh_def)
  then have g: "grown ix ix'" using IH grown_trans by blast
  have nd: "inner_heap ix' ?a = Some nd" using IH by (auto simp: grown_def)
  have "node_for (inner_heap ix') ?ch s" if st: "steady_heap hi (inner_heap ix')"
  proof -
    have "steady (slope s) (intercept s) InnerSlotsPerBlock hi" using st nd f(1,2) by (simp add: steady_heap_def)
    moreover have "4 \<le> uint (block_number s)"
    proof -
      have "unat (block_number s) = unat (inner_blocks 3 ?n)" using bn(2) by (simp add: f(3) unsigned_ucast_eq take_bit_nat_eq_self)
      then have "int 4 \<le> int (unat (block_number s))" using bn(1) by (simp only: of_nat_le_iff)
      then show ?thesis by simp
    qed
    moreover have "map min_key ?ch = take ?n (drop start keys)" by (simp add: nodes(1) take_map drop_map)
    ultimately have "pred_mono (predicts s) (map min_key ?ch)"
      using pred_mono_steady [of s hi "take ?n (drop start keys)"] nodes(2,4,6) by (auto simp: sorted_wrt_drop sorted_wrt_take dest: in_set_takeD in_set_dropD)
    moreover have "\<forall>x\<in>set nodes. \<not> is_free x" using nodes(1,5,6) by (auto simp: is_free_def)
    ultimately have "inner_node_ok nd s ?ch" using inner_new_ok(1) [OF new bn nodes(1) [symmetric]] by blast
    moreover have "?ch \<noteq> []" "hd ?ch = nodes ! start" using n by (auto simp: hd_drop_conv_nth)
    ultimately show ?thesis using nd f n nodes(1) by (simp add: node_for_def)
  qed
  then show ?case using g IH n(4) f(5) by (simp add: accs add.commute)
qed

section \<open>The level loop\<close>

lemma list_all2_chunks: "list_all2 P xs ys \<Longrightarrow> list_all2 (list_all2 P) (chunks xs ns) (chunks ys ns)"
  by (induction ns arbitrary: xs ys) (auto intro: list_all2_takeI list_all2_dropI)

lemma concat_concat_chunks: "sum_list ns = length yss \<Longrightarrow> concat (map concat (chunks yss ns)) = concat yss"
proof (induction ns arbitrary: yss)
  case (Cons n ns)
  then have "concat (map concat (chunks (drop n yss) ns)) = concat (drop n yss)" by simp
  then show ?case by (simp flip: concat_append)
qed simp

text \<open>A forest: the trees of the nodes, whose leaf slots together are \<^verbatim>\<open>ss\<close>.\<close>

definition forest :: "inners \<Rightarrow> nat \<Rightarrow> InnerSlot list \<Rightarrow> InnerSlot list \<Rightarrow> bool" where
  "forest ins d nodes ss \<longleftrightarrow> (\<exists>yss. list_all2 (inner_tree ins d) nodes yss \<and> concat yss = ss)"

lemma forest_mono: "forest ins d nodes ss \<Longrightarrow> (\<And>a nd. ins a = Some nd \<Longrightarrow> ins' a = Some nd) \<Longrightarrow> forest ins' d nodes ss"
  unfolding forest_def using inner_tree_mono list_all2_mono by (metis (no_types, lifting))

lemma forest_keys:
  assumes "forest ins d nodes ss" "key_sorted ss"
  shows "key_sorted nodes" "set (map min_key nodes) \<subseteq> set (map min_key ss)"
proof -
  from assms(1) obtain yss where y: "list_all2 (inner_tree ins d) nodes yss" "concat yss = ss" by (auto simp: forest_def)
  have h: "list_all2 (\<lambda>c ys. ys \<noteq> [] \<and> min_key (hd ys) = min_key c) nodes yss"
    by (rule list_all2_mono [OF y(1)]) (rule inner_tree_head)
  show "key_sorted nodes" using key_sorted_heads [OF h] assms(2) y(2) by simp
  have "min_key (nodes ! i) \<in> min_key ` set ss" if "i < length nodes" for i
  proof -
    have i: "i < length yss" "yss ! i \<noteq> []" "min_key (hd (yss ! i)) = min_key (nodes ! i)"
      using h that by (auto simp: list_all2_conv_all_nth)
    then show ?thesis using hd_in_concat [OF i(1,2)] y(2) by (metis image_eqI)
  qed
  then show "set (map min_key nodes) \<subseteq> set (map min_key ss)" by (auto simp: in_set_conv_nth)
qed

lemma forest_step:
  assumes f: "forest ins d nodes ss" and n: "list_all2 (node_for ins) (chunks nodes ns) accs" "sum_list ns = length nodes"
  shows "forest ins (Suc d) accs ss"
proof -
  from f obtain yss where y: "list_all2 (inner_tree ins d) nodes yss" "concat yss = ss" by (auto simp: forest_def)
  have "list_all2 (list_all2 (inner_tree ins d)) (chunks nodes ns) (chunks yss ns)" by (rule list_all2_chunks [OF y(1)])
  then have t: "list_all2 (inner_tree ins d) (chunks nodes ns ! i) (chunks yss ns ! i)" if "i < length ns" for i
    using that by (simp add: list_all2_conv_all_nth [of "list_all2 _"])
  have "inner_tree ins (Suc d) (accs ! i) (concat (chunks yss ns ! i))" if "i < length ns" for i
    using t [OF that] list_all2_nthD2 [OF n(1), of i] list_all2_lengthD [OF n(1)] that by (auto simp: node_for_def)
  then have "list_all2 (inner_tree ins (Suc d)) accs (map concat (chunks yss ns))"
    using list_all2_lengthD [OF n(1)] by (auto intro!: list_all2_all_nthI)
  moreover have "length yss = length nodes" using list_all2_lengthD [OF y(1)] by simp
  ultimately show ?thesis using concat_concat_chunks [of ns yss] n(2) y(2) unfolding forest_def by metis
qed

text \<open>The keys of the leaf slots.\<close>

definition leaf_keys_ok :: "double \<Rightarrow> InnerSlot list \<Rightarrow> bool" where
  "leaf_keys_ok hi ss \<longleftrightarrow> key_sorted ss \<and> ss \<noteq> [] \<and> finite_double hi \<and> hi < FREE_FLAG
     \<and> (\<forall>s\<in>set ss. finite_double (min_key s) \<and> min_key s \<le> hi)"

lemma cuts_firsts:
  assumes "sorted_wrt (<) ks"
  shows "cuts ks s cs \<Longrightarrow> (\<forall>f\<in>set (map seg_first cs). \<exists>j. s \<le> j \<and> j < length ks \<and> f = ks ! j) \<and> sorted_wrt (<) (map seg_first cs)"
proof (induction cs arbitrary: s)
  case (Cons c cs)
  then have c: "0 < seg_number c" "s + seg_number c \<le> length ks" "seg_first c = ks ! s" by auto
  have IH: "\<forall>f\<in>set (map seg_first cs). \<exists>j. s + seg_number c \<le> j \<and> j < length ks \<and> f = ks ! j" "sorted_wrt (<) (map seg_first cs)"
    using Cons.IH [of "s + seg_number c"] Cons.prems by auto
  have "seg_first c < f" if f: "f \<in> set (map seg_first cs)" for f
  proof -
    obtain j where "s + seg_number c \<le> j" "j < length ks" "f = ks ! j" using IH(1) f by blast
    then show ?thesis using sorted_wrt_nth_less [OF assms, of s j] c by simp
  qed
  moreover have "\<exists>j\<ge>s. j < length ks \<and> f = ks ! j" if f: "f \<in> set (map seg_first (c # cs))" for f
  proof (cases "f = seg_first c")
    case True
    then show ?thesis using c by (intro exI [of _ s]) auto
  next
    case False
    then obtain j where "s + seg_number c \<le> j" "j < length ks" "f = ks ! j" using IH(1) f by auto
    then show ?thesis by (intro exI [of _ j]) auto
  qed
  ultimately show ?case using IH(2) by auto
qed simp

lemma one_level:
  assumes f: "steady_heap hi (inner_heap ix) \<longrightarrow> forest (inner_heap ix) d nodes ss" and k: "leaf_keys_ok hi ss"
    and nodes: "key_sorted nodes" "set (map min_key nodes) \<subseteq> set (map min_key ss)" "length nodes \<le> 2 ^ 28" and fr: "fresh ix"
  shows "\<exists>cs. make_segmentation (map min_key nodes) eps = Inr cs \<and> 2 * length cs \<le> length nodes + 1
    \<and> sorted_wrt (<) (map seg_first cs) \<and> set (map seg_first cs) \<subseteq> set (map min_key ss)
    \<and> (\<forall>accs ps ix'. build_inners 3 (map min_key nodes) nodes (map Segment_of cs) 0 lvl ix = Inr (accs, ps, ix') \<longrightarrow>
        grown ix ix' \<and> length accs = length cs \<and> map min_key accs = map seg_first cs
        \<and> (steady_heap hi (inner_heap ix') \<longrightarrow> forest (inner_heap ix') (Suc d) accs ss))"
proof -
  let ?keys = "map min_key nodes"
  have so: "sorted_wrt (<) ?keys" using nodes(1) by (simp add: key_sorted_def sorted_wrt_map)
  have fin: "\<forall>k\<in>set ?keys. finite_double k \<and> k \<le> hi" "finite_double hi" "hi < FREE_FLAG"
    using nodes(2) k by (auto simp: leaf_keys_ok_def)
  from make_segmentation_ok [OF so, of eps] obtain cs where cs: "make_segmentation ?keys eps = Inr cs" "cuts ?keys 0 cs" by blast
  have len: "2 * length cs \<le> length nodes + 1" using cuts_length [OF cs(2)] by simp
  have fst: "sorted_wrt (<) (map seg_first cs)" "set (map seg_first cs) \<subseteq> set (map min_key ss)"
    using cuts_firsts [OF so cs(2)] nodes(2) by (blast, metis (no_types, lifting) nth_mem subset_iff)
  have sum: "sum_list (map seg_number cs) = length nodes" using cuts_sum [OF cs(2)] by simp
  have "grown ix ix' \<and> length accs = length cs \<and> map min_key accs = map seg_first cs
      \<and> (steady_heap hi (inner_heap ix') \<longrightarrow> forest (inner_heap ix') (Suc d) accs ss)"
    if b: "build_inners 3 ?keys nodes (map Segment_of cs) 0 lvl ix = Inr (accs, ps, ix')" for accs ps ix'
  proof -
    note o = build_inners_ok [OF refl so nodes(3) fin(2,3,1) cs(2) fr b]
    have st: "steady_heap hi (inner_heap ix') \<Longrightarrow> steady_heap hi (inner_heap ix)"
      using o unfolding steady_heap_def grown_def by blast
    have "forest (inner_heap ix') (Suc d) accs ss" if s: "steady_heap hi (inner_heap ix')"
    proof -
      have la: "list_all2 (node_for (inner_heap ix')) (chunks nodes (map seg_number cs)) accs" using o s by simp
      have "forest (inner_heap ix') d nodes ss" using f st [OF s] o forest_mono unfolding grown_def by blast
      then show "forest (inner_heap ix') (Suc d) accs ss" by (rule forest_step [OF _ la sum])
    qed
    then show ?thesis using o by (metis length_map)
  qed
  then show ?thesis using cs(1) len fst by blast
qed

definition built :: "double \<Rightarrow> InnerSlot list \<Rightarrow> PlinIndex \<Rightarrow> InnerSlot list \<Rightarrow> PlinIndex \<Rightarrow> bool" where
  "built hi ss ix accs ix' \<longleftrightarrow> grown ix ix' \<and> length accs \<le> ROOT_SIZE \<and> (steady_heap hi (inner_heap ix') \<longrightarrow>
     (\<exists>d. forest (inner_heap ix') (Suc d) accs ss))"

lemma built_trans: "grown ix ix1 \<Longrightarrow> built hi ss (ix1\<lparr>meta_parameter := ps\<rparr>) accs ix' \<Longrightarrow> built hi ss ix accs ix'"
  unfolding built_def using grown_trans [OF grown_parameter] by blast

lemma build_levels_ok:
  assumes "leaf_keys_ok hi ss" "steady_heap hi (inner_heap ix) \<longrightarrow> forest (inner_heap ix) (Suc d) nodes ss"
    "key_sorted nodes" "set (map min_key nodes) \<subseteq> set (map min_key ss)" "length nodes \<le> 2 ^ 28" "fresh ix"
    "0 < unat lvl" "unat lvl + length nodes < 2 ^ 32"
  shows "\<exists>r. build_levels 3 (map min_key nodes) nodes lvl ix = Some r
    \<and> (\<forall>accs lvl' ix'. r = Inr (accs, lvl', ix') \<longrightarrow> built hi ss ix accs ix')"
  using assms(2-)
proof (induction "length nodes" arbitrary: d nodes lvl ix rule: less_induct)
  case less
  have nz: "lvl \<noteq> 0" using less.prems(6) by auto
  show ?case
  proof (cases "length nodes > ROOT_SIZE")
    case False
    then have "build_levels 3 (map min_key nodes) nodes lvl ix = Some (Inr (nodes, lvl, ix))"
      using nz by (subst build_levels.simps) simp
    then show ?thesis using False less.prems(1) grown_refl [OF less.prems(5)] by (auto simp: built_def)
  next
    case True
    then have n8: "8 < length nodes" by (simp add: ROOT_SIZE_def)
    from one_level [OF _ assms(1) less.prems(2-5), of "Suc d" EPSILON_INNER_NODE "lvl + 1"] less.prems(1) obtain cs where
      cs: "make_segmentation (map min_key nodes) EPSILON_INNER_NODE = Inr cs" "2 * length cs \<le> length nodes + 1"
      "sorted_wrt (<) (map seg_first cs)" "set (map seg_first cs) \<subseteq> set (map min_key ss)" and
      b: "\<And>accs ps ix'. build_inners 3 (map min_key nodes) nodes (map Segment_of cs) 0 (lvl + 1) ix = Inr (accs, ps, ix') \<Longrightarrow>
        grown ix ix' \<and> length accs = length cs \<and> map min_key accs = map seg_first cs
        \<and> (steady_heap hi (inner_heap ix') \<longrightarrow> forest (inner_heap ix') (Suc (Suc d)) accs ss)"
      by blast
    show ?thesis
    proof (cases "build_inners 3 (map min_key nodes) nodes (map Segment_of cs) 0 (lvl + 1) ix")
      case (Inl e)
      then have "build_levels 3 (map min_key nodes) nodes lvl ix = Some (Inl e)"
        using True cs(1) by (subst build_levels.simps) (simp add: Let_def)
      then show ?thesis by blast
    next
      case (Inr x)
      obtain accs ps ix1 where x: "x = (accs, ps, ix1)" by (cases x)
      note o = b [OF Inr [unfolded x]]
      let ?ix = "ix1\<lparr>meta_parameter := meta_parameter ix1 @ [ps]\<rparr>"
      have len: "length accs < length nodes" "length accs + 1 \<le> length nodes" using o cs(2) n8 by auto
      have "Suc (unat lvl) < 2 ^ 32" using less.prems(7) n8 by simp
      then have u: "unat (lvl + 1) = unat lvl + 1" by (simp add: unat_word_ariths)
      have "\<exists>r. build_levels 3 (map min_key accs) accs (lvl + 1) ?ix = Some r
          \<and> (\<forall>accs' lvl' ix'. r = Inr (accs', lvl', ix') \<longrightarrow> built hi ss ?ix accs' ix')"
      proof (rule less.hyps [OF len(1), of ?ix "Suc d"])
        show "steady_heap hi (inner_heap ?ix) \<longrightarrow> forest (inner_heap ?ix) (Suc (Suc d)) accs ss"
          using o by simp
        show "key_sorted accs" using cs(3) o unfolding key_sorted_def by (metis sorted_wrt_map)
        show "set (map min_key accs) \<subseteq> set (map min_key ss)" using cs(4) o by simp
        show "fresh ?ix" using o by (simp add: grown_def fresh_def)
      qed (use len less.prems(4,7) u in auto)
      then obtain r where r: "build_levels 3 (map min_key accs) accs (lvl + 1) ?ix = Some r"
        "\<forall>accs' lvl' ix'. r = Inr (accs', lvl', ix') \<longrightarrow> built hi ss ?ix accs' ix'" by blast
      have "map sg_first_key (map Segment_of cs) = map min_key accs" using o by simp
      then have "build_levels 3 (map min_key nodes) nodes lvl ix = build_levels 3 (map min_key accs) accs (lvl + 1) ?ix"
        using True cs(1) Inr x by (subst build_levels.simps) (simp add: Let_def)
      then show ?thesis using r built_trans o by metis
    qed
  qed
qed

end
