(* ===== verification/Plin_Load.thy ===== *)
theory Plin_Load
  imports Plin_Correct Plin_Levels
begin

text \<open>
  Bulk loading establishes the invariant of the index for the map of the loaded rows.
\<close>

section \<open>Runs of sorted rows\<close>

lemma concat_chunks: "sum_list ns = length xs \<Longrightarrow> concat (chunks xs ns) = xs"
  by (induction xs ns rule: chunks.induct) auto

lemma chunks_nonempty: "sum_list ns \<le> length xs \<Longrightarrow> \<forall>n\<in>set ns. 0 < n \<Longrightarrow> \<forall>c\<in>set (chunks xs ns). c \<noteq> []"
  by (induction xs ns rule: chunks.induct) auto

definition runs_ok :: "(double \<times> payload_t) list list \<Rightarrow> bool" where
  "runs_ok cks \<longleftrightarrow> sorted_wrt (<) (map fst (concat cks)) \<and> (\<forall>c\<in>set cks. c \<noteq> [])"

lemma runs_split:
  assumes "i < length cks"
  shows "concat cks = concat (take i cks) @ cks ! i @ concat (drop (Suc i) cks)"
  using assms by (metis concat.simps(2) concat_append id_take_nth_drop)

text \<open>A key of a run is not below its first key and below the first keys of all later runs.\<close>

lemma run_key:
  assumes "runs_ok cks" "i < length cks" "k \<in> fst ` set (cks ! i)"
  shows "fst (hd (cks ! i)) \<le> k" "i < j \<Longrightarrow> j < length cks \<Longrightarrow> k < fst (hd (cks ! j))"
proof -
  have so: "sorted_wrt (<) (map fst (concat (take i cks)) @ map fst (cks ! i) @ map fst (concat (drop (Suc i) cks)))"
    using assms(1) unfolding runs_ok_def runs_split [OF assms(2)] map_append by blast
  then have "sorted_wrt (<) (map fst (cks ! i))" by (simp add: sorted_wrt_append)
  then show "fst (hd (cks ! i)) \<le> k" using assms(3) by (cases "cks ! i") (auto simp: less_imp_le)
  assume j: "i < j" "j < length cks"
  then have "cks ! j \<noteq> []" using assms(1) by (simp add: runs_ok_def)
  moreover have "cks ! j \<in> set (drop (Suc i) cks)" using j by (auto simp: in_set_conv_nth intro!: exI [of _ "j - Suc i"])
  ultimately have "hd (cks ! j) \<in> set (concat (drop (Suc i) cks))" by (auto intro: hd_in_set)
  then show "k < fst (hd (cks ! j))" using so assms(3) by (auto simp: sorted_wrt_append)
qed

lemma map_of_run:
  assumes "runs_ok cks" "i < length cks" "\<And>j. j < length cks \<Longrightarrow> j \<noteq> i \<Longrightarrow> k \<notin> fst ` set (cks ! j)"
  shows "map_of (concat cks) k = map_of (cks ! i) k"
proof (cases "map_of (cks ! i) k")
  case None
  have "k \<notin> fst ` set c" if "c \<in> set cks" for c
    using that assms(3) None by (metis in_set_conv_nth map_of_eq_None_iff)
  then have "k \<notin> fst ` set (concat cks)" by auto
  then have "map_of (concat cks) k = None" by (simp only: map_of_eq_None_iff) simp
  then show ?thesis using None by simp
next
  case (Some v)
  have "distinct (map fst (concat cks))" using assms(1) strict_sorted_iff by (auto simp: runs_ok_def)
  moreover have "(k, v) \<in> set (concat cks)" using map_of_SomeD [OF Some] assms(2) by auto
  ultimately show ?thesis using Some map_of_is_SomeI by metis
qed

lemma sorted_le_last: "sorted xs \<Longrightarrow> x \<in> set xs \<Longrightarrow> x \<le> last xs"
  by (cases xs rule: rev_cases) (auto simp: sorted_append)

lemma sorted_bounds: "sorted_wrt (<) xs \<Longrightarrow> x \<in> set xs \<Longrightarrow> hd xs \<le> x \<and> x \<le> last xs" for xs :: "'a::linorder list"
  using strict_sorted_imp_sorted [of xs] sorted_le_last by (cases xs) auto

lemma first_run: "runs_ok cks \<Longrightarrow> concat cks = kvs \<Longrightarrow> kvs \<noteq> [] \<Longrightarrow> hd kvs = hd (cks ! 0)"
  by (cases cks) (auto simp: runs_ok_def)

section \<open>The leaf level\<close>

lemma routes_to_nth:
  assumes "key_sorted ss" "i < length ss"
  shows "routes_to ss k (ss ! i) \<longleftrightarrow> min_key (ss ! i) \<le> k \<and> (\<forall>j. i < j \<longrightarrow> j < length ss \<longrightarrow> k < min_key (ss ! j))"
proof -
  have so: "min_key (ss ! a) < min_key (ss ! b)" if "a < b" "b < length ss" for a b
    using assms(1) that sorted_wrt_nth_less unfolding key_sorted_def by blast
  show ?thesis
  proof
    assume r: "routes_to ss k (ss ! i)"
    have "k < min_key (ss ! j)" if "i < j" "j < length ss" for j
      using so [OF that] r that by (metis leI nth_mem not_le routes_to_def)
    then show "min_key (ss ! i) \<le> k \<and> (\<forall>j. i < j \<longrightarrow> j < length ss \<longrightarrow> k < min_key (ss ! j))"
      using r by (auto simp: routes_to_def)
  next
    assume r: "min_key (ss ! i) \<le> k \<and> (\<forall>j. i < j \<longrightarrow> j < length ss \<longrightarrow> k < min_key (ss ! j))"
    have "min_key t \<le> min_key (ss ! i)" if t: "t \<in> set ss" "min_key t \<le> k" for t
    proof -
      obtain j where j: "j < length ss" "ss ! j = t" using t(1) by (auto simp: in_set_conv_nth)
      then have "j \<le> i" using r t(2) by (meson leD not_le_imp_less)
      then show ?thesis using so [of j i] j assms(2) by (cases "j = i") auto
    qed
    then show "routes_to ss k (ss ! i)" using r assms(2) by (auto simp: routes_to_def)
  qed
qed

text \<open>The node at address \<^verbatim>\<open>Suc i\<close> holds the run \<^verbatim>\<open>i\<close>.\<close>

definition leaf_nodes :: "leaves \<Rightarrow> u32 \<Rightarrow> (double \<times> payload_t) list list \<Rightarrow> InnerSlot list \<Rightarrow> bool" where
  "leaf_nodes h gv cks ss \<longleftrightarrow> length ss = length cks \<and> dom h = {1..<Suc (length cks)}
     \<and> (\<forall>i<length cks. \<exists>lf. h (Suc i) = Some lf \<and> leaf_ready gv (cks ! i) (Suc i) (ss ! i) lf
         \<and> next_node lf = (if Suc i < length cks then Suc (Suc i) else 0))"

lemma leaf_nodesD:
  assumes "leaf_nodes h gv cks ss" "i < length cks"
  obtains lf where "h (Suc i) = Some lf" "leaf_ready gv (cks ! i) (Suc i) (ss ! i) lf"
    "next_node lf = (if Suc i < length cks then Suc (Suc i) else 0)"
  using assms unfolding leaf_nodes_def by blast

lemma leaf_nodes_slot:
  assumes "leaf_nodes h gv cks ss" "i < length cks"
  shows "min_key (ss ! i) = fst (hd (cks ! i))" "ptr (ss ! i) = Suc i" "slot_type (ss ! i) = 0"
  using leaf_nodesD [OF assms] by (auto simp: leaf_ready_def)

lemma leaf_nodes_sorted:
  assumes ln: "leaf_nodes h gv cks ss" and ro: "runs_ok cks"
  shows "key_sorted ss"
proof -
  have len: "length ss = length cks" using ln by (simp add: leaf_nodes_def)
  have "min_key (ss ! i) < min_key (ss ! j)" if "i < j" "j < length ss" for i j
  proof -
    have "cks ! i \<noteq> []" using ro that len by (simp add: runs_ok_def)
    then have "fst (hd (cks ! i)) \<in> fst ` set (cks ! i)" by (simp add: hd_in_set)
    from run_key(2) [OF ro _ this that(1)] show ?thesis using leaf_nodes_slot(1) [OF ln] that len by simp
  qed
  then show ?thesis by (simp add: key_sorted_def sorted_wrt_iff_nth_less)
qed

lemma leaf_nodes_ok:
  assumes ln: "leaf_nodes h gv cks ss" and ro: "runs_ok cks"
  shows "leaves_ok h"
  unfolding leaves_ok_def
proof (intro conjI allI impI)
  show "finite (dom h)" using ln by (simp add: leaf_nodes_def)
  fix a lf assume a: "h a = Some lf"
  then have "a \<in> {1..<Suc (length cks)}" using ln by (auto simp: leaf_nodes_def)
  then obtain i where i: "a = Suc i" "i < length cks" by (cases a) auto
  from leaf_nodesD [OF ln i(2)] a i(1) have r: "leaf_ready gv (cks ! i) (Suc i) (ss ! i) lf"
    "next_node lf = (if Suc i < length cks then Suc (Suc i) else 0)" by (metis option.inject)+
  show "node_ok lf" using r(1) by (simp add: leaf_ready_def)
  assume "next_node lf \<noteq> 0"
  then have n: "Suc i < length cks" "next_node lf = Suc (Suc i)" using r(2) by (simp_all split: if_splits)
  from leaf_nodesD [OF ln n(1)] obtain nx where nx: "h (Suc (Suc i)) = Some nx" "leaf_ready gv (cks ! Suc i) (Suc (Suc i)) (ss ! Suc i) nx" .
  have "cks ! i \<noteq> []" using ro i by (simp add: runs_ok_def)
  then have "fst (hd (cks ! i)) < fst (hd (cks ! Suc i))" using run_key(2) [OF ro i(2) _ lessI n(1)] by (simp add: hd_in_set)
  then show "\<exists>nx. h (next_node lf) = Some nx \<and> first_key lf < first_key nx" using nx n(2) r(1) by (auto simp: leaf_ready_def)
qed

lemma leaf_nodes_inv:
  assumes ln: "leaf_nodes h gv cks ss" and ro: "runs_ok cks" "concat cks \<noteq> []"
  shows "leaves_inv h gv ss (fst (last (concat cks))) (map_of (concat cks))"
proof -
  have len: "length ss = length cks" and dom: "dom h = {1..<Suc (length cks)}" using ln by (simp_all add: leaf_nodes_def)
  note so = leaf_nodes_sorted [OF ln ro(1)] and sl = leaf_nodes_slot [OF ln]
  have ptrs: "ptr ` set ss = {1..<Suc (length cks)}" "inj_on ptr (set ss)"
  proof -
    have m: "map ptr ss = [1..<Suc (length cks)]" using sl(2) len by (intro nth_equalityI) (simp_all del: upt_Suc)
    then show "ptr ` set ss = {1..<Suc (length cks)}" by (metis set_map set_upt)
    show "inj_on ptr (set ss)" using m by (metis distinct_map distinct_upt)
  qed
  have "\<exists>lf. h (ptr s) = Some lf \<and> usable gv s lf
      \<and> (\<forall>k. k \<noteq> FREE_FLAG \<longrightarrow> k \<le> fst (last (concat cks)) \<longrightarrow> routes_to ss k s \<longrightarrow> leaf_map lf k = map_of (concat cks) k \<and> stays h lf k)
      \<and> (\<forall>k. k \<noteq> FREE_FLAG \<longrightarrow> leaf_map lf k \<noteq> None \<longrightarrow> k \<le> fst (last (concat cks)) \<and> routes_to ss k s)" if s: "s \<in> set ss" for s
  proof -
    obtain i where i: "i < length cks" "s = ss ! i" using s len by (auto simp: in_set_conv_nth)
    from leaf_nodesD [OF ln i(1)] obtain lf where lf: "h (Suc i) = Some lf" "leaf_ready gv (cks ! i) (Suc i) (ss ! i) lf"
      "next_node lf = (if Suc i < length cks then Suc (Suc i) else 0)" .
    have route: "routes_to ss k s \<longleftrightarrow> fst (hd (cks ! i)) \<le> k \<and> (\<forall>j. i < j \<longrightarrow> j < length cks \<longrightarrow> k < fst (hd (cks ! j)))" for k
      unfolding i(2) using routes_to_nth [OF so, of i k] i(1) len sl(1) by simp
    have "usable gv s lf" using lf(2) i(2) by (simp add: leaf_ready_def usable_def)
    moreover have "leaf_map lf k = map_of (concat cks) k \<and> stays h lf k" if k: "k \<noteq> FREE_FLAG" "routes_to ss k s" for k
    proof
      have "k \<notin> fst ` set (cks ! j)" if j: "j < length cks" "j \<noteq> i" for j
        using run_key [OF ro(1) j(1), of k] k(2) j i(1) unfolding route by (cases "j < i") (auto simp: not_le[symmetric])
      then show "leaf_map lf k = map_of (concat cks) k" using lf(2) k(1) map_of_run [OF ro(1) i(1), of k] by (simp add: leaf_ready_def)
      show "stays h lf k"
      proof (cases "Suc i < length cks")
        case True
        from leaf_nodesD [OF ln True] obtain nx where "h (Suc (Suc i)) = Some nx" "leaf_ready gv (cks ! Suc i) (Suc (Suc i)) (ss ! Suc i) nx" .
        then show ?thesis using True lf(3) k(2) unfolding route by (auto simp: stays_def leaf_ready_def)
      qed (use lf(3) in \<open>simp add: stays_def\<close>)
    qed
    moreover have "k \<le> fst (last (concat cks)) \<and> routes_to ss k s" if k: "k \<noteq> FREE_FLAG" "leaf_map lf k \<noteq> None" for k
    proof
      have m: "k \<in> fst ` set (cks ! i)" using lf(2) k by (auto simp: leaf_ready_def map_of_eq_None_iff)
      then show "routes_to ss k s" unfolding route using run_key [OF ro(1) i(1)] by blast
      have "set (cks ! i) \<subseteq> set (concat cks)" using i(1) by (metis UN_upper nth_mem set_concat)
      then have "k \<in> set (map fst (concat cks))" using m by auto
      moreover have "sorted (map fst (concat cks))" using ro(1) strict_sorted_imp_sorted by (auto simp: runs_ok_def)
      ultimately show "k \<le> fst (last (concat cks))" using ro(2) last_map [OF ro(2), of fst] sorted_le_last by metis
    qed
    ultimately show ?thesis using lf(1) i sl(2) by auto
  qed
  then show ?thesis using leaf_nodes_ok [OF ln ro(1)] dom ptrs so by (auto simp: leaves_inv_def)
qed

section \<open>The roots\<close>

lemma root_scan:
  assumes so: "key_sorted accs" and ne: "accs \<noteq> []" "min_key (hd accs) \<le> k"
  shows "\<exists>i. length (takeWhile (\<lambda>s. min_key s \<le> k) accs) = Suc i \<and> i < length accs \<and> routes_to accs k (accs ! i)"
proof -
  let ?n = "length (takeWhile (\<lambda>s. min_key s \<le> k) accs)"
  have "0 < ?n" using ne by (cases accs) auto
  then obtain i where i: "?n = Suc i" by (cases ?n) auto
  have il: "i < length accs" using i length_takeWhile_le [of "\<lambda>s. min_key s \<le> k" accs] by simp
  have "min_key (accs ! i) \<le> k" using i by (metis lessI nth_mem set_takeWhileD takeWhile_nth)
  moreover have "k < min_key (accs ! j)" if j: "i < j" "j < length accs" for j
  proof -
    have n: "?n < length accs" using i j by simp
    then have "k < min_key (accs ! ?n)" using nth_length_takeWhile [OF n] by simp
    moreover have "min_key (accs ! ?n) \<le> min_key (accs ! j)" using so i j
      by (cases "?n = j") (auto simp: key_sorted_def sorted_wrt_iff_nth_less Suc_lessI less_imp_le)
    ultimately show ?thesis by simp
  qed
  ultimately show ?thesis using routes_to_nth [OF so il] i il by blast
qed

lemma forest_routes:
  assumes f: "forest (inner_heap ix) (Suc d) accs ss" and k: "leaf_keys_ok hi ss" "steady_heap hi (inner_heap ix)"
    and r: "take (unat (root_number ix)) (roots ix) = accs" "plin_min_key ix = min_key (hd ss)" "plin_max_key ix = hi"
      "finite_double (plin_min_key ix)"
  shows "routes_ok ix ss"
  unfolding routes_ok_def
proof (intro allI impI)
  fix key assume key: "plin_min_key ix \<le> key" "key \<le> plin_max_key ix"
  have ss: "key_sorted ss" "ss \<noteq> []" "finite_double hi" "\<forall>s\<in>set ss. finite_double (min_key s) \<and> min_key s \<le> hi"
    using k(1) by (simp_all add: leaf_keys_ok_def)
  have fk: "finite_double key" using key r ss(3) by (simp add: finite_double_def less_eq_double_def)
  from f obtain yss where y: "list_all2 (inner_tree (inner_heap ix) (Suc d)) accs yss" "concat yss = ss" by (auto simp: forest_def)
  have h: "list_all2 (\<lambda>c ys. ys \<noteq> [] \<and> min_key (hd ys) = min_key c) accs yss"
    by (rule list_all2_mono [OF y(1)]) (rule inner_tree_head)
  have so: "key_sorted accs" by (rule forest_keys(1) [OF f ss(1)])
  have ne: "accs \<noteq> []" "min_key (hd accs) = min_key (hd ss)"
    using h y(2) ss(2) by (cases accs; cases yss; auto)+
  from root_scan [OF so ne(1), of key] ne(2) key(1) r(2) obtain i where
    i: "length (takeWhile (\<lambda>s. min_key s \<le> key) accs) = Suc i" "i < length accs" "routes_to accs key (accs ! i)" by auto
  have at: "i < length (roots ix)" "roots ix ! i = accs ! i" using i(2) r(1) by auto
  have len: "length yss = length accs" using list_all2_lengthD [OF y(1)] by simp
  have tr: "inner_tree (inner_heap ix) (Suc d) (accs ! i) (yss ! i)" using list_all2_nthD [OF y(1) i(2)] .
  have sub: "set (yss ! i) \<subseteq> set ss" using i(2) len y(2) by (metis UN_upper nth_mem set_concat)
  have ys: "key_sorted (yss ! i)" using ss(1) y(2) i(2) len
    by (metis concat.simps(2) concat_append id_take_nth_drop key_sorted_append)
  have fin: "\<forall>x\<in>set (yss ! i). finite_double (min_key x) \<and> min_key x \<le> hi" "key \<le> hi" "min_key (accs ! i) \<le> key"
    using sub ss(4) i(3) key(2) r(3) by (auto simp: routes_to_def)
  from find_leaf_node_ok [OF tr ys k(2) ss(3) fin(1) fk fin(2,3)] obtain n q nd where
    q: "find_leaf_node (inner_heap ix) (ptr (accs ! i)) key (accs ! i) = Some (Inr (n, q))" "inner_heap ix n = Some nd"
    "q < length (inner_slots nd)" "routes_to (yss ! i) key (inner_slots nd ! q)" by blast
  have "routes_to ss key (inner_slots nd ! q)"
    using routes_to_concat [OF h _ i(2,3) q(4)] ss(1) y(2) by simp
  moreover have "locate_leaf key ix = Some (Inr (NodeSlot n q))"
    using i(1) at q(1) tr r(1) by (simp add: locate_leaf_def root_slot_def slot_at_def)
  moreover have "slot_at (NodeSlot n q) ix = Inr (inner_slots nd ! q)" using q(2,3) by (simp add: slot_at_def)
  ultimately show "\<exists>r s. locate_leaf key ix = Some (Inr r) \<and> slot_at r ix = Inr s \<and> routes_to ss key s" by blast
qed

section \<open>Bulk loading\<close>

lemma first_level:
  assumes k: "leaf_keys_ok hi ss" "length ss \<le> 2 ^ 28" "\<forall>s\<in>set ss. slot_type s = 0" "fresh ix"
  shows "\<exists>r. build_levels 3 (map min_key ss) ss 0 ix = Some r \<and> (\<forall>accs lvl' ix'. r = Inr (accs, lvl', ix') \<longrightarrow> built hi ss ix accs ix')"
proof -
  have so: "key_sorted ss" using k(1) by (simp add: leaf_keys_ok_def)
  have "list_all2 (inner_tree (inner_heap ix) 0) ss (map (\<lambda>s. [s]) ss)" using k(3) by (simp add: list_all2_conv_all_nth)
  then have f: "forest (inner_heap ix) 0 ss ss" unfolding forest_def by (intro exI [of _ "map (\<lambda>s. [s]) ss"]) simp
  have "1 \<le> length ss" using k(1) by (simp add: leaf_keys_ok_def Suc_le_eq)
  from one_level [OF _ k(1) so subset_refl k(2,4), of 0 EPSILON_INNER_NODE "0 + 1"] f obtain cs where
    cs: "make_segmentation (map min_key ss) EPSILON_INNER_NODE = Inr cs" "2 * length cs \<le> length ss + 1"
    "sorted_wrt (<) (map seg_first cs)" "set (map seg_first cs) \<subseteq> set (map min_key ss)" and
    b: "\<And>accs ps ix'. build_inners 3 (map min_key ss) ss (map Segment_of cs) 0 (0 + 1) ix = Inr (accs, ps, ix') \<Longrightarrow>
      grown ix ix' \<and> length accs = length cs \<and> map min_key accs = map seg_first cs
      \<and> (steady_heap hi (inner_heap ix') \<longrightarrow> forest (inner_heap ix') (Suc 0) accs ss)" by blast
  show ?thesis
  proof (cases "build_inners 3 (map min_key ss) ss (map Segment_of cs) 0 (0 + 1) ix")
    case (Inl e)
    then have "build_levels 3 (map min_key ss) ss 0 ix = Some (Inl e)"
      using cs(1) by (subst build_levels.simps) (simp add: Let_def)
    then show ?thesis by blast
  next
    case (Inr x)
    obtain accs ps ix1 where x: "x = (accs, ps, ix1)" by (cases x)
    note o = b [OF Inr [unfolded x]]
    let ?ix = "ix1\<lparr>meta_parameter := meta_parameter ix1 @ [ps]\<rparr>"
    have len: "length accs \<le> length ss" using o cs(2) \<open>1 \<le> length ss\<close> by auto
    have "\<exists>r. build_levels 3 (map min_key accs) accs 1 ?ix = Some r
        \<and> (\<forall>accs' lvl' ix'. r = Inr (accs', lvl', ix') \<longrightarrow> built hi ss ?ix accs' ix')"
    proof (rule build_levels_ok [OF k(1), of _ 0])
      show "key_sorted accs" using cs(3) o unfolding key_sorted_def by (metis sorted_wrt_map)
      show "set (map min_key accs) \<subseteq> set (map min_key ss)" using cs(4) o by simp
      show "fresh ?ix" using o by (simp add: grown_def fresh_def)
    qed (use len k(2) o in auto)
    then obtain r where r: "build_levels 3 (map min_key accs) accs 1 ?ix = Some r"
      "\<forall>accs' lvl' ix'. r = Inr (accs', lvl', ix') \<longrightarrow> built hi ss ?ix accs' ix'" by blast
    have "map sg_first_key (map Segment_of cs) = map min_key accs" using o by simp
    then have "build_levels 3 (map min_key ss) ss 0 ix = build_levels 3 (map min_key accs) accs 1 ?ix"
      using cs(1) Inr x by (subst build_levels.simps) (simp add: Let_def)
    then show ?thesis using r built_trans o by metis
  qed
qed

text \<open>
  The rows that can be loaded: strictly increasing finite keys below the free key, payloads that are not null,
  and at most \<^verbatim>\<open>2^28\<close> of them.
\<close>

definition loadable :: "(double \<times> payload_t) list \<Rightarrow> bool" where
  "loadable kvs \<longleftrightarrow> kvs \<noteq> [] \<and> sorted_wrt (<) (map fst kvs) \<and> length kvs \<le> 2 ^ 28
     \<and> list_all (\<lambda>(k, v). finite_double k \<and> k < FREE_FLAG \<and> v \<noteq> 0) kvs"

lemma loadable_placeable: "loadable kvs \<Longrightarrow> placeable kvs"
  using strict_sorted_iff by (auto simp: loadable_def placeable_def list_all_iff)

lemma cuts_pos: "cuts ks s cs \<Longrightarrow> \<forall>n\<in>set (map seg_number cs). 0 < n"
  by (induction ks s cs rule: cuts.induct) auto

lemma cuts_heads:
  "cuts (map fst kvs) s cs \<Longrightarrow> map (\<lambda>c. fst (hd c)) (chunks (drop s kvs) (map seg_number cs)) = map seg_first cs"
  by (induction cs arbitrary: s) (auto simp: hd_drop_conv_nth add.commute)

lemma chained_None: "chained m n h a = None \<longleftrightarrow> h a = None"
  by (simp add: chained_def)

text \<open>The leaf nodes of a fresh index.\<close>

lemma load_leaves:
  assumes kvs: "loadable kvs"
  shows "\<exists>cs ls h. make_segmentation (map fst kvs) eps = Inr cs \<and> cs \<noteq> []
    \<and> build_leaves kvs (map Segment_of cs) 0 0 PlinIndex_new = Some (Inr (ls, PlinIndex_new\<lparr>leaf_heap := h, next_addr := Suc (length cs)\<rparr>))
    \<and> map fst ls = [1..<Suc (length cs)] \<and> (\<forall>a\<in>{1..<Suc (length cs)}. h a \<noteq> None)
    \<and> leaf_nodes (chained 1 (Suc (length cs)) h) 0 (chunks kvs (map seg_number cs)) (map snd ls)
    \<and> runs_ok (chunks kvs (map seg_number cs)) \<and> concat (chunks kvs (map seg_number cs)) = kvs
    \<and> map min_key (map snd ls) = map seg_first cs \<and> length cs \<le> 2 ^ 28"
proof -
  have so: "sorted_wrt (<) (map fst kvs)" and len: "length kvs \<le> 2 ^ 28" and ne: "kvs \<noteq> []" using kvs by (simp_all add: loadable_def)
  from make_segmentation_ok [OF so, of eps] obtain cs where cs: "make_segmentation (map fst kvs) eps = Inr cs" "cuts (map fst kvs) 0 cs" by blast
  let ?n = "Suc (length cs)" and ?cks = "chunks kvs (map seg_number cs)"
  have sum: "sum_list (map seg_number cs) = length kvs" using cuts_sum [OF cs(2)] by simp
  then have cne: "cs \<noteq> []" using ne by auto
  have cc: "concat ?cks = kvs" by (rule concat_chunks [OF sum])
  have pos: "\<forall>n\<in>set (map seg_number cs). 0 < n" using cs(2) cuts_pos by blast
  have runs: "runs_ok ?cks" using chunks_nonempty [OF _ pos, of kvs] sum so cc by (simp add: runs_ok_def)
  from build_leaves_ok [OF loadable_placeable [OF kvs] len cs(2), of PlinIndex_new 0] obtain ls h where
    b: "build_leaves kvs (map Segment_of cs) 0 0 PlinIndex_new = Some (Inr (ls, PlinIndex_new\<lparr>leaf_heap := h, next_addr := ?n\<rparr>))"
    "map fst ls = [1..<?n]" "\<forall>a. a < 1 \<or> ?n \<le> a \<longrightarrow> h a = None" "list_all2 (leaf_holds h 0 (\<lambda>_. 0)) ?cks ls"
    by (auto simp: PlinIndex_new_def)
  have lc: "list_all2 (leaf_holds (chained 1 ?n h) 0 (next_in ?n)) ?cks ls" by (rule leaf_holds_chained [OF b(4,2)])
  have ll: "length ls = length cs" using list_all2_lengthD [OF b(4)] by simp
  have fa: "fst (ls ! i) = Suc i" if "i < length cs" for i
  proof -
    have "map fst ls ! i = [1..<?n] ! i" using b(2) by simp
    then show ?thesis using that ll by (simp del: upt_Suc)
  qed
  have at: "leaf_holds (chained 1 ?n h) 0 (next_in ?n) (?cks ! i) (ls ! i)" if "i < length cs" for i
    using list_all2_nthD2 [OF lc, of i] ll that by simp
  have some: "chained 1 ?n h a \<noteq> None" if a: "a \<in> {1..<?n}" for a
  proof -
    obtain i where i: "a = Suc i" "i < length cs" using a by (cases a) auto
    show ?thesis using at [OF i(2)] fa [OF i(2)] i(1) by (auto simp: leaf_holds_def)
  qed
  have dom: "dom (chained 1 ?n h) = {1..<?n}"
  proof (intro equalityI subsetI)
    fix a assume "a \<in> dom (chained 1 ?n h)"
    then have "h a \<noteq> None" by (auto simp flip: chained_None [of 1 ?n h a])
    then show "a \<in> {1..<?n}" using b(3) by (metis atLeastLessThan_iff not_less)
  qed (use some in auto)
  have hs: "\<forall>a\<in>{1..<?n}. h a \<noteq> None" using some chained_None by blast
  have "\<exists>lf. chained 1 ?n h (Suc i) = Some lf \<and> leaf_ready 0 (?cks ! i) (Suc i) (map snd ls ! i) lf
      \<and> next_node lf = (if Suc i < length ?cks then Suc (Suc i) else 0)" if "i < length cs" for i
    using at [OF that] fa [OF that] that ll by (auto simp: leaf_holds_def next_in_def)
  then have ln: "leaf_nodes (chained 1 ?n h) 0 ?cks (map snd ls)" unfolding leaf_nodes_def using dom ll by simp
  have "map min_key (map snd ls) = map (\<lambda>c. fst (hd c)) ?cks"
    using leaf_nodes_slot(1) [OF ln] ll by (intro nth_equalityI) simp_all
  then have "map min_key (map snd ls) = map seg_first cs" using cuts_heads [of kvs 0 cs] cs(2) by simp
  moreover have "length cs \<le> 2 ^ 28" using cuts_length [OF cs(2)] len ne by (cases kvs) auto
  ultimately show ?thesis using cs(1) cne b(1,2) hs ln runs cc by (intro exI [of _ cs] exI [of _ ls] exI [of _ h]) simp
qed

text \<open>
  Bulk loading into a fresh index always returns.  When it does not fail the assertion of an inner node and
  the models of the inner nodes are steady, the index holds exactly the loaded rows.
\<close>

lemma uint_of_small: "n \<le> 2 ^ 28 \<Longrightarrow> uint (of_nat n :: u32) = int n"
  by (simp add: unsigned_of_nat take_bit_nat_eq_self)

definition table_ok :: "PlinIndex \<Rightarrow> bool" where
  "table_ok ix \<longleftrightarrow> local_table ix \<noteq> [] \<and> uint (leaf_number ix) = int (length (local_table ix))
     \<and> (\<forall>e\<in>set (local_table ix). leaf_heap ix (fst (snd e)) \<noteq> None)"

lemma bulk_load_ok:
  assumes kvs: "loadable kvs"
  shows "\<exists>r. bulk_load kvs PlinIndex_new = Some r \<and> (\<forall>ix. r = Inr ix \<longrightarrow> plin_max_key ix = fst (last kvs) \<and> plin_min_key ix = fst (hd kvs)
    \<and> fresh ix \<and> (steady_heap (fst (last kvs)) (inner_heap ix) \<longrightarrow> (\<exists>ss. plin_inv ix ss (map_of kvs)) \<and> table_ok ix))"
proof -
  from load_leaves [OF kvs, of EPSILON_LEAF_NODE] obtain cs ls h where
    cs: "make_segmentation (map fst kvs) EPSILON_LEAF_NODE = Inr cs" "cs \<noteq> []" and
    b: "build_leaves kvs (map Segment_of cs) 0 0 PlinIndex_new = Some (Inr (ls, PlinIndex_new\<lparr>leaf_heap := h, next_addr := Suc (length cs)\<rparr>))"
    "map fst ls = [1..<Suc (length cs)]" "\<forall>a\<in>{1..<Suc (length cs)}. h a \<noteq> None" and
    ln: "leaf_nodes (chained 1 (Suc (length cs)) h) 0 (chunks kvs (map seg_number cs)) (map snd ls)" and
    runs: "runs_ok (chunks kvs (map seg_number cs))" "concat (chunks kvs (map seg_number cs)) = kvs" and
    mk: "map min_key (map snd ls) = map seg_first cs" and len: "length cs \<le> 2 ^ 28" by (elim exE conjE)
  let ?ss = "map snd ls" and ?hi = "fst (last kvs)" and ?H = "chained 1 (Suc (length cs)) h"
  let ?ix1 = "PlinIndex_new\<lparr>leaf_heap := ?H, next_addr := Suc (length cs)\<rparr>"
  let ?ix2 = "?ix1\<lparr>local_table := map (\<lambda>(k, a). (k, a, True)) (zip (map seg_first cs) [1..<Suc (length cs)]),
      leaf_number := of_nat (length ls), meta_parameter := []\<rparr>"
  have ne: "kvs \<noteq> []" and all: "\<forall>x\<in>set kvs. finite_double (fst x) \<and> fst x < FREE_FLAG \<and> snd x \<noteq> 0"
    using kvs by (auto simp: loadable_def list_all_iff)
  have ll: "length ls = length cs" using b(2) by (metis length_map length_upt diff_Suc_1)
  have inv: "leaves_inv ?H 0 ?ss ?hi (map_of kvs)" using leaf_nodes_inv [OF ln runs(1)] runs(2) ne by simp
  have so: "key_sorted ?ss" by (rule leaf_nodes_sorted [OF ln runs(1)])
  have heads: "min_key (?ss ! i) = fst (hd (chunks kvs (map seg_number cs) ! i))" "?ss ! i \<in> set ?ss" if "i < length cs" for i
    using leaf_nodes_slot(1) [OF ln, of i] that ll by auto
  have keys: "min_key s \<in> fst ` set kvs" if s: "s \<in> set ?ss" for s
  proof -
    obtain i where i: "i < length cs" "s = ?ss ! i" using s ll by (metis in_set_conv_nth length_map)
    then have c: "chunks kvs (map seg_number cs) ! i \<in> set (chunks kvs (map seg_number cs))" by simp
    then have "hd (chunks kvs (map seg_number cs) ! i) \<in> set kvs" using runs by (metis hd_in_concat i(1) length_chunks length_map runs_ok_def)
    then show ?thesis using heads [OF i(1)] i(2) by simp
  qed
  have lk: "leaf_keys_ok ?hi ?ss"
  proof -
    have "sorted (map fst kvs)" using kvs strict_sorted_imp_sorted by (auto simp: loadable_def)
    then have "k \<le> ?hi" if "k \<in> fst ` set kvs" for k
      using sorted_le_last [of "map fst kvs" k] that ne by (simp add: last_map)
    moreover have "finite_double k \<and> k < FREE_FLAG" if "k \<in> fst ` set kvs" for k using all that by auto
    moreover have "?hi \<in> fst ` set kvs" "?ss \<noteq> []" using ne cs(2) ll by auto
    ultimately show ?thesis using so keys by (auto simp: leaf_keys_ok_def)
  qed
  have fr: "fresh ?ix2" by (simp add: fresh_def PlinIndex_new_def)
  have ty: "\<forall>s\<in>set ?ss. slot_type s = 0" using leaf_nodes_slot(3) [OF ln] ll by (metis in_set_conv_nth length_chunks length_map)
  from first_level [OF lk _ ty fr] len ll obtain r where r: "build_levels 3 (map min_key ?ss) ?ss 0 ?ix2 = Some r"
    "\<And>accs lvl ix. r = Inr (accs, lvl, ix) \<Longrightarrow> built ?hi ?ss ?ix2 accs ix" by auto
  have load: "bulk_load kvs PlinIndex_new = bind_run (Some r) (\<lambda>(accs, lvl, ix).
     Some (Inr (ix\<lparr>plin_min_key := fst (hd kvs), plin_max_key := fst (last kvs),
       meta_max_key := fst (last kvs), meta_min_key := fst (hd kvs),
       root_number := of_nat (length accs), plin_level := lvl, global_version := 0,
       roots := set_roots accs (roots ix)\<rparr>)))"
  proof -
    have "link_leaves (map fst ls) (PlinIndex_new\<lparr>leaf_heap := h, next_addr := Suc (length cs)\<rparr>) = Inr ?ix1"
      unfolding b(2) using link_leaves_ok [of 1 "Suc (length cs)" "PlinIndex_new\<lparr>leaf_heap := h, next_addr := Suc (length cs)\<rparr>"] b(3)
      by (simp del: upt_Suc)
    moreover have "sg_first_key \<circ> Segment_of = seg_first" by (simp add: fun_eq_iff)
    moreover have "local_table ?ix1 = []" by (simp add: PlinIndex_new_def)
    ultimately show ?thesis unfolding bulk_load_def using ne cs(1) b(1) b(2) r(1) mk by (simp add: Let_def del: upt_Suc)
  qed
  show ?thesis
  proof (cases r)
    case (Inl e)
    then show ?thesis using load by auto
  next
    case (Inr x)
    obtain accs lvl ix3 where x: "x = (accs, lvl, ix3)" by (cases x)
    have bu: "built ?hi ?ss ?ix2 accs ix3" using r(2) Inr x by blast
    then obtain H' n' ps' where ix3: "ix3 = ?ix2\<lparr>inner_heap := H', next_addr := n', meta_parameter := ps'\<rparr>" by (auto simp: built_def grown_def)
    let ?ix = "ix3\<lparr>plin_min_key := fst (hd kvs), plin_max_key := ?hi, meta_max_key := ?hi, meta_min_key := fst (hd kvs),
       root_number := of_nat (length accs), plin_level := lvl, global_version := 0, roots := set_roots accs (roots ix3)\<rparr>"
    have "(\<exists>ss. plin_inv ?ix ss (map_of kvs)) \<and> table_ok ?ix" if st: "steady_heap ?hi (inner_heap ?ix)"
    proof
      have "inner_heap ?ix = inner_heap ix3" by simp
      then obtain d where f: "forest (inner_heap ?ix) (Suc d) accs ?ss" using bu st by (auto simp: built_def)
      have hd: "fst (hd kvs) = min_key (hd ?ss)"
        using first_run [OF runs ne] heads(1) [of 0] cs(2) ll by (cases ls) (auto simp: hd_conv_nth)
      have ro: "routes_ok ?ix ?ss"
      proof (rule forest_routes [OF f lk st])
        have "length accs < 2 ^ 32" using bu by (simp add: built_def ROOT_SIZE_def)
        then show "take (unat (root_number ?ix)) (roots ?ix) = accs" by (simp add: unat_of_nat set_roots_def)
        show "plin_min_key ?ix = min_key (hd ?ss)" "plin_max_key ?ix = ?hi" using hd by simp_all
        have "hd kvs \<in> set kvs" using ne by simp
        then show "finite_double (plin_min_key ?ix)" using all by simp
      qed
      have le: "fst (hd kvs) \<le> k \<and> k \<le> ?hi" if "k \<in> fst ` set kvs" for k
        using sorted_bounds [of "map fst kvs" k] kvs that ne by (auto simp: loadable_def hd_map last_map)
      have out: "map_of kvs k = None" if "k < fst (hd kvs) \<or> ?hi < k" for k
        using le that by (auto simp: map_of_eq_None_iff not_le [symmetric])
      have "buffer_inv btree_plus_init P (map_of kvs)" if "\<And>k. P k \<Longrightarrow> map_of kvs k = None" for P
        using that btree_inv_init bt.get_empty by (simp add: buffer_inv_def synced_def btree_plus_init_def [symmetric]) (simp add: btree_plus_init_def)
      then have "buffer_inv (left_buffer ?ix) (\<lambda>k. k < plin_min_key ?ix) (map_of kvs)" "buffer_inv (right_buffer ?ix) (\<lambda>k. plin_max_key ?ix < k) (map_of kvs)"
        using out by (simp_all add: ix3 PlinIndex_new_def)
      moreover have "leaves_inv (leaf_heap ?ix) (global_version ?ix) ?ss (plin_max_key ?ix) (map_of kvs)" using inv by (simp add: ix3)
      moreover have "?hi < FREE_FLAG" using lk by (simp add: leaf_keys_ok_def)
      moreover have "fst (hd kvs) \<le> ?hi" using le [of ?hi] ne by simp
      moreover have "\<forall>s\<in>set ?ss. fst (hd kvs) \<le> min_key s" using le keys by blast
      ultimately show "\<exists>ss. plin_inv ?ix ss (map_of kvs)" using ro by (intro exI [of _ ?ss]) (simp add: plin_inv_def)
      have "local_table ?ix = map (\<lambda>(k, a). (k, a, True)) (zip (map seg_first cs) [1..<Suc (length cs)])" "leaf_number ?ix = of_nat (length cs)"
        by (simp_all add: ix3 ll del: upt_Suc)
      moreover have "uint (of_nat (length cs) :: u32) = int (length cs)" using len by (simp add: uint_of_small)
      moreover have "leaf_heap ?ix a \<noteq> None" if "a \<in> {1..<Suc (length cs)}" for a
        using b(3) that chained_None [of 1 "Suc (length cs)" h a] by (simp add: ix3)
      moreover have "length cs = length (map (\<lambda>(k, a). (k, a, True)) (zip (map seg_first cs) [1..<Suc (length cs)]))" by (simp del: upt_Suc)
      moreover have "fst (snd e) \<in> {1..<Suc (length cs)}" if "e \<in> set (map (\<lambda>(k, a). (k, a, True)) (zip (map seg_first cs) [1..<Suc (length cs)]))" for e
        using that by (auto dest!: set_zip_rightD simp del: upt_Suc)
      ultimately show "table_ok ?ix" using cs(2) unfolding table_ok_def by (metis length_0_conv)
    qed
    moreover have "fresh ?ix" using bu by (simp add: built_def grown_def fresh_def)
    ultimately show ?thesis using load Inr x by auto
  qed
qed

text \<open>Steadiness of an index, computed over its allocated addresses.\<close>

definition steady_index :: "PlinIndex \<Rightarrow> bool" where
  "steady_index ix \<longleftrightarrow> list_all (\<lambda>a. case inner_heap ix a of None \<Rightarrow> True
     | Some nd \<Rightarrow> steady (inner_slope nd) (inner_intercept nd) InnerSlotsPerBlock (plin_max_key ix)) [0..<next_addr ix]"

lemma steady_index_heap: "fresh ix \<Longrightarrow> steady_index ix \<longleftrightarrow> steady_heap (plin_max_key ix) (inner_heap ix)"
  unfolding steady_index_def steady_heap_def fresh_def list_all_iff by (force split: option.splits)

lemma loaded_inv:
  assumes "loadable kvs" "bulk_load kvs PlinIndex_new = Some (Inr ix)" "steady_index ix"
  shows "\<exists>ss. plin_inv ix ss (map_of kvs)" "table_ok ix" "plin_min_key ix = fst (hd kvs)" "plin_max_key ix = fst (last kvs)"
  using bulk_load_ok [OF assms(1)] assms(2,3) steady_index_heap [of ix] by auto

end
