(* ===== verification/Plin_Small.thy ===== *)
theory Plin_Small
  imports Plin_Load
begin

text \<open>
  An index whose rows fit one leaf segment always loads: its only inner node has one child, a slope that is
  not finite, and predicts its first block.
\<close>

abbreviation fp_0 :: fp where "fp_0 \<equiv> Some (Dbl 0)"

lemma num_of_0 [simp]: "num_of (Dbl 0) = 0"
  by (simp add: num_of_def)

lemma num_of_neg: "num_of (Dbl (- ordinal d)) = - num_of d" "den_of (Dbl (- ordinal d)) = den_of d"
  by (auto simp: num_of_def den_of_def Let_def)

lemma not_inf_0 [simp]: "\<not> is_inf (Dbl 0)"
  by (simp add: is_inf_def inf_ordinal_def)

lemma round_frac_0 [simp]: "round_frac 0 d = Dbl 0"
  by (simp add: round_frac_def)

lemma zero_arith:
  "fp_mul (Some k) fp_0 = fp_0" if "finite_double k" for k
  using finite_not_inf [OF that] by simp

lemma zero_sub: "fp_sub fp_0 fp_0 = fp_0" "fp_add fp_0 fp_0 = fp_0"
  by (simp_all add: fp_sub_def)

lemma sub_self: "finite_double k \<Longrightarrow> fp_sub (Some k) (Some k) = fp_0"
  using finite_not_inf [of k] by (simp add: fp_sub_def num_of_neg is_inf_def)

lemma div_zero: "bad_fp (fp_div x fp_0)"
  by (cases x) (auto simp: bad_fp_def is_inf_def signed_inf_def sgn_if inf_ordinal_def)

lemma ratio_zero: "fp_div fp_0 INNER_NODE_INIT_RATIO = fp_0" "fp_of_int 0 = fp_0" "fp_to_float fp_0 = fp_0"
  by (simp_all add: INNER_NODE_INIT_RATIO_def is_inf_def inf_ordinal_def fp_of_int_def fp_to_float_def round_float_def)

lemma one_value: "fp_of_int 1 = Some (Dbl 0x3FF0000000000000)" "fp_of_u64 8 = Some (Dbl 0x4020000000000000)"
  "round_frac 2 1 = Dbl 0x4000000000000000" "num_of (Dbl 0x3FF0000000000000) = den_of (Dbl 0x3FF0000000000000)"
  by code_simp+

lemma zero_plus_one: "\<exists>m. fp_add fp_0 (fp_of_int 1) = Some m \<and> m \<le> Dbl 0x4000000000000000"
proof -
  let ?o = "Dbl 0x3FF0000000000000" and ?d = "den_of (Dbl 0) * den_of (Dbl 0x3FF0000000000000)"
  have o: "\<not> is_inf ?o" by (simp add: is_inf_def inf_ordinal_def)
  have "real_of_int (num_of ?o * den_of (Dbl 0)) / real_of_int ?d \<le> real_of_int 2 / real_of_int 1"
    using den_of_pos [of "Dbl 0"] den_of_pos [of ?o] unfolding one_value(4) by (simp add: field_simps)
  then have "round_frac (num_of ?o * den_of (Dbl 0)) ?d \<le> round_frac 2 1" by (intro round_frac_mono) simp_all
  then show ?thesis using o by (simp add: one_value)
qed

lemma single_correction:
  assumes "finite_double k"
  shows "bad_fp (fst (model_correction fp_0 fp_0 8 k k))"
proof -
  obtain m where m: "fp_add fp_0 (fp_of_int 1) = Some m" "m \<le> Dbl 0x4000000000000000" using zero_plus_one by blast
  have "m < Dbl 0x4020000000000000" using m(2) by (rule order.strict_trans1) simp
  then show ?thesis unfolding model_correction_def Let_def zero_arith [OF assms] zero_sub sub_self [OF assms] m(1) one_value(2) fp_zero_def
    by (simp add: div_zero del: fp_div.simps fp_sub_def)
qed

lemma inner_blocks_1: "inner_blocks 3 1 = 4"
proof -
  have "inner_blocks 3 1 = of_int (fp_to_int64 (scaled inner_fill [fp_of_int 1, fp_of_int 3] 1))"
    by (simp add: inner_blocks_def scaled_def EPSILON_INNER_NODE_def InnerSlotsPerBlock_def)
  then show ?thesis unfolding scaled_values small_values by simp
qed

lemma single_blank:
  assumes "finite_double k"
  shows "bad_fp (inner_slope (inner_blank 4 [k] 1 0 fp_0 fp_0 lvl))"
  using single_correction [OF assms]
  by (cases "model_correction fp_0 fp_0 8 k k")
    (simp add: inner_blank_def Let_def ratio_zero zero_sub finite_not_inf [OF assms])

lemma first_free_blank: "0 < n \<Longrightarrow> 0 < m \<Longrightarrow> first_free (replicate m free_slot) 0 n = Some 0"
  by (cases n) (auto simp: is_free_def free_slot_def)

lemma single_inner_new:
  assumes k: "finite_double k"
  shows "\<exists>nd acc. inner_new this zero_slot (inner_blocks 3 1) [k] [s] 1 0 fp_0 fp_0 lvl = Inr (nd, acc) \<and> bad_fp (inner_slope nd)"
proof -
  let ?b = "inner_blank 4 [k] 1 0 fp_0 fp_0 lvl"
  have "raw_block (Some k) (inner_slope ?b) (inner_intercept ?b) InnerSlotsPerBlock = - (2 ^ 63)"
    by (rule raw_block_degenerate [OF block_width_8]) (use single_blank [OF k] in simp)
  then have p: "node_predicts ?b k = 0" by (simp add: node_predicts_def inner_predict_block_def clamp_block_def)
  have "inner_data_placement k s ?b = Inr (?b\<lparr>inner_slots := (inner_slots ?b)[0 := s]\<rparr>)"
    unfolding inner_data_placement_alt p by (simp add: inner_blank_fields first_free_blank)
  then have place: "inner_place_all [(k, s)] ?b = Inr (?b\<lparr>inner_slots := (inner_slots ?b)[0 := s]\<rparr>)" by simp
  have "\<exists>acc. inner_accelerator this (?b\<lparr>inner_slots := (inner_slots ?b)[0 := s]\<rparr>) zero_slot = Inr acc"
    by (simp add: inner_accelerator_def set_block_number_def inner_blank_fields)
  then obtain acc where acc: "inner_accelerator this (?b\<lparr>inner_slots := (inner_slots ?b)[0 := s]\<rparr>) zero_slot = Inr acc" by blast
  have "inner_new this zero_slot (inner_blocks 3 1) [k] [s] 1 0 fp_0 fp_0 lvl = Inr (?b\<lparr>inner_slots := (inner_slots ?b)[0 := s]\<rparr>, acc)"
    using place acc unfolding inner_new_def inner_blocks_1 by simp
  then show ?thesis using single_blank [OF k, of lvl] by auto
qed

text \<open>The segment of a single key has slope and intercept 0.\<close>

lemma single_segmentation:
  "\<exists>c. make_segmentation [k] eps = Inr [c] \<and> Segment_of c = \<lparr>sg_first_key = k, sg_slope = fp_0, sg_intercept = fp_0, sg_number = 1\<rparr>"
proof -
  let ?p = "\<lparr>px = k, py = int eps\<rparr>" and ?q = "\<lparr>px = k, py = - int eps\<rparr>"
  let ?c = "\<lparr>seg0 = ?p, seg1 = ?q, seg2 = ?p, seg3 = ?q, seg_first = k, seg_number = 1\<rparr>"
  have m: "make_segmentation [k] eps = Inr [?c]"
    by (simp add: make_segmentation_def add_point_def model_init_def seg_loop.simps get_segment_def Let_def)
  have l: "ld_to_double (ld_of_int 0) = fp_0" by (simp add: ld_of_int_def ld_round_def ld_to_double_def)
  have "get_floating_point_segment k ?c = (ld_of_int 0, ld_of_int 0)"
    by (simp add: get_floating_point_segment_def one_point_def trunc_frac_def)
  then have "Segment_of ?c = \<lparr>sg_first_key = k, sg_slope = fp_0, sg_intercept = fp_0, sg_number = 1\<rparr>"
    by (simp add: Segment_of_def l)
  then show ?thesis using m by blast
qed

lemma single_levels:
  assumes k: "finite_double k" and fr: "fresh ix" and st: "steady_heap hi (inner_heap ix)"
  shows "\<exists>acc lvl ix' p. build_levels 3 [k] [s] 0 ix = Some (Inr ([acc], lvl, ix')) \<and> grown ix ix' \<and> steady_heap hi (inner_heap ix')
    \<and> meta_parameter ix' = meta_parameter ix @ [[p]]"
proof -
  obtain c where c: "make_segmentation [k] EPSILON_INNER_NODE = Inr [c]" "Segment_of c = \<lparr>sg_first_key = k, sg_slope = fp_0, sg_intercept = fp_0, sg_number = 1\<rparr>"
    using single_segmentation by blast
  let ?a = "next_addr ix"
  from single_inner_new [OF k, of ?a s 1] obtain nd acc where
    n: "inner_new ?a zero_slot (inner_blocks 3 1) [k] [s] 1 0 fp_0 fp_0 1 = Inr (nd, acc)" "bad_fp (inner_slope nd)" by blast
  let ?ix = "ix\<lparr>inner_heap := (inner_heap ix)(?a \<mapsto> nd), next_addr := Suc ?a\<rparr>"
  obtain p where b: "build_inners 3 [k] [s] (map Segment_of [c]) 0 (0 + 1) ix = Inr ([acc], [p], ?ix)"
    using n(1) by (simp add: c(2) Let_def)
  let ?ix' = "?ix\<lparr>meta_parameter := meta_parameter ?ix @ [[p]]\<rparr>"
  have "build_levels 3 [k] [acc] 1 ?ix' = Some (Inr ([acc], 1, ?ix'))"
    by (subst build_levels.simps) (simp add: ROOT_SIZE_def)
  then have "build_levels 3 [k] [s] 0 ix = Some (Inr ([acc], 1, ?ix'))"
    using b c by (subst build_levels.simps) (simp add: Let_def)
  moreover have "grown ix ?ix'" using fr unfolding grown_def
    by (intro conjI exI [of _ "(inner_heap ix)(?a \<mapsto> nd)"] exI [of _ "Suc ?a"] exI [of _ "meta_parameter ix @ [[p]]"]) (auto simp: fresh_def)
  moreover have "steady_heap hi (inner_heap ?ix')" using st n(2) by (auto simp: steady_heap_def steady_def)
  moreover have "meta_parameter ?ix' = meta_parameter ix @ [[p]]" by simp
  ultimately show ?thesis by blast
qed

lemma single_load:
  assumes kvs: "loadable kvs" and one: "make_segmentation (map fst kvs) EPSILON_LEAF_NODE = Inr [c]"
  shows "\<exists>ix p. bulk_load kvs PlinIndex_new = Some (Inr ix) \<and> steady_index ix \<and> meta_parameter ix = [[p]]
    \<and> (\<exists>lf s bn sl ic. leaf_heap ix = [1 \<mapsto> lf] \<and> leaf_new 1 zero_slot bn kvs (length kvs) 0 sl ic 0 0 0 = Some (Inr (lf, s)))"
proof -
  from load_leaves [OF kvs, of EPSILON_LEAF_NODE] obtain cs ls h where
    cs: "make_segmentation (map fst kvs) EPSILON_LEAF_NODE = Inr cs" and
    a: "build_leaves kvs (map Segment_of cs) 0 0 PlinIndex_new = Some (Inr (ls, PlinIndex_new\<lparr>leaf_heap := h, next_addr := Suc (length cs)\<rparr>))"
    "map fst ls = [1..<Suc (length cs)]" "map min_key (map snd ls) = map seg_first cs" by (elim exE conjE)
  have "cs = [c]" using cs one by simp
  note b = a [unfolded this]
  obtain s where ls: "ls = [(1, s)]" "min_key s = seg_first c" using b(2,3) by (cases ls) auto
  let ?ix1 = "PlinIndex_new\<lparr>leaf_heap := h, next_addr := 2\<rparr>"
  let ?ix2 = "?ix1\<lparr>local_table := [(seg_first c, 1, True)], leaf_number := 1, meta_parameter := []\<rparr>"
  have ne: "kvs \<noteq> []" using kvs by (simp add: loadable_def)
  have "cuts (map fst kvs) 0 [c]" using make_segmentation_ok [of "map fst kvs" EPSILON_LEAF_NODE] kvs one by (auto simp: loadable_def)
  then have "seg_first c = fst (kvs ! 0)" and num: "seg_number c = length kvs" using ne by simp_all
  then have fin: "finite_double (seg_first c)" using kvs ne by (auto simp: loadable_def list_all_iff split: prod.splits) (metis length_greater_0_conv nth_mem prod.collapse)
  have em: "inner_heap ?ix2 = (\<lambda>_. None)" by (simp add: PlinIndex_new_def)
  have "fresh ?ix2" "steady_heap (fst (last kvs)) (inner_heap ?ix2)" by (simp_all add: fresh_def steady_heap_def PlinIndex_new_def)
  from single_levels [OF fin this] obtain acc lvl ix' p where
    l: "build_levels 3 [seg_first c] [s] 0 ?ix2 = Some (Inr ([acc], lvl, ix'))" "steady_heap (fst (last kvs)) (inner_heap ix')" "grown ?ix2 ix'"
    "meta_parameter ix' = meta_parameter ?ix2 @ [[p]]" by blast
  let ?ix = "ix'\<lparr>plin_min_key := fst (hd kvs), plin_max_key := fst (last kvs), meta_max_key := fst (last kvs), meta_min_key := fst (hd kvs),
       root_number := of_nat (length [acc]), plin_level := lvl, global_version := 0, roots := set_roots [acc] (roots ix')\<rparr>"
  have "local_table PlinIndex_new = []" by (simp add: PlinIndex_new_def)
  then have "bulk_load kvs PlinIndex_new = Some (Inr ?ix)"
    using ne one b(1) l(1) by (simp add: bulk_load_def ls(1) Let_def numeral_2_eq_2)
  moreover have "fresh ?ix" using l(3) by (simp add: grown_def fresh_def)
  then have "steady_index ?ix" using steady_index_heap [of ?ix] l(2) by simp
  moreover have "meta_parameter ?ix = [[p]]" using l(4) by simp
  moreover have "\<exists>lf s bn sl ic. leaf_heap ?ix = [1 \<mapsto> lf] \<and> leaf_new 1 zero_slot bn kvs (length kvs) 0 sl ic 0 0 0 = Some (Inr (lf, s))"
  proof -
    have new: "next_addr PlinIndex_new = 1" "leaf_heap PlinIndex_new = (\<lambda>_. None)" "global_version PlinIndex_new = 0"
      by (simp_all add: PlinIndex_new_def)
    have "leaf_heap ?ix = h" using l(3) by (auto simp: grown_def)
    moreover from b(1) obtain lf s where "leaf_new 1 zero_slot (leaf_blocks (length kvs)) kvs (length kvs) 0 (sg_slope (Segment_of c))
        (sg_intercept (Segment_of c)) 0 0 0 = Some (Inr (lf, s))" "h = [1 \<mapsto> lf]"
      by (auto simp: new num bind_run_Inr_iff Let_def dest!: arg_cong [where f = leaf_heap])
    ultimately show ?thesis by blast
  qed
  ultimately show ?thesis by blast
qed

text \<open>Two rows are always one segment.\<close>

lemma small_load:
  assumes "loadable kvs" "length kvs \<le> 2"
  shows "\<exists>ix p. bulk_load kvs PlinIndex_new = Some (Inr ix) \<and> steady_index ix \<and> meta_parameter ix = [[p]]
    \<and> (\<exists>lf s bn sl ic. leaf_heap ix = [1 \<mapsto> lf] \<and> leaf_new 1 zero_slot bn kvs (length kvs) 0 sl ic 0 0 0 = Some (Inr (lf, s)))"
proof -
  have so: "sorted_wrt (<) (map fst kvs)" and ne: "kvs \<noteq> []" using assms(1) by (simp_all add: loadable_def)
  obtain cs where cs: "make_segmentation (map fst kvs) EPSILON_LEAF_NODE = Inr cs" "cuts (map fst kvs) 0 cs"
    using make_segmentation_ok [OF so] by blast
  have "length cs \<le> 1" using cuts_length [OF cs(2)] assms(2) by simp
  moreover have "cs \<noteq> []" using cs(2) ne by auto
  ultimately obtain c where "cs = [c]" by (cases cs) auto
  then show ?thesis using single_load [OF assms(1)] cs(1) by blast
qed

end
