(* ===== verification/Plin_Store.thy ===== *)
theory Plin_Store
  imports Plin_Small
begin

text \<open>
  The loaded index as a key-value store: between two keys that never change, its lookups answer like a map
  that upserts update.  The smallest and the largest loaded key are the exception, because upserts of them go
  to a buffer that lookups of them do not search.
\<close>

definition plin_get :: "double \<Rightarrow> PlinIndex \<Rightarrow> payload_t option" where
  "plin_get k ix = (case plin_find k 0 ix of Some (Inr (True, v, _)) \<Rightarrow> Some v | _ \<Rightarrow> None)"

definition plin_put :: "double \<Rightarrow> payload_t \<Rightarrow> PlinIndex \<Rightarrow> PlinIndex option" where
  "plin_put k v ix = (case plin_upsert k v ix of Some (Inr ix') \<Rightarrow> Some ix' | _ \<Rightarrow> None)"

definition serves_between :: "double \<Rightarrow> double \<Rightarrow> PlinIndex \<Rightarrow> bool" where
  "serves_between lo hi ix \<longleftrightarrow> plin_min_key ix = lo \<and> plin_max_key ix = hi \<and> (\<exists>ss m. plin_inv ix ss m)"

lemma plin_get_inv: "plin_inv ix ss m \<Longrightarrow> plin_get k ix = m k"
  by (simp add: plin_get_def plin_find_any split: option.split)

lemma plin_find_get:
  assumes "serves_between lo hi ix"
  shows "plin_find k p ix = Some (Inr (case plin_get k ix of Some v \<Rightarrow> (True, v, ix) | None \<Rightarrow> (False, p, ix)))"
proof -
  from assms obtain ss m where "plin_inv ix ss m" by (auto simp: serves_between_def)
  then show ?thesis by (simp add: plin_find_any plin_get_inv)
qed

lemma plin_put_inv:
  assumes "plin_inv ix ss m" "k \<noteq> plin_min_key ix" "k \<noteq> plin_max_key ix" "v \<noteq> 0"
  shows "\<exists>ix'. plin_put k v ix = Some ix' \<and> plin_inv ix' ss (m(k \<mapsto> v)) \<and> plin_min_key ix' = plin_min_key ix \<and> plin_max_key ix' = plin_max_key ix"
proof (cases "plin_min_key ix < k \<and> k < plin_max_key ix")
  case True
  then show ?thesis using plin_upsert_inside [OF assms(1) _ _ assms(4), of k] by (auto simp: plin_put_def)
next
  case False
  then have "k < plin_min_key ix \<or> plin_max_key ix < k" using assms(2,3) by auto
  then show ?thesis using plin_upsert_outside [OF assms(1) _ assms(4), of k] by (auto simp: plin_put_def)
qed

interpretation px: kv_update plin_put plin_get "serves_between lo hi" "\<lambda>k v. k \<noteq> lo \<and> k \<noteq> hi \<and> v \<noteq> 0" for lo hi
proof
  fix ix k v assume i: "serves_between lo hi ix" and kv: "k \<noteq> lo \<and> k \<noteq> hi \<and> v \<noteq> (0 :: payload_t)"
  obtain ss m where m: "plin_inv ix ss m" "plin_min_key ix = lo" "plin_max_key ix = hi" using i by (auto simp: serves_between_def)
  from plin_put_inv [OF m(1), of k v] kv m(2,3) obtain ix' where
    p: "plin_put k v ix = Some ix'" "plin_inv ix' ss (m(k \<mapsto> v))" "plin_min_key ix' = lo" "plin_max_key ix' = hi" by auto
  show "\<exists>s'. plin_put k v ix = Some s' \<and> serves_between lo hi s'" using p by (auto simp: serves_between_def)
  show "plin_get l ix' = (if l = k then Some v else plin_get l ix)" if "plin_put k v ix = Some ix'" for l ix'
    using p that plin_get_inv [OF m(1), of l] by (auto simp: plin_get_inv)
qed

lemma loaded_store:
  assumes "loadable kvs" "bulk_load kvs PlinIndex_new = Some (Inr ix)" "steady_index ix"
  shows "serves_between (fst (hd kvs)) (fst (last kvs)) ix" "plin_get k ix = map_of kvs k"
proof -
  from loaded_inv [OF assms] obtain ss where l: "plin_inv ix ss (map_of kvs)" "plin_min_key ix = fst (hd kvs)" "plin_max_key ix = fst (last kvs)" by blast
  then show "serves_between (fst (hd kvs)) (fst (last kvs)) ix" by (auto simp: serves_between_def)
  show "plin_get k ix = map_of kvs k" using l(1) by (rule plin_get_inv)
qed

text \<open>A sequence of upserts, each run to its end before the next.\<close>

fun plin_upserts :: "(double \<times> payload_t) list \<Rightarrow> PlinIndex \<Rightarrow> PlinIndex run" where
  "plin_upserts [] ix = Some (Inr ix)"
| "plin_upserts ((k, v) # kvs) ix = bind_run (plin_upsert k v ix) (plin_upserts kvs)"

lemma plin_upserts_put_all: "kv_update.put_all plin_put kvs ix = Some ix' \<Longrightarrow> plin_upserts kvs ix = Some (Inr ix')"
proof (induction kvs arbitrary: ix)
  case (Cons kv kvs)
  obtain k v where kv: "kv = (k, v)" by (cases kv)
  from Cons.prems kv obtain ix1 where "plin_put k v ix = Some ix1" "kv_update.put_all plin_put kvs ix1 = Some ix'"
    by (auto simp: px.put_all.simps bind_eq_Some_conv)
  moreover from this(1) have "plin_upsert k v ix = Some (Inr ix1)" by (auto simp: plin_put_def split: option.splits sum.splits)
  ultimately show ?case using Cons.IH [of ix1] kv by simp
qed (simp add: px.put_all.simps)

lemma loaded_upserts:
  assumes "loadable kvs" "bulk_load kvs PlinIndex_new = Some (Inr ix)" "steady_index ix"
    and ups: "\<forall>(k, v)\<in>set ups. k \<noteq> fst (hd kvs) \<and> k \<noteq> fst (last kvs) \<and> v \<noteq> 0"
  shows "\<exists>ix'. plin_upserts ups ix = Some (Inr ix') \<and> serves_between (fst (hd kvs)) (fst (last kvs)) ix'
    \<and> (\<forall>k. plin_get k ix' = (case map_of (rev ups) k of Some v \<Rightarrow> Some v | None \<Rightarrow> map_of kvs k))"
proof -
  note l = loaded_store [OF assms(1-3)]
  have u: "\<forall>kv\<in>set ups. fst kv \<noteq> fst (hd kvs) \<and> fst kv \<noteq> fst (last kvs) \<and> snd kv \<noteq> 0" using ups by auto
  from px.put_all_total [OF l(1) u] obtain ix' where p: "kv_update.put_all plin_put ups ix = Some ix'" "serves_between (fst (hd kvs)) (fst (last kvs)) ix'" by blast
  have "plin_get k ix' = (case map_of (rev ups) k of Some v \<Rightarrow> Some v | None \<Rightarrow> map_of kvs k)" for k
    unfolding px.get_put_all [OF l(1) u p(1)] l(2) ..
  then show ?thesis using plin_upserts_put_all [OF p(1)] p(2) by blast
qed

end
