(* ===== verification/Plin_Remove.thy ===== *)
theory Plin_Remove
  imports Plin_Store
begin

text \<open>
  Removal from the loaded index.  As long as the blocks of the leaf nodes have free slots, no overflow tree is
  created, and mixed sequences of upserts and removals act on the index as on a map.
\<close>

section \<open>Free slots\<close>

definition spare :: "nat \<Rightarrow> leaf_block \<Rightarrow> bool" where
  "spare n b \<longleftrightarrow> overflow_tree (hdr b) = None \<and> n \<le> length (filter (\<lambda>s. fst s = FREE_FLAG) (data b))"

definition spare_leaves :: "nat \<Rightarrow> leaves \<Rightarrow> bool" where
  "spare_leaves n h \<longleftrightarrow> (\<forall>a lf. h a = Some lf \<longrightarrow> list_all (spare n) (leaf_slots lf))"

lemma length_filter_update: "length (filter P xs) \<le> Suc (length (filter P (xs[i := y])))"
proof (induction xs arbitrary: i)
  case (Cons x xs)
  then show ?case by (cases i) (auto intro: le_SucI)
qed simp

definition slot_write :: "'a list \<Rightarrow> 'a list \<Rightarrow> bool" where
  "slot_write d d' \<longleftrightarrow> (\<exists>i y. d' = d[i := y])"

lemma slot_write_simps [simp]: "slot_write d d" "slot_write d (d[i := y])"
  unfolding slot_write_def by (metis list_update_id) blast

text \<open>An operation on a block that keeps it without a tree costs at most one free slot.\<close>

lemma spare_step:
  assumes "spare (Suc n) b" "overflow_tree (hdr b') = None" "slot_write (data b) (data b')"
  shows "spare n b'"
proof -
  obtain i y where "data b' = (data b)[i := y]" using assms(3) by (auto simp: slot_write_def)
  then show ?thesis using assms(1,2) length_filter_update [of "\<lambda>s. fst s = FREE_FLAG" "data b" i y] by (simp add: spare_def)
qed

lemma spare_free:
  assumes "spare (Suc n) b"
  shows "find_slot FREE_FLAG (data b) \<noteq> None"
proof
  assume "find_slot FREE_FLAG (data b) = None"
  then have "filter (\<lambda>s. fst s = FREE_FLAG) (data b) = []" by (force simp: find_slot_None filter_empty_conv)
  then show False using assms by (simp add: spare_def)
qed

lemma spare_weaken: "spare (Suc n) b \<Longrightarrow> spare n b"
  by (simp add: spare_def)

lemma lock_keeps:
  assumes "block_get_lock gv h = Some h'"
  shows "overflow_tree h' = overflow_tree h" "local_version h' = gv"
  using assms by (auto simp: block_get_lock_def check_global_version_def Let_def split: if_splits)

lemma release_keeps [simp]:
  "overflow_tree (block_release_lock h) = overflow_tree h" "overflow_tree (release_lock_without_change h) = overflow_tree h"
  "local_version (block_release_lock h) = local_version h" "local_version (release_lock_without_change h) = local_version h"
  by (simp_all add: block_release_lock_def release_lock_without_change_def)

lemma block_upsert_spare:
  assumes "block_upsert gv k v b = Some (Inr (r, b'))" "spare (Suc n) b"
  shows "spare n b'"
proof -
  obtain h where h: "block_get_lock gv (hdr b) = Some h" using assms(1) by (auto simp: block_upsert_def split: option.splits)
  have "overflow_tree h = None" using lock_keeps(1) [OF h] assms(2) by (simp add: spare_def)
  then show ?thesis using assms h spare_free [OF assms(2)]
    by (intro spare_step [OF assms(2)]) (auto simp: block_upsert_def split: option.splits)
qed

lemma block_remove_spare:
  assumes "block_remove gv k b = Some (Inr (r, b'))" "spare (Suc n) b"
  shows "spare n b'" "local_version (hdr b') = gv"
proof -
  obtain h where h: "block_get_lock gv (hdr b) = Some h" using assms(1) by (auto simp: block_remove_def split: option.splits)
  have o: "overflow_tree h = None" using lock_keeps(1) [OF h] assms(2) by (simp add: spare_def)
  show "spare n b'" using assms h o by (intro spare_step [OF assms(2)]) (auto simp: block_remove_def split: option.splits)
  show "local_version (hdr b') = gv" using assms(1) h o lock_keeps(2) [OF h] by (auto simp: block_remove_def split: option.splits)
qed

lemma spare_put:
  assumes "list_all (spare (Suc n)) (leaf_slots lf)" "spare n b"
  shows "list_all (spare n) (leaf_slots (put_block i b lf))"
proof -
  have "list_all (spare n) (leaf_slots lf)" using assms(1) by (auto simp: list_all_iff intro: spare_weaken)
  then show ?thesis using assms(2) by (auto simp: put_block_def list_all_iff dest!: subsetD [OF set_update_subset_insert])
qed

lemma spare_get: "list_all (spare n) (leaf_slots lf) \<Longrightarrow> get_block i lf = Inr b \<Longrightarrow> spare n b"
  by (auto simp: get_block_def list_all_length split: if_splits)

lemma spare_leaves_put:
  assumes "spare_leaves (Suc n) h" "h a = Some lf" "spare n b" "leaf_slots lf' = leaf_slots (put_block i b lf)"
  shows "spare_leaves n (h(a \<mapsto> lf'))"
  using assms spare_put [of n lf b i] by (auto simp: spare_leaves_def list_all_iff intro: spare_weaken)

lemma spare_leaves_weaken: "spare_leaves (Suc n) h \<Longrightarrow> spare_leaves n h"
  by (auto simp: spare_leaves_def list_all_iff intro: spare_weaken)

lemma spare_leaves_mono: "m \<le> n \<Longrightarrow> spare_leaves n h \<Longrightarrow> spare_leaves m h"
  by (fastforce simp: spare_leaves_def spare_def list_all_iff)

lemma leaf_upsert_spare:
  assumes run: "leaf_upsert h a k v gv acc = Some (Inr (ret, sp, h'))" and s: "spare_leaves (Suc n) h"
  shows "spare_leaves n h'"
proof -
  from run obtain w where w: "leaf_walk h a k acc = Some (Inr w)" by (auto simp: leaf_upsert_def bind_run_Inr_iff)
  show ?thesis
  proof (cases w)
    case Locked
    then show ?thesis using run w spare_leaves_weaken [OF s] by (simp add: leaf_upsert_def)
  next
    case (Reached c i acc')
    with run w obtain lf b where lf: "h c = Some lf" "get_block i lf = Inr b" by (auto simp: leaf_upsert_def bind_run_Inr_iff split: option.splits)
    have b: "spare (Suc n) b" using s lf spare_get by (metis spare_leaves_def)
    show ?thesis
    proof (cases "leaf_check_write_lock acc' lf")
      case True
      with run w Reached lf obtain fl b' lf' where u: "block_upsert gv k v b = Some (Inr (fl, b'))" "h' = h(c \<mapsto> lf')"
        "leaf_slots lf' = leaf_slots (put_block i b' lf)"
        by (auto simp: leaf_upsert_def bind_run_Inr_iff Let_def)
      show ?thesis unfolding u(2) by (rule spare_leaves_put [OF s lf(1) block_upsert_spare [OF u(1) b] u(3)])
    next
      case False
      then have "h' = h(c \<mapsto> put_block i (b\<lparr>hdr := release_lock_without_change (hdr b)\<rparr>) lf)"
        using run w Reached lf by (simp add: leaf_upsert_def)
      moreover have "spare n (b\<lparr>hdr := release_lock_without_change (hdr b)\<rparr>)" using b by (simp add: spare_def)
      ultimately show ?thesis using spare_leaves_put [OF s lf(1) _ refl] by simp
    qed
  qed
qed

section \<open>Construction\<close>

lemma placement_spare:
  assumes "leaf_data_placement k v lf = Some (Inr lf')" "list_all (spare (Suc n)) (leaf_slots lf)"
  shows "list_all (spare n) (leaf_slots lf')"
proof -
  from assms(1) obtain i b where b: "get_block i lf = Inr b"
    "(case find_slot FREE_FLAG (data b) of
          Some j \<Rightarrow> Some (Inr (put_block i (b\<lparr>data := (data b)[j := (k, v)]\<rparr>) lf))
        | None \<Rightarrow> bind_run (bt_insert k v (open_overflow (hdr b))) (\<lambda>(_, t).
            Some (Inr ((put_block i (b\<lparr>hdr := (hdr b)\<lparr>overflow_tree := Some t\<rparr>\<rparr>) lf)
              \<lparr>overflow_number := overflow_number lf + 1\<rparr>)))) = Some (Inr lf')"
    by (auto simp: leaf_data_placement_def Let_def bind_run_Inr_iff)
  have s: "spare (Suc n) b" using spare_get assms(2) b(1) by blast
  obtain j where "find_slot FREE_FLAG (data b) = Some j" using spare_free [OF s] by blast
  then have "lf' = put_block i (b\<lparr>data := (data b)[j := (k, v)]\<rparr>) lf" using b(2) by simp
  moreover have "spare n (b\<lparr>data := (data b)[j := (k, v)]\<rparr>)" using s by (intro spare_step [OF s]) (auto simp: spare_def)
  ultimately show ?thesis using spare_put [OF assms(2)] by simp
qed

lemma place_all_spare:
  "leaf_place_all kvs lf = Some (Inr lf') \<Longrightarrow> list_all (spare (n + length kvs)) (leaf_slots lf) \<Longrightarrow> list_all (spare n) (leaf_slots lf')"
proof (induction kvs lf rule: leaf_place_all.induct)
  case (2 k v kvs lf)
  then obtain lf1 where "leaf_data_placement k v lf = Some (Inr lf1)" "leaf_place_all kvs lf1 = Some (Inr lf')" by (auto simp: bind_run_Inr_iff)
  then show ?case using 2 placement_spare [of k v lf lf1 "n + length kvs"] by simp
qed simp

lemma leaf_new_spare:
  assumes "leaf_new this acc bn kvs number start sl ic gv p nx = Some (Inr (lf, s))" "n + number \<le> LeafRealSlotsPerBlock"
  shows "list_all (spare n) (leaf_slots lf)"
proof -
  from assms(1) have r: "leaf_place_all (take number (drop start kvs)) (leaf_blank bn kvs number start sl ic gv p nx) = Some (Inr lf)"
    "start + number \<le> length kvs" by (auto simp: leaf_new_def bind_run_Inr_iff split: if_splits)
  have "spare LeafRealSlotsPerBlock (empty_block gv)" by (simp add: spare_def empty_block_def)
  then have "spare (n + number) (empty_block gv)" using assms(2) by (simp add: spare_def)
  then have "list_all (spare (n + number)) (leaf_slots (leaf_blank bn kvs number start sl ic gv p nx))"
    by (simp add: leaf_blank_def Let_def list_all_iff split: prod.splits)
  then show ?thesis using place_all_spare [OF r(1), of n] r(2) by simp
qed

lemma small_load_spare:
  assumes "loadable kvs" "length kvs \<le> 2"
  shows "\<exists>ix. bulk_load kvs PlinIndex_new = Some (Inr ix) \<and> steady_index ix \<and> spare_leaves 13 (leaf_heap ix)"
proof -
  from small_load [OF assms] obtain ix lf s bn sl ic where ix: "bulk_load kvs PlinIndex_new = Some (Inr ix)" "steady_index ix"
    "leaf_heap ix = [1 \<mapsto> lf]" "leaf_new 1 zero_slot bn kvs (length kvs) 0 sl ic 0 0 0 = Some (Inr (lf, s))" by blast
  then have "list_all (spare 13) (leaf_slots lf)" using leaf_new_spare [OF ix(4), of 13] assms(2) by (simp add: LeafRealSlotsPerBlock_def LeafSlotsPerBlock_def)
  then show ?thesis using ix by (auto simp: spare_leaves_def)
qed

section \<open>Removal\<close>

lemma leaf_remove_spare:
  assumes run: "leaf_remove h a k gv acc = Some (Inr (ret, h(c \<mapsto> lc')))" and c: "h c = Some lc" "current gv lc"
    and w: "leaf_walk h a k acc = Some (Inr (Reached c i acc'))" "leaf_check_write_lock acc' lc" and s: "spare_leaves (Suc n) h"
  shows "spare_leaves n (h(c \<mapsto> lc'))" "current gv lc'"
proof -
  from run c w obtain b r b' where b: "get_block i lc = Inr b" "block_remove gv k b = Some (Inr (r, b'))"
    "h(c \<mapsto> lc') = h(c \<mapsto> (let lf' = put_block i b' lc in if r = 2 then lf'\<lparr>overflow_number := overflow_number lf' - 1\<rparr> else lf'))"
    by (auto simp: leaf_remove_def bind_run_Inr_iff Let_def)
  have lc': "lc' = (let lf' = put_block i b' lc in if r = 2 then lf'\<lparr>overflow_number := overflow_number lf' - 1\<rparr> else lf')"
    using fun_cong [OF b(3), of c] by simp
  have "spare (Suc n) b" using s c(1) b(1) spare_get by (metis spare_leaves_def)
  note b' = block_remove_spare [OF b(2) this]
  show "spare_leaves n (h(c \<mapsto> lc'))" by (rule spare_leaves_put [OF s c(1) b'(1)]) (simp add: lc' Let_def)
  show "current gv lc'" using current_put [OF c(2) b'(2), of i] by (simp add: lc' current_def Let_def)
qed

lemma plin_remove_inside:
  assumes inv: "plin_inv ix ss m" and k: "plin_min_key ix < k" "k < plin_max_key ix" and sp: "spare_leaves (Suc n) (leaf_heap ix)"
  shows "\<exists>ix'. plin_remove k ix = Some (Inr ix') \<and> plin_inv ix' ss (m(k := None)) \<and> plin_min_key ix' = plin_min_key ix
    \<and> plin_max_key ix' = plin_max_key ix \<and> spare_leaves n (leaf_heap ix')"
proof -
  have l: "leaves_inv (leaf_heap ix) (global_version ix) ss (plin_max_key ix) m" and ro: "routes_ok ix ss"
    and f: "k \<noteq> FREE_FLAG" using inv k by (auto simp: plin_inv_def)
  from ro k obtain r s where r: "locate_leaf k ix = Some (Inr r)" "slot_at r ix = Inr s" "routes_to ss k s"
    unfolding routes_ok_def using less_imp_le by blast
  then have s: "s \<in> set ss" by (simp add: routes_to_def)
  from leaves_invD [OF l s] obtain lf where lf: "leaf_heap ix (ptr s) = Some lf" "usable (global_version ix) s lf" "node_ok lf"
    "accessible (leaf_heap ix) (ptr s) (Some s)" "stays (leaf_heap ix) lf k" using k f r(3) by (metis less_imp_le)
  have u: "mirrors s lf" "slot_check_read_lock s" "slot_check_write_lock s" "leaf_tight lf" "current (global_version ix) lf"
    using lf(2) by (simp_all add: usable_def)
  have w: "leaf_walk (leaf_heap ix) (ptr s) k (Some s) = Some (Inr (Reached (ptr s) (key_block lf k) (Some s)))"
    by (rule walk_stays [OF lf(1) u(1,2) lf(5,3)])
  have "spare (Suc n) (leaf_slots lf ! key_block lf k)" using sp lf(1) key_block_bound [OF lf(3), of k]
    by (auto simp: spare_leaves_def list_all_length)
  then have no: "overflow_tree (hdr (leaf_slots lf ! key_block lf k)) = None" by (simp add: spare_def)
  define ret :: nat where "ret = (if leaf_map lf k = None then 0 else 1)"
  from leaf_remove_ok [OF lf(4) f w lf(1) u(4) no, of "global_version ix", folded ret_def] obtain lc' where
    rm: "leaf_remove (leaf_heap ix) (ptr s) k (global_version ix) (Some s) = Some (Inr (ret, (leaf_heap ix)(ptr s \<mapsto> lc')))"
    "changed k None lf lc'" "leaf_tight lc'" by blast
  have ret: "ret \<noteq> 3" by (simp add: ret_def)
  note lrs = leaf_remove_spare [OF rm(1) lf(1) u(5) w _ sp]
  have wl: "leaf_check_write_lock (Some s) lf" using u(3) by (simp add: leaf_check_write_lock_def)
  let ?ix = "ix\<lparr>leaf_heap := (leaf_heap ix)(ptr s \<mapsto> lc')\<rparr>"
  have ok: "leaves_ok ((leaf_heap ix)(ptr s \<mapsto> lc'))"
    using changed_find(3) [OF _ lf(1) rm(2) f w] l by (auto simp: leaves_inv_def)
  have "leaves_inv ((leaf_heap ix)(ptr s \<mapsto> lc')) (global_version ix) ss (plin_max_key ix) (m(k := None))"
    using leaves_inv_upd [OF l s lf(1) r(3) f _ rm(2,3) lrs(2) [OF wl] ok] k by simp
  then have "plin_inv ?ix ss (m(k := None))" using inv k routes_ok_cong [OF ro] by (auto simp: plin_inv_def buffer_inv_def)
  moreover have "plin_remove_loop k ix = Some (Inr ?ix)"
    by (subst plin_remove_loop.simps) (simp add: r(1,2) rm(1) ret Let_def)
  ultimately show ?thesis using k lrs(1) [OF wl] by (auto simp: plin_remove_def)
qed

section \<open>Histories\<close>

text \<open>A sequence of upserts (with a payload) and removals (without), each run to its end before the next.\<close>

fun plin_history :: "(double \<times> payload_t option) list \<Rightarrow> PlinIndex \<Rightarrow> PlinIndex run" where
  "plin_history [] ix = Some (Inr ix)"
| "plin_history ((k, Some v) # ops) ix = bind_run (plin_upsert k v ix) (plin_history ops)"
| "plin_history ((k, None) # ops) ix = bind_run (plin_remove k ix) (plin_history ops)"

definition history_map :: "(double \<times> payload_t option) list \<Rightarrow> (double \<rightharpoonup> payload_t) \<Rightarrow> double \<rightharpoonup> payload_t" where
  "history_map ops m = foldl (\<lambda>m (k, v). m(k := v)) m ops"

definition allowed :: "double \<Rightarrow> double \<Rightarrow> double \<times> payload_t option \<Rightarrow> bool" where
  "allowed lo hi op = (case op of (k, Some v) \<Rightarrow> k \<noteq> lo \<and> k \<noteq> hi \<and> v \<noteq> 0 | (k, None) \<Rightarrow> lo < k \<and> k < hi)"

lemma plin_upsert_spare:
  assumes "plin_inv ix ss m" "k \<noteq> plin_min_key ix" "k \<noteq> plin_max_key ix" "v \<noteq> 0" "spare_leaves (Suc n) (leaf_heap ix)"
  shows "\<exists>ix'. plin_upsert k v ix = Some (Inr ix') \<and> plin_inv ix' ss (m(k \<mapsto> v)) \<and> plin_min_key ix' = plin_min_key ix
    \<and> plin_max_key ix' = plin_max_key ix \<and> spare_leaves n (leaf_heap ix')"
proof (cases "plin_min_key ix < k \<and> k < plin_max_key ix")
  case True
  with plin_upsert_inside [OF assms(1) _ _ assms(4), of k] show ?thesis using leaf_upsert_spare [OF _ assms(5)] by metis
next
  case False
  then have "k < plin_min_key ix \<or> plin_max_key ix < k" using assms(2,3) by auto
  with plin_upsert_outside [OF assms(1) _ assms(4), of k] show ?thesis using spare_leaves_weaken [OF assms(5)] by metis
qed

lemma plin_history_ok:
  "plin_inv ix ss m \<Longrightarrow> \<forall>op\<in>set ops. allowed (plin_min_key ix) (plin_max_key ix) op \<Longrightarrow> spare_leaves (length ops) (leaf_heap ix) \<Longrightarrow>
    \<exists>ix'. plin_history ops ix = Some (Inr ix') \<and> plin_inv ix' ss (history_map ops m)"
proof (induction ops arbitrary: ix m)
  case (Cons op ops)
  obtain k v where op: "op = (k, v)" by (cases op)
  have "\<exists>ix1. plin_history (op # ops) ix = plin_history ops ix1 \<and> plin_inv ix1 ss (m(k := v)) \<and> plin_min_key ix1 = plin_min_key ix
    \<and> plin_max_key ix1 = plin_max_key ix \<and> spare_leaves (length ops) (leaf_heap ix1)"
  proof (cases v)
    case None
    with Cons.prems op plin_remove_inside [OF Cons.prems(1), of k "length ops"] show ?thesis by (auto simp: allowed_def)
  next
    case (Some w)
    with Cons.prems op plin_upsert_spare [OF Cons.prems(1), of k w "length ops"] show ?thesis by (auto simp: allowed_def)
  qed
  then obtain ix1 where s: "plin_history (op # ops) ix = plin_history ops ix1" "plin_inv ix1 ss (m(k := v))" "plin_min_key ix1 = plin_min_key ix"
    "plin_max_key ix1 = plin_max_key ix" "spare_leaves (length ops) (leaf_heap ix1)" by blast
  have "\<forall>op\<in>set ops. allowed (plin_min_key ix1) (plin_max_key ix1) op" using Cons.prems(2) s(3,4) by simp
  from Cons.IH [OF s(2) this s(5)] show ?case by (simp only: s(1) [unfolded op] op history_map_def foldl_Cons prod.case)
qed (simp add: history_map_def)

end
