(* ===== verification/Plin_Split.thy ===== *)
theory Plin_Split
  imports Plin_Load
begin

text \<open>
  The leaf split: a failed attempt to take the locks leaves the index as it was, the new nodes hold the data of
  the old one in order and take its place between the siblings, and the table of leaves stays sorted.
\<close>

section \<open>Locks\<close>

text \<open>No node is read- or write-locked; some may hold their split lock.\<close>

definition only_split_locks :: "PlinIndex \<Rightarrow> bool" where
  "only_split_locks ix \<longleftrightarrow> (\<forall>a lf. leaf_heap ix a = Some lf \<longrightarrow> node_locked lf = 0 \<or> node_locked lf = 1)"

text \<open>Taking a split lock and releasing it gives the index back; failing to take it changes nothing.\<close>

lemma try_split_lock_failed:
  assumes "try_split_lock a ix = Inr (False, ix')"
  shows "ix' = ix"
  using assms by (auto simp: try_split_lock_def try_get_split_lock_def fun_upd_idem split: option.splits if_splits)

lemma try_split_lock_taken:
  assumes ok: "only_split_locks ix" and t: "try_split_lock a ix = Inr (True, ix')"
  shows "mod_leaf a leaf_release_lock ix' = Inr ix" "only_split_locks ix'"
proof -
  from t obtain lf where lf: "leaf_heap ix a = Some lf" "node_locked lf AND 1 = 0"
    "ix' = ix\<lparr>leaf_heap := (leaf_heap ix)(a \<mapsto> lf\<lparr>node_locked := node_locked lf OR 1\<rparr>)\<rparr>"
    by (auto simp: try_split_lock_def try_get_split_lock_def split: option.splits if_splits)
  have "node_locked lf = 0 \<or> node_locked lf = 1" using ok lf(1) unfolding only_split_locks_def by blast
  then have l0: "node_locked lf = 0" using lf(2) by auto
  then have "leaf_release_lock (lf\<lparr>node_locked := node_locked lf OR 1\<rparr>) = lf" by (simp add: leaf_release_lock_def)
  then show "mod_leaf a leaf_release_lock ix' = Inr ix" using lf by (simp add: mod_leaf_def fun_upd_idem)
  show "only_split_locks ix'" using ok lf(3) l0 by (auto simp: only_split_locks_def)
qed

text \<open>The lock counter and the locks already taken are put back.\<close>

lemma lock_for_split_fails:
  assumes ok: "only_split_locks ix" and f: "lock_for_split leaf left right ix = Inr (False, ix')"
  shows "ix' = ix"
proof (cases "smo_lock ix AND lockSet \<noteq> 0")
  case True
  then show ?thesis using f by (simp add: lock_for_split_def try_get_read_lock_def)
next
  case False
  let ?ix = "ix\<lparr>smo_lock := smo_lock ix + 1\<rparr>"
  note f' = f [unfolded lock_for_split_def try_get_read_lock_def, simplified False, simplified]
  have ok0: "only_split_locks ?ix" using ok by (simp add: only_split_locks_def)
  have rel: "release_read_lock ?ix = ix" by (simp add: release_read_lock_def)
  from f' obtain b1 ix1 where t1: "try_split_lock leaf ?ix = Inr (b1, ix1)" by (cases "try_split_lock leaf ?ix") auto
  show ?thesis
  proof (cases b1)
    case False
    then show ?thesis using f' t1 try_split_lock_failed [of leaf ?ix ix1] rel by simp
  next
    case True
    then have "try_split_lock leaf ?ix = Inr (True, ix1)" using t1 by simp
    note u1 = try_split_lock_taken [OF ok0 this]
    let ?r2 = "if left = 0 then Inr (False, ix1) else try_split_lock left ix1"
    from f' t1 True obtain b2 ix2 where t2: "?r2 = Inr (b2, ix2)" by (cases ?r2) (auto split: if_splits)
    show ?thesis
    proof (cases b2)
      case False
      then have "ix2 = ix1" using t2 try_split_lock_failed by (auto split: if_splits)
      then show ?thesis using f' t1 t2 True False u1(1) rel by simp
    next
      case b2: True
      then have l: "try_split_lock left ix1 = Inr (True, ix2)" "left \<noteq> 0" using t2 by (auto split: if_splits)
      note u2 = try_split_lock_taken [OF u1(2) l(1)]
      let ?r3 = "if right = 0 then Inr (False, ix2) else try_split_lock right ix2"
      from f' t1 l True obtain b3 ix3 where t3: "?r3 = Inr (b3, ix3)" by (cases ?r3) (auto split: if_splits)
      then have "\<not> b3" using f' t1 l True by (auto split: if_splits)
      then have "ix3 = ix2" using t3 try_split_lock_failed by (auto split: if_splits)
      then show ?thesis using f' t1 l t3 True \<open>\<not> b3\<close> u1(1) u2(1) rel by simp
    qed
  qed
qed

text \<open>A node without a left or a right neighbour is never split.\<close>

lemma edge_leaf_split:
  assumes ok: "only_split_locks ix" and a: "leaf_heap ix a = Some lf" "prev_node lf = 0 \<or> next_node lf = 0"
    and p: "prev_node lf = 0 \<or> leaf_heap ix (prev_node lf) \<noteq> None"
  shows "plin_split a acc ix = Some (Inr ix)"
proof -
  have t: "\<exists>b ix'. try_split_lock c ix = Inr (b, ix') \<and> dom (leaf_heap ix') = dom (leaf_heap ix)" if "leaf_heap ix c \<noteq> None" for c ix
    using that by (auto simp: try_split_lock_def split: prod.split)
  have "\<exists>ix'. lock_for_split a (prev_node lf) (next_node lf) ix = Inr (False, ix')"
  proof (cases "smo_lock ix AND lockSet \<noteq> 0")
    case True
    then show ?thesis by (simp add: lock_for_split_def try_get_read_lock_def)
  next
    case False
    let ?ix = "ix\<lparr>smo_lock := smo_lock ix + 1\<rparr>"
    obtain b1 ix1 where t1: "try_split_lock a ?ix = Inr (b1, ix1)" "dom (leaf_heap ix1) = dom (leaf_heap ix)" using t [of ?ix a] a by auto
    have a1: "leaf_heap ix1 a \<noteq> None" using t1(2) a by (metis domIff option.distinct(1))
    show ?thesis
    proof (cases "b1 \<and> prev_node lf \<noteq> 0")
      case True
      then have "leaf_heap ix1 (prev_node lf) \<noteq> None" using p t1(2) by (metis domIff)
      then obtain b2 ix2 where t2: "try_split_lock (prev_node lf) ix1 = Inr (b2, ix2)" "dom (leaf_heap ix2) = dom (leaf_heap ix1)" using t by metis
      have "leaf_heap ix2 (prev_node lf) \<noteq> None" "leaf_heap ix2 a \<noteq> None" using t2(2) a1 \<open>leaf_heap ix1 (prev_node lf) \<noteq> None\<close> by (metis domIff)+
      then show ?thesis using False True t1(1) t2(1) a(2) by (auto simp: lock_for_split_def try_get_read_lock_def mod_leaf_def split: option.splits)
    next
      case b: False
      then show ?thesis using False t1(1) a1 by (auto simp: lock_for_split_def try_get_read_lock_def mod_leaf_def split: option.splits)
    qed
  qed
  then obtain ix' where l: "lock_for_split a (prev_node lf) (next_node lf) ix = Inr (False, ix')" by blast
  have "ix' = ix" by (rule lock_for_split_fails [OF ok l])
  then show ?thesis using a(1) l by (simp add: plin_split_def)
qed

section \<open>The table of leaves\<close>

lemma table_insert_sorted:
  "sorted (map fst es) \<Longrightarrow> sorted (map fst (table_insert e es)) \<and> set (table_insert e es) = insert e (set es)"
proof (induction es)
  case (Cons x es)
  then show ?case by (cases "fst x < fst e") (auto simp: table_insert_def dest: set_takeWhileD set_dropWhileD)
qed (simp add: table_insert_def)

lemma table_erase_sorted: "sorted (map fst es) \<Longrightarrow> sorted (map fst (table_erase a es))"
proof (induction es)
  case (Cons x es)
  have "set (table_erase a es) \<subseteq> set es" by (induction es) auto
  then show ?case using Cons by auto
qed simp

lemma table_erase_set: "distinct (map (fst \<circ> snd) es) \<Longrightarrow> set (table_erase a es) = {e \<in> set es. fst (snd e) \<noteq> a}"
  by (induction es) (auto simp: image_iff)

lemma table_insert_all:
  "sorted (map fst es) \<Longrightarrow> sorted (map fst (fold table_insert rnd es)) \<and> set (fold table_insert rnd es) = set rnd \<union> set es"
proof (induction rnd arbitrary: es)
  case (Cons e rnd)
  then show ?case using table_insert_sorted [OF Cons.prems, of e] by auto
qed simp

section \<open>The new nodes\<close>

lemma list_all2_mono':
  assumes "list_all2 P xs ys" "\<And>x y. P x y \<Longrightarrow> y \<in> set ys \<Longrightarrow> Q x y"
  shows "list_all2 Q xs ys"
  using assms by (simp add: list_all2_conv_all_nth)

definition next_or :: "nat \<Rightarrow> nat \<Rightarrow> nat \<Rightarrow> nat" where
  "next_or right n a = (if Suc a < n then Suc a else right)"

text \<open>The nodes of \<^verbatim>\<open>split_nodes\<close> hold consecutive runs of the data and are chained in front of the right sibling.\<close>

lemma split_nodes_ok:
  assumes kvs: "loadable kvs" and na: "0 < next_addr ix"
  shows "\<exists>cs ls ix'. make_segmentation (map fst kvs) EPSILON_LEAF_NODE = Inr cs \<and> split_nodes kvs left right ix = Some (Inr (ls, ix'))
    \<and> map fst ls = [next_addr ix..<next_addr ix + length cs]
    \<and> list_all2 (leaf_holds (leaf_heap ix') (global_version ix) (next_or right (next_addr ix + length cs))) (chunks kvs (map seg_number cs)) ls
    \<and> (\<forall>a<next_addr ix. leaf_heap ix' a = leaf_heap ix a) \<and> local_table ix' = local_table ix
    \<and> runs_ok (chunks kvs (map seg_number cs)) \<and> concat (chunks kvs (map seg_number cs)) = kvs"
proof -
  let ?m = "next_addr ix"
  have so: "sorted_wrt (<) (map fst kvs)" and len: "length kvs \<le> 2 ^ 28" and ne: "kvs \<noteq> []" using kvs by (simp_all add: loadable_def)
  from make_segmentation_ok [OF so, of EPSILON_LEAF_NODE] obtain cs where
    cs: "make_segmentation (map fst kvs) EPSILON_LEAF_NODE = Inr cs" "cuts (map fst kvs) 0 cs" by blast
  let ?n = "?m + length cs" and ?cks = "chunks kvs (map seg_number cs)"
  have sum: "sum_list (map seg_number cs) = length kvs" using cuts_sum [OF cs(2)] by simp
  then have cne: "cs \<noteq> []" using ne by auto
  have cc: "concat ?cks = kvs" by (rule concat_chunks [OF sum])
  have runs: "runs_ok ?cks" using chunks_nonempty [OF _ cuts_pos [OF cs(2)], of kvs] sum so cc by (simp add: runs_ok_def)
  from build_leaves_ok [OF loadable_placeable [OF kvs] len cs(2) na, of left] obtain ls h where
    b: "build_leaves kvs (map Segment_of cs) 0 left ix = Some (Inr (ls, ix\<lparr>leaf_heap := h, next_addr := ?n\<rparr>))"
    "map fst ls = [?m..<?n]" "\<forall>a. a < ?m \<or> ?n \<le> a \<longrightarrow> h a = leaf_heap ix a" "list_all2 (leaf_holds h (global_version ix) (\<lambda>_. 0)) ?cks ls"
    by (auto simp del: upt_Suc)
  let ?ix1 = "ix\<lparr>leaf_heap := h, next_addr := ?n\<rparr>" and ?H = "chained ?m ?n h"
  have lc: "list_all2 (leaf_holds ?H (global_version ix) (next_in ?n)) ?cks ls" by (rule leaf_holds_chained [OF b(4,2)])
  have ll: "length ls = length cs" using list_all2_lengthD [OF b(4)] by simp
  then have lne: "ls \<noteq> []" using cne by auto
  have "h a \<noteq> None" if "a \<in> {?m..<?n}" for a
  proof -
    have "a \<in> set (map fst ls)" using that by (simp add: b(2))
    then obtain x where x: "x \<in> set ls" "fst x = a" by auto
    from x(1) obtain j where j: "j < length ls" "ls ! j = x" by (auto simp: in_set_conv_nth)
    then show ?thesis using list_all2_nthD2 [OF b(4) j(1)] x(2) by (auto simp: leaf_holds_def)
  qed
  then have lk: "link_leaves (map fst ls) ?ix1 = Inr (?ix1\<lparr>leaf_heap := ?H\<rparr>)" unfolding b(2) using link_leaves_ok [of ?m ?n ?ix1] by simp
  have la: "fst (last ls) = ?n - 1" using b(2) lne cne by (simp flip: last_map)
  have "leaf_holds ?H (global_version ix) (next_in ?n) (?cks ! (length cs - 1)) (last ls)" using list_all2_nthD2 [OF lc, of "length ls - 1"] lne ll
    by (simp add: last_conv_nth cne)
  then obtain lf where lf: "?H (?n - 1) = Some lf" "next_node lf = 0" using la cne by (auto simp: leaf_holds_def next_in_def)
  let ?H' = "?H(?n - 1 \<mapsto> set_next right lf)"
  let ?ix' = "?ix1\<lparr>leaf_heap := ?H', valid_leaf := valid_leaf ix + of_nat (length ls) - 1\<rparr>"
  have "split_nodes kvs left right ix = Some (Inr (ls, ?ix'))"
    using cs(1) b(1) lne lk la lf(1) by (simp add: split_nodes_def mod_leaf_def)
  moreover have "leaf_holds ?H' (global_version ix) (next_or right ?n) ck x" if x: "leaf_holds ?H (global_version ix) (next_in ?n) ck x" "x \<in> set ls" for ck x
  proof -
    have "fst x \<in> set (map fst ls)" using x(2) by simp
    then have xn: "fst x < ?n" unfolding b(2) by simp
    show ?thesis using x(1) xn lf by (auto simp: leaf_holds_def next_or_def next_in_def set_next_def split: if_splits)
  qed
  then have "list_all2 (leaf_holds ?H' (global_version ix) (next_or right ?n)) ?cks ls"
    by (rule list_all2_mono' [OF lc])
  moreover have "?H' a = leaf_heap ix a" if "a < ?m" for a using that b(3) cne by (cases cs) (auto simp: chained_def)
  ultimately show ?thesis using cs(1) b(2) runs cc by (intro exI [of _ cs] exI [of _ ls] exI [of _ ?ix']) simp
qed

section \<open>The whole split\<close>

text \<open>What the locks, the logs and the accelerators change is neither a leaf nor the table.\<close>

definition leaves_kept :: "PlinIndex \<Rightarrow> PlinIndex \<Rightarrow> bool" where
  "leaves_kept ix ix' \<longleftrightarrow> leaf_heap ix' = leaf_heap ix \<and> local_table ix' = local_table ix"

lemma leaves_kept_slot:
  "mod_slot r f ix = Inr ix' \<Longrightarrow> leaves_kept ix ix' \<and> next_addr ix' = next_addr ix \<and> global_version ix' = global_version ix"
  by (cases "slot_at r ix") (auto simp: mod_slot_def put_slot_def leaves_kept_def split: slot_ref.splits option.splits)

lemma log_leaves [simp]: "leaf_heap (mod_log i f ix) = leaf_heap ix" "local_table (mod_log i f ix) = local_table ix"
  "next_addr (mod_log i f ix) = next_addr ix" "global_version (mod_log i f ix) = global_version ix"
  by (simp_all add: mod_log_def)

lemma leaves_kept_upsert_nodes: "upsert_nodes ss ix = Some (Inr ix') \<Longrightarrow> leaves_kept ix ix'"
proof (induction ss arbitrary: ix)
  case (Cons s ss)
  from Cons.prems obtain ret ix1 where u: "plin_upsert_node s ix = Some (Inr (ret, ix1))" "upsert_nodes ss ix1 = Some (Inr ix')"
    by (auto simp: bind_run_Inr_iff)
  then have "leaves_kept ix ix1" by (auto simp: plin_upsert_node_def leaves_kept_def bind_run_Inr_iff)
  then show ?case using Cons.IH [OF u(2)] by (simp add: leaves_kept_def)
qed (simp add: leaves_kept_def)

text \<open>The links of the siblings, and the old node is abandoned.\<close>

lemma install_nodes_leaves:
  assumes h: "leaf_heap ix leaf = Some lf" "leaf_heap ix left = Some L" "leaf_heap ix right = Some R"
    and d: "leaf \<noteq> left" "leaf \<noteq> right" "left \<noteq> right"
    and i: "install_nodes leaf left right acc lg ls ix = Some (Inr ix')"
  shows "\<exists>lf'. abandoned lf' \<and> local_table ix' = local_table ix
    \<and> leaf_heap ix' = (leaf_heap ix)(left \<mapsto> set_next (fst (hd ls)) L, right \<mapsto> set_prev (fst (last ls)) R, leaf \<mapsto> lf')"
proof -
  let ?o = "case acc of Some r \<Rightarrow> mod_slot r slot_get_read_lock ix
       | None \<Rightarrow> bind_res (mod_leaf leaf leaf_get_read_lock ix) (\<lambda>ix. Inr (mod_log lg log_set_orphan ix))"
  from i obtain ix1 where o: "?o = Inr ix1" by (auto simp: install_nodes_def bind_run_Inr_iff)
  have "\<exists>lf1. local_table ix1 = local_table ix \<and> leaf_heap ix1 = (leaf_heap ix)(leaf \<mapsto> lf1)"
  proof (cases acc)
    case None
    then show ?thesis using o h(1) by (auto simp: mod_leaf_def)
  next
    case (Some r)
    then have "leaves_kept ix ix1" using o leaves_kept_slot [of r slot_get_read_lock ix ix1] by simp
    then show ?thesis using h(1) by (intro exI [of _ lf]) (auto simp: leaves_kept_def fun_upd_idem)
  qed
  then obtain lf1 where lf1: "local_table ix1 = local_table ix" "leaf_heap ix1 = (leaf_heap ix)(leaf \<mapsto> lf1)" by blast
  let ?ls = "\<lambda>ix1. mod_log lg (\<lambda>l. log_set_valid (l\<lparr>left_node := fst (hd ls), right_node := fst (last ls)\<rparr>)) ix1"
  let ?h = "(leaf_heap ix)(left \<mapsto> set_next (fst (hd ls)) L, right \<mapsto> set_prev (fst (last ls)) R, leaf \<mapsto> set_abandoned lf1)"
  let ?ix2 = "(?ls ix1)\<lparr>leaf_heap := ?h, abandoned_nodes := push_abandoned leaf (abandoned_nodes ix1)\<rparr>"
  have e: "(leaf_heap ix)(leaf \<mapsto> lf1, left \<mapsto> set_next (fst (hd ls)) L, right \<mapsto> set_prev (fst (last ls)) R, leaf \<mapsto> set_abandoned lf1) = ?h"
    using d by (auto simp: fun_eq_iff)
  have "(case acc of Some _ \<Rightarrow> upsert_nodes (map snd ls) ?ix2
       | None \<Rightarrow> Some (Inr (?ix2\<lparr>orphan_number := orphan_number ?ix2 + of_nat (length ls) - 1\<rparr>))) = Some (Inr ix')"
    using i o h d unfolding e [symmetric]
    by (simp add: install_nodes_def mod_leaf_def lf1(2) Let_def mod_log_def split: option.splits)
  then have "leaves_kept ?ix2 ix'"
    using leaves_kept_upsert_nodes by (auto simp: leaves_kept_def split: option.splits)
  then show ?thesis using lf1(1) by (intro exI [of _ "set_abandoned lf1"]) (simp add: leaves_kept_def set_abandoned_def)
qed

lemma install_orphans:
  assumes "leaf_heap ix leaf = Some lf" "leaf_heap ix left = Some L" "leaf_heap ix right = Some R"
  shows "\<exists>ix'. install_nodes leaf left right None lg ls ix = Some (Inr ix')"
  using assms by (simp add: install_nodes_def mod_leaf_def Let_def)

lemma release_leaves:
  assumes h: "leaf_heap ix leaf = Some lf" "leaf_heap ix left = Some L" "leaf_heap ix right = Some R"
    and d: "leaf \<noteq> left" "leaf \<noteq> right" "left \<noteq> right"
    and r: "release_after_split leaf left right acc lg ix = Inr ix'"
  shows "\<exists>lf'. abandoned lf' = abandoned lf \<and> local_table ix' = local_table ix
    \<and> leaf_heap ix' = (leaf_heap ix)(left \<mapsto> leaf_release_lock L, right \<mapsto> leaf_release_lock R, leaf \<mapsto> lf')"
proof (cases acc)
  case None
  then show ?thesis using r h d
    by (intro exI [of _ "leaf_release_lock lf"])
      (auto simp: release_after_split_def mod_leaf_def release_read_lock_def leaf_release_lock_def fun_eq_iff)
next
  case (Some s)
  then obtain ix1 where ix1: "mod_slot s slot_release_lock ix = Inr ix1" using r by (auto simp: release_after_split_def bind_res_Inr_iff)
  have "leaf_heap ix1 = leaf_heap ix" "local_table ix1 = local_table ix" using leaves_kept_slot [OF ix1] by (simp_all add: leaves_kept_def)
  then show ?thesis using r h d ix1 Some
    by (intro exI [of _ lf]) (auto simp: release_after_split_def mod_leaf_def release_read_lock_def fun_eq_iff)
qed

lemma release_orphan:
  assumes "leaf_heap ix leaf = Some lf" "leaf_heap ix left = Some L" "leaf_heap ix right = Some R"
  shows "\<exists>ix'. release_after_split leaf left right None lg ix = Inr ix'"
  using assms by (simp add: release_after_split_def mod_leaf_def release_read_lock_def)

text \<open>A node is unchanged as far as its data is concerned by its locks.\<close>

lemma locked_leaf [simp]: "node_ok (leaf_get_write_lock lf) = node_ok lf" "leaf_tight (leaf_get_write_lock lf) = leaf_tight lf"
  "leaf_map (leaf_get_write_lock lf) = leaf_map lf"
  by (simp_all add: leaf_get_write_lock_def node_ok_def leaf_tight_def leaf_map_def key_block_def fun_eq_iff)

text \<open>The data of a node whose live pairs are the rows \<open>kvs\<close>.\<close>

lemma leaf_get_rows:
  assumes "node_ok lf" "leaf_tight lf" "loadable kvs" "\<forall>k. k \<noteq> FREE_FLAG \<longrightarrow> leaf_map lf k = map_of kvs k"
  shows "\<exists>lf'. leaf_get_data gv lf = Some (Inr (kvs, lf'))"
proof -
  from leaf_get_data_ok [OF assms(1,2), of gv] obtain xs lf' where
    xs: "leaf_get_data gv lf = Some (Inr (xs, lf'))" "sorted_wrt (<) (map fst xs)"
    "set xs = {(k, v). k \<noteq> FREE_FLAG \<and> leaf_map lf k = Some v}" by blast
  have "xs = kvs" by (rule sorted_rows_unique [OF xs(2,3)]) (use assms(3,4) in \<open>auto simp: loadable_def list_all_iff\<close>)
  then show ?thesis using xs(1) by blast
qed

text \<open>The new leaves of a split at the addresses from \<open>m\<close>: each holds its run and leads to the next one.\<close>

definition holds_runs :: "(double \<times> payload_t) list list \<Rightarrow> nat \<Rightarrow> nat \<Rightarrow> leaves \<Rightarrow> bool" where
  "holds_runs runs m right h \<longleftrightarrow> (\<forall>i<length runs. \<exists>nf. h (m + i) = Some nf \<and> node_ok nf \<and> leaf_tight nf
     \<and> node_locked nf = 0 \<and> \<not> abandoned nf \<and> first_key nf = fst (hd (runs ! i))
     \<and> (\<forall>k. k \<noteq> FREE_FLAG \<longrightarrow> leaf_map nf k = map_of (runs ! i) k)
     \<and> next_node nf = (if Suc i < length runs then m + Suc i else right))"

definition run_entries :: "(double \<times> payload_t) list list \<Rightarrow> nat \<Rightarrow> table_entry list" where
  "run_entries runs m = map (\<lambda>i. (fst (hd (runs ! i)), m + i, True)) [0..<length runs]"

lemma split_nodes_runs:
  assumes "loadable kvs" "0 < next_addr ix"
  shows "\<exists>ls ix' runs. split_nodes kvs left right ix = Some (Inr (ls, ix')) \<and> concat runs = kvs \<and> [] \<notin> set runs \<and> runs \<noteq> []
    \<and> fst (hd ls) = next_addr ix \<and> fst (last ls) = next_addr ix + length runs - 1
    \<and> map (\<lambda>(a, s). (min_key s, a, True)) ls = run_entries runs (next_addr ix) \<and> holds_runs runs (next_addr ix) right (leaf_heap ix')
    \<and> (\<forall>a<next_addr ix. leaf_heap ix' a = leaf_heap ix a) \<and> local_table ix' = local_table ix"
proof -
  from split_nodes_ok [OF assms, of left right] obtain cs ls ix' where
    "make_segmentation (map fst kvs) EPSILON_LEAF_NODE = Inr cs" and
    s: "split_nodes kvs left right ix = Some (Inr (ls, ix'))" "map fst ls = [next_addr ix..<next_addr ix + length cs]"
    "list_all2 (leaf_holds (leaf_heap ix') (global_version ix) (next_or right (next_addr ix + length cs))) (chunks kvs (map seg_number cs)) ls"
    "\<forall>a<next_addr ix. leaf_heap ix' a = leaf_heap ix a" "local_table ix' = local_table ix"
    "runs_ok (chunks kvs (map seg_number cs))" "concat (chunks kvs (map seg_number cs)) = kvs"
    by (elim exE conjE)
  let ?runs = "chunks kvs (map seg_number cs)"
  have len: "length ls = length cs" using list_all2_lengthD [OF s(3)] by simp
  have ne: "cs \<noteq> []" using s(7) assms(1) by (auto simp: loadable_def)
  then have lne: "ls \<noteq> []" using len by auto
  have ad: "fst (ls ! i) = next_addr ix + i" if "i < length ls" for i
  proof -
    have "map fst ls ! i = [next_addr ix..<next_addr ix + length cs] ! i" using s(2) by simp
    then show ?thesis using that len by simp
  qed
  have nf: "\<exists>nf. leaf_heap ix' (next_addr ix + i) = Some nf \<and> leaf_ready (global_version ix) (?runs ! i) (next_addr ix + i) (snd (ls ! i)) nf
      \<and> next_node nf = (if Suc i < length cs then next_addr ix + Suc i else right)" if i: "i < length ls" for i
    using list_all2_nthD2 [OF s(3) i] ad [OF i] len by (auto simp: leaf_holds_def next_or_def)
  have "map (\<lambda>(a, s). (min_key s, a, True)) ls = run_entries ?runs (next_addr ix)"
  proof (rule nth_equalityI)
    fix i assume "i < length (map (\<lambda>(a, s). (min_key s, a, True)) ls)"
    then have i: "i < length ls" by simp
    then show "map (\<lambda>(a, s). (min_key s, a, True)) ls ! i = run_entries ?runs (next_addr ix) ! i"
      using ad [OF i] nf [OF i] len by (auto simp: run_entries_def leaf_ready_def split: prod.split)
  qed (simp add: run_entries_def len)
  moreover have "holds_runs ?runs (next_addr ix) right (leaf_heap ix')"
    unfolding holds_runs_def
  proof (intro allI impI)
    fix i assume "i < length ?runs"
    then have "i < length ls" using len by simp
    from nf [OF this] obtain lf where "leaf_heap ix' (next_addr ix + i) = Some lf"
      "leaf_ready (global_version ix) (?runs ! i) (next_addr ix + i) (snd (ls ! i)) lf"
      "next_node lf = (if Suc i < length cs then next_addr ix + Suc i else right)" by blast
    then show "\<exists>nf. leaf_heap ix' (next_addr ix + i) = Some nf \<and> node_ok nf \<and> leaf_tight nf \<and> node_locked nf = 0 \<and> \<not> abandoned nf
      \<and> first_key nf = fst (hd (?runs ! i)) \<and> (\<forall>k. k \<noteq> FREE_FLAG \<longrightarrow> leaf_map nf k = map_of (?runs ! i) k)
      \<and> next_node nf = (if Suc i < length ?runs then next_addr ix + Suc i else right)"
      by (intro exI [of _ lf]) (simp add: leaf_ready_def)
  qed
  moreover have "fst (hd ls) = next_addr ix" "fst (last ls) = next_addr ix + length ?runs - 1"
    using ad [of 0] ad [of "length ls - 1"] lne ne len by (cases cs; simp add: hd_conv_nth last_conv_nth)+
  ultimately show ?thesis using s(1,4,5,6,7) assms(1)
    by (intro exI [of _ ls] exI [of _ ix'] exI [of _ ?runs]) (auto simp: runs_ok_def loadable_def)
qed

text \<open>The state of the leaves after a split of \<open>leaf\<close> between \<open>left\<close> and \<open>right\<close>.\<close>

definition split_done :: "nat \<Rightarrow> nat \<Rightarrow> nat \<Rightarrow> (double \<times> payload_t) list list \<Rightarrow> PlinIndex \<Rightarrow> PlinIndex \<Rightarrow> bool" where
  "split_done leaf left right runs ix ix' \<longleftrightarrow> holds_runs runs (next_addr ix) right (leaf_heap ix')
     \<and> leaf_heap ix' left = map_option (\<lambda>l. leaf_release_lock (set_next (next_addr ix) l)) (leaf_heap ix left)
     \<and> leaf_heap ix' right = map_option (\<lambda>r. leaf_release_lock (set_prev (next_addr ix + length runs - 1) r)) (leaf_heap ix right)
     \<and> (\<exists>old. leaf_heap ix' leaf = Some old \<and> abandoned old)
     \<and> (\<forall>a<next_addr ix. a \<notin> {leaf, left, right} \<longrightarrow> leaf_heap ix' a = leaf_heap ix a)
     \<and> local_table ix' = fold table_insert (run_entries runs (next_addr ix)) (table_erase leaf (local_table ix))"

lemma split_body_ok:
  assumes h: "leaf_heap ix leaf = Some lf" "leaf_heap ix left = Some L" "leaf_heap ix right = Some R"
    and d: "leaf \<noteq> left" "leaf \<noteq> right" "left \<noteq> right" "leaf < next_addr ix" "left < next_addr ix" "right < next_addr ix"
    and lf: "node_ok lf" "leaf_tight lf" "loadable kvs" "\<forall>k. k \<noteq> FREE_FLAG \<longrightarrow> leaf_map lf k = map_of kvs k"
    and lock: "(case acc of Some r \<Rightarrow> mod_slot r slot_get_write_lock ix | None \<Rightarrow> mod_leaf leaf leaf_get_write_lock ix) = Inr ix1"
    and log: "take_log 0 (logs ix1) = Some (lg, lgs)"
  shows "\<exists>runs. concat runs = kvs \<and> [] \<notin> set runs \<and> (\<forall>ix'. split_body leaf left right acc ix = Some (Inr ix') \<longrightarrow> split_done leaf left right runs ix ix')
    \<and> (acc = None \<longrightarrow> (\<exists>ix'. split_body leaf left right acc ix = Some (Inr ix')))"
proof -
  have "\<exists>lf1. leaf_heap ix1 = (leaf_heap ix)(leaf \<mapsto> lf1) \<and> local_table ix1 = local_table ix \<and> next_addr ix1 = next_addr ix
      \<and> node_ok lf1 \<and> leaf_tight lf1 \<and> leaf_map lf1 = leaf_map lf"
  proof (cases acc)
    case None
    then show ?thesis using lock h(1) lf by (intro exI [of _ "leaf_get_write_lock lf"]) (auto simp: mod_leaf_def)
  next
    case (Some r)
    then show ?thesis using lock leaves_kept_slot [of r slot_get_write_lock ix ix1] h(1) lf
      by (intro exI [of _ lf]) (simp add: leaves_kept_def fun_upd_idem)
  qed
  then obtain lf1 where lf1: "leaf_heap ix1 = (leaf_heap ix)(leaf \<mapsto> lf1)" "local_table ix1 = local_table ix" "next_addr ix1 = next_addr ix"
    "node_ok lf1" "leaf_tight lf1" "leaf_map lf1 = leaf_map lf" by blast
  let ?ix2 = "mod_log lg (\<lambda>l. l\<lparr>leaf_to_split := leaf, left_sibling := left, right_sibling := right\<rparr>) (ix1\<lparr>logs := lgs\<rparr>)"
  from leaf_get_rows [OF lf1(4,5) lf(3)] lf(4) lf1(6) obtain lf2 where gd: "leaf_get_data (global_version ?ix2) lf1 = Some (Inr (kvs, lf2))" by metis
  let ?ix3 = "?ix2\<lparr>leaf_heap := (leaf_heap ?ix2)(leaf \<mapsto> lf2)\<rparr>"
  have n3: "next_addr ?ix3 = next_addr ix" "local_table ?ix3 = local_table ix" "leaf_heap ?ix3 = (leaf_heap ix)(leaf \<mapsto> lf2)"
    using lf1(1-3) by simp_all
  have "0 < next_addr ?ix3" using d(4) n3(1) by simp
  from split_nodes_runs [OF lf(3) this, of left right, unfolded n3] obtain nodes ix4 runs where
    sn: "split_nodes kvs left right ?ix3 = Some (Inr (nodes, ix4))" "concat runs = kvs" "[] \<notin> set runs" "runs \<noteq> []"
    "fst (hd nodes) = next_addr ix" "fst (last nodes) = next_addr ix + length runs - 1"
    "map (\<lambda>(a, s). (min_key s, a, True)) nodes = run_entries runs (next_addr ix)" "holds_runs runs (next_addr ix) right (leaf_heap ix4)"
    "\<forall>a<next_addr ix. leaf_heap ix4 a = ((leaf_heap ix)(leaf \<mapsto> lf2)) a" "local_table ix4 = local_table ix" by blast
  have h4: "leaf_heap ix4 leaf = Some lf2" "leaf_heap ix4 left = Some L" "leaf_heap ix4 right = Some R" using sn(9) h d by simp_all
  let ?k = "\<lambda>ix. bind_run (Some (release_after_split leaf left right acc lg (pess_insert_tabel leaf (run_entries runs (next_addr ix1)) ix)))
    (\<lambda>ix. Some (Inr (ix\<lparr>split_times := split_times ix + 1\<rparr>)))"
  have body: "split_body leaf left right acc ix = bind_run (install_nodes leaf left right acc lg nodes ix4) ?k"
    unfolding split_body_def lock using log gd sn(1,7) lf1(1,3) by (simp add: Let_def)
  have pt: "leaf_heap (pess_insert_tabel leaf es j) = leaf_heap j"
    "local_table (pess_insert_tabel leaf es j) = fold table_insert es (table_erase leaf (local_table j))" for es j
    by (simp_all add: pess_insert_tabel_def)
  have post: "split_done leaf left right runs ix ix'" if fin: "split_body leaf left right acc ix = Some (Inr ix')" for ix'
  proof -
    from fin obtain ix5 ix6 where i: "install_nodes leaf left right acc lg nodes ix4 = Some (Inr ix5)"
      and r: "release_after_split leaf left right acc lg (pess_insert_tabel leaf (run_entries runs (next_addr ix1)) ix5) = Inr ix6"
      and e: "ix' = ix6\<lparr>split_times := split_times ix6 + 1\<rparr>" by (auto simp: body bind_run_Inr_iff)
    from install_nodes_leaves [OF h4 d(1-3) i] obtain lf5 where i5: "abandoned lf5" "local_table ix5 = local_table ix"
      "leaf_heap ix5 = (leaf_heap ix4)(left \<mapsto> set_next (next_addr ix) L, right \<mapsto> set_prev (next_addr ix + length runs - 1) R, leaf \<mapsto> lf5)"
      using sn(5,6,10) by auto
    have h5: "leaf_heap ix5 leaf = Some lf5" "leaf_heap ix5 left = Some (set_next (next_addr ix) L)"
      "leaf_heap ix5 right = Some (set_prev (next_addr ix + length runs - 1) R)" using i5(3) d(1-3) by simp_all
    from release_leaves [of "pess_insert_tabel leaf (run_entries runs (next_addr ix1)) ix5", unfolded pt, OF h5 d(1-3) r]
    obtain lf6 where r6: "abandoned lf6 = abandoned lf5"
      "local_table ix6 = fold table_insert (run_entries runs (next_addr ix1)) (table_erase leaf (local_table ix5))"
      "leaf_heap ix6 = (leaf_heap ix5)(left \<mapsto> leaf_release_lock (set_next (next_addr ix) L),
         right \<mapsto> leaf_release_lock (set_prev (next_addr ix + length runs - 1) R), leaf \<mapsto> lf6)" by blast
    have "leaf_heap ix6 a = leaf_heap ix4 a" if "a \<notin> {leaf, left, right}" for a using that by (simp add: r6(3) i5(3))
    note same = this
    have "holds_runs runs (next_addr ix) right (leaf_heap ix6)"
      using sn(8) same d(4-6) unfolding holds_runs_def by (metis insertE not_add_less1 singletonD)
    then show ?thesis using same h d sn(9) r6 i5(1,2) lf1(3) e by (simp add: split_done_def)
  qed
  moreover have "\<exists>ix'. split_body leaf left right acc ix = Some (Inr ix')" if "acc = None"
  proof -
    from install_orphans [OF h4, of lg nodes] obtain ix5 where i: "install_nodes leaf left right None lg nodes ix4 = Some (Inr ix5)" by blast
    from install_nodes_leaves [OF h4 d(1-3) i] obtain lf5 where
      "leaf_heap ix5 = (leaf_heap ix4)(left \<mapsto> set_next (fst (hd nodes)) L, right \<mapsto> set_prev (fst (last nodes)) R, leaf \<mapsto> lf5)" by blast
    then have h5: "leaf_heap ix5 leaf = Some lf5" "leaf_heap ix5 left = Some (set_next (fst (hd nodes)) L)"
      "leaf_heap ix5 right = Some (set_prev (fst (last nodes)) R)" using d(1-3) by simp_all
    from release_orphan [of "pess_insert_tabel leaf (run_entries runs (next_addr ix1)) ix5", unfolded pt, OF h5, of lg]
    show ?thesis unfolding body using that i by auto
  qed
  ultimately show ?thesis using sn(2,3) by (intro exI [of _ runs]) blast
qed

end
