(* ===== verification/Event_System.thy ===== *)
theory Event_System
  imports Main
begin

text \<open>
  The contract of a component that runs as a sequence of atomic steps taken by several threads:
  initial states, labelled steps, and an invariant that both establish.  It is interpreted by the
  connection handling of the Edge and by the lock between splits and rebuilding of the index.
\<close>

locale event_system =
  fixes init :: "'s \<Rightarrow> bool"
    and step :: "'s \<Rightarrow> 'e \<Rightarrow> 's \<Rightarrow> bool"
    and inv :: "'s \<Rightarrow> bool"
  assumes init_inv: "init s \<Longrightarrow> inv s"
    and step_inv: "inv s \<Longrightarrow> step s e s' \<Longrightarrow> inv s'"
begin

inductive run :: "'s \<Rightarrow> 'e list \<Rightarrow> 's \<Rightarrow> bool" where
  run_Nil: "run s [] s"
| run_Cons: "step s e s' \<Longrightarrow> run s' es s'' \<Longrightarrow> run s (e # es) s''"

inductive_simps run_Nil_iff [simp]: "run s [] s'"
inductive_simps run_Cons_iff: "run s (e # es) s'"

lemma run_inv: "run s es s' \<Longrightarrow> inv s \<Longrightarrow> inv s'"
  by (induction rule: run.induct) (auto intro: step_inv)

lemma reachable_inv: "init s \<Longrightarrow> run s es s' \<Longrightarrow> inv s'"
  by (blast intro: run_inv init_inv)

lemma run_append: "run s es s' \<Longrightarrow> run s' fs s'' \<Longrightarrow> run s (es @ fs) s''"
  by (induction rule: run.induct) (auto intro: run.intros)

text \<open>A relation that every step keeps is kept by a run.\<close>

lemma run_relation:
  assumes "run s es s'" "inv s" "\<And>s. R s s"
    and "\<And>s e s'. inv s \<Longrightarrow> step s e s' \<Longrightarrow> R s s'" "\<And>a b c. R a b \<Longrightarrow> R b c \<Longrightarrow> R a c"
  shows "R s s'"
  using assms(1,2) by (induction rule: run.induct) (blast intro: assms step_inv)+

end

end
