(* ===== verification/Smo_Lock.thy ===== *)
theory Smo_Lock
  imports Plin_Index Event_System
begin

text \<open>
  The lock between splits (readers) and the rebuilding of the inner nodes (the writer), one atomic access at
  a time: \<^verbatim>\<open>try_get_read_lock\<close>, \<^verbatim>\<open>get_write_lock\<close> and the releases of \<^verbatim>\<open>plin_metadata\<close> in
  \<^verbatim>\<open>src/core/index/plin_index.h\<close> run by \<^verbatim>\<open>n\<close> threads in any interleaving.  A thread is at the load of one of the
  two loops, at the compare-and-swap with the value it loaded, inside, or at the wait for the readers.
\<close>

datatype smo_pc = Outside | Read_load | Read_cas u32 | Reading | Write_load | Write_cas u32 | Draining | Writing

record smo_state =
  smo_word :: u32
  smo_pc :: "nat \<Rightarrow> smo_pc"

datatype smo_event = Want_read nat | Want_write nat | Access nat | Leave nat

definition goto :: "nat \<Rightarrow> smo_pc \<Rightarrow> smo_state \<Rightarrow> smo_state" where
  "goto t p s = s\<lparr>smo_pc := (smo_pc s)(t := p)\<rparr>"

text \<open>The next atomic access of a thread inside one of the lock operations.\<close>

definition smo_access :: "nat \<Rightarrow> smo_state \<Rightarrow> smo_state" where
  "smo_access t s = (case smo_pc s t of
       Read_load \<Rightarrow> goto t (if smo_word s AND lockSet \<noteq> 0 then Outside else Read_cas (smo_word s)) s
     | Read_cas v \<Rightarrow> if smo_word s = v then goto t Reading (s\<lparr>smo_word := v + 1\<rparr>) else goto t Read_load s
     | Write_load \<Rightarrow> goto t (if smo_word s AND lockSet \<noteq> 0 then Outside else Write_cas (smo_word s)) s
     | Write_cas v \<Rightarrow> if smo_word s = v then goto t Draining (s\<lparr>smo_word := v OR lockSet\<rparr>) else goto t Write_load s
     | Draining \<Rightarrow> if smo_word s AND lockMask \<noteq> 0 then s else goto t Writing s
     | _ \<Rightarrow> s)"

inductive smo_step :: "nat \<Rightarrow> smo_state \<Rightarrow> smo_event \<Rightarrow> smo_state \<Rightarrow> bool" for n where
  want_read: "t < n \<Longrightarrow> smo_pc s t = Outside \<Longrightarrow> smo_step n s (Want_read t) (goto t Read_load s)"
| want_write: "t < n \<Longrightarrow> smo_pc s t = Outside \<Longrightarrow> smo_step n s (Want_write t) (goto t Write_load s)"
| access: "t < n \<Longrightarrow> smo_step n s (Access t) (smo_access t s)"
| leave_read: "t < n \<Longrightarrow> smo_pc s t = Reading \<Longrightarrow> smo_step n s (Leave t) (goto t Outside (s\<lparr>smo_word := smo_word s - 1\<rparr>))"
| leave_write: "t < n \<Longrightarrow> smo_pc s t = Writing \<Longrightarrow> smo_step n s (Leave t) (goto t Outside (s\<lparr>smo_word := 0\<rparr>))"

inductive_cases smo_stepE: "smo_step n s e s'"

definition smo_init :: "smo_state \<Rightarrow> bool" where
  "smo_init s \<longleftrightarrow> smo_word s = 0 \<and> (\<forall>t. smo_pc s t = Outside)"

section \<open>The lock word\<close>

lemma lockSet_iff: "w AND lockSet \<noteq> 0 \<longleftrightarrow> 2 ^ 31 \<le> unat w" for w :: u32
proof -
  have b: "unat w < 2 ^ 32" using unsigned_less [of w, where 'a = nat] by simp
  have "bit (unat w) 31 \<longleftrightarrow> bit w 31" by (simp add: bit_unsigned_iff)
  then have "bit w 31 \<longleftrightarrow> odd (unat w div 2 ^ 31)" by (simp add: bit_iff_odd)
  also have "unat w div 2 ^ 31 = (if 2 ^ 31 \<le> unat w then 1 else 0)" using b by (auto intro: div_nat_eqI)
  also have "odd (if 2 ^ 31 \<le> unat w then 1 else 0 :: nat) \<longleftrightarrow> 2 ^ 31 \<le> unat w" by simp
  finally show ?thesis by (simp add: lockSet_def and_single_zero)
qed

lemma lockMask_iff: "w AND lockMask = 0 \<longleftrightarrow> unat w mod 2 ^ 31 = 0" for w :: u32
proof -
  have "lockMask = mask 31" by (simp add: lockMask_def mask_eq_exp_minus_1)
  then have "w AND lockMask = take_bit 31 w" by (simp add: take_bit_eq_mask)
  then have "unat (w AND lockMask) = unat w mod 2 ^ 31" by (simp add: unat_mod_distrib take_bit_eq_mod)
  then show ?thesis by (metis unsigned_0 unsigned_eq_0_iff)
qed

lemma lockSet_or: "unat v < 2 ^ 31 \<Longrightarrow> unat (v OR lockSet) = unat v + 2 ^ 31" for v :: u32
proof -
  assume v: "unat v < 2 ^ 31"
  then have "v AND lockSet = 0" using lockSet_iff [of v] by linarith
  then have "v OR lockSet = v + lockSet" by (simp add: disjunctive_add_eq_or)
  then show ?thesis using v by (simp add: unat_word_ariths lockSet_def)
qed

section \<open>Exclusion\<close>

definition readers :: "nat \<Rightarrow> smo_state \<Rightarrow> nat set" where
  "readers n s = {t. t < n \<and> smo_pc s t = Reading}"

definition writers :: "nat \<Rightarrow> smo_state \<Rightarrow> nat set" where
  "writers n s = {t. t < n \<and> smo_pc s t \<in> {Draining, Writing}}"

text \<open>The word counts the readers and flags the one writer; a writer that is inside has no readers.\<close>

definition smo_inv :: "nat \<Rightarrow> smo_state \<Rightarrow> bool" where
  "smo_inv n s \<longleftrightarrow> n < 2 ^ 31
     \<and> unat (smo_word s) = card (readers n s) + (if writers n s = {} then 0 else 2 ^ 31)
     \<and> (\<forall>t u. t \<in> writers n s \<longrightarrow> u \<in> writers n s \<longrightarrow> t = u)
     \<and> (\<forall>t<n. smo_pc s t = Writing \<longrightarrow> readers n s = {})
     \<and> (\<forall>t<n. \<forall>v. smo_pc s t \<in> {Read_cas v, Write_cas v} \<longrightarrow> unat v < 2 ^ 31)"

lemma readers_goto [simp]:
  "t < n \<Longrightarrow> readers n (goto t p s) = (if p = Reading then insert t (readers n s) else readers n s - {t})"
  "t < n \<Longrightarrow> writers n (goto t p s) = (if p \<in> {Draining, Writing} then insert t (writers n s) else writers n s - {t})"
  "readers n (s\<lparr>smo_word := w\<rparr>) = readers n s" "writers n (s\<lparr>smo_word := w\<rparr>) = writers n s"
  by (auto simp: readers_def writers_def goto_def)

lemma goto_fields [simp]: "smo_word (goto t p s) = smo_word s" "smo_pc (goto t p s) = (smo_pc s)(t := p)"
  by (simp_all add: goto_def)

lemma readers_card: "card (readers n s) \<le> n" "finite (readers n s)"
proof -
  have "readers n s \<subseteq> {..<n}" by (auto simp: readers_def)
  then show "card (readers n s) \<le> n" "finite (readers n s)"
    using card_mono [of "{..<n}"] finite_subset by fastforce+
qed

text \<open>A thread that is neither reading nor writing, before and after, leaves the counts alone.\<close>

lemma smo_inv_quiet:
  assumes "smo_inv n s" "t < n" "smo_pc s t \<notin> {Reading, Draining, Writing}" "p \<notin> {Reading, Draining, Writing}"
    "\<And>v. p \<in> {Read_cas v, Write_cas v} \<Longrightarrow> unat v < 2 ^ 31"
  shows "smo_inv n (goto t p s)"
proof -
  have "readers n s - {t} = readers n s" "writers n s - {t} = writers n s" using assms(3) by (auto simp: readers_def writers_def)
  then show ?thesis using assms by (auto simp: smo_inv_def)
qed

lemma smo_access_inv:
  assumes i: "smo_inv n s" and t: "t < n"
  shows "smo_inv n (smo_access t s)"
proof -
  note rc = readers_card [of n s]
  have n: "n < 2 ^ 31" and w: "unat (smo_word s) = card (readers n s) + (if writers n s = {} then 0 else 2 ^ 31)"
    using i by (simp_all add: smo_inv_def)
  have v: "unat v < 2 ^ 31" if "smo_pc s t \<in> {Read_cas v, Write_cas v}" for v using i t that by (auto simp: smo_inv_def)
  have free: "writers n s = {} \<and> unat (smo_word s) = card (readers n s)" if "unat (smo_word s) < 2 ^ 31" using w that by (auto split: if_splits)
  show ?thesis
  proof (cases "smo_pc s t")
    case Read_load
    then show ?thesis using i t by (auto simp: smo_access_def lockSet_iff intro!: smo_inv_quiet)
  next
    case (Read_cas v')
    show ?thesis
    proof (cases "smo_word s = v'")
      case True
      then have f: "writers n s = {}" "unat v' = card (readers n s)" using v [of v'] Read_cas free by auto
      have nt: "t \<notin> readers n s" using Read_cas by (simp add: readers_def)
      have "unat (v' + 1) = Suc (card (readers n s))" using f(2) rc(1) n by (simp add: unat_word_ariths)
      then show ?thesis using i t True Read_cas f nt rc(2) by (auto simp: smo_access_def smo_inv_def writers_def)
    next
      case False
      then show ?thesis using i t Read_cas by (auto simp: smo_access_def intro!: smo_inv_quiet)
    qed
  next
    case Write_load
    then show ?thesis using i t by (auto simp: smo_access_def lockSet_iff intro!: smo_inv_quiet)
  next
    case (Write_cas v')
    show ?thesis
    proof (cases "smo_word s = v'")
      case True
      then have f: "writers n s = {}" "unat v' = card (readers n s)" using v [of v'] Write_cas free by auto
      have nt: "readers n s - {t} = readers n s" using Write_cas by (auto simp: readers_def)
      have "unat (v' OR lockSet) = card (readers n s) + 2 ^ 31" using f(2) rc(1) n by (simp add: lockSet_or)
      then show ?thesis using i t True Write_cas f nt by (auto simp: smo_access_def smo_inv_def writers_def)
    next
      case False
      then show ?thesis using i t Write_cas by (auto simp: smo_access_def intro!: smo_inv_quiet)
    qed
  next
    case Draining
    have tw: "t \<in> writers n s" using Draining t by (simp add: writers_def)
    show ?thesis
    proof (cases "smo_word s AND lockMask = 0")
      case True
      then have "unat (smo_word s) mod 2 ^ 31 = 0" by (simp add: lockMask_iff)
      moreover have "unat (smo_word s) = card (readers n s) + 2 ^ 31" using w tw by auto
      ultimately have "card (readers n s) mod 2 ^ 31 = 0" by simp
      then have "readers n s = {}" using rc n by simp
      then show ?thesis using i t Draining True tw by (auto simp: smo_access_def smo_inv_def insert_absorb)
    next
      case False
      then show ?thesis using i Draining by (simp add: smo_access_def)
    qed
  qed (use i in \<open>simp_all add: smo_access_def\<close>)
qed

lemma smo_step_inv: "smo_inv n s \<Longrightarrow> smo_step n s e s' \<Longrightarrow> smo_inv n s'"
proof (erule smo_stepE)
  fix t assume a: "smo_inv n s" "t < n" "smo_pc s t = Reading" "s' = goto t Outside (s\<lparr>smo_word := smo_word s - 1\<rparr>)"
  then have tr: "t \<in> readers n s" by (simp add: readers_def)
  have nw: "writers n s - {t} = writers n s" using a(3) by (auto simp: writers_def)
  have c: "card (readers n s) = Suc (card (readers n s - {t}))" using tr readers_card(2) by (metis card.remove)
  have w: "unat (smo_word s) = card (readers n s) + (if writers n s = {} then 0 else 2 ^ 31)" using a(1) by (simp add: smo_inv_def)
  have "unat (smo_word s - 1) = unat (smo_word s) - 1" using w c by (intro unat_minus_one) auto
  then show "smo_inv n s'" using a nw c w by (auto simp: smo_inv_def)
next
  fix t assume a: "smo_inv n s" "t < n" "smo_pc s t = Writing" "s' = goto t Outside (s\<lparr>smo_word := 0\<rparr>)"
  then have "readers n s = {}" "t \<in> writers n s" by (auto simp: smo_inv_def writers_def)
  moreover from this have "writers n s - {t} = {}" using a(1) by (auto simp: smo_inv_def)
  ultimately show "smo_inv n s'" using a by (auto simp: smo_inv_def)
qed (auto intro: smo_inv_quiet smo_access_inv)

lemma smo_init_inv: "n < 2 ^ 31 \<Longrightarrow> smo_init s \<Longrightarrow> smo_inv n s"
  by (simp add: smo_init_def smo_inv_def readers_def writers_def)

interpretation smo: event_system "\<lambda>s. n < 2 ^ 31 \<and> smo_init s" "smo_step n" "smo_inv n" for n
  by unfold_locales (auto intro: smo_init_inv smo_step_inv)

lemma smo_exclusion:
  assumes "smo_inv n s" "t < n" "smo_pc s t = Writing" "u < n" "u \<noteq> t"
  shows "smo_pc s u \<notin> {Reading, Draining, Writing}"
proof -
  have "readers n s = {}" "\<And>a b. a \<in> writers n s \<Longrightarrow> b \<in> writers n s \<Longrightarrow> a = b" using assms(1-3) by (auto simp: smo_inv_def)
  then show ?thesis using assms(2-5) by (auto simp: readers_def writers_def)
qed

section \<open>Progress\<close>

text \<open>While a writer waits no reader enters, and each reader that leaves brings it closer.\<close>

lemma draining_no_new_readers:
  assumes "smo_inv n s" "t < n" "smo_pc s t = Draining" "smo_step n s e s'"
  shows "readers n s' \<subseteq> readers n s"
proof -
  have "t \<in> writers n s" using assms(2,3) by (simp add: writers_def)
  then have w: "2 ^ 31 \<le> unat (smo_word s)" using assms(1) by (auto simp: smo_inv_def)
  have v: "unat v < 2 ^ 31" if "u < n" "smo_pc s u = Read_cas v" for u v using assms(1) that by (auto simp: smo_inv_def)
  from assms(4) show ?thesis
  proof cases
    case (access u)
    show ?thesis
    proof (cases "smo_pc s u")
      case (Read_cas v')
      then have "smo_word s \<noteq> v'" using v [OF access(3)] w by auto
      then show ?thesis using access Read_cas by (auto simp: smo_access_def)
    qed (use access in \<open>auto simp: smo_access_def split: if_splits\<close>)
  qed auto
qed

lemma draining_progress:
  "card (readers n s) = k \<Longrightarrow> smo_inv n s \<Longrightarrow> t < n \<Longrightarrow> smo_pc s t = Draining \<Longrightarrow>
    \<exists>es s'. event_system.run (smo_step n) s es s' \<and> smo_pc s' t = Writing \<and> length es = Suc k"
proof (induction k arbitrary: s)
  case 0
  have r: "readers n s = {}" using 0(1) readers_card(2) by simp
  have "t \<in> writers n s" using 0 by (simp add: writers_def)
  then have "unat (smo_word s) = 2 ^ 31" using 0(2) r by (auto simp: smo_inv_def)
  then have "smo_access t s = goto t Writing s" using 0(4) by (simp add: smo_access_def lockMask_iff)
  then have "smo_step n s (Access t) (goto t Writing s)" using smo_step.access [OF 0(3), of s] by simp
  then show ?case by (intro exI [of _ "[Access t]"] exI [of _ "goto t Writing s"]) (auto simp: smo.run_Cons_iff)
next
  case (Suc k)
  then obtain u where u: "u \<in> readers n s" by (metis card.empty equals0I nat.distinct(1))
  let ?s = "goto u Outside (s\<lparr>smo_word := smo_word s - 1\<rparr>)"
  have un: "u < n" "smo_pc s u = Reading" "u \<noteq> t" using u Suc.prems(4) by (auto simp: readers_def)
  have st: "smo_step n s (Leave u) ?s" using un by (intro smo_step.leave_read)
  have "card (readers n ?s) = k" using Suc.prems(1) u un readers_card(2) by (simp add: card_Diff_singleton)
  then obtain es s' where "event_system.run (smo_step n) ?s es s'" "smo_pc s' t = Writing" "length es = Suc k"
    using Suc.IH [of ?s] smo_step_inv [OF Suc.prems(2) st] Suc.prems(3,4) un by auto
  then show ?case using smo.run_Cons [OF st] by (intro exI [of _ "Leave u # es"]) auto
qed

text \<open>A thread that runs alone sees what the operations of the index compute.\<close>

lemma smo_alone_read:
  assumes "smo_word s = smo_lock ix" "smo_pc s t = Read_load"
  shows "smo_word (smo_access t (smo_access t s)) = smo_lock (snd (try_get_read_lock ix))"
    "smo_pc (smo_access t (smo_access t s)) t = (if fst (try_get_read_lock ix) then Reading else Outside)"
  using assms by (simp_all add: smo_access_def try_get_read_lock_def)

lemma smo_alone_write:
  assumes "smo_word s = smo_lock ix" "smo_pc s t = Write_load" "smo_get_write_lock ix = Some (ok, ix')"
  shows "smo_word (smo_access t (smo_access t (smo_access t s))) = smo_lock ix'"
    "smo_pc (smo_access t (smo_access t (smo_access t s))) t = (if ok then Writing else Outside)"
proof -
  have "(smo_lock ix OR lockSet) AND lockMask = smo_lock ix AND lockMask"
    by (simp add: lockSet_def lockMask_def and.commute [of _ "0x7FFFFFFF"] bit.conj_disj_distrib)
  then show "smo_word (smo_access t (smo_access t (smo_access t s))) = smo_lock ix'"
    "smo_pc (smo_access t (smo_access t (smo_access t s))) t = (if ok then Writing else Outside)"
    using assms by (auto simp: smo_access_def smo_get_write_lock_def split: if_splits)
qed

end
