(* ===== verification/Index_Props.thy ===== *)
theory Index_Props
  imports Plin_Remove Plin_Split Smo_Lock
begin

text \<open>
  The properties of the learned index as a whole: bulk loading, lookups, upserts, removals, segmentation, splitting and
  the lock between splits and rebuilding.
\<close>

definition two_rows :: "(double \<times> payload_t) list" where
  "two_rows = [(Dbl 4, 7), (Dbl 9, 8)]"

lemma two_rows_load: "loadable two_rows" "length two_rows \<le> 2" "fst (hd two_rows) = Dbl 4" "fst (last two_rows) = Dbl 9"
  by (simp_all add: two_rows_def loadable_def finite_double_def inf_ordinal_def FREE_FLAG_def)

section \<open>Loading and lookups\<close>

text \<open>C1: A bulk-loaded index answers \<^verbatim>\<open>find\<close> exactly.  For every key, between the loaded keys or outside
  them, \<^verbatim>\<open>find\<close> returns true with the loaded payload when the key was loaded, and false with the payload
  argument untouched otherwise, through the root scan, the levels of inner nodes with their floating-point
  predictions and the leaf blocks; the index is not changed.  The rows are strictly sorted finite keys below
  the free marker with non-null payloads, and the models of the inner nodes are steady: predictions
  do not leave the range of \<^verbatim>\<open>int64_t\<close> and do not decrease, or the model is degenerate.\<close>

theorem plin_loaded_find:
  assumes "loadable kvs" "bulk_load kvs PlinIndex_new = Some (Inr ix)" "steady_index ix"
  shows "plin_find k p ix = Some (Inr (case map_of kvs k of Some v \<Rightarrow> (True, v, ix) | None \<Rightarrow> (False, p, ix)))"
  using plin_find_get [OF loaded_store(1) [OF assms]] loaded_store(2) [OF assms, of k] by simp

theorem plin_loaded_find_witness:
  "\<exists>ix. bulk_load two_rows PlinIndex_new = Some (Inr ix) \<and> plin_find (Dbl 9) 0 ix = Some (Inr (True, 8, ix))
    \<and> plin_find (Dbl 5) 3 ix = Some (Inr (False, 3, ix))"
proof -
  obtain ix where ix: "bulk_load two_rows PlinIndex_new = Some (Inr ix)" "steady_index ix" using small_load [OF two_rows_load(1,2)] by blast
  note f = plin_loaded_find [OF two_rows_load(1) ix]
  show ?thesis using f [of "Dbl 9" 0] f [of "Dbl 5" 3] ix(1) by (simp add: two_rows_def)
qed

text \<open>C9: Bulk loading returns: for every strictly sorted list of finite keys the loops over segments, leaves and
  levels end, whether or not an inner node finds room for its children.  When the keys make one leaf segment it
  also succeeds, and the index answers every lookup exactly, with no condition on its models.\<close>

theorem bulk_load_returns:
  assumes "loadable kvs"
  shows "\<exists>r. bulk_load kvs PlinIndex_new = Some r \<and> (\<forall>c. make_segmentation (map fst kvs) EPSILON_LEAF_NODE = Inr [c] \<longrightarrow>
    (\<exists>ix. r = Inr ix \<and> (\<forall>k p. plin_find k p ix = Some (Inr (case map_of kvs k of Some v \<Rightarrow> (True, v, ix) | None \<Rightarrow> (False, p, ix))))))"
proof -
  obtain r where r: "bulk_load kvs PlinIndex_new = Some r" using bulk_load_ok [OF assms] by blast
  have "\<exists>ix. r = Inr ix \<and> (\<forall>k p. plin_find k p ix = Some (Inr (case map_of kvs k of Some v \<Rightarrow> (True, v, ix) | None \<Rightarrow> (False, p, ix))))"
    if c: "make_segmentation (map fst kvs) EPSILON_LEAF_NODE = Inr [c]" for c
  proof -
    obtain ix where ix: "bulk_load kvs PlinIndex_new = Some (Inr ix)" "steady_index ix" using single_load [OF assms c] by blast
    have "plin_find k p ix = Some (Inr (case map_of kvs k of Some v \<Rightarrow> (True, v, ix) | None \<Rightarrow> (False, p, ix)))" for k p
      using plin_find_get [OF loaded_store(1) [OF assms ix]] loaded_store(2) [OF assms ix, of k] by simp
    then show ?thesis using r ix(1) by (intro exI [of _ ix]) simp
  qed
  then show ?thesis using r by blast
qed

theorem bulk_load_returns_witness:
  "\<exists>ix. bulk_load [(Dbl 4, 7)] PlinIndex_new = Some (Inr ix) \<and> plin_find (Dbl 4) 0 ix = Some (Inr (True, 7, ix))"
proof -
  have l: "loadable [(Dbl 4, 7)]" by (simp add: loadable_def finite_double_def inf_ordinal_def FREE_FLAG_def)
  obtain c where c: "make_segmentation [Dbl 4] EPSILON_LEAF_NODE = Inr [c]" using single_segmentation by blast
  have c': "make_segmentation (map fst [(Dbl 4, 7 :: payload_t)]) EPSILON_LEAF_NODE = Inr [c]" using c by simp
  from bulk_load_returns [OF l] obtain ix where ix: "bulk_load [(Dbl 4, 7)] PlinIndex_new = Some (Inr ix)"
    "\<forall>k p. plin_find k p ix = Some (Inr (case map_of [(Dbl 4, 7)] k of Some v \<Rightarrow> (True, v, ix) | None \<Rightarrow> (False, p, ix)))"
    using c' by (elim exE conjE) (drule spec [of _ c], elim impE exE conjE, assumption, simp)
  then have "plin_find (Dbl 4) 0 ix = Some (Inr (True, 7, ix))" by simp
  then show ?thesis using ix(1) by blast
qed

text \<open>C19: The lookup from a position that an End predicted is sound: whatever position is given, negative or
  past the table, \<^verbatim>\<open>find_through_net\<close> on a loaded index returns, changes nothing, and when it returns 1 the
  payload is the loaded one.\<close>

theorem find_through_net_sound:
  assumes "loadable kvs" "bulk_load kvs PlinIndex_new = Some (Inr ix)" "steady_index ix"
  shows "\<exists>ret v. find_through_net k p slot ix = Some (Inr (ret, v, ix)) \<and> (ret = 1 \<longrightarrow> map_of kvs k = Some v)"
proof -
  from loaded_inv [OF assms] obtain ss where "plin_inv ix ss (map_of kvs)" "table_ok ix" by blast
  then show ?thesis using find_through_net_ok [of ix ss "map_of kvs" k p slot] by (simp add: table_ok_def)
qed

theorem find_through_net_sound_witness:
  "\<exists>ix ret v. bulk_load two_rows PlinIndex_new = Some (Inr ix) \<and> find_through_net (Dbl 5) 0 (- 3) ix = Some (Inr (ret, v, ix)) \<and> ret \<noteq> 1"
proof -
  obtain ix where ix: "bulk_load two_rows PlinIndex_new = Some (Inr ix)" "steady_index ix" using small_load [OF two_rows_load(1,2)] by blast
  show ?thesis using find_through_net_sound [OF two_rows_load(1) ix, of "Dbl 5" 0 "- 3"] ix(1) by (auto simp: two_rows_def)
qed

section \<open>Upserts\<close>

text \<open>C2: After any sequence of upserts the index answers like the map that the upserts update.  On a loaded
  index every upsert of a non-null payload under a key other than the smallest and the largest loaded key
  returns; keys inside the loaded range go to leaf blocks and their overflow trees, keys outside go to the two
  buffers; afterwards \<^verbatim>\<open>find\<close> returns, for every key, the last payload stored under it, or the loaded
  one.  The splits that upserts start have not run.\<close>

theorem plin_upserts_refine_map:
  assumes "loadable kvs" "bulk_load kvs PlinIndex_new = Some (Inr ix)" "steady_index ix"
    and "\<forall>(k, v)\<in>set ups. k \<noteq> fst (hd kvs) \<and> k \<noteq> fst (last kvs) \<and> v \<noteq> 0"
  shows "\<exists>ix'. plin_upserts ups ix = Some (Inr ix') \<and> (\<forall>k p. plin_find k p ix' =
    Some (Inr (case map_of (rev ups @ kvs) k of Some v \<Rightarrow> (True, v, ix') | None \<Rightarrow> (False, p, ix'))))"
proof -
  from loaded_upserts [OF assms] obtain ix' where u: "plin_upserts ups ix = Some (Inr ix')" "serves_between (fst (hd kvs)) (fst (last kvs)) ix'"
    "\<forall>k. plin_get k ix' = (case map_of (rev ups) k of Some v \<Rightarrow> Some v | None \<Rightarrow> map_of kvs k)" by blast
  have "plin_get k ix' = map_of (rev ups @ kvs) k" for k using u(3) by (simp add: map_add_def split: option.split)
  then show ?thesis using u(1) plin_find_get [OF u(2)] by simp
qed

theorem plin_upserts_refine_map_witness:
  "\<exists>ix ix'. bulk_load two_rows PlinIndex_new = Some (Inr ix) \<and> plin_upserts [(Dbl 5, 1), (Dbl 20, 2), (Dbl 5, 3)] ix = Some (Inr ix')
    \<and> plin_find (Dbl 5) 0 ix' = Some (Inr (True, 3, ix')) \<and> plin_find (Dbl 20) 0 ix' = Some (Inr (True, 2, ix'))
    \<and> plin_find (Dbl 9) 0 ix' = Some (Inr (True, 8, ix'))"
proof -
  obtain ix where ix: "bulk_load two_rows PlinIndex_new = Some (Inr ix)" "steady_index ix" using small_load [OF two_rows_load(1,2)] by blast
  have "\<forall>(k, v)\<in>set [(Dbl 5, 1), (Dbl 20, 2), (Dbl 5, 3)]. k \<noteq> fst (hd two_rows) \<and> k \<noteq> fst (last two_rows) \<and> v \<noteq> (0 :: payload_t)"
    by (simp add: two_rows_load)
  from plin_upserts_refine_map [OF two_rows_load(1) ix this] obtain ix' where
    u: "plin_upserts [(Dbl 5, 1), (Dbl 20, 2), (Dbl 5, 3)] ix = Some (Inr ix')"
    "\<And>k p. plin_find k p ix' = Some (Inr (case map_of (rev [(Dbl 5, 1), (Dbl 20, 2), (Dbl 5, 3)] @ two_rows) k of Some v \<Rightarrow> (True, v, ix') | None \<Rightarrow> (False, p, ix')))"
    by blast
  show ?thesis using ix(1) u(1) u(2) [of "Dbl 5" 0] u(2) [of "Dbl 20" 0] u(2) [of "Dbl 9" 0] by (auto simp: two_rows_def)
qed

text \<open>C14: An upsert of the smallest or the largest loaded key is lost.  The range test of \<^verbatim>\<open>upsert\<close> is strict where
  the one of \<^verbatim>\<open>find\<close> is not, so the pair goes to the right buffer; the upsert returns normally, and every lookup,
  of that key too, still answers from the loaded rows.\<close>

theorem plin_boundary_upsert_lost:
  assumes "loadable kvs" "bulk_load kvs PlinIndex_new = Some (Inr ix)" "steady_index ix"
    and "k = fst (hd kvs) \<or> k = fst (last kvs)" "v \<noteq> 0"
  shows "\<exists>ix'. plin_upsert k v ix = Some (Inr ix') \<and> (\<forall>l p. plin_find l p ix' =
    Some (Inr (case map_of kvs l of Some w \<Rightarrow> (True, w, ix') | None \<Rightarrow> (False, p, ix'))))"
proof -
  from loaded_inv [OF assms(1-3)] obtain ss where i: "plin_inv ix ss (map_of kvs)" "plin_min_key ix = fst (hd kvs)" "plin_max_key ix = fst (last kvs)" by blast
  from plin_upsert_boundary [OF i(1) _ assms(5), of k] i(2,3) assms(4) obtain ix' where
    "plin_upsert k v ix = Some (Inr ix')" "plin_inv ix' ss (map_of kvs)" by auto
  then show ?thesis using plin_find_any by blast
qed

theorem plin_boundary_upsert_lost_witness:
  "\<exists>ix ix'. bulk_load two_rows PlinIndex_new = Some (Inr ix) \<and> plin_upsert (Dbl 9) 5 ix = Some (Inr ix')
    \<and> plin_find (Dbl 9) 0 ix' = Some (Inr (True, 8, ix'))"
proof -
  obtain ix where ix: "bulk_load two_rows PlinIndex_new = Some (Inr ix)" "steady_index ix" using small_load [OF two_rows_load(1,2)] by blast
  have "Dbl 9 = fst (hd two_rows) \<or> Dbl 9 = fst (last two_rows)" "(5 :: payload_t) \<noteq> 0" by (simp_all add: two_rows_load)
  from plin_boundary_upsert_lost [OF two_rows_load(1) ix this] obtain ix' where u: "plin_upsert (Dbl 9) 5 ix = Some (Inr ix')"
    "\<And>l p. plin_find l p ix' = Some (Inr (case map_of two_rows l of Some w \<Rightarrow> (True, w, ix') | None \<Rightarrow> (False, p, ix')))" by blast
  show ?thesis using ix(1) u(1) u(2) [of "Dbl 9" 0] by (auto simp: two_rows_def)
qed

section \<open>Removal\<close>

text \<open>C3: Mixed sequences of upserts and removals refine the map.  On a loaded index whose blocks all have at least
  as many free slots as there are operations, and no overflow tree, every sequence of upserts of non-null
  payloads and of removals of keys inside the loaded range returns; afterwards \<^verbatim>\<open>find\<close> answers every key with the
  last payload stored under it, finds no key that was removed last, and answers the others with the loaded rows.
  The smallest and the largest loaded key are not operated on.\<close>

theorem plin_history_refines_map:
  assumes "loadable kvs" "bulk_load kvs PlinIndex_new = Some (Inr ix)" "steady_index ix" "spare_leaves (length ops) (leaf_heap ix)"
    and "\<forall>op\<in>set ops. allowed (fst (hd kvs)) (fst (last kvs)) op"
  shows "\<exists>ix'. plin_history ops ix = Some (Inr ix') \<and> (\<forall>k p. plin_find k p ix' =
    Some (Inr (case history_map ops (map_of kvs) k of Some v \<Rightarrow> (True, v, ix') | None \<Rightarrow> (False, p, ix'))))"
proof -
  from loaded_inv [OF assms(1-3)] obtain ss where i: "plin_inv ix ss (map_of kvs)" "plin_min_key ix = fst (hd kvs)" "plin_max_key ix = fst (last kvs)" by blast
  from plin_history_ok [OF i(1) _ assms(4)] assms(5) i(2,3) obtain ix' where
    "plin_history ops ix = Some (Inr ix')" "plin_inv ix' ss (history_map ops (map_of kvs))" by auto
  then show ?thesis using plin_find_any by blast
qed

definition some_history :: "(double \<times> payload_t option) list" where
  "some_history = [(Dbl 5, Some 1), (Dbl 6, Some 2), (Dbl 5, None), (Dbl 7, None), (Dbl 20, Some 3)]"

theorem plin_history_refines_map_witness:
  "\<exists>ix ix'. bulk_load two_rows PlinIndex_new = Some (Inr ix) \<and> plin_history some_history ix = Some (Inr ix')
    \<and> plin_find (Dbl 5) 0 ix' = Some (Inr (False, 0, ix')) \<and> plin_find (Dbl 6) 0 ix' = Some (Inr (True, 2, ix'))
    \<and> plin_find (Dbl 20) 0 ix' = Some (Inr (True, 3, ix')) \<and> plin_find (Dbl 9) 0 ix' = Some (Inr (True, 8, ix'))"
proof -
  obtain ix where ix: "bulk_load two_rows PlinIndex_new = Some (Inr ix)" "steady_index ix" "spare_leaves 13 (leaf_heap ix)"
    using small_load_spare [OF two_rows_load(1,2)] by blast
  have "spare_leaves (length some_history) (leaf_heap ix)" using spare_leaves_mono [OF _ ix(3)] by (simp add: some_history_def)
  moreover have "\<forall>op\<in>set some_history. allowed (fst (hd two_rows)) (fst (last two_rows)) op"
    by (simp add: two_rows_load allowed_def some_history_def)
  ultimately obtain ix' where u: "plin_history some_history ix = Some (Inr ix')" "\<And>k p. plin_find k p ix' =
    Some (Inr (case history_map some_history (map_of two_rows) k of Some v \<Rightarrow> (True, v, ix') | None \<Rightarrow> (False, p, ix')))"
    using plin_history_refines_map [OF two_rows_load(1) ix(1,2)] by blast
  have "history_map some_history (map_of two_rows) = (map_of two_rows)(Dbl 6 \<mapsto> 2, Dbl 5 := None, Dbl 7 := None, Dbl 20 \<mapsto> 3)"
    by (auto simp: history_map_def some_history_def fun_eq_iff)
  then show ?thesis using ix(1) u(1) u(2) [of "Dbl 5" 0] u(2) [of "Dbl 6" 0] u(2) [of "Dbl 20" 0] u(2) [of "Dbl 9" 0] by (auto simp: two_rows_def)
qed

section \<open>Segmentation\<close>

lemma cuts_first_keys: "cuts ks s cs \<Longrightarrow> i < length cs \<Longrightarrow> seg_first (cs ! i) = ks ! (s + sum_list (map seg_number (take i cs)))"
proof (induction cs arbitrary: s i)
  case (Cons c cs)
  then show ?case by (cases i) (auto simp: add.assoc)
qed simp

lemma cuts_long: "cuts ks s cs \<Longrightarrow> Suc i < length cs \<Longrightarrow> 2 \<le> seg_number (cs ! i)"
proof (induction cs arbitrary: s i)
  case (Cons c cs)
  then show ?case by (cases i) auto
qed simp

text \<open>C15: The segmentation of strictly increasing keys returns without an exception and partitions them: the numbers of
  the segments add up to the number of keys, each segment starts with the key behind the previous ones, no
  segment is empty, and each but the last holds at least two keys, so there are at most half as many
  segments as keys, rounded up.  The levels of the index therefore shrink.\<close>

theorem segmentation_partitions:
  assumes "sorted_wrt (<) ks"
  shows "\<exists>cs. make_segmentation ks eps = Inr cs \<and> sum_list (map seg_number cs) = length ks
    \<and> (\<forall>i<length cs. 0 < seg_number (cs ! i) \<and> seg_first (cs ! i) = ks ! sum_list (map seg_number (take i cs))
        \<and> (Suc i < length cs \<longrightarrow> 2 \<le> seg_number (cs ! i)))
    \<and> 2 * length cs \<le> length ks + 1"
proof -
  from make_segmentation_ok [OF assms] obtain cs where cs: "make_segmentation ks eps = Inr cs" "cuts ks 0 cs" by blast
  have "0 < seg_number (cs ! i)" if "i < length cs" for i using cuts_pos [OF cs(2)] that by simp
  then show ?thesis using cs cuts_sum [OF cs(2)] cuts_length [OF cs(2)] cuts_first_keys [OF cs(2)] cuts_long [OF cs(2)] by auto
qed

theorem segmentation_partitions_witness:
  "\<exists>cs. make_segmentation [Dbl 4, Dbl 9] 8 = Inr cs \<and> length cs = 1 \<and> sum_list (map seg_number cs) = 2"
proof -
  have "sorted_wrt (<) [Dbl 4, Dbl 9]" by simp
  from segmentation_partitions [OF this, of 8] obtain cs where cs: "make_segmentation [Dbl 4, Dbl 9] 8 = Inr cs"
    "sum_list (map seg_number cs) = 2" "2 * length cs \<le> 3" by auto
  moreover from this have "length cs < 2" "cs \<noteq> []" by auto
  ultimately have "length cs = 1" by (cases cs) auto
  then show ?thesis using cs by blast
qed

fun add_points :: "(double \<times> nat) list \<Rightarrow> OptimalPiecewiseLinearModel \<Rightarrow> bt_err + OptimalPiecewiseLinearModel" where
  "add_points [] opt = Inr opt"
| "add_points ((x, y) # ps) opt = bind_res (add_point x y opt) (\<lambda>(_, opt). add_points ps opt)"

lemma add_points_hulls: "hulls_ok opt \<Longrightarrow> add_points ps opt = Inr opt' \<Longrightarrow> hulls_ok opt'"
proof (induction ps opt rule: add_points.induct)
  case (2 x y ps opt)
  obtain b opt1 where a: "add_point x y opt = Inr (b, opt1)" "add_points ps opt1 = Inr opt'"
    using 2(3) by (cases "add_point x y opt") auto
  then show ?case using 2(1) add_point_hulls_ok [OF 2(2) a(1)] by blast
qed simp

text \<open>C16: The hull search stays inside the hulls: after any sequence of points, accepted or refused, an open
  segment has its two start indices inside the lower and the upper hull, so the accesses of the next
  \<^verbatim>\<open>add_point\<close> are in range.\<close>

theorem hull_indices_in_range:
  assumes "add_points ps (model_init eps) = Inr opt" "0 < points_in_hull opt"
  shows "lower_start opt < length (lower opt) \<and> upper_start opt < length (upper opt)"
  using add_points_hulls [OF _ assms(1)] assms(2) by (simp add: hulls_ok_def starts_in_hull_def model_init_def)

theorem hull_indices_in_range_witness:
  "\<exists>opt. add_points [(Dbl 4, 0), (Dbl 9, 1)] (model_init 8) = Inr opt \<and> points_in_hull opt = 2 \<and> lower_start opt < length (lower opt)"
proof -
  let ?m = "model_init 8"
  have "\<exists>opt. add_points [(Dbl 4, 0), (Dbl 9, 1)] ?m = Inr opt \<and> points_in_hull opt = 2"
    by (simp add: add_point_def model_init_def Let_def)
  then obtain opt where o: "add_points [(Dbl 4, 0), (Dbl 9, 1)] ?m = Inr opt" "points_in_hull opt = 2" by blast
  show ?thesis using hull_indices_in_range [OF o(1)] o by auto
qed

section \<open>Splits\<close>

text \<open>C20: The first and the last leaf are never split.  A split needs both neighbours, so for a leaf without one of
  them \<^verbatim>\<open>split\<close> gives its locks back and leaves the index exactly as it was, however full the leaf is.\<close>

theorem edge_leaf_never_splits:
  assumes "only_split_locks ix" "leaf_heap ix a = Some lf" "prev_node lf = 0 \<or> next_node lf = 0"
    "prev_node lf = 0 \<or> leaf_heap ix (prev_node lf) \<noteq> None"
  shows "plin_split a acc ix = Some (Inr ix)"
  by (rule edge_leaf_split [OF assms])

definition one_leaf :: LeafNode where
  "one_leaf = leaf_blank 3 [(Dbl 4, 1)] 1 0 fp_zero fp_zero 0 0 0"

theorem edge_leaf_never_splits_witness:
  "plin_split 1 None (PlinIndex_new\<lparr>leaf_heap := [1 \<mapsto> one_leaf]\<rparr>) = Some (Inr (PlinIndex_new\<lparr>leaf_heap := [1 \<mapsto> one_leaf]\<rparr>))"
proof -
  have f: "node_locked one_leaf = 0" "prev_node one_leaf = 0" by (simp_all add: one_leaf_def leaf_blank_def Let_def split: prod.split)
  have "only_split_locks (PlinIndex_new\<lparr>leaf_heap := [1 \<mapsto> one_leaf]\<rparr>)" using f(1) by (auto simp: only_split_locks_def split: if_splits)
  then show ?thesis using edge_leaf_never_splits [of "PlinIndex_new\<lparr>leaf_heap := [1 \<mapsto> one_leaf]\<rparr>" 1 one_leaf None] f(2) by simp
qed

text \<open>C13: A split keeps the data of the old leaf.  Between two siblings, a leaf whose live pairs are the sorted rows
  \<open>kvs\<close> (finite keys, non-null payloads, no key removed from a block with an overflow tree) is replaced by new
  leaves: consecutive non-empty runs, concatenated to exactly these rows, are held by the new leaves, which are
  chained in order from the left to the right sibling.  The siblings change in their links and locks only, the
  old leaf is abandoned, no other leaf is touched, and the table has the entries of the new leaves in place of
  the old one.  This holds whenever the split returns, with or without an accelerator; without one (the leaf
  is an orphan) and with a free log it does return.\<close>

theorem split_keeps_data:
  assumes "leaf_heap ix leaf = Some lf" "leaf_heap ix left = Some L" "leaf_heap ix right = Some R"
    "leaf \<noteq> left" "leaf \<noteq> right" "left \<noteq> right" "leaf < next_addr ix" "left < next_addr ix" "right < next_addr ix"
    "node_ok lf" "leaf_tight lf" "loadable kvs" "\<forall>k. k \<noteq> FREE_FLAG \<longrightarrow> leaf_map lf k = map_of kvs k"
  shows "(\<forall>acc ix'. split_body leaf left right acc ix = Some (Inr ix') \<longrightarrow>
      (\<exists>runs. concat runs = kvs \<and> [] \<notin> set runs \<and> split_done leaf left right runs ix ix'))
    \<and> (take_log 0 (logs ix) \<noteq> None \<longrightarrow> (\<exists>ix'. split_body leaf left right None ix = Some (Inr ix')))"
proof (intro conjI allI impI)
  fix acc ix' assume fin: "split_body leaf left right acc ix = Some (Inr ix')"
  then obtain ix1 where lock: "(case acc of Some r \<Rightarrow> mod_slot r slot_get_write_lock ix | None \<Rightarrow> mod_leaf leaf leaf_get_write_lock ix) = Inr ix1"
    by (auto simp: split_body_def bind_run_Inr_iff)
  obtain lg lgs where "take_log 0 (logs ix1) = Some (lg, lgs)"
    using fin unfolding split_body_def lock by (cases "take_log 0 (logs ix1)") auto
  from split_body_ok [OF assms lock this] fin
  show "\<exists>runs. concat runs = kvs \<and> [] \<notin> set runs \<and> split_done leaf left right runs ix ix'" by blast
next
  assume "take_log 0 (logs ix) \<noteq> None"
  then obtain lg lgs where lg: "take_log 0 (logs ix) = Some (lg, lgs)" by auto
  have "mod_leaf leaf leaf_get_write_lock ix = Inr (ix\<lparr>leaf_heap := (leaf_heap ix)(leaf \<mapsto> leaf_get_write_lock lf)\<rparr>)"
    using assms(1) by (simp add: mod_leaf_def)
  from split_body_ok [OF assms, of None, simplified, OF this, simplified, OF lg]
  show "\<exists>ix'. split_body leaf left right None ix = Some (Inr ix')" by blast
qed

text \<open>Three leaves with the same two rows, next to each other in memory.\<close>

definition two_row_leaf :: LeafNode where
  "two_row_leaf = (case leaf_new 1 zero_slot 3 two_rows 2 0 fp_zero fp_half 0 0 0 of Some (Inr (lf, _)) \<Rightarrow> lf
     | _ \<Rightarrow> leaf_blank 3 two_rows 2 0 fp_zero fp_half 0 0 0)"

lemma two_row_leaf_ok: "node_ok two_row_leaf" "leaf_tight two_row_leaf" "\<forall>k. k \<noteq> FREE_FLAG \<longrightarrow> leaf_map two_row_leaf k = map_of two_rows k"
proof -
  have "placeable (take 2 (drop 0 two_rows))" using loadable_placeable [OF two_rows_load(1)] by (simp add: two_rows_def)
  from leaf_new_ok [of 3 2 0 two_rows, OF _ _ _ _ this, of 1 zero_slot fp_zero fp_half 0 0 0]
  have "node_ok two_row_leaf \<and> leaf_tight two_row_leaf \<and> (\<forall>k. k \<noteq> FREE_FLAG \<longrightarrow> leaf_map two_row_leaf k = map_of two_rows k)"
    by (auto simp: two_row_leaf_def two_rows_def)
  then show "node_ok two_row_leaf" "leaf_tight two_row_leaf" "\<forall>k. k \<noteq> FREE_FLAG \<longrightarrow> leaf_map two_row_leaf k = map_of two_rows k" by blast+
qed

definition three_leaves :: PlinIndex where
  "three_leaves = PlinIndex_new\<lparr>leaf_heap := [1 \<mapsto> two_row_leaf, 2 \<mapsto> two_row_leaf, 3 \<mapsto> two_row_leaf], next_addr := 4\<rparr>"

theorem split_keeps_data_witness:
  "\<exists>ix' runs. split_body 2 1 3 None three_leaves = Some (Inr ix') \<and> concat runs = two_rows \<and> [] \<notin> set runs
    \<and> split_done 2 1 3 runs three_leaves ix'"
proof -
  have l: "take_log 0 (logs three_leaves) \<noteq> None"
    by (simp add: three_leaves_def PlinIndex_new_def LOG_NUMBER_def numeral_eq_Suc zero_log_def log_try_get_lock_def)
  have h: "leaf_heap three_leaves 2 = Some two_row_leaf" "leaf_heap three_leaves 1 = Some two_row_leaf" "leaf_heap three_leaves 3 = Some two_row_leaf"
    "next_addr three_leaves = 4" by (simp_all add: three_leaves_def)
  note s = split_keeps_data [OF h(1-3) _ _ _ _ _ _ two_row_leaf_ok(1,2) two_rows_load(1) two_row_leaf_ok(3), unfolded h(4)]
  from s l obtain ix' where "split_body 2 1 3 None three_leaves = Some (Inr ix')" by auto
  then show ?thesis using s by (auto simp: h(4))
qed

text \<open>C21: The table that positions refer to stays sorted over splits: replacing the entry of a split leaf by the
  entries of its successors removes exactly that leaf, adds exactly the new ones and keeps the key order.\<close>

theorem leaf_table_stays_sorted:
  assumes "sorted (map fst (local_table ix))" "distinct (map (fst \<circ> snd) (local_table ix))"
  shows "sorted (map fst (local_table (pess_insert_tabel a rnd ix)))
    \<and> set (local_table (pess_insert_tabel a rnd ix)) = set rnd \<union> {e \<in> set (local_table ix). fst (snd e) \<noteq> a}"
  using table_insert_all [OF table_erase_sorted [OF assms(1)]] table_erase_set [OF assms(2)] by (simp add: pess_insert_tabel_def)

theorem leaf_table_stays_sorted_witness:
  "sorted (map fst (local_table (pess_insert_tabel 2 [(Dbl 7, 4, True), (Dbl 8, 5, True)]
     (PlinIndex_new\<lparr>local_table := [(Dbl 1, 1, True), (Dbl 7, 2, True), (Dbl 9, 3, True)]\<rparr>))))"
  using leaf_table_stays_sorted [of "PlinIndex_new\<lparr>local_table := [(Dbl 1, 1, True), (Dbl 7, 2, True), (Dbl 9, 3, True)]\<rparr>" 2
      "[(Dbl 7, 4, True), (Dbl 8, 5, True)]"] by simp

section \<open>The lock between splits and rebuilding\<close>

text \<open>C8: No split runs while the inner nodes are rebuilt.  In every interleaving of the atomic accesses of fewer
  than 2^31 threads, while one thread holds the write lock no other thread holds the read lock, holds the
  write lock, or waits to hold it.\<close>

theorem smo_lock_excludes:
  assumes "n < 2 ^ 31" "smo_init s" "event_system.run (smo_step n) s es s'" "t < n" "smo_pc s' t = Writing" "u < n" "u \<noteq> t"
  shows "smo_pc s' u \<noteq> Reading \<and> smo_pc s' u \<noteq> Draining \<and> smo_pc s' u \<noteq> Writing"
  using smo_exclusion [OF _ assms(4-7)] smo.reachable_inv [OF _ assms(3)] assms(1,2) by auto

definition smo_start :: smo_state where
  "smo_start = \<lparr>smo_word = 0, smo_pc = (\<lambda>_. Outside)\<rparr>"

text \<open>One thread takes the write lock, another the read lock.\<close>

lemma smo_writer_run:
  "\<exists>s. event_system.run (smo_step 2) smo_start [Want_write 0, Access 0, Access 0, Access 0] s \<and> smo_pc s 0 = Writing"
proof -
  let ?s1 = "goto 0 Write_load smo_start"
  have "smo_step 2 smo_start (Want_write 0) ?s1" by (rule smo_step.want_write) (simp_all add: smo_start_def)
  moreover have "smo_pc (smo_access 0 (smo_access 0 (smo_access 0 ?s1))) 0 = Writing"
    by (simp add: smo_access_def smo_start_def lockSet_def lockMask_def)
  ultimately show ?thesis using smo_step.access [of 0 2] smo.run_Cons smo.run_Nil by (metis zero_less_numeral)
qed

theorem smo_lock_excludes_witness:
  "\<exists>es s. event_system.run (smo_step 2) smo_start es s \<and> smo_pc s 0 = Writing \<and> smo_pc s 1 \<noteq> Reading"
proof -
  obtain es s where s: "event_system.run (smo_step 2) smo_start es s" "smo_pc s 0 = Writing" using smo_writer_run by blast
  have "smo_init smo_start" by (simp add: smo_init_def smo_start_def)
  then show ?thesis using smo_lock_excludes [of 2 smo_start es s 0 1] s by auto
qed

text \<open>C12: A rebuild that waits for the splits gets its turn.  In every reachable state with a thread at the wait
  of \<^verbatim>\<open>get_write_lock\<close>, no step of any thread adds a reader, and as soon as the readers that are inside
  have left, one access of the waiting thread takes it in: a schedule of one step for each reader and one more
  leads to a state in which it holds the write lock.\<close>

theorem smo_writer_enters:
  assumes "n < 2 ^ 31" "smo_init s" "event_system.run (smo_step n) s es s1" "t < n" "smo_pc s1 t = Draining"
  shows "(\<forall>e s2. smo_step n s1 e s2 \<longrightarrow> readers n s2 \<subseteq> readers n s1)
    \<and> (\<exists>fs s2. event_system.run (smo_step n) s1 fs s2 \<and> smo_pc s2 t = Writing \<and> length fs = card (readers n s1) + 1)"
proof -
  have i: "smo_inv n s1" using smo.reachable_inv [OF _ assms(3)] assms(1,2) by auto
  show ?thesis using draining_no_new_readers [OF i assms(4,5)] draining_progress [OF refl i assms(4,5)] by auto
qed

theorem smo_writer_enters_witness:
  "\<exists>es s1 fs s2. event_system.run (smo_step 2) smo_start es s1 \<and> smo_pc s1 0 = Draining
    \<and> event_system.run (smo_step 2) s1 fs s2 \<and> smo_pc s2 0 = Writing"
proof -
  let ?s1 = "smo_access 0 (smo_access 0 (goto 0 Write_load smo_start))"
  have "smo_step 2 smo_start (Want_write 0) (goto 0 Write_load smo_start)" by (rule smo_step.want_write) (simp_all add: smo_start_def)
  then have r: "event_system.run (smo_step 2) smo_start [Want_write 0, Access 0, Access 0] ?s1"
    using smo_step.access [of 0 2] smo.run_Cons smo.run_Nil by (metis zero_less_numeral)
  have d: "smo_pc ?s1 0 = Draining" by (simp add: smo_access_def smo_start_def lockSet_def)
  have "smo_init smo_start" by (simp add: smo_init_def smo_start_def)
  then show ?thesis using smo_writer_enters [OF _ _ r _ d] r d by auto
qed

end
