(* ===== verification/Transport.thy ===== *)
theory Transport
  imports Rpc Machine_Double
begin

text \<open>
  The transport layer of \<^verbatim>\<open>src/common/transport.h\<close> and \<^verbatim>\<open>src/common/transport.cpp\<close>: transport modes,
  the TCP transport over a socket descriptor, and the choice between RDMA and TCP; and the body
  fields that the servers put into frames (\<^verbatim>\<open>append_u32\<close>, \<^verbatim>\<open>read_u32\<close> and their kin, which the three
  programs define alike).
\<close>

section \<open>Modes\<close>

datatype Mode = TCP | RDMA | AUTO

definition parse_mode :: "string \<Rightarrow> Mode" where
  "parse_mode raw = (if raw = ''tcp'' then TCP else if raw = ''rdma'' then RDMA
     else if raw = ''auto'' then AUTO else AUTO)"

fun mode_name :: "Mode \<Rightarrow> string" where
  "mode_name TCP = ''tcp''"
| "mode_name RDMA = ''rdma''"
| "mode_name AUTO = ''auto''"

text \<open>The RDMA port is the TCP port shifted, or the TCP port itself when the sum is no valid port.\<close>

definition rdma_port_for :: "u16 \<Rightarrow> int \<Rightarrow> u16" where
  "rdma_port_for tcp_port offset = (let port = uint tcp_port + offset;
       port = (if port < 1 then uint tcp_port else port);
       port = (if port > 65535 then uint tcp_port else port)
     in word_of_int port)"

section \<open>The TCP transport\<close>

text \<open>
  A connected socket: descriptor (negative once closed), what it still delivers and what it accepts.
  \<^verbatim>\<open>ready\<close> is the outcome of \<^verbatim>\<open>select\<close> within the timeout.
\<close>

record TcpTransport =
  fd :: int
  sock_in :: rx
  sock_out :: tx
  wire :: "byte list"

definition tcp_read_frame :: "int \<Rightarrow> bool \<Rightarrow> TcpTransport \<Rightarrow> Frame option \<times> TcpTransport" where
  "tcp_read_frame timeout_ms ready t = (if fd t < 0 then (None, t)
     else if timeout_ms \<ge> 0 \<and> \<not> ready then (None, t)
     else let (f, s) = read_frame (sock_in t) in (f, t\<lparr>sock_in := s\<rparr>))"

definition tcp_write_frame :: "Frame \<Rightarrow> TcpTransport \<Rightarrow> bool \<times> TcpTransport" where
  "tcp_write_frame f t = (if fd t < 0 then (False, t)
     else let (ok, bs, s) = write_frame (sock_out t) f in (ok, t\<lparr>sock_out := s, wire := wire t @ bs\<rparr>))"

definition tcp_close :: "TcpTransport \<Rightarrow> TcpTransport" where
  "tcp_close t = (if fd t \<ge> 0 then t\<lparr>fd := - 1\<rparr> else t)"

section \<open>Choosing a transport\<close>

datatype 'a link = Over_rdma 'a | Over_tcp 'a

text \<open>
  \<^verbatim>\<open>connect_transport\<close>: \<^verbatim>\<open>enabled\<close> is \<^verbatim>\<open>PLIN_ENABLE_RDMA\<close>, the connection attempts are parameters
  (\<^verbatim>\<open>connect_rdma\<close> with its error text, \<^verbatim>\<open>connect_tcp\<close> with \<^verbatim>\<open>strerror(errno)\<close>); \<^verbatim>\<open>err\<close> is the
  caller's error string, \<^term>\<open>None\<close> for a null pointer.
\<close>

definition connect_transport ::
    "bool \<Rightarrow> (string \<Rightarrow> u16 \<Rightarrow> string + 'a) \<Rightarrow> (string \<Rightarrow> u16 \<Rightarrow> string + 'a) \<Rightarrow>
     string \<Rightarrow> u16 \<Rightarrow> Mode \<Rightarrow> int \<Rightarrow> string option \<Rightarrow> 'a link option \<times> string option" where
  "connect_transport enabled rdma tcp host port mode offset err =
    (let finish = (\<lambda>err. case tcp host port of Inr t \<Rightarrow> (Some (Over_tcp t), err)
           | Inl e \<Rightarrow> (None, if err = Some [] then Some e else err))
     in if mode = RDMA \<or> mode = AUTO then
          (if enabled then
             (case rdma host (rdma_port_for port offset) of Inr t \<Rightarrow> (Some (Over_rdma t), err)
              | Inl e \<Rightarrow> let err = map_option (\<lambda>_. e) err in
                  if mode = RDMA then (None, err) else finish err)
           else let err = map_option (\<lambda>_. ''RDMA support was not compiled in'') err in
             if mode = RDMA then (None, err) else finish err)
        else finish err)"

section \<open>Body fields\<close>

definition append_u32 :: "byte list \<Rightarrow> u32 \<Rightarrow> byte list" where
  "append_u32 b v = b @ u32_bytes v"

definition append_u64 :: "byte list \<Rightarrow> u64 \<Rightarrow> byte list" where
  "append_u64 b v = b @ u64_bytes v"

definition append_double :: "byte list \<Rightarrow> double \<Rightarrow> byte list" where
  "append_double b k = b @ u64_bytes (bits_of_double k)"

definition read_u32 :: "byte list \<Rightarrow> nat \<Rightarrow> u32 option" where
  "read_u32 b off = (if off + 4 > length b then None else Some (bytes_u32 (take 4 (drop off b))))"

text \<open>A key read from the wire may be a NaN: the inner \<^term>\<open>None\<close>.\<close>

definition read_double :: "byte list \<Rightarrow> nat \<Rightarrow> fp option" where
  "read_double b off = (if off + 8 > length b then None
     else Some (double_of_bits (bytes_u64 (take 8 (drop off b)))))"

definition make_fetch_resp :: "Status \<Rightarrow> payload_t \<Rightarrow> Frame" where
  "make_fetch_resp status payload =
     \<lparr>ftype = EDGE_FETCH_RESP, body = append_u64 [status_byte status] payload @ [0]\<rparr>"

section \<open>Lemmas\<close>

lemma read_u32_append [simp]: "read_u32 (u32_bytes v @ rest) 0 = Some v"
  by (simp add: read_u32_def)

lemma read_double_append:
  "is_double k \<Longrightarrow> length pre = n \<Longrightarrow> read_double (pre @ u64_bytes (bits_of_double k) @ rest) n = Some (Some k)"
  by (simp add: read_double_def double_of_bits_inverse)

lemma rdma_port_for_valid: "tcp_port \<noteq> 0 \<Longrightarrow> rdma_port_for tcp_port offset \<noteq> 0"
proof -
  assume t: "tcp_port \<noteq> 0"
  have "uint tcp_port \<noteq> 0" "0 \<le> uint tcp_port" "uint tcp_port < 65536"
    using t unsigned_less [of tcp_port, where 'a = int] by (simp_all add: unsigned_eq_0_iff)
  then have b: "0 < uint tcp_port" "uint tcp_port < 65536" by linarith+
  let ?p = "let port = uint tcp_port + offset; port = (if port < 1 then uint tcp_port else port)
    in if port > 65535 then uint tcp_port else port"
  have "0 < ?p" "?p < 65536" using b by (auto simp: Let_def)
  then have "uint (word_of_int ?p :: u16) = ?p" by (simp add: uint_word_of_int)
  then show ?thesis using \<open>0 < ?p\<close> by (auto simp: rdma_port_for_def Let_def unsigned_eq_0_iff split: if_splits)
qed

end
