(* ===== verification/Rdma_Transport.thy ===== *)
theory Rdma_Transport
  imports Transport "HOL-Library.State_Monad"
begin

text \<open>
  The RDMA transport of \<^verbatim>\<open>src/common/rdma_transport.cpp\<close>: frames in registered buffers, chunked remote reads,
  and the acquisition and release of verbs resources when a transport is made, connected, accepted and closed.
  libibverbs, rdma_cm and \<^verbatim>\<open>getaddrinfo\<close> are parameters: each call that can fail takes the next of a list of answers (a handle,
  or 0 for a null pointer or an error code), and every call is logged with its answer.  Completions and
  connection events are lists of what polling observes.
\<close>

section \<open>Polling\<close>

definition kMaxFrameBytes :: nat where "kMaxFrameBytes = 4194304"
definition kRecvDepth :: nat where "kRecvDepth = 8"
definition kDefaultCmTimeoutMs :: int where "kDefaultCmTimeoutMs = 3000"

text \<open>
  One turn of the loop of \<^verbatim>\<open>poll_cq\<close>: the deadline has passed, \<^verbatim>\<open>ibv_poll_cq\<close> fails, finds nothing, or finds a
  completion with its status and work request.  With a negative timeout the deadline is not looked at.  At the
  end of the list nothing more is observed.
\<close>

datatype cq_poll = Cq_deadline | Cq_error | Cq_empty | Cq_done bool u64

fun poll_cq :: "int \<Rightarrow> cq_poll list \<Rightarrow> u64 option \<times> cq_poll list" where
  "poll_cq timeout_ms [] = (None, [])"
| "poll_cq timeout_ms (Cq_deadline # ps) = (if timeout_ms < 0 then poll_cq timeout_ms ps else (None, ps))"
| "poll_cq timeout_ms (Cq_error # ps) = (None, ps)"
| "poll_cq timeout_ms (Cq_empty # ps) = poll_cq timeout_ms ps"
| "poll_cq timeout_ms (Cq_done ok wr # ps) = (if ok then Some wr else None, ps)"

type_synonym handle = nat

datatype cm_event = ADDR_RESOLVED | ROUTE_RESOLVED | CONNECT_REQUEST | ESTABLISHED
  | DISCONNECTED | REJECTED | CONNECT_ERROR | ADDR_ERROR | ROUTE_ERROR | OTHER_EVENT

text \<open>
  One turn of \<^verbatim>\<open>wait_cm_event\<close>: \<^verbatim>\<open>select\<close> is interrupted, the wait ends (deadline, \<^verbatim>\<open>select\<close> or the event call
  fails), or an event arrives.
\<close>

datatype cm_poll = Cm_interrupted | Cm_ended | Cm_event cm_event handle

fun wait_cm_event :: "cm_event \<Rightarrow> cm_poll list \<Rightarrow> handle option \<times> cm_poll list" where
  "wait_cm_event expected [] = (None, [])"
| "wait_cm_event expected (Cm_interrupted # ps) = wait_cm_event expected ps"
| "wait_cm_event expected (Cm_ended # ps) = (None, ps)"
| "wait_cm_event expected (Cm_event e h # ps) =
     (if e = expected then (Some h, ps)
      else if expected = CONNECT_REQUEST \<and> e = DISCONNECTED then wait_cm_event expected ps
      else if e \<in> {DISCONNECTED, REJECTED, CONNECT_ERROR, ADDR_ERROR, ROUTE_ERROR} then (None, ps)
      else wait_cm_event expected ps)"

section \<open>Frames and remote reads\<close>

definition frame_image :: "Frame \<Rightarrow> byte list" where
  "frame_image f = be_u32 (of_nat (1 + length (body f))) @ msg_byte (ftype f) # body f"

text \<open>\<^verbatim>\<open>write_frame\<close>: the result, and the message that was posted if any.\<close>

definition rdma_write_frame :: "bool \<Rightarrow> cq_poll list \<Rightarrow> Frame \<Rightarrow> bool \<times> byte list option" where
  "rdma_write_frame posted ps f =
     (if kMaxFrameBytes < 4 + (1 + length (body f)) then (False, None)
      else if \<not> posted then (False, None)
      else (fst (poll_cq kDefaultCmTimeoutMs ps) \<noteq> None, Some (frame_image f)))"

text \<open>The receiving side writes a message to the front of the posted buffer.\<close>

definition deliver :: "byte list \<Rightarrow> byte list \<Rightarrow> byte list" where
  "deliver msg b = msg @ drop (length msg) b"

datatype rdma_err = Overread

text \<open>
  \<^verbatim>\<open>read_frame\<close>: the length test adds 4 to a \<^verbatim>\<open>uint32_t\<close>.  Copying a body that is longer than the buffer reads past
  its end.
\<close>

definition rdma_read_frame :: "int \<Rightarrow> cq_poll list \<Rightarrow> byte list list \<Rightarrow> bool \<Rightarrow> rdma_err + Frame option" where
  "rdma_read_frame timeout_ms ps recv reposted = (case fst (poll_cq timeout_ms ps) of None \<Rightarrow> Inr None
     | Some wr_id \<Rightarrow> let idx = unat wr_id in if length recv \<le> idx then Inr None
     else let b = recv ! idx in if length b < 5 then Inr None
     else let payload_len = u32_be (take 4 b) in
       if payload_len < 1 \<or> length b < unat (payload_len + 4) then Inr None
       else let body_len = unat (payload_len - 1) in
         if length b < 5 + body_len then Inl Overread
         else Inr (if reposted then Some \<lparr>ftype = msg_of_byte (b ! 4), body = take body_len (drop 5 b)\<rparr> else None))"

text \<open>
  \<^verbatim>\<open>read_remote\<close>: \<^verbatim>\<open>fetch\<close> is one posted RDMA read of at most a buffer's size, and \<^verbatim>\<open>dst_ok\<close> says that the destination
  is not a null pointer.  The result is what is written there.
\<close>

function read_remote_loop :: "(u64 \<Rightarrow> u32 \<Rightarrow> nat \<Rightarrow> byte list option) \<Rightarrow> u64 \<Rightarrow> u32 \<Rightarrow> nat \<Rightarrow> nat \<Rightarrow> byte list \<Rightarrow> byte list option" where
  "read_remote_loop fetch addr rkey sz dn dst =
     (if dn < sz
      then let chunk = min kMaxFrameBytes (sz - dn) in
        (case fetch (addr + of_nat dn) rkey chunk of None \<Rightarrow> None
         | Some bs \<Rightarrow> read_remote_loop fetch addr rkey sz (dn + chunk) (dst @ bs))
      else Some dst)"
  by pat_completeness auto
termination
  by (relation "measure (\<lambda>(_, _, _, sz, dn, _). sz - dn)") (auto simp: kMaxFrameBytes_def)

declare read_remote_loop.simps [simp del]

definition read_remote :: "(u64 \<Rightarrow> u32 \<Rightarrow> nat \<Rightarrow> byte list option) \<Rightarrow> bool \<Rightarrow> u64 \<Rightarrow> u32 \<Rightarrow> nat \<Rightarrow> byte list option" where
  "read_remote fetch dst_ok addr rkey sz = (if \<not> dst_ok \<or> sz = 0 then Some [] else read_remote_loop fetch addr rkey sz 0 [])"

section \<open>Resources\<close>

datatype verbs_call = Create_channel | Create_id handle | Getaddrinfo | Bind_addr handle | Listen handle
  | Resolve_addr handle | Resolve_route handle | Connect handle | Accept handle | Reject handle | Disconnect handle
  | Alloc_pd | Create_cq | Create_qp handle | Reg_mr handle | Post_recv handle nat
  | Destroy_channel handle | Destroy_id handle | Dealloc_pd handle | Destroy_cq handle | Destroy_qp handle | Dereg_mr handle
  | Free_addrinfo handle

record verbs =
  answers :: "handle list"
  cm_polls :: "cm_poll list"
  calls :: "(verbs_call \<times> handle) list"

definition ask :: "verbs_call \<Rightarrow> (verbs, handle) state" where
  "ask c = State (\<lambda>v. case answers v of [] \<Rightarrow> (0, v\<lparr>calls := calls v @ [(c, 0)]\<rparr>)
     | h # hs \<Rightarrow> (h, v\<lparr>answers := hs, calls := calls v @ [(c, h)]\<rparr>))"

definition tell :: "verbs_call \<Rightarrow> (verbs, unit) state" where
  "tell c = State (\<lambda>v. ((), v\<lparr>calls := calls v @ [(c, 0)]\<rparr>))"

definition wait_cm :: "cm_event \<Rightarrow> (verbs, handle option) state" where
  "wait_cm e = State (\<lambda>v. case wait_cm_event e (cm_polls v) of (r, ps) \<Rightarrow> (r, v\<lparr>cm_polls := ps\<rparr>))"

text \<open>A release guarded by the test for a null pointer.\<close>

definition release :: "(handle \<Rightarrow> verbs_call) \<Rightarrow> handle \<Rightarrow> (verbs, unit) state" where
  "release c h = (if h \<noteq> 0 then tell (c h) else State_Monad.return ())"

fun release_all :: "handle list \<Rightarrow> (verbs, unit) state" where
  "release_all [] = State_Monad.return ()"
| "release_all (h # hs) = do { release Dereg_mr h; release_all hs }"

record RdmaTransport =
  rt_id :: handle
  event_channel :: handle
  rt_pd :: handle
  send_cq :: handle
  recv_cq :: handle
  send_mr :: handle
  read_mr :: handle
  recv_mrs :: "handle list"
  external_mrs :: "handle list"
  rdma_closed :: bool

fun init_recv :: "handle \<Rightarrow> handle \<Rightarrow> nat \<Rightarrow> nat \<Rightarrow> (verbs, bool \<times> handle list) state" where
  "init_recv pd cid i 0 = State_Monad.return (True, [])"
| "init_recv pd cid i (Suc n) = do {
     mr \<leftarrow> ask (Reg_mr pd);
     if mr = 0 then State_Monad.return (False, replicate (Suc n) 0)
     else do {
       ok \<leftarrow> ask (Post_recv cid i);
       if ok = 0 then State_Monad.return (False, mr # replicate n 0)
       else do {
         x \<leftarrow> init_recv pd cid (Suc i) n;
         State_Monad.return (fst x, mr # snd x) } } }"

definition init_buffers :: "RdmaTransport \<Rightarrow> (verbs, bool \<times> RdmaTransport) state" where
  "init_buffers t = do {
     s \<leftarrow> ask (Reg_mr (rt_pd t));
     r \<leftarrow> ask (Reg_mr (rt_pd t));
     if s = 0 \<or> r = 0 then State_Monad.return (False, t\<lparr>send_mr := s, read_mr := r\<rparr>)
     else do {
       x \<leftarrow> init_recv (rt_pd t) (rt_id t) 0 kRecvDepth;
       State_Monad.return (fst x, t\<lparr>send_mr := s, read_mr := r, recv_mrs := snd x\<rparr>) } }"

definition rdma_register_memory :: "(handle \<Rightarrow> u32) \<Rightarrow> u64 \<Rightarrow> nat \<Rightarrow> RdmaTransport \<Rightarrow> (verbs, (u64 \<times> u32 \<times> nat) option \<times> RdmaTransport) state" where
  "rdma_register_memory rkey_of addr sz t = (if addr = 0 \<or> sz = 0 then State_Monad.return (None, t)
     else do {
       mr \<leftarrow> ask (Reg_mr (rt_pd t));
       if mr = 0 then State_Monad.return (None, t)
       else State_Monad.return (Some (addr, rkey_of mr, sz), t\<lparr>external_mrs := external_mrs t @ [mr]\<rparr>) })"

text \<open>\<^verbatim>\<open>close\<close>, which is also the destructor.\<close>

definition rdma_close :: "RdmaTransport \<Rightarrow> (verbs, RdmaTransport) state" where
  "rdma_close t = (if rdma_closed t then State_Monad.return t
     else do {
       release Disconnect (rt_id t);
       release_all (external_mrs t);
       release Dereg_mr (send_mr t);
       release Dereg_mr (read_mr t);
       release_all (recv_mrs t);
       release Destroy_qp (rt_id t);
       release Destroy_id (rt_id t);
       release Destroy_cq (send_cq t);
       release Destroy_cq (recv_cq t);
       release Dealloc_pd (rt_pd t);
       release Destroy_channel (event_channel t);
       State_Monad.return (t\<lparr>rt_id := 0, event_channel := 0, rt_pd := 0, send_cq := 0, recv_cq := 0,
         external_mrs := [], rdma_closed := True\<rparr>) })"

definition build_qp :: "handle \<Rightarrow> (verbs, bool \<times> handle \<times> handle \<times> handle) state" where
  "build_qp cid = do {
     pd \<leftarrow> ask Alloc_pd;
     if pd = 0 then State_Monad.return (False, 0, 0, 0)
     else do {
       s \<leftarrow> ask Create_cq;
       r \<leftarrow> ask Create_cq;
       if s = 0 \<or> r = 0 then State_Monad.return (False, pd, s, r)
       else do { qp \<leftarrow> ask (Create_qp cid); State_Monad.return (qp \<noteq> 0, pd, s, r) } } }"

definition qp_failed :: string where "qp_failed = ''failed to create RDMA QP''"
definition buffers_failed :: string where "buffers_failed = ''failed to register RDMA buffers''"

text \<open>A transport that is not returned is destroyed, which closes it.\<close>

definition make_transport :: "handle \<Rightarrow> handle \<Rightarrow> (verbs, string + RdmaTransport) state" where
  "make_transport cid ec = do {
     q \<leftarrow> build_qp cid;
     (case q of (ok, pd, s, r) \<Rightarrow>
       if \<not> ok then do {
         release Destroy_cq s; release Destroy_cq r; release Dealloc_pd pd;
         State_Monad.return (Inl qp_failed) }
       else do {
         x \<leftarrow> init_buffers \<lparr>rt_id = cid, event_channel = ec, rt_pd = pd, send_cq = s, recv_cq = r,
           send_mr = 0, read_mr = 0, recv_mrs = [], external_mrs = [], rdma_closed = False\<rparr>;
         if fst x then State_Monad.return (Inr (snd x))
         else do { rdma_close (snd x); State_Monad.return (Inl buffers_failed) } }) }"

record RdmaListener =
  l_id :: handle
  l_channel :: handle

definition listener_close :: "RdmaListener \<Rightarrow> (verbs, RdmaListener) state" where
  "listener_close l = do { release Destroy_id (l_id l); release Destroy_channel (l_channel l);
     State_Monad.return (l\<lparr>l_id := 0, l_channel := 0\<rparr>) }"

definition rdma_accept_transport :: "RdmaListener \<Rightarrow> (verbs, string + RdmaTransport) state" where
  "rdma_accept_transport l = do {
     c \<leftarrow> wait_cm CONNECT_REQUEST;
     (case c of None \<Rightarrow> State_Monad.return (Inl ''RDMA accept failed waiting for CONNECT_REQUEST'')
      | Some child \<Rightarrow> do {
          m \<leftarrow> make_transport child 0;
          (case m of Inl e \<Rightarrow> do { tell (Reject child); State_Monad.return (Inl e) }
           | Inr t \<Rightarrow> do {
               a \<leftarrow> ask (Accept child);
               if a = 0 then do { rdma_close t; State_Monad.return (Inl ''rdma_accept failed'') }
               else do {
                 e \<leftarrow> wait_cm ESTABLISHED;
                 if e = None then do { rdma_close t; State_Monad.return (Inl ''RDMA accept failed waiting for ESTABLISHED'') }
                 else State_Monad.return (Inr t) } }) }) }"

text \<open>The clean-up of the early returns of \<^verbatim>\<open>listen_rdma\<close> and \<^verbatim>\<open>connect_rdma\<close>.\<close>

definition give_up :: "handle \<Rightarrow> handle \<Rightarrow> string \<Rightarrow> (verbs, string + 'a) state" where
  "give_up cid ec e = do { tell (Destroy_id cid); tell (Destroy_channel ec); State_Monad.return (Inl e) }"

definition listen_rdma :: "(verbs, string + RdmaListener) state" where
  "listen_rdma = do {
     ec \<leftarrow> ask Create_channel;
     if ec = 0 then State_Monad.return (Inl ''rdma_create_event_channel failed'')
     else do {
       cid \<leftarrow> ask (Create_id ec);
       if cid = 0 then do { tell (Destroy_channel ec); State_Monad.return (Inl ''rdma_create_id failed'') }
       else do {
         g \<leftarrow> ask Getaddrinfo;
         if g = 0 then give_up cid ec ''getaddrinfo failed for RDMA listen''
         else do {
           b \<leftarrow> ask (Bind_addr cid);
           tell (Free_addrinfo g);
           if b = 0 then give_up cid ec ''rdma_bind_addr failed''
           else do {
             l \<leftarrow> ask (Listen cid);
             if l = 0 then give_up cid ec ''rdma_listen failed''
             else State_Monad.return (Inr \<lparr>l_id = cid, l_channel = ec\<rparr>) } } } } }"

definition connect_made :: "handle \<Rightarrow> RdmaTransport \<Rightarrow> (verbs, string + RdmaTransport) state" where
  "connect_made cid t = do {
     r \<leftarrow> ask (Resolve_route cid);
     w \<leftarrow> (if r = 0 then State_Monad.return None else wait_cm ROUTE_RESOLVED);
     if w = None then do { rdma_close t; State_Monad.return (Inl ''rdma_resolve_route failed'') }
     else do {
       c \<leftarrow> ask (Connect cid);
       e \<leftarrow> (if c = 0 then State_Monad.return None else wait_cm ESTABLISHED);
       if e = None then do { rdma_close t; State_Monad.return (Inl ''rdma_connect failed'') }
       else State_Monad.return (Inr t) } }"

definition connect_rdma :: "(verbs, string + RdmaTransport) state" where
  "connect_rdma = do {
     ec \<leftarrow> ask Create_channel;
     if ec = 0 then State_Monad.return (Inl ''rdma_create_event_channel failed'')
     else do {
       cid \<leftarrow> ask (Create_id ec);
       if cid = 0 then do { tell (Destroy_channel ec); State_Monad.return (Inl ''rdma_create_id failed'') }
       else do {
         g \<leftarrow> ask Getaddrinfo;
         if g = 0 then give_up cid ec ''getaddrinfo failed for RDMA connect''
         else do {
           a \<leftarrow> ask (Resolve_addr cid);
           tell (Free_addrinfo g);
           w \<leftarrow> (if a = 0 then State_Monad.return None else wait_cm ADDR_RESOLVED);
           if w = None then give_up cid ec ''rdma_resolve_addr failed''
           else do {
             m \<leftarrow> make_transport cid ec;
             (case m of Inl e \<Rightarrow> give_up cid ec e | Inr t \<Rightarrow> connect_made cid t) } } } } }"

end
