(* ===== verification/Rdma_Correct.thy ===== *)
theory Rdma_Correct
  imports Rdma_Transport
begin

text \<open>
  Frames survive the trip through registered buffers, a chunked remote read is exact, and the resources that
  making and connecting a transport acquires are released exactly once, except on one path.
\<close>

section \<open>Frames\<close>

lemma poll_cq_done [simp]: "fst (poll_cq t (Cq_done True w # ps)) = Some w"
  by simp

lemma frame_image_length: "length (frame_image f) = 5 + length (body f)"
  by (simp add: frame_image_def be_u32_def)

lemma u32_be_image: "u32_be (take 4 (frame_image f @ rest)) = of_nat (1 + length (body f))"
  by (simp add: frame_image_def be_u32_def u32_be_def)

lemma read_delivered:
  assumes f: "msg_enumerator (ftype f)" "4 + (1 + length (body f)) \<le> kMaxFrameBytes"
    and i: "unat i < length recv" "length (recv ! unat i) = kMaxFrameBytes"
  shows "rdma_read_frame t (Cq_done True i # ps) (recv[unat i := deliver (frame_image f) (recv ! unat i)]) True = Inr (Some f)"
proof -
  let ?b = "deliver (frame_image f) (recv ! unat i)" and ?n = "length (body f)"
  have k: "kMaxFrameBytes = 4194304" by (simp add: kMaxFrameBytes_def)
  have len: "length ?b = kMaxFrameBytes" using f(2) i(2) by (simp add: deliver_def frame_image_length)
  have n: "?n < 4194304" using f(2) k by simp
  define w :: u32 where "w = of_nat (1 + ?n)"
  have pl: "u32_be (take 4 ?b) = w" unfolding deliver_def w_def by (rule u32_be_image)
  have "unat w = 1 + ?n" using n by (simp add: w_def unat_of_nat del: of_nat_Suc)
  then have p: "unat (w + 4) = 5 + ?n" "unat (w - 1) = ?n" "w \<noteq> 0" using n
    by (simp add: unat_word_ariths, subst unat_minus_one, auto)
  have b4: "?b ! 4 = msg_byte (ftype f)" by (simp add: deliver_def frame_image_def be_u32_def nth_append)
  have bd: "take ?n (drop 5 ?b) = body f" by (simp add: deliver_def frame_image_def be_u32_def)
  have "\<not> length ?b < 5" "\<not> length ?b < unat (w + 4)" "\<not> length ?b < 5 + ?n" using len n k p f(2) by simp_all
  then show ?thesis using i(1) f(1)
    by (simp add: rdma_read_frame_def Let_def pl p b4 bd msg_enumerator_def)
qed

text \<open>The length test wraps: a length field of at least 2^32 - 4 passes it.\<close>

lemma read_wrapped:
  assumes pl: "2 ^ 32 - 4 \<le> unat pl" "take 4 (recv ! unat i) = be_u32 pl"
    and i: "unat i < length recv" "length (recv ! unat i) = kMaxFrameBytes"
  shows "rdma_read_frame t (Cq_done True i # ps) recv True = Inl Overread"
proof -
  have k: "kMaxFrameBytes = 4194304" by (simp add: kMaxFrameBytes_def)
  have b: "unat pl < 2 ^ 32" using unsigned_less [of pl, where 'a = nat] by simp
  have u: "u32_be (be_u32 pl) = pl" by (simp add: be_u32_def u32_be_def)
  have s: "unat (pl + 4) = unat pl - (2 ^ 32 - 4)" using pl(1) b by (simp add: unat_word_ariths mod_nat_eqI)
  have m: "unat (pl - 1) = unat pl - 1" using pl(1) by (intro unat_minus_one) auto
  have "\<not> pl < 1" using pl(1) by (simp add: word_less_nat_alt)
  moreover have "\<not> length (recv ! unat i) < unat (pl + 4)" using s b i(2) k by simp
  moreover have "length (recv ! unat i) < 5 + unat (pl - 1)" using m pl(1) i(2) k by simp
  ultimately show ?thesis using i k by (simp add: rdma_read_frame_def Let_def pl(2) u)
qed

section \<open>Remote reads\<close>

lemma read_remote_loop_ok:
  assumes mem: "\<And>a n. n \<le> kMaxFrameBytes \<Longrightarrow> fetch a rkey n = Some (map (\<lambda>i. mem (a + of_nat i)) [0..<n])"
  shows "dn \<le> sz \<Longrightarrow> read_remote_loop fetch addr rkey sz dn (map (\<lambda>i. mem (addr + of_nat i)) [0..<dn])
    = Some (map (\<lambda>i. mem (addr + of_nat i)) [0..<sz])"
proof (induction "sz - dn" arbitrary: dn rule: less_induct)
  case less
  show ?case
  proof (cases "dn < sz")
    case True
    define c where "c = min kMaxFrameBytes (sz - dn)"
    have c: "0 < c" "dn + c \<le> sz" "c \<le> kMaxFrameBytes" using True by (auto simp: c_def kMaxFrameBytes_def)
    have sh: "[dn..<dn + c] = map (\<lambda>i. i + dn) [0..<c]" by (simp add: map_add_upt add.commute)
    have "map (\<lambda>i. mem (addr + of_nat i)) [0..<dn] @ map (\<lambda>i. mem (addr + of_nat dn + of_nat i)) [0..<c]
        = map (\<lambda>i. mem (addr + of_nat i)) [0..<dn + c]"
      unfolding upt_add_eq_append [of 0 dn c, simplified] map_append sh by (simp add: ac_simps)
    then show ?thesis using less.hyps [of "dn + c"] c True by (subst read_remote_loop.simps) (simp add: mem Let_def flip: c_def)
  next
    case False
    then show ?thesis using less.prems by (subst read_remote_loop.simps) simp
  qed
qed

section \<open>The balance of acquisitions and releases\<close>

fun release_of :: "verbs_call \<Rightarrow> handle \<Rightarrow> verbs_call option" where
  "release_of Create_channel h = Some (Destroy_channel h)"
| "release_of (Create_id _) h = Some (Destroy_id h)"
| "release_of Alloc_pd h = Some (Dealloc_pd h)"
| "release_of Create_cq h = Some (Destroy_cq h)"
| "release_of (Create_qp cid) h = Some (Destroy_qp cid)"
| "release_of (Reg_mr _) h = Some (Dereg_mr h)"
| "release_of Getaddrinfo h = Some (Free_addrinfo h)"
| "release_of _ h = None"

fun releasing :: "verbs_call \<Rightarrow> bool" where
  "releasing (Destroy_channel _) = True"
| "releasing (Destroy_id _) = True"
| "releasing (Dealloc_pd _) = True"
| "releasing (Destroy_cq _) = True"
| "releasing (Destroy_qp _) = True"
| "releasing (Dereg_mr _) = True"
| "releasing (Free_addrinfo _) = True"
| "releasing _ = False"

definition call_balance :: "verbs_call \<Rightarrow> verbs_call \<times> handle \<Rightarrow> int" where
  "call_balance r x = of_bool (snd x \<noteq> 0 \<and> release_of (fst x) (snd x) = Some r) - of_bool (fst x = r \<and> releasing r)"

definition balance :: "verbs_call \<Rightarrow> (verbs_call \<times> handle) list \<Rightarrow> int" where
  "balance r log = sum_list (map (call_balance r) log)"

text \<open>What a computation does to the balance, as a relation between its result and the change.\<close>

definition effect :: "(verbs, 'a) state \<Rightarrow> ('a \<Rightarrow> (verbs_call \<Rightarrow> int) \<Rightarrow> bool) \<Rightarrow> bool" where
  "effect m P \<longleftrightarrow> (\<forall>v. P (fst (run_state m v)) (\<lambda>r. balance r (calls (snd (run_state m v))) - balance r (calls v)))"

lemma effectD: "effect m P \<Longrightarrow> run_state m v = (a, v') \<Longrightarrow> P a (\<lambda>r. balance r (calls v') - balance r (calls v))"
  by (auto simp: effect_def dest: spec [of _ v])

lemma effect_return: "P a (\<lambda>_. 0) \<Longrightarrow> effect (State_Monad.return a) P"
  by (simp add: effect_def)

lemma effect_bind:
  assumes "effect m P" "\<And>a d. P a d \<Longrightarrow> effect (k a) (\<lambda>b e. Q b (\<lambda>r. d r + e r))"
  shows "effect (State_Monad.bind m k) Q"
  unfolding effect_def
proof
  fix v
  obtain a v1 where a: "run_state m v = (a, v1)" by fastforce
  obtain b v2 where b: "run_state (k a) v1 = (b, v2)" by fastforce
  from effectD [OF assms(2) [OF effectD [OF assms(1) a]] b]
  show "Q (fst (run_state (State_Monad.bind m k) v)) (\<lambda>r. balance r (calls (snd (run_state (State_Monad.bind m k) v))) - balance r (calls v))"
    by (simp add: a b)
qed

lemma effect_mono: "effect m P \<Longrightarrow> (\<And>a d. P a d \<Longrightarrow> Q a d) \<Longrightarrow> effect m Q"
  by (simp add: effect_def)

lemma effect_if: "(b \<Longrightarrow> effect m P) \<Longrightarrow> (\<not> b \<Longrightarrow> effect n P) \<Longrightarrow> effect (if b then m else n) P"
  by simp

lemma effect_ask: "effect (ask c) (\<lambda>h d. d = (\<lambda>r. call_balance r (c, h)))"
  by (auto simp: effect_def ask_def balance_def split: list.split)

lemma effect_tell: "effect (tell c) (\<lambda>_ d. d = (\<lambda>r. - of_bool (c = r \<and> releasing c)))"
  by (auto simp: effect_def tell_def balance_def call_balance_def)

lemma effect_wait: "effect (wait_cm e) (\<lambda>_ d. d = (\<lambda>_. 0))"
  by (simp add: effect_def wait_cm_def split: prod.split)

lemma effect_release: "effect (release c h) (\<lambda>_ d. d = (\<lambda>r. - of_bool (h \<noteq> 0 \<and> c h = r \<and> releasing (c h))))"
  using effect_tell [of "c h"] by (auto simp: release_def intro!: effect_return)

lemmas effect_intros = effect_return effect_if effect_bind [OF effect_ask] effect_bind [OF effect_tell]
  effect_bind [OF effect_wait] effect_bind [OF effect_release]

text \<open>The resources that a transport has to release.\<close>

definition mrs_owned :: "handle list \<Rightarrow> verbs_call \<Rightarrow> int" where
  "mrs_owned hs r = sum_list (map (\<lambda>h. of_bool (h \<noteq> 0 \<and> Dereg_mr h = r)) hs)"

lemma mrs_owned_simps [simp]:
  "mrs_owned [] r = 0" "mrs_owned (h # hs) r = of_bool (h \<noteq> 0 \<and> Dereg_mr h = r) + mrs_owned hs r"
  "mrs_owned (hs @ ks) r = mrs_owned hs r + mrs_owned ks r" "mrs_owned (replicate n 0) r = 0"
  by (simp_all add: mrs_owned_def sum_list_replicate)

definition owns :: "RdmaTransport \<Rightarrow> verbs_call \<Rightarrow> int" where
  "owns t r = (if rdma_closed t then 0 else mrs_owned (external_mrs t @ [send_mr t, read_mr t] @ recv_mrs t) r
     + of_bool (rt_id t \<noteq> 0 \<and> Destroy_qp (rt_id t) = r) + of_bool (rt_id t \<noteq> 0 \<and> Destroy_id (rt_id t) = r)
     + of_bool (send_cq t \<noteq> 0 \<and> Destroy_cq (send_cq t) = r) + of_bool (recv_cq t \<noteq> 0 \<and> Destroy_cq (recv_cq t) = r)
     + of_bool (rt_pd t \<noteq> 0 \<and> Dealloc_pd (rt_pd t) = r) + of_bool (event_channel t \<noteq> 0 \<and> Destroy_channel (event_channel t) = r))"

lemma effect_release_all: "effect (release_all hs) (\<lambda>_ d. d = (\<lambda>r. - mrs_owned hs r))"
proof (induction hs)
  case (Cons h hs)
  then show ?case by (auto simp: fun_eq_iff intro!: effect_bind [OF effect_release] effect_mono [OF Cons])
qed (auto intro!: effect_return)

lemma effect_close: "effect (rdma_close t) (\<lambda>t' d. d = (\<lambda>r. - owns t r) \<and> rdma_closed t')"
  unfolding rdma_close_def
  by (intro effect_intros effect_bind [OF effect_release_all]) (simp_all add: owns_def fun_eq_iff)

section \<open>Making and connecting a transport\<close>

lemma call_balance_acquire: "\<not> releasing c \<Longrightarrow> call_balance r (c, h) = of_bool (h \<noteq> 0 \<and> release_of c h = Some r)"
  by (auto simp: call_balance_def)

lemma effect_init_recv: "effect (init_recv pd cid i n) (\<lambda>x d. d = mrs_owned (snd x))"
proof (induction n arbitrary: i)
  case 0
  then show ?case by (auto simp: fun_eq_iff intro!: effect_return)
next
  case (Suc n)
  show ?case unfolding init_recv.simps
    by (intro effect_intros effect_bind [OF Suc]) (simp_all add: call_balance_acquire fun_eq_iff)
qed

lemma effect_init_buffers:
  assumes "send_mr t = 0" "read_mr t = 0" "recv_mrs t = []"
  shows "effect (init_buffers t) (\<lambda>x d. d = (\<lambda>r. owns (snd x) r - owns t r) \<or> rdma_closed t)"
  unfolding init_buffers_def
  by (intro effect_intros effect_bind [OF effect_init_recv]) (simp_all add: call_balance_acquire owns_def assms fun_eq_iff)

definition qp_owned :: "handle \<Rightarrow> handle \<Rightarrow> handle \<Rightarrow> verbs_call \<Rightarrow> int" where
  "qp_owned pd s r c = of_bool (pd \<noteq> 0 \<and> Dealloc_pd pd = c) + of_bool (s \<noteq> 0 \<and> Destroy_cq s = c) + of_bool (r \<noteq> 0 \<and> Destroy_cq r = c)"

lemma effect_build_qp:
  "effect (build_qp cid) (\<lambda>(ok, pd, s, r) d. d = (\<lambda>c. qp_owned pd s r c + of_bool (ok \<and> Destroy_qp cid = c)))"
  unfolding build_qp_def by (intro effect_intros) (simp_all add: call_balance_acquire qp_owned_def fun_eq_iff)

definition two_owned :: "handle \<Rightarrow> handle \<Rightarrow> verbs_call \<Rightarrow> int" where
  "two_owned cid ec r = of_bool (Destroy_id cid = r) + of_bool (ec \<noteq> 0 \<and> Destroy_channel ec = r)"

text \<open>A transport takes over its identifier and channel; when its buffers fail it has destroyed them already.\<close>

lemma effect_make_transport:
  assumes "cid \<noteq> 0"
  shows "effect (make_transport cid ec) (\<lambda>res d. case res of Inr t \<Rightarrow> d = (\<lambda>r. owns t r - two_owned cid ec r)
     | Inl e \<Rightarrow> d = (\<lambda>r. if e = buffers_failed then - two_owned cid ec r else 0))"
proof -
  let ?t = "\<lambda>pd s r. \<lparr>rt_id = cid, event_channel = ec, rt_pd = pd, send_cq = s, recv_cq = r,
           send_mr = 0, read_mr = 0, recv_mrs = [], external_mrs = [], rdma_closed = False\<rparr>"
  have o: "owns (?t pd s r) c = qp_owned pd s r c + of_bool (Destroy_qp cid = c) + two_owned cid ec c" for pd s r c
    using assms by (simp add: owns_def qp_owned_def two_owned_def)
  show ?thesis unfolding make_transport_def
  proof (rule effect_bind [OF effect_build_qp], clarify)
    fix ok pd s r
    have "effect (init_buffers (?t pd s r)) (\<lambda>x d. d = (\<lambda>c. owns (snd x) c - owns (?t pd s r) c))"
      using effect_init_buffers [of "?t pd s r"] by simp
    note i = effect_bind [OF this]
    show "effect (if \<not> ok then do { release Destroy_cq s; release Destroy_cq r; release Dealloc_pd pd; State_Monad.return (Inl qp_failed) }
       else do { x \<leftarrow> init_buffers (?t pd s r); if fst x then State_Monad.return (Inr (snd x))
         else do { rdma_close (snd x); State_Monad.return (Inl buffers_failed) } })
      (\<lambda>res e. case res of Inr t \<Rightarrow> (\<lambda>c. qp_owned pd s r c + of_bool (ok \<and> Destroy_qp cid = c) + e c) = (\<lambda>c. owns t c - two_owned cid ec c)
         | Inl m \<Rightarrow> (\<lambda>c. qp_owned pd s r c + of_bool (ok \<and> Destroy_qp cid = c) + e c) = (\<lambda>c. if m = buffers_failed then - two_owned cid ec c else 0))"
      by (intro effect_intros i effect_bind [OF effect_close])
        (simp_all add: o fun_eq_iff qp_owned_def qp_failed_def buffers_failed_def)
  qed
qed

lemma effect_give_up: "ec \<noteq> 0 \<Longrightarrow> effect (give_up cid ec e) (\<lambda>x d. x = Inl e \<and> d = (\<lambda>r. - two_owned cid ec r))"
  unfolding give_up_def by (intro effect_intros) (simp add: two_owned_def fun_eq_iff)

lemma effect_maybe_wait: "effect (if b then State_Monad.return None else wait_cm e) (\<lambda>_ d. d = (\<lambda>_. 0))"
  by (auto intro: effect_return effect_wait)

lemma effect_connect_made:
  "effect (connect_made cid t) (\<lambda>res d. case res of Inr t' \<Rightarrow> t' = t \<and> d = (\<lambda>_. 0)
     | Inl e \<Rightarrow> e \<noteq> buffers_failed \<and> d = (\<lambda>r. - owns t r))"
  unfolding connect_made_def
  by (intro effect_return effect_bind [OF effect_ask] effect_bind [OF effect_maybe_wait] effect_if effect_bind [OF effect_close])
    (simp_all add: call_balance_acquire buffers_failed_def fun_eq_iff)

text \<open>
  A connection that fails has released what it acquired, and one that succeeds owns it.  When the buffers cannot
  be registered, the identifier and the channel have been destroyed once too often.
\<close>

definition connect_balanced :: "string + RdmaTransport \<Rightarrow> (verbs_call \<Rightarrow> int) \<Rightarrow> bool" where
  "connect_balanced res d = (case res of Inr t \<Rightarrow> d = owns t
     | Inl e \<Rightarrow> if e = buffers_failed then \<exists>cid ec. cid \<noteq> 0 \<and> ec \<noteq> 0 \<and> d = (\<lambda>r. - two_owned cid ec r) else d = (\<lambda>_. 0))"

lemma effect_connect_tail:
  assumes "cid \<noteq> 0" "ec \<noteq> 0"
  shows "effect (do { m \<leftarrow> make_transport cid ec; (case m of Inl e \<Rightarrow> give_up cid ec e | Inr t \<Rightarrow> connect_made cid t) })
    (\<lambda>res d. connect_balanced res (\<lambda>r. two_owned cid ec r + d r))"
proof (rule effect_bind [OF effect_make_transport [OF assms(1), of ec]])
  fix m d
  assume d: "case m of Inr t \<Rightarrow> d = (\<lambda>r. owns t r - two_owned cid ec r)
     | Inl e \<Rightarrow> d = (\<lambda>r. if e = buffers_failed then - two_owned cid ec r else 0)"
  show "effect (case m of Inl e \<Rightarrow> give_up cid ec e | Inr t \<Rightarrow> connect_made cid t)
    (\<lambda>res e. connect_balanced res (\<lambda>r. two_owned cid ec r + (d r + e r)))"
  proof (cases m)
    case (Inl e)
    then show ?thesis using d assms
      by (fastforce simp: connect_balanced_def intro!: effect_mono [OF effect_give_up [OF assms(2)]])
  next
    case (Inr t)
    then show ?thesis using d
      by (auto simp: connect_balanced_def fun_eq_iff intro!: effect_mono [OF effect_connect_made] split: sum.splits)
  qed
qed

lemma effect_connect_gives_up:
  "e \<noteq> buffers_failed \<Longrightarrow> ec \<noteq> 0 \<Longrightarrow> effect (give_up cid ec e) (\<lambda>res d. connect_balanced res (\<lambda>r. two_owned cid ec r + d r))"
  by (auto simp: connect_balanced_def intro!: effect_mono [OF effect_give_up])

lemma effect_bind_nothing:
  assumes "effect m (\<lambda>_ d. d = (\<lambda>_. 0))" "\<And>a. effect (k a) Q"
  shows "effect (State_Monad.bind m k) Q"
  using assms(2) by (intro effect_bind [OF assms(1)]) simp

text \<open>The address list is freed after its one use.\<close>

lemma effect_addrinfo:
  assumes "effect m Q" "\<And>a. effect (k a) Q" "\<And>h. release_of c h = None" "\<not> releasing c"
  shows "effect (do { g \<leftarrow> ask Getaddrinfo; if g = 0 then m else do { a \<leftarrow> ask c; tell (Free_addrinfo g); k a } }) Q"
proof (rule effect_bind [OF effect_ask], rule effect_if, goal_cases)
  case 1
  then show ?case using assms(1) by (simp add: call_balance_acquire)
next
  case (2 g d)
  show ?case by (intro effect_bind [OF effect_ask] effect_bind [OF effect_tell]) (use 2 assms(2-4) in \<open>simp add: call_balance_acquire\<close>)
qed

lemma effect_connect_rdma: "effect connect_rdma connect_balanced"
  unfolding connect_rdma_def
proof (rule effect_bind [OF effect_ask], rule effect_if, goal_cases)
  case (2 ec d)
  show ?case
  proof (rule effect_bind [OF effect_ask], rule effect_if, goal_cases)
    case (1 cid e)
    then show ?case using 2
      by (intro effect_bind [OF effect_tell] effect_return)
        (simp add: connect_balanced_def buffers_failed_def call_balance_acquire fun_eq_iff)
  next
    case (2 cid e)
    have o: "d r + (e r + x r) = two_owned cid ec r + x r" for r x
      using 2 \<open>d = _\<close> \<open>ec \<noteq> 0\<close> by (simp add: call_balance_acquire two_owned_def)
    show ?case unfolding o
      by (intro effect_addrinfo effect_if effect_bind_nothing [OF effect_maybe_wait]
          effect_connect_gives_up effect_connect_tail) (simp_all add: 2 \<open>ec \<noteq> 0\<close> buffers_failed_def)
  qed
qed (simp add: connect_balanced_def buffers_failed_def call_balance_acquire effect_return)

end
