(* ===== verification/Rdma_Props.thy ===== *)
theory Rdma_Props
  imports Rdma_Correct
begin

text \<open>What the RDMA transport promises: frames, remote reads and the release of resources.\<close>

text \<open>C18: A frame whose type is an enumerator and that \<^verbatim>\<open>write_frame\<close> accepts is posted as one message; written by the
  network into any posted receive buffer of the other side, it is read back as the same frame once the
  completion for that buffer is polled and the buffer is posted again.
\<close>

theorem rdma_frame_roundtrip:
  assumes "msg_enumerator (ftype f)" "rdma_write_frame True sent f = (True, Some msg)"
    and "unat i < length recv" "length (recv ! unat i) = kMaxFrameBytes"
  shows "rdma_read_frame t (Cq_done True i # ps) (recv[unat i := deliver msg (recv ! unat i)]) True = Inr (Some f)"
proof -
  have "msg = frame_image f" "4 + (1 + length (body f)) \<le> kMaxFrameBytes"
    using assms(2) by (auto simp: rdma_write_frame_def split: if_splits)
  then show ?thesis using assms read_delivered by simp
qed

lemma rdma_frame_roundtrip_witness:
  "rdma_read_frame 0 [Cq_done True 1] ([[], replicate kMaxFrameBytes 0][unat (1 :: u64) :=
     deliver (frame_image \<lparr>ftype = QUERY_REQ, body = [1, 2, 3]\<rparr>) ([[], replicate kMaxFrameBytes 0] ! unat (1 :: u64))]) True
   = Inr (Some \<lparr>ftype = QUERY_REQ, body = [1, 2, 3]\<rparr>)"
  by (rule rdma_frame_roundtrip [where sent = "[Cq_empty, Cq_done True 1]"])
    (simp_all add: rdma_write_frame_def kMaxFrameBytes_def kDefaultCmTimeoutMs_def)

text \<open>C27: The length test of \<^verbatim>\<open>read_frame\<close> adds 4 to a 32-bit field, so a message whose length field is one of the four
  largest values passes it, and the copy of the body reads past the end of the receive buffer.
\<close>

theorem rdma_length_check_wraps:
  assumes "2 ^ 32 - 4 \<le> unat pl" "take 4 (recv ! unat i) = be_u32 pl"
    and "unat i < length recv" "length (recv ! unat i) = kMaxFrameBytes"
  shows "rdma_read_frame t (Cq_done True i # ps) recv True = Inl Overread"
  using assms by (rule read_wrapped)

lemma le_bytes_numeral: "le_bytes (numeral k) v = of_nat (v mod 256) # le_bytes (pred_numeral k) (v div 256)"
  by (simp only: numeral_eq_Suc le_bytes.simps)

lemma rdma_length_check_wraps_witness:
  "rdma_read_frame 0 [Cq_done True 0] [[255, 255, 255, 255, 4] @ replicate (kMaxFrameBytes - 5) 0] True = Inl Overread"
proof -
  have "be_u32 4294967295 = [255, 255, 255, 255]"
    by (simp add: be_u32_def u32_bytes_def le_bytes_numeral)
  then show ?thesis
    by (intro rdma_length_check_wraps [where pl = 4294967295]) (simp_all add: kMaxFrameBytes_def)
qed

text \<open>C26: When every posted read returns the remote bytes, \<^verbatim>\<open>read_remote\<close> splits any size into reads of at most one buffer
  and returns exactly the requested remote bytes in order.
\<close>

theorem rdma_read_remote_exact:
  assumes "\<And>a n. n \<le> kMaxFrameBytes \<Longrightarrow> fetch a rkey n = Some (map (\<lambda>i. mem (a + of_nat i)) [0..<n])"
  shows "read_remote fetch True addr rkey sz = Some (map (\<lambda>i. mem (addr + of_nat i)) [0..<sz])"
  using read_remote_loop_ok [of fetch rkey mem 0 sz addr] assms by (simp add: read_remote_def)

lemma rdma_read_remote_exact_witness:
  "read_remote (\<lambda>a k n. if n \<le> kMaxFrameBytes then Some (map (\<lambda>i. (\<lambda>x. ucast x) (a + of_nat i)) [0..<n]) else None) True 250 7 10
   = Some (map (\<lambda>i. ucast (250 + of_nat i :: u64)) [0..<10])"
  by (rule rdma_read_remote_exact) simp

text \<open>C17: Whatever the verbs library answers, \<^verbatim>\<open>connect_rdma\<close> releases what it acquired exactly once: on success after the
  returned transport is closed, on every failure before it returns, with one exception.  When the buffers cannot
  be registered, the transport has been closed already, and the identifier and the event channel are destroyed a
  second time.
\<close>

theorem rdma_connect_releases:
  "case run_state connect_rdma v of
     (Inr t, v1) \<Rightarrow> balance r (calls (snd (run_state (rdma_close t) v1))) = balance r (calls v)
   | (Inl e, v1) \<Rightarrow> if e = buffers_failed
       then \<exists>cid ec. cid \<noteq> 0 \<and> ec \<noteq> 0 \<and> (\<forall>r. balance r (calls v1) = balance r (calls v) - two_owned cid ec r)
       else balance r (calls v1) = balance r (calls v)"
proof -
  obtain res v1 where run: "run_state connect_rdma v = (res, v1)" by fastforce
  note b = effectD [OF effect_connect_rdma run]
  show ?thesis
  proof (cases res)
    case (Inl e)
    then show ?thesis using b run by (auto simp: connect_balanced_def fun_eq_iff algebra_simps split: if_splits) 
  next
    case (Inr t)
    obtain t' v2 where cl: "run_state (rdma_close t) v1 = (t', v2)" by fastforce
    from effectD [OF effect_close cl] b Inr
    have "balance r (calls v2) - balance r (calls v1) = - owns t r" "balance r (calls v1) - balance r (calls v) = owns t r"
      by (simp_all add: connect_balanced_def fun_eq_iff)
    then show ?thesis using run Inr cl by simp
  qed
qed

text \<open>A run that fails at the second buffer destroys the identifier 2 and the channel 1 twice.\<close>

definition failing_verbs :: verbs where
  "failing_verbs = \<lparr>answers = [1, 2, 1, 1, 3, 4, 5, 1, 6, 0], cm_polls = [Cm_event ADDR_RESOLVED 2], calls = []\<rparr>"

lemma rdma_connect_releases_witness:
  "fst (run_state connect_rdma failing_verbs) = Inl buffers_failed
   \<and> count_list (calls (snd (run_state connect_rdma failing_verbs))) (Destroy_id 2, 0) = 2
   \<and> (\<exists>cid ec. cid \<noteq> 0 \<and> ec \<noteq> 0 \<and> (\<forall>r. balance r (calls (snd (run_state connect_rdma failing_verbs))) = - two_owned cid ec r))"
proof -
  have "fst (run_state connect_rdma failing_verbs) = Inl buffers_failed
   \<and> count_list (calls (snd (run_state connect_rdma failing_verbs))) (Destroy_id 2, 0) = 2"
    by (simp add: failing_verbs_def connect_rdma_def give_up_def make_transport_def build_qp_def init_buffers_def
        rdma_close_def release_def ask_def tell_def wait_cm_def)
  moreover obtain res v1 where "run_state connect_rdma failing_verbs = (res, v1)" by fastforce
  moreover have "balance r (calls failing_verbs) = 0" for r by (simp add: failing_verbs_def balance_def)
  ultimately show ?thesis using rdma_connect_releases [of failing_verbs] by simp
qed

end
