(* ===== verification/Snapshot.thy ===== *)
theory Snapshot
  imports Transport
begin

text \<open>
  The RDMA snapshot of \<^verbatim>\<open>src/common/rdma_snapshot.h\<close>: an Edge groups its dataset by predicted leaf
  (\<^verbatim>\<open>build_rdma_snapshot\<close> of \<^verbatim>\<open>src/edge/edge_server.cpp\<close>) into a descriptor array and a record array
  in registered memory; an End reads one descriptor and then that leaf's records
  (\<^verbatim>\<open>rdma_snapshot_lookup\<close> of \<^verbatim>\<open>src/end/end_node.cpp\<close>).  Both arrays are byte images, as the one-sided
  reads see them.
\<close>

section \<open>Structures and their byte images\<close>

definition kSnapshotMagic :: u32 where "kSnapshotMagic = 0x504c5244"
definition kSnapshotVersion :: u32 where "kSnapshotVersion = 1"

record SnapshotInfo =
  magic :: u32
  version :: u32
  desc_addr :: u64
  desc_rkey :: u32
  leaf_count :: u32
  record_addr :: u64
  record_rkey :: u32
  record_count :: u64

record LeafDescriptor =
  offset :: u64
  cnt :: u32
  desc_version :: u32
  first_key :: u64

record KeyPayloadRecord =
  rec_key :: u64
  rec_payload :: u64

text \<open>Four padding bytes follow \<^verbatim>\<open>record_rkey\<close>; their value is what memory held.\<close>

definition info_bytes :: "byte list \<Rightarrow> SnapshotInfo \<Rightarrow> byte list" where
  "info_bytes pad i = u32_bytes (magic i) @ u32_bytes (version i) @ u64_bytes (desc_addr i)
     @ u32_bytes (desc_rkey i) @ u32_bytes (leaf_count i) @ u64_bytes (record_addr i)
     @ u32_bytes (record_rkey i) @ take 4 (pad @ [0, 0, 0, 0]) @ u64_bytes (record_count i)"

definition info_of_bytes :: "byte list \<Rightarrow> SnapshotInfo" where
  "info_of_bytes b = \<lparr>magic = bytes_u32 (take 4 b), version = bytes_u32 (take 4 (drop 4 b)),
     desc_addr = bytes_u64 (take 8 (drop 8 b)), desc_rkey = bytes_u32 (take 4 (drop 16 b)),
     leaf_count = bytes_u32 (take 4 (drop 20 b)), record_addr = bytes_u64 (take 8 (drop 24 b)),
     record_rkey = bytes_u32 (take 4 (drop 32 b)), record_count = bytes_u64 (take 8 (drop 40 b))\<rparr>"

definition sizeof_info :: nat where "sizeof_info = 48"
definition sizeof_desc :: nat where "sizeof_desc = 24"
definition sizeof_record :: nat where "sizeof_record = 16"

definition desc_bytes :: "LeafDescriptor \<Rightarrow> byte list" where
  "desc_bytes d = u64_bytes (offset d) @ u32_bytes (cnt d) @ u32_bytes (desc_version d) @ u64_bytes (first_key d)"

definition desc_of_bytes :: "byte list \<Rightarrow> LeafDescriptor" where
  "desc_of_bytes b = \<lparr>offset = bytes_u64 (take 8 b), cnt = bytes_u32 (take 4 (drop 8 b)),
     desc_version = bytes_u32 (take 4 (drop 12 b)), first_key = bytes_u64 (take 8 (drop 16 b))\<rparr>"

definition record_bytes :: "KeyPayloadRecord \<Rightarrow> byte list" where
  "record_bytes r = u64_bytes (rec_key r) @ u64_bytes (rec_payload r)"

definition record_of_bytes :: "byte list \<Rightarrow> KeyPayloadRecord" where
  "record_of_bytes b = \<lparr>rec_key = bytes_u64 (take 8 b), rec_payload = bytes_u64 (take 8 (drop 8 b))\<rparr>"

fun records_of_bytes :: "nat \<Rightarrow> byte list \<Rightarrow> KeyPayloadRecord list" where
  "records_of_bytes 0 b = []"
| "records_of_bytes (Suc n) b = record_of_bytes b # records_of_bytes n (drop 16 b)"

section \<open>Building the snapshot\<close>

record EdgeRdmaSnapshot =
  descs :: "LeafDescriptor list"
  records :: "KeyPayloadRecord list"

definition default_desc :: LeafDescriptor where
  "default_desc = \<lparr>offset = 0, cnt = 0, desc_version = kSnapshotVersion, first_key = 0\<rparr>"

text \<open>The leaf of a predicted position: clamped to the table.\<close>

definition clamp_leaf :: "nat \<Rightarrow> int \<Rightarrow> nat" where
  "clamp_leaf n predicted = (let leaf = (if predicted < 0 then 0 else nat predicted)
     in if leaf \<ge> n then n - 1 else leaf)"

text \<open>The first loop: count the keys of every leaf.\<close>

fun count_leaves :: "(double \<Rightarrow> int) \<Rightarrow> double list \<Rightarrow> LeafDescriptor list \<Rightarrow> u32 list \<times> LeafDescriptor list" where
  "count_leaves predict [] ds = ([], ds)"
| "count_leaves predict (k # ks) ds =
     (let leaf = clamp_leaf (length ds) (predict k);
          ds' = ds[leaf := (ds ! leaf)\<lparr>cnt := cnt (ds ! leaf) + 1\<rparr>];
          (ids, ds'') = count_leaves predict ks ds'
      in (of_nat leaf # ids, ds''))"

text \<open>The second loop: running offsets, counts reset to serve as fill cursors.\<close>

fun assign_offsets :: "u64 \<Rightarrow> LeafDescriptor list \<Rightarrow> LeafDescriptor list" where
  "assign_offsets off [] = []"
| "assign_offsets off (d # ds) = d\<lparr>offset := off, cnt := 0\<rparr> # assign_offsets (off + ucast (cnt d)) ds"

text \<open>The third loop: every pair goes to its leaf's next place.\<close>

fun fill_records ::
    "u32 list \<Rightarrow> (double \<times> payload_t) list \<Rightarrow> EdgeRdmaSnapshot \<Rightarrow> EdgeRdmaSnapshot" where
  "fill_records (i # ids) ((k, p) # kps) s =
     (let d = descs s ! unat i; pos = unat (offset d + ucast (cnt d)) in
      fill_records ids kps
        \<lparr>descs = (descs s)[unat i := d\<lparr>cnt := cnt d + 1\<rparr>],
         records = (records s)[pos := \<lparr>rec_key = bits_of_double k, rec_payload = p\<rparr>]\<rparr>)"
| "fill_records _ _ s = s"

definition build_rdma_snapshot ::
    "u64 list \<Rightarrow> (double \<Rightarrow> int) \<Rightarrow> double list \<Rightarrow> payload_t list \<Rightarrow> EdgeRdmaSnapshot" where
  "build_rdma_snapshot table predict keys payloads =
     (let n = length table in
      if table = [] \<or> keys = [] then \<lparr>descs = replicate n default_desc, records = []\<rparr>
      else let ds0 = map (\<lambda>k. default_desc\<lparr>first_key := k\<rparr>) table;
               (ids, ds1) = count_leaves predict keys ds0;
               s = \<lparr>descs = assign_offsets 0 ds1,
                    records = replicate (length keys) \<lparr>rec_key = 0, rec_payload = 0\<rparr>\<rparr>
           in fill_records ids (zip keys payloads) s)"

section \<open>Looking up a key\<close>

datatype RDMALookupStatus = HIT | MISS | UNAVAILABLE

record EndRdmaSnapshot =
  sinfo :: SnapshotInfo
  sloaded :: bool

text \<open>
  \<^verbatim>\<open>remote addr rkey n\<close> is the outcome of \<^verbatim>\<open>read_remote\<close>: the bytes read, or \<^term>\<open>None\<close>.  The comparison
  \<^verbatim>\<open>rec.key == key\<close> is on doubles, so a NaN record matches nothing.
\<close>

fun scan_records :: "double \<Rightarrow> KeyPayloadRecord list \<Rightarrow> payload_t option" where
  "scan_records key [] = None"
| "scan_records key (r # rs) = (if double_of_bits (rec_key r) = Some key then Some (rec_payload r)
     else scan_records key rs)"

definition rdma_snapshot_lookup ::
    "(u64 \<Rightarrow> u32 \<Rightarrow> nat \<Rightarrow> byte list option) \<Rightarrow> bool \<Rightarrow> EndRdmaSnapshot \<Rightarrow> double \<Rightarrow> int \<Rightarrow> payload_t
     \<Rightarrow> RDMALookupStatus \<times> payload_t" where
  "rdma_snapshot_lookup remote supports snap key predicted_slot out =
    (let info = sinfo snap in
     if \<not> sloaded snap \<or> \<not> supports then (UNAVAILABLE, out)
     else if magic info \<noteq> kSnapshotMagic \<or> leaf_count info = 0 \<or> predicted_slot < 0 then (UNAVAILABLE, out)
     else let leaf_id = (word_of_int predicted_slot :: u32);
              leaf_id = (if leaf_id \<ge> leaf_count info then leaf_count info - 1 else leaf_id)
     in case remote (desc_addr info + ucast leaf_id * of_nat sizeof_desc) (desc_rkey info) sizeof_desc of
          None \<Rightarrow> (UNAVAILABLE, out)
        | Some db \<Rightarrow>
          let desc = desc_of_bytes db in
          if desc_version desc \<noteq> version info \<or> cnt desc = 0 then (UNAVAILABLE, out)
          else if offset desc + ucast (cnt desc) > record_count info then (UNAVAILABLE, out)
          else case remote (record_addr info + offset desc * of_nat sizeof_record) (record_rkey info)
                      (unat (cnt desc) * sizeof_record) of
              None \<Rightarrow> (UNAVAILABLE, out)
            | Some rb \<Rightarrow> (case scan_records key (records_of_bytes (unat (cnt desc)) rb) of
                 Some p \<Rightarrow> (HIT, p) | None \<Rightarrow> (MISS, out)))"

section \<open>Byte images\<close>

lemma desc_roundtrip [simp]: "desc_of_bytes (desc_bytes d @ rest) = d"
  by (simp add: desc_of_bytes_def desc_bytes_def)

lemma length_desc_bytes [simp]: "length (desc_bytes d) = 24"
  by (simp add: desc_bytes_def)

lemma record_roundtrip [simp]: "record_of_bytes (record_bytes r @ rest) = r"
  by (simp add: record_of_bytes_def record_bytes_def)

lemma length_record_bytes [simp]: "length (record_bytes r) = 16"
  by (simp add: record_bytes_def)

lemma records_roundtrip: "records_of_bytes (length rs) (concat (map record_bytes rs) @ rest) = rs"
  by (induction rs) simp_all

lemma length_info_bytes [simp]: "length (info_bytes pad i) = 48"
  by (simp add: info_bytes_def)

lemma info_roundtrip [simp]: "info_of_bytes (info_bytes pad i) = i"
  by (simp add: info_of_bytes_def info_bytes_def drop_Cons')

end
