(* ===== verification/Edge_Server.thy ===== *)
theory Edge_Server
  imports Plin_Index Range_Map Snapshot
begin

text \<open>
  The Edge server of \<^verbatim>\<open>src/edge/edge_server.cpp\<close>: the registry of connected Ends, the per-End request
  handler, the handler of frames from the Cloud, and the startup that loads the Edge's share of the
  data.  Connections live in a store of their own (the code shares them by pointer); a connection
  carries the outcomes of its future writes, an exhausted list meaning success.  The handlers use the
  index through \<^verbatim>\<open>find\<close> and \<^verbatim>\<open>find_through_net\<close> only; \<^verbatim>\<open>plin_ops\<close> are these operations of the loaded index.
\<close>

section \<open>Connections and runtime state\<close>

record conn =
  write_outcomes :: "bool list"
  sent :: "Frame list"
  closed :: bool
  remote_read :: bool

type_synonym conn_id = nat

record EdgeRuntime =
  rt_edge_id :: int
  rt_ends :: "int \<rightharpoonup> conn_id"
  conns :: "conn_id \<Rightarrow> conn"

record index_ops =
  op_find :: "fp \<Rightarrow> payload_t \<Rightarrow> bool \<times> payload_t"
  op_find_through_net :: "fp \<Rightarrow> payload_t \<Rightarrow> int \<Rightarrow> int \<times> payload_t"

text \<open>
  What the handlers are given: the index, the parameter frame, the snapshot (\<^term>\<open>None\<close> for a null
  pointer), memory registration and the round trip to the Cloud.
\<close>

record edge_env =
  idx :: index_ops
  param_frame :: Frame
  rdma_snapshot :: "EdgeRdmaSnapshot option"
  register_memory :: "conn_id \<Rightarrow> byte list \<Rightarrow> (u64 \<times> u32) option"
  cloud_fetch :: "Frame \<Rightarrow> Frame option"

definition conn_write :: "Frame \<Rightarrow> conn \<Rightarrow> bool \<times> conn" where
  "conn_write f c = (if closed c then (False, c)
     else case write_outcomes c of [] \<Rightarrow> (True, c\<lparr>sent := sent c @ [f]\<rparr>)
     | ok # rest \<Rightarrow> (ok, c\<lparr>write_outcomes := rest, sent := (if ok then sent c @ [f] else sent c)\<rparr>))"

definition set_conn :: "conn_id \<Rightarrow> conn \<Rightarrow> EdgeRuntime \<Rightarrow> EdgeRuntime" where
  "set_conn t c rt = rt\<lparr>conns := (conns rt)(t := c)\<rparr>"

definition write_locked :: "conn_id \<Rightarrow> Frame \<Rightarrow> EdgeRuntime \<Rightarrow> bool \<times> EdgeRuntime" where
  "write_locked t f rt = (let (ok, c) = conn_write f (conns rt t) in (ok, set_conn t c rt))"

definition close_conn :: "conn_id \<Rightarrow> EdgeRuntime \<Rightarrow> EdgeRuntime" where
  "close_conn t rt = set_conn t ((conns rt t)\<lparr>closed := True\<rparr>) rt"

definition register_end :: "int \<Rightarrow> conn_id \<Rightarrow> EdgeRuntime \<Rightarrow> EdgeRuntime" where
  "register_end i t rt = rt\<lparr>rt_ends := (rt_ends rt)(i \<mapsto> t)\<rparr>"

definition unregister_transport :: "conn_id \<Rightarrow> EdgeRuntime \<Rightarrow> EdgeRuntime" where
  "unregister_transport t rt = rt\<lparr>rt_ends := (\<lambda>i. if rt_ends rt i = Some t then None else rt_ends rt i)\<rparr>"

definition send_to_end :: "int \<Rightarrow> Frame \<Rightarrow> EdgeRuntime \<Rightarrow> bool \<times> EdgeRuntime" where
  "send_to_end i f rt = (case rt_ends rt i of None \<Rightarrow> (False, rt) | Some t \<Rightarrow> write_locked t f rt)"

section \<open>Frames from the Cloud\<close>

definition handle_cloud_hot_update :: "Frame \<Rightarrow> EdgeRuntime \<Rightarrow> EdgeRuntime" where
  "handle_cloud_hot_update f rt = (case read_u32 (body f) 0 of None \<Rightarrow> rt
     | Some target \<Rightarrow> if length (body f) < 4 then rt
        else snd (send_to_end (sint target) \<lparr>ftype = HOT_UPDATE, body = drop 4 (body f)\<rparr> rt))"

text \<open>The response it writes to the Cloud's descriptor; the outcome of the write is ignored.\<close>

definition handle_cloud_cross_req :: "edge_env \<Rightarrow> Frame \<Rightarrow> Frame" where
  "handle_cloud_cross_req env req = (case read_double (body req) 8 of None \<Rightarrow> make_fetch_resp ERROR 0
     | Some key \<Rightarrow> let (found, payload) = op_find (idx env) key 0
        in make_fetch_resp (if found then OK else NOT_FOUND) payload)"

fun cloud_receiver_loop :: "edge_env \<Rightarrow> Frame list \<Rightarrow> EdgeRuntime \<Rightarrow> Frame list \<times> EdgeRuntime" where
  "cloud_receiver_loop env [] rt = ([], rt)"
| "cloud_receiver_loop env (f # fs) rt =
     (if ftype f = HEARTBEAT_ACK then cloud_receiver_loop env fs rt
      else if ftype f = HOT_UPDATE then cloud_receiver_loop env fs (handle_cloud_hot_update f rt)
      else if ftype f = CROSS_EDGE_REQ
      then let (out, rt') = cloud_receiver_loop env fs rt in (handle_cloud_cross_req env f # out, rt')
      else cloud_receiver_loop env fs rt)"

text \<open>
  Up to thirty attempts to connect, then the heartbeat that announces the Edge; the attempts'
  outcomes and the outcome of the write are given.
\<close>

definition connect_cloud_control :: "(nat \<Rightarrow> 'fd option) \<Rightarrow> bool \<Rightarrow> int \<Rightarrow> ('fd \<times> Frame) option" where
  "connect_cloud_control attempt write_ok eid =
     (case List.find (\<lambda>i. attempt i \<noteq> None) [1..<31] of None \<Rightarrow> None
      | Some i \<Rightarrow> if write_ok
          then map_option (\<lambda>fd. (fd, \<lparr>ftype = HEARTBEAT, body = append_u32 [] (word_of_int eid)\<rparr>)) (attempt i)
          else None)"

section \<open>The parameter push and the snapshot announcement\<close>

definition make_param_push :: "Param list list \<Rightarrow> Frame" where
  "make_param_push ps = \<lparr>ftype = PLIN_PARAM_PUSH, body = serialize_parameter ps\<rparr>"

definition make_rdma_snapshot_info :: "SnapshotInfo \<Rightarrow> Frame" where
  "make_rdma_snapshot_info i = \<lparr>ftype = RDMA_SNAPSHOT_INFO, body = info_bytes [] i\<rparr>"

definition send_rdma_snapshot_info_if_supported :: "edge_env \<Rightarrow> conn_id \<Rightarrow> EdgeRuntime \<Rightarrow> EdgeRuntime" where
  "send_rdma_snapshot_info_if_supported env t rt =
    (if \<not> remote_read (conns rt t) then rt
     else case rdma_snapshot env of None \<Rightarrow> rt
     | Some s \<Rightarrow> if descs s = [] \<or> records s = [] then rt
        else case (register_memory env t (concat (map desc_bytes (descs s))),
                   register_memory env t (concat (map record_bytes (records s)))) of
          (Some (da, dk), Some (ra, rk)) \<Rightarrow>
             snd (write_locked t (make_rdma_snapshot_info
               \<lparr>magic = kSnapshotMagic, version = kSnapshotVersion, desc_addr = da, desc_rkey = dk,
                leaf_count = of_nat (length (descs s)), record_addr = ra, record_rkey = rk,
                record_count = of_nat (length (records s))\<rparr>) rt)
        | _ \<Rightarrow> rt)"

section \<open>The handler of one End\<close>

definition fetch :: "index_ops \<Rightarrow> fp \<Rightarrow> int \<Rightarrow> bool \<times> payload_t" where
  "fetch ix key slot = (if slot \<ge> 0
     then let (ret, payload) = op_find_through_net ix key 0 slot
          in if ret = 1 then (True, payload) else op_find ix key payload
     else op_find ix key 0)"

text \<open>One turn of the request loop; the flag says whether the loop goes on.\<close>

definition handle_req :: "edge_env \<Rightarrow> conn_id \<Rightarrow> Frame \<Rightarrow> EdgeRuntime \<Rightarrow> bool \<times> EdgeRuntime" where
  "handle_req env t req rt =
    (if ftype req = HEARTBEAT then
       (True, case read_u32 (body req) 0 of None \<Rightarrow> rt | Some i \<Rightarrow> register_end (sint i) t rt)
     else if ftype req = PLIN_PARAM_PUSH \<and> body req = [] then
       (let (ok, rt) = write_locked t (param_frame env) rt
        in if ok then (True, send_rdma_snapshot_info_if_supported env t rt) else (False, rt))
     else if ftype req = CROSS_EDGE_REQ then
       (let resp = (case cloud_fetch env req of None \<Rightarrow> make_fetch_resp ERROR 0 | Some r \<Rightarrow> r)
        in write_locked t resp rt)
     else if ftype req \<noteq> EDGE_FETCH_REQ \<or> length (body req) < 8 then (False, rt)
     else let key = double_of_bits (bytes_u64 (take 8 (body req)));
              slot = (if length (body req) \<ge> 12 then sint (bytes_u32 (take 4 (drop 8 (body req)))) else - 1);
              (found, payload) = fetch (idx env) key slot
          in write_locked t (make_fetch_resp (if found then OK else NOT_FOUND) payload) rt)"

fun serve :: "edge_env \<Rightarrow> conn_id \<Rightarrow> Frame list \<Rightarrow> EdgeRuntime \<Rightarrow> EdgeRuntime" where
  "serve env t [] rt = close_conn t (unregister_transport t rt)"
| "serve env t (f # fs) rt = (let (go, rt') = handle_req env t f rt
     in if go then serve env t fs rt' else close_conn t (unregister_transport t rt'))"

text \<open>
  \<^verbatim>\<open>handle_end\<close> on the frames its transport delivers before \<^verbatim>\<open>read_frame\<close> fails.
\<close>

definition handle_end :: "edge_env \<Rightarrow> conn_id \<Rightarrow> Frame list \<Rightarrow> EdgeRuntime \<Rightarrow> EdgeRuntime" where
  "handle_end env t fs rt = (let (ok, rt) = write_locked t (param_frame env) rt
     in if \<not> ok then close_conn t rt
        else serve env t fs (send_rdma_snapshot_info_if_supported env t rt))"

section \<open>Startup\<close>

text \<open>
  A data file is the list of rows that \<^verbatim>\<open>in >> k >> p\<close> extracts before it fails, \<^term>\<open>None\<close> when it
  cannot be opened.
\<close>

type_synonym data_file = "(double \<times> payload_t) list option"

record Dataset =
  ds_keys :: "double list"
  ds_payloads :: "payload_t list"

definition load_range :: "data_file \<Rightarrow> double \<Rightarrow> double \<Rightarrow> Dataset" where
  "load_range file lo hi = (case file of None \<Rightarrow> \<lparr>ds_keys = [], ds_payloads = []\<rparr>
     | Some rows \<Rightarrow> let rows' = filter (\<lambda>(k, p). lo \<le> k \<and> k \<le> hi) rows
        in \<lparr>ds_keys = map fst rows', ds_payloads = map snd rows'\<rparr>)"

text \<open>\<^verbatim>\<open>1e300\<close> and \<^verbatim>\<open>-1e300\<close>, the start values of the bounds over the managed Ends' ranges.\<close>

definition e300 :: double where
  "e300 = Dbl 9094988921128908188"

definition edge_range :: "RangeMap \<Rightarrow> EdgeInfo \<Rightarrow> double \<times> double" where
  "edge_range rm e = fold (\<lambda>i r. fold (\<lambda>en (lo, hi).
       if end_id en = i then (min lo (key_lo en), max hi (key_hi en)) else (lo, hi)) (ends rm) r)
     (end_ids e) (e300, Dbl (- ordinal e300))"

record edge_args =
  ea_id :: int
  ea_topology :: string
  ea_data :: string
  ea_mode :: Mode
  ea_offset :: int

definition default_edge_args :: edge_args where
  "default_edge_args = \<lparr>ea_id = 0, ea_topology = ''src/common/topology.yaml'', ea_data = ''Data.txt'',
     ea_mode = AUTO, ea_offset = 1000\<rparr>"

text \<open>An option that is the last word, or not known, is skipped.\<close>

fun parse_edge_args :: "edge_args \<Rightarrow> string list \<Rightarrow> cpp_exception + edge_args" where
  "parse_edge_args a (k # v # rest) =
     (if k = ''--id'' then bind_res (stoi v) (\<lambda>i. parse_edge_args (a\<lparr>ea_id := i\<rparr>) rest)
      else if k = ''--topology'' then parse_edge_args (a\<lparr>ea_topology := v\<rparr>) rest
      else if k = ''--data'' then parse_edge_args (a\<lparr>ea_data := v\<rparr>) rest
      else if k = ''--end-transport'' then parse_edge_args (a\<lparr>ea_mode := parse_mode v\<rparr>) rest
      else if k = ''--rdma-port-offset'' then bind_res (stoi v) (\<lambda>i. parse_edge_args (a\<lparr>ea_offset := i\<rparr>) rest)
      else parse_edge_args a (v # rest))"
| "parse_edge_args a _ = Inr a"

text \<open>
  What \<^verbatim>\<open>main\<close> sets up before it serves: its own entry of the topology, its dataset, the index that
  \<^verbatim>\<open>bulk_load\<close> makes of it with the tables that are pushed, and which listeners run.  The exit code
  is 1 on every early return.  The outside world is a record of its answers; \<^verbatim>\<open>listen_rdma\<close> is
  \<^term>\<open>None\<close> in a build without RDMA.
\<close>

record plin_tables =
  t_ops :: index_ops
  t_parameter :: "Param list list"
  t_local_table :: "u64 list"

record 'fd edge_setup =
  su_edge :: EdgeInfo
  su_dataset :: Dataset
  su_tables :: plin_tables
  su_param_frame :: Frame
  su_snapshot :: EdgeRdmaSnapshot
  su_cloud :: "('fd \<times> Frame) option"
  su_runtime :: EdgeRuntime
  su_rdma_port :: "u16 option"
  su_tcp_port :: "u16 option"

text \<open>
  What a run can end in besides an exit code: an uncaught exception, a failed assertion or an access
  outside a vector, or a loop that does not end.
\<close>

datatype fatal = Throws cpp_exception | Undefined | Hangs

definition catch_throw :: "cpp_exception + 'a \<Rightarrow> fatal + 'a" where
  "catch_throw = map_sum Throws id"

definition completed :: "'a run \<Rightarrow> fatal + 'a" where
  "completed r = (case r of None \<Rightarrow> Inl Hangs | Some (Inl _) \<Rightarrow> Inl Undefined | Some (Inr x) \<Rightarrow> Inr x)"

text \<open>
  The operations of the loaded index that the handlers call.  The Edge never changes its index, and a lookup
  leaves the blocks of the current version as they are, so each call sees the same index.  A NaN fails every
  comparison: it is looked up in the right buffer and not found.  A call that is undefined or does not return
  counts as not found here; \<^verbatim>\<open>index_serves\<close>, which the properties of the servers assume and which is proved for a
  loaded index, excludes both for the keys of the index.
\<close>

definition plin_ops :: "PlinIndex \<Rightarrow> index_ops" where
  "plin_ops ix = \<lparr>op_find = (\<lambda>k p. case k of None \<Rightarrow> (False, p)
       | Some k \<Rightarrow> (case plin_find k p ix of Some (Inr (b, v, _)) \<Rightarrow> (b, v) | _ \<Rightarrow> (False, p))),
     op_find_through_net = (\<lambda>k p slot. case k of None \<Rightarrow> (0, p)
       | Some k \<Rightarrow> (case find_through_net k p slot ix of Some (Inr (ret, v, _)) \<Rightarrow> (int ret, v) | _ \<Rightarrow> (0, p)))\<rparr>"

definition tables_of :: "PlinIndex \<Rightarrow> plin_tables" where
  "tables_of ix = \<lparr>t_ops = plin_ops ix, t_parameter = meta_parameter ix, t_local_table = map (bits_of_double \<circ> fst) (local_table ix)\<rparr>"

definition defined_slot :: "predict_err + int \<Rightarrow> int" where
  "defined_slot r = (case r of Inl _ \<Rightarrow> - 1 | Inr i \<Rightarrow> i)"

definition snapshot_of :: "plin_tables \<Rightarrow> Dataset \<Rightarrow> fatal + EdgeRdmaSnapshot" where
  "snapshot_of tb ds = (let predict = (\<lambda>k. predict_pos (t_parameter tb) (Some k)) in
     if t_local_table tb \<noteq> [] \<and> list_ex (\<lambda>k. predict k = Inl empty_level) (ds_keys ds) then Inl Undefined
     else Inr (build_rdma_snapshot (t_local_table tb) (defined_slot \<circ> predict) (ds_keys ds) (ds_payloads ds)))"

record 'fd edge_world =
  topology_file :: "string \<Rightarrow> string option"
  data_files :: "string \<Rightarrow> data_file"
  connect_attempt :: "nat \<Rightarrow> 'fd option"
  heartbeat_ok :: bool
  listen_rdma :: "(u16 \<Rightarrow> bool) option"
  listen_tcp :: "u16 \<Rightarrow> bool"
  transports :: "conn_id \<Rightarrow> conn"

definition edge_main :: "'fd edge_world \<Rightarrow> string list \<Rightarrow> fatal + (int + 'fd edge_setup)" where
  "edge_main w argv =
    bind_res (catch_throw (parse_edge_args default_edge_args argv)) (\<lambda>a.
    if ea_id a \<le> 0 then Inr (Inl 1)
    else bind_res (catch_throw (load empty_map (topology_file w (ea_topology a)))) (\<lambda>(ok, rm).
    if \<not> ok then Inr (Inl 1)
    else case List.find (\<lambda>e. edge_id e = ea_id a) (edges rm) of None \<Rightarrow> Inr (Inl 1)
    | Some e \<Rightarrow>
      let (lo, hi) = edge_range rm e;
          ds = load_range (data_files w (ea_data a)) lo hi
      in if ds_keys ds = [] then Inr (Inl 1)
      else bind_res (completed (bulk_load (zip (ds_keys ds) (ds_payloads ds)) PlinIndex_new)) (\<lambda>ix.
        let tb = tables_of ix in bind_res (snapshot_of tb ds) (\<lambda>snap.
        let cloud = connect_cloud_control (connect_attempt w) (heartbeat_ok w) (ea_id a);
            rp = rdma_port_for (edge_port e) (ea_offset a);
            rdma = (ea_mode a \<noteq> TCP \<and> (case listen_rdma w of None \<Rightarrow> False | Some l \<Rightarrow> l rp));
            su = \<lparr>su_edge = e, su_dataset = ds, su_tables = tb, su_param_frame = make_param_push (t_parameter tb),
               su_snapshot = snap, su_cloud = cloud,
               su_runtime = \<lparr>rt_edge_id = ea_id a, rt_ends = Map.empty, conns = transports w\<rparr>,
               su_rdma_port = (if rdma then Some rp else None),
               su_tcp_port = (if ea_mode a = RDMA then None else Some (edge_port e))\<rparr>
        in if ea_mode a = RDMA then (if rdma then Inr (Inr su) else Inr (Inl 1))
           else if listen_tcp w (edge_port e) then Inr (Inr su) else Inr (Inl 1)))))"

end
