(* ===== verification/Hot_Cache.thy ===== *)
theory Hot_Cache
  imports Kv_Store Machine_Double "HOL-Library.AList"
begin

text \<open>
  The End's hot-key cache of \<^verbatim>\<open>src/end/hot_cache.h\<close>, over the vendored concurrent hash map: its
  entries as an association list without duplicate keys.  A NaN key compares unequal to every
  key, so an entry under it is stored anew each time and never found again; only its count is kept.
\<close>

record HotCache =
  entries :: "(double \<times> payload_t) list"
  nan_entries :: nat

definition hc_empty :: HotCache where
  "hc_empty = \<lparr>entries = [], nan_entries = 0\<rparr>"

definition hc_find :: "double \<Rightarrow> HotCache \<Rightarrow> payload_t option" where
  "hc_find k c = map_of (entries c) k"

definition hc_upsert :: "fp \<Rightarrow> payload_t \<Rightarrow> HotCache \<Rightarrow> HotCache" where
  "hc_upsert k v c = (case k of None \<Rightarrow> c\<lparr>nan_entries := nan_entries c + 1\<rparr>
     | Some d \<Rightarrow> c\<lparr>entries := AList.update d v (entries c)\<rparr>)"

fun hc_batch_upsert :: "(fp \<times> payload_t) list \<Rightarrow> HotCache \<Rightarrow> HotCache" where
  "hc_batch_upsert [] c = c"
| "hc_batch_upsert ((k, v) # kv) c = hc_batch_upsert kv (hc_upsert k v c)"

definition hc_size :: "HotCache \<Rightarrow> nat" where
  "hc_size c = length (entries c) + nan_entries c"

definition hc_clear :: "HotCache \<Rightarrow> HotCache" where
  "hc_clear c = hc_empty"

definition hc_inv :: "HotCache \<Rightarrow> bool" where
  "hc_inv c \<longleftrightarrow> distinct (map fst (entries c))"

section \<open>The cache is a key-value store\<close>

lemma hc_find_upsert: "hc_find l (hc_upsert (Some k) v c) = (if l = k then Some v else hc_find l c)"
  by (auto simp: hc_find_def hc_upsert_def update_conv')

lemma hc_find_upsert_nan [simp]: "hc_find l (hc_upsert None v c) = hc_find l c"
  by (simp add: hc_find_def hc_upsert_def)

lemma hc_inv_upsert: "hc_inv c \<Longrightarrow> hc_inv (hc_upsert k v c)"
  by (auto simp: hc_inv_def hc_upsert_def distinct_update split: option.split)

lemma hc_empty_simps: "hc_inv hc_empty" "hc_find k hc_empty = None"
  by (simp_all add: hc_inv_def hc_find_def hc_empty_def)

interpretation hc: kv_store "\<lambda>k v c. Some (hc_upsert (Some k) v c)" hc_find hc_inv "\<lambda>_ _. True" hc_empty
  by unfold_locales (auto simp: hc_find_upsert hc_inv_upsert hc_empty_simps)

lemma hc_batch_put_all:
  "Some (hc_batch_upsert (map (\<lambda>(k, v). (Some k, v)) kv) c) = hc.put_all kv c"
  by (induction kv arbitrary: c) auto

lemma hc_find_batch:
  "hc_inv c \<Longrightarrow> hc_find l (hc_batch_upsert (map (\<lambda>(k, v). (Some k, v)) kv) c)
    = (case map_of (rev kv) l of Some v \<Rightarrow> Some v | None \<Rightarrow> hc_find l c)"
  by (rule hc.get_put_all) (simp_all add: hc_batch_put_all)

text \<open>Every answer of the cache is one it was given.\<close>

lemma hc_find_batch_source:
  "hc_find l (hc_batch_upsert kv c) = Some v \<Longrightarrow> (Some l, v) \<in> set kv \<or> hc_find l c = Some v"
proof (induction kv c rule: hc_batch_upsert.induct)
  case (2 k w kv c)
  then consider "(Some l, v) \<in> set kv" | "hc_find l (hc_upsert k w c) = Some v" by auto
  then show ?case by cases (cases k; auto simp: hc_find_upsert split: if_splits)+
qed simp

lemma hc_size_upsert:
  "hc_inv c \<Longrightarrow> hc_size (hc_upsert (Some k) v c) = hc_size c + (if hc_find k c = None then 1 else 0)"
proof -
  have "length (AList.update k v xs) = length xs + (if map_of xs k = None then 1 else 0)" for xs
    by (induction xs) auto
  then show ?thesis by (simp add: hc_size_def hc_upsert_def hc_find_def)
qed

end
