(* ===== verification/End_Node.thy ===== *)
theory End_Node
  imports Edge_Server Hot_Cache
begin

text \<open>
  The End node of \<^verbatim>\<open>src/end/end_node.cpp\<close>: its slice of the data, the four-stage lookup, the frames it
  exchanges with its Edge, the control frames it applies and the replay of a workload.  The Edge
  at the other end of the transport is a parameter: a state, what it does with a frame written to
  it, and what a one-sided read of its registered memory gives.  Frames under way to the End
  wait in the inbox; a read without a waiting frame fails.  The effects of a run that ends in an
  exception (a malformed parameter push, a prediction over an empty level) are its error value.
\<close>

section \<open>The transport to the Edge\<close>

record 'p peer_ops =
  deliver :: "'p \<Rightarrow> Frame \<Rightarrow> bool \<times> 'p \<times> Frame list"
  supports_remote_read :: bool
  read_remote :: "'p \<Rightarrow> u64 \<Rightarrow> u32 \<Rightarrow> nat \<Rightarrow> byte list option"

record 'p edge_link =
  peer :: 'p
  inbox :: "Frame list"

definition link_write :: "'p peer_ops \<Rightarrow> Frame \<Rightarrow> 'p edge_link \<Rightarrow> bool \<times> 'p edge_link" where
  "link_write ops f l = (let (ok, p, fs) = deliver ops (peer l) f in (ok, \<lparr>peer = p, inbox = inbox l @ fs\<rparr>))"

definition link_read :: "'p edge_link \<Rightarrow> Frame option \<times> 'p edge_link" where
  "link_read l = (case inbox l of [] \<Rightarrow> (None, l) | f # fs \<Rightarrow> (Some f, l\<lparr>inbox := fs\<rparr>))"

section \<open>Local data\<close>

text \<open>
  The vendored \<^verbatim>\<open>tlx::btree_map\<close> by its contract: an ordered map whose \<^verbatim>\<open>insert\<close> keeps an existing
  entry.  \<^verbatim>\<open>loaded\<close> counts the rows in the range, duplicates included.
\<close>

record LocalStore =
  btree :: "(double \<times> payload_t) list"
  n_loaded :: nat

fun ordered_insert :: "double \<Rightarrow> payload_t \<Rightarrow> (double \<times> payload_t) list \<Rightarrow> (double \<times> payload_t) list" where
  "ordered_insert k p [] = [(k, p)]"
| "ordered_insert k p ((l, q) # xs) = (if k < l then (k, p) # (l, q) # xs
     else if k = l then (l, q) # xs else (l, q) # ordered_insert k p xs)"

definition end_load_range :: "data_file \<Rightarrow> double \<Rightarrow> double \<Rightarrow> LocalStore" where
  "end_load_range file lo hi = (case file of None \<Rightarrow> \<lparr>btree = [], n_loaded = 0\<rparr>
     | Some rows \<Rightarrow> fold (\<lambda>(k, p) s. if lo \<le> k \<and> k \<le> hi
          then \<lparr>btree = ordered_insert k p (btree s), n_loaded = n_loaded s + 1\<rparr> else s)
        rows \<lparr>btree = [], n_loaded = 0\<rparr>)"

fun first_key_in_rows :: "(double \<times> payload_t) list \<Rightarrow> double \<Rightarrow> double \<Rightarrow> double option" where
  "first_key_in_rows [] lo hi = None"
| "first_key_in_rows ((k, p) # rows) lo hi = (if lo \<le> k \<and> k \<le> hi then Some k
     else if k > hi then None else first_key_in_rows rows lo hi)"

definition find_first_key_in_range :: "data_file \<Rightarrow> double \<Rightarrow> double \<Rightarrow> double option" where
  "find_first_key_in_range file lo hi = Option.bind file (\<lambda>rows. first_key_in_rows rows lo hi)"

section \<open>Control frames\<close>

datatype end_err = Bad_push load_err | Bad_prediction predict_err

record end_caches =
  plin_cache :: ParentPlinCache
  hot_cache :: HotCache
  rdma_snap :: EndRdmaSnapshot

fun hot_pairs :: "nat \<Rightarrow> byte list \<Rightarrow> (fp \<times> payload_t) list" where
  "hot_pairs 0 b = []"
| "hot_pairs (Suc n) b = (double_of_bits (bytes_u64 (take 8 b)), bytes_u64 (take 8 (drop 8 b)))
     # hot_pairs n (drop 16 b)"

definition apply_edge_control_frame :: "Frame \<Rightarrow> end_caches \<Rightarrow> end_err + end_caches" where
  "apply_edge_control_frame f c =
    (if ftype f = PLIN_PARAM_PUSH then
       (case load_from_push (body f) (plin_cache c) of Inl e \<Rightarrow> Inl (Bad_push e)
        | Inr p \<Rightarrow> Inr (c\<lparr>plin_cache := p\<rparr>))
     else if ftype f = HOT_UPDATE then
       Inr (c\<lparr>hot_cache := hc_batch_upsert (hot_pairs (length (body f) div 16) (body f)) (hot_cache c)\<rparr>)
     else if ftype f = RDMA_SNAPSHOT_INFO then
       Inr (if length (body f) \<noteq> sizeof_info then c
         else let i = info_of_bytes (body f) in
           c\<lparr>rdma_snap := \<lparr>sinfo = i, sloaded = (magic i = kSnapshotMagic \<and> leaf_count i > 0 \<and> record_count i > 0)\<rparr>\<rparr>)
     else Inr c)"

definition control_frame :: "Frame \<Rightarrow> bool" where
  "control_frame f \<longleftrightarrow> ftype f = PLIN_PARAM_PUSH \<or> ftype f = HOT_UPDATE \<or> ftype f = RDMA_SNAPSHOT_INFO"

section \<open>Fetching from the Edge\<close>

text \<open>
  \<^verbatim>\<open>read_fetch_response\<close> over the frames that arrive: \<^verbatim>\<open>out\<close> and \<^verbatim>\<open>stale\<close> are reference arguments and
  keep their value unless a response is decoded.
\<close>

fun read_fetch_response ::
    "Frame list \<Rightarrow> end_caches \<Rightarrow> payload_t \<Rightarrow> bool \<Rightarrow> end_err + (bool \<times> payload_t \<times> bool \<times> Frame list \<times> end_caches)" where
  "read_fetch_response [] c out stale = Inr (False, out, stale, [], c)"
| "read_fetch_response (f # fs) c out stale =
     (if ftype f = EDGE_FETCH_RESP then
        (if length (body f) < 9 then Inr (False, out, stale, fs, c)
         else Inr (hd (body f) = status_byte OK, bytes_u64 (take 8 (drop 1 (body f))),
                length (body f) > 9 \<and> body f ! 9 \<noteq> 0, fs, c))
      else if control_frame f
      then bind_res (apply_edge_control_frame f c) (\<lambda>c. read_fetch_response fs c out stale)
      else Inr (False, out, stale, fs, c))"

definition receive ::
    "end_caches \<Rightarrow> payload_t \<Rightarrow> 'p edge_link \<Rightarrow> end_err + (bool \<times> payload_t \<times> bool \<times> 'p edge_link \<times> end_caches)" where
  "receive c out l = bind_res (read_fetch_response (inbox l) c out False)
     (\<lambda>(ok, out, stale, fs, c). Inr (ok, out, stale, l\<lparr>inbox := fs\<rparr>, c))"

definition fetch_req :: "double \<Rightarrow> int \<Rightarrow> Frame" where
  "fetch_req key slot = \<lparr>ftype = EDGE_FETCH_REQ,
     body = u64_bytes (bits_of_double key) @ u32_bytes (word_of_int slot)\<rparr>"

definition edge_fetch ::
    "'p peer_ops \<Rightarrow> double \<Rightarrow> int \<Rightarrow> payload_t \<Rightarrow> 'p edge_link \<Rightarrow> end_caches
     \<Rightarrow> end_err + (bool \<times> payload_t \<times> bool \<times> 'p edge_link \<times> end_caches)" where
  "edge_fetch ops key slot out l c = (let (ok, l) = link_write ops (fetch_req key slot) l
     in if \<not> ok then Inr (False, out, False, l, c) else receive c out l)"

definition cross_req :: "u64 \<Rightarrow> double \<Rightarrow> Frame" where
  "cross_req request_id key = \<lparr>ftype = CROSS_EDGE_REQ,
     body = append_u64 [] request_id @ u64_bytes (bits_of_double key)\<rparr>"

definition cross_edge_fetch ::
    "'p peer_ops \<Rightarrow> u64 \<Rightarrow> double \<Rightarrow> payload_t \<Rightarrow> 'p edge_link \<Rightarrow> end_caches
     \<Rightarrow> end_err + (bool \<times> payload_t \<times> 'p edge_link \<times> end_caches)" where
  "cross_edge_fetch ops request_id key out l c = (let (ok, l) = link_write ops (cross_req request_id key) l
     in if \<not> ok then Inr (False, out, l, c)
        else bind_res (receive c out l) (\<lambda>(ok, out, _, l, c). Inr (ok, out, l, c)))"

definition send_end_heartbeat :: "'p peer_ops \<Rightarrow> int \<Rightarrow> 'p edge_link \<Rightarrow> bool \<times> 'p edge_link" where
  "send_end_heartbeat ops i l = link_write ops \<lparr>ftype = HEARTBEAT, body = append_u32 [] (word_of_int i)\<rparr> l"

text \<open>The second read has a 50 ms timeout; its frame is optional.\<close>

definition request_param_push ::
    "'p peer_ops \<Rightarrow> 'p edge_link \<Rightarrow> end_caches \<Rightarrow> end_err + (bool \<times> 'p edge_link \<times> end_caches)" where
  "request_param_push ops l c = (let (ok, l) = link_write ops \<lparr>ftype = PLIN_PARAM_PUSH, body = []\<rparr> l
     in if \<not> ok then Inr (False, l, c)
     else case link_read l of (None, l) \<Rightarrow> Inr (False, l, c)
     | (Some f, l) \<Rightarrow> if ftype f \<noteq> PLIN_PARAM_PUSH then Inr (False, l, c)
       else bind_res (apply_edge_control_frame f c) (\<lambda>c.
         case link_read l of (None, l) \<Rightarrow> Inr (True, l, c)
         | (Some f, l) \<Rightarrow> bind_res (apply_edge_control_frame f c) (\<lambda>c. Inr (True, l, c))))"

section \<open>The four-stage lookup\<close>

datatype LookupStage = LOCAL | HOT_CACHE | EDGE_PLIN | CROSS_EDGE

record LookupResult =
  found :: bool
  payload :: payload_t
  stage :: LookupStage

record Stats =
  hit_local :: nat
  hit_hot :: nat
  hit_edge :: nat
  miss_cross :: nat

record 'p EndNode =
  node_id :: int
  rm :: RangeMap
  store :: LocalStore
  edge :: "'p edge_link option"
  caches :: end_caches
  stats :: Stats
  next_request_id :: u64

definition local_stage :: "double \<Rightarrow> 'p EndNode \<Rightarrow> LookupResult" where
  "local_stage k n = (case map_of (btree (store n)) k of
     Some p \<Rightarrow> \<lparr>found = True, payload = p, stage = LOCAL\<rparr>
   | None \<Rightarrow> \<lparr>found = False, payload = 0, stage = LOCAL\<rparr>)"

text \<open>Stage three: the RDMA snapshot first, then the request to the Edge.\<close>

definition edge_finish ::
    "'p peer_ops \<Rightarrow> double \<Rightarrow> bool \<times> payload_t \<times> bool \<times> 'p edge_link \<times> end_caches
     \<Rightarrow> end_err + (LookupResult \<times> 'p edge_link \<times> end_caches)" where
  "edge_finish ops k = (\<lambda>(ok, v, stale, l, c).
     let r = \<lparr>found = ok, payload = v, stage = EDGE_PLIN\<rparr>;
         c = (if ok then c\<lparr>hot_cache := hc_upsert (Some k) v (hot_cache c)\<rparr> else c)
     in if stale then bind_res (request_param_push ops l c) (\<lambda>(_, l, c). Inr (r, l, c))
        else Inr (r, l, c))"

definition edge_stage ::
    "'p peer_ops \<Rightarrow> double \<Rightarrow> 'p edge_link \<Rightarrow> end_caches
     \<Rightarrow> end_err + (LookupResult \<times> 'p edge_link \<times> end_caches)" where
  "edge_stage ops k l c =
    (case cache_predict_pos (plin_cache c) (Some k) of Inl e \<Rightarrow> Inl (Bad_prediction e)
     | Inr slot \<Rightarrow>
       let (status, v) = rdma_snapshot_lookup (read_remote ops (peer l)) (supports_remote_read ops) (rdma_snap c) k slot 0
       in bind_res (if status = HIT then Inr (True, v, False, l, c) else edge_fetch ops k slot v l c)
         (edge_finish ops k))"

definition cross_stage ::
    "'p peer_ops \<Rightarrow> u64 \<Rightarrow> double \<Rightarrow> 'p edge_link \<Rightarrow> end_caches
     \<Rightarrow> end_err + (LookupResult \<times> 'p edge_link \<times> end_caches)" where
  "cross_stage ops request_id k l c = bind_res (cross_edge_fetch ops request_id k 0 l c) (\<lambda>(ok, v, l, c).
     Inr (\<lparr>found = ok, payload = v, stage = CROSS_EDGE\<rparr>, l,
       if ok then c\<lparr>hot_cache := hc_upsert (Some k) v (hot_cache c)\<rparr> else c))"

definition lookup :: "'p peer_ops \<Rightarrow> double \<Rightarrow> 'p EndNode \<Rightarrow> end_err + (LookupResult \<times> 'p EndNode)" where
  "lookup ops k n =
    (if locate_end (rm n) k = node_id n then
       Inr (local_stage k n, n\<lparr>stats := (stats n)\<lparr>hit_local := hit_local (stats n) + 1\<rparr>\<rparr>)
     else case hc_find k (hot_cache (caches n)) of
       Some v \<Rightarrow> Inr (\<lparr>found = True, payload = v, stage = HOT_CACHE\<rparr>,
                 n\<lparr>stats := (stats n)\<lparr>hit_hot := hit_hot (stats n) + 1\<rparr>\<rparr>)
     | None \<Rightarrow>
       let tgt_end = locate_end (rm n) k in
       if tgt_end \<ge> 0 \<and> same_edge (rm n) tgt_end (node_id n) then
         (case edge n of
            None \<Rightarrow> Inr (\<lparr>found = False, payload = 0, stage = LOCAL\<rparr>,
                 n\<lparr>stats := (stats n)\<lparr>hit_edge := hit_edge (stats n) + 1\<rparr>\<rparr>)
          | Some l \<Rightarrow> bind_res (edge_stage ops k l (caches n)) (\<lambda>(r, l, c).
              Inr (r, n\<lparr>edge := Some l, caches := c, stats := (stats n)\<lparr>hit_edge := hit_edge (stats n) + 1\<rparr>\<rparr>)))
       else (case (if tgt_end \<ge> 0 then edge n else None) of
            Some l \<Rightarrow> bind_res (cross_stage ops (next_request_id n) k l (caches n)) (\<lambda>(r, l, c).
              Inr (r, n\<lparr>edge := Some l, caches := c, next_request_id := next_request_id n + 1,
                 stats := (stats n)\<lparr>miss_cross := miss_cross (stats n) + 1\<rparr>\<rparr>))
          | None \<Rightarrow> Inr (\<lparr>found = False, payload = 0, stage = CROSS_EDGE\<rparr>,
                 n\<lparr>stats := (stats n)\<lparr>miss_cross := miss_cross (stats n) + 1\<rparr>\<rparr>)))"

definition register_with_edge :: "'p peer_ops \<Rightarrow> 'p EndNode \<Rightarrow> bool \<times> 'p EndNode" where
  "register_with_edge ops n = (case edge n of None \<Rightarrow> (False, n)
     | Some l \<Rightarrow> let (ok, l) = send_end_heartbeat ops (node_id n) l in (ok, n\<lparr>edge := Some l\<rparr>))"

end
