(* ===== verification/End_Run.thy ===== *)
theory End_Run
  imports End_Node
begin

text \<open>
  What an End does with its node (\<^verbatim>\<open>src/end/end_node.cpp\<close>): the loops that wait for and drain control
  frames, the replay of a workload file, the self test and \<^verbatim>\<open>main\<close>.  Loops bounded by a clock take
  the outcomes of the reads they get to make, \<^term>\<open>None\<close> for a timeout.
\<close>

section \<open>Loops over control frames\<close>

fun wait_push :: "Frame option list \<Rightarrow> end_caches \<Rightarrow> end_err + end_caches" where
  "wait_push [] c = Inr c"
| "wait_push (r # rs) c = (if loaded (plin_cache c) then Inr c
     else case r of None \<Rightarrow> wait_push rs c
     | Some f \<Rightarrow> bind_res (apply_edge_control_frame f c) (wait_push rs))"

fun read_followers :: "Frame list \<Rightarrow> end_caches \<Rightarrow> end_err + end_caches" where
  "read_followers [] c = Inr c"
| "read_followers (f # fs) c = bind_res (apply_edge_control_frame f c) (\<lambda>c.
     if ftype f \<noteq> RDMA_SNAPSHOT_INFO then Inr c else read_followers fs c)"

text \<open>\<^verbatim>\<open>polls\<close> are the reads before the deadline, \<^verbatim>\<open>fs\<close> the frames the second loop finds.\<close>

definition wait_initial_plin_push ::
    "Frame option list \<Rightarrow> Frame list \<Rightarrow> end_caches \<Rightarrow> end_err + (bool \<times> end_caches)" where
  "wait_initial_plin_push polls fs c = bind_res (wait_push polls c) (\<lambda>c.
     bind_res (read_followers fs c) (\<lambda>c. Inr (loaded (plin_cache c), c)))"

fun edge_receiver :: "Frame list \<Rightarrow> end_caches \<Rightarrow> end_err + end_caches" where
  "edge_receiver [] c = Inr c"
| "edge_receiver (f # fs) c = bind_res (apply_edge_control_frame f c) (edge_receiver fs)"

fun drain_edge_control_frames :: "Frame option list \<Rightarrow> end_caches \<Rightarrow> end_err + end_caches" where
  "drain_edge_control_frames [] c = Inr c"
| "drain_edge_control_frames (None # rs) c = drain_edge_control_frames rs c"
| "drain_edge_control_frames (Some f # rs) c = (if control_frame f
     then bind_res (apply_edge_control_frame f c) (drain_edge_control_frames rs)
     else drain_edge_control_frames rs c)"

section \<open>Workload replay\<close>

text \<open>\<^verbatim>\<open>std::getline(ss, tok, ',')\<close>: it fails at the end of the stream.\<close>

definition getline_comma :: "string \<Rightarrow> (string \<times> string) option" where
  "getline_comma s = (if s = [] then None
     else Some (takeWhile (\<lambda>c. c \<noteq> CHR '','') s, drop 1 (dropWhile (\<lambda>c. c \<noteq> CHR '','') s)))"

definition parse_workload_position :: "string \<Rightarrow> int option" where
  "parse_workload_position line = (if line = [] \<or> starts_with line ''timestamp'' then None
     else Option.bind (getline_comma line) (\<lambda>(_, s).
          Option.bind (getline_comma s) (\<lambda>(_, s).
          Option.bind (getline_comma s) (\<lambda>(tok, _).
          case stoi tok of Inl _ \<Rightarrow> None | Inr p \<Rightarrow> if p > 0 then Some p else None))))"

fun take_positions :: "nat \<Rightarrow> string list \<Rightarrow> int list" where
  "take_positions 0 ls = []"
| "take_positions (Suc n) [] = []"
| "take_positions (Suc n) (l # ls) = (case parse_workload_position l of
     None \<Rightarrow> take_positions (Suc n) ls | Some p \<Rightarrow> p # take_positions n ls)"

definition load_workload_positions :: "string option \<Rightarrow> nat \<Rightarrow> int list" where
  "load_workload_positions file limit = (case file of None \<Rightarrow> []
     | Some text \<Rightarrow> take_positions limit (lines_of [] text))"

text \<open>
  The merge of the sorted requests with the rows: \<^verbatim>\<open>resolved\<close> and \<^verbatim>\<open>keys\<close> are one array of optional keys.
\<close>

fun merge_row :: "int \<Rightarrow> double \<Rightarrow> (int \<times> nat) list \<Rightarrow> double option list \<Rightarrow> (int \<times> nat) list \<times> double option list" where
  "merge_row row k [] keys = ([], keys)"
| "merge_row row k ((p, i) # rs) keys = (if p < row then merge_row row k rs keys
     else if p = row then merge_row row k rs (keys[i := Some k]) else ((p, i) # rs, keys))"

fun merge_rows :: "int \<Rightarrow> (double \<times> payload_t) list \<Rightarrow> (int \<times> nat) list \<Rightarrow> double option list \<Rightarrow> double option list" where
  "merge_rows row rows [] keys = keys"
| "merge_rows row [] (r # rs) keys = keys"
| "merge_rows row ((k, p) # rows) (r # rs) keys =
     (let (rs', keys') = merge_row (row + 1) k (r # rs) keys in merge_rows (row + 1) rows rs' keys')"

definition resolve_positions_to_keys :: "data_file \<Rightarrow> int list \<Rightarrow> double list" where
  "resolve_positions_to_keys file positions = (case file of None \<Rightarrow> []
     | Some rows \<Rightarrow>
        let requests = sort_key fst (filter (\<lambda>r. fst r > 0) (zip positions [0..<length positions]))
        in List.map_filter id (merge_rows 0 rows requests (replicate (length positions) None)))"

definition load_benchmark_keys :: "string option \<Rightarrow> data_file \<Rightarrow> nat \<Rightarrow> double list" where
  "load_benchmark_keys workload rows limit = (let ps = load_workload_positions workload limit
     in if ps = [] then [] else resolve_positions_to_keys rows ps)"

record bench =
  b_found :: nat
  b_stage1 :: nat
  b_stage2 :: nat
  b_stage3 :: nat
  b_stage4 :: nat

definition tally :: "LookupResult \<Rightarrow> bench \<Rightarrow> bench" where
  "tally r b = (let b = (if found r then b\<lparr>b_found := b_found b + 1\<rparr> else b) in
     case stage r of LOCAL \<Rightarrow> b\<lparr>b_stage1 := b_stage1 b + 1\<rparr> | HOT_CACHE \<Rightarrow> b\<lparr>b_stage2 := b_stage2 b + 1\<rparr>
     | EDGE_PLIN \<Rightarrow> b\<lparr>b_stage3 := b_stage3 b + 1\<rparr> | CROSS_EDGE \<Rightarrow> b\<lparr>b_stage4 := b_stage4 b + 1\<rparr>)"

fun bench_loop :: "'p peer_ops \<Rightarrow> double list \<Rightarrow> bench \<Rightarrow> 'p EndNode \<Rightarrow> end_err + (bench \<times> 'p EndNode)" where
  "bench_loop ops [] b n = Inr (b, n)"
| "bench_loop ops (k # ks) b n = bind_res (lookup ops k n) (\<lambda>(r, n). bench_loop ops ks (tally r b) n)"

definition run_benchmark :: "'p peer_ops \<Rightarrow> double list \<Rightarrow> 'p EndNode \<Rightarrow> end_err + (bench \<times> 'p EndNode)" where
  "run_benchmark ops keys n = bench_loop ops keys \<lparr>b_found = 0, b_stage1 = 0, b_stage2 = 0, b_stage3 = 0, b_stage4 = 0\<rparr> n"

section \<open>Self test\<close>

text \<open>The printed verdicts: local hits, then the verdicts for a sibling, its replay and a remote key.\<close>

record verdicts =
  v_local :: "nat \<times> nat"
  v_sibling :: "(double \<times> bool \<times> bool) option"
  v_remote :: "(double \<times> bool) option"

fun count_local :: "'p peer_ops \<Rightarrow> double list \<Rightarrow> 'p EndNode \<Rightarrow> end_err + (nat \<times> 'p EndNode)" where
  "count_local ops [] n = Inr (0, n)"
| "count_local ops (k # ks) n = bind_res (lookup ops k n) (\<lambda>(r, n).
     bind_res (count_local ops ks n) (\<lambda>(h, n). Inr ((if found r \<and> stage r = LOCAL then h + 1 else h), n)))"

definition pick_sibling :: "RangeMap \<Rightarrow> int \<Rightarrow> data_file \<Rightarrow> double option" where
  "pick_sibling m my_id file = (case List.map_filter (\<lambda>(sid, e). if end_id e = sid
       then find_first_key_in_range file (key_lo e) (key_hi e) else None)
     (List.product (siblings_of m my_id) (ends m)) of [] \<Rightarrow> None | k # _ \<Rightarrow> Some k)"

definition pick_remote :: "RangeMap \<Rightarrow> int \<Rightarrow> data_file \<Rightarrow> double option" where
  "pick_remote m my_id file = (case List.map_filter (\<lambda>e. if \<not> same_edge m (end_id e) my_id
       then find_first_key_in_range file (key_lo e) (key_hi e) else None) (ends m) of [] \<Rightarrow> None | k # _ \<Rightarrow> Some k)"

definition self_test ::
    "'p peer_ops \<Rightarrow> double list \<Rightarrow> RangeMap \<Rightarrow> int \<Rightarrow> data_file \<Rightarrow> 'p EndNode \<Rightarrow> end_err + (verdicts \<times> 'p EndNode)" where
  "self_test ops sample m my_id file n = bind_res (count_local ops sample n) (\<lambda>(hits, n).
     bind_res (case pick_sibling m my_id file of None \<Rightarrow> Inr (None, n)
       | Some k \<Rightarrow> bind_res (lookup ops k n) (\<lambda>(r, n). bind_res (lookup ops k n) (\<lambda>(h, n).
           Inr (Some (k, found r \<and> stage r = EDGE_PLIN, found h \<and> stage h = HOT_CACHE), n)))) (\<lambda>(sib, n).
     bind_res (case pick_remote m my_id file of None \<Rightarrow> Inr (None, n)
       | Some k \<Rightarrow> bind_res (lookup ops k n) (\<lambda>(r, n). Inr (Some (k, found r \<and> stage r = CROSS_EDGE), n))) (\<lambda>(rem, n).
     Inr (\<lparr>v_local = (hits, length sample), v_sibling = sib, v_remote = rem\<rparr>, n))))"

section \<open>Main\<close>

text \<open>Every \<^verbatim>\<open>step\<close>-th key of the ordered store, at most a thousand.\<close>

definition sample_keys :: "(double \<times> payload_t) list \<Rightarrow> double list" where
  "sample_keys bt = (let step = max 1 (length bt div 1000) in
     take 1000 (map fst (map snd (filter (\<lambda>(i, _). i mod step = 0) (zip [0..<length bt] bt)))))"

text \<open>\<^verbatim>\<open>std::to_string\<close> of an \<^verbatim>\<open>int\<close>.\<close>

fun nat_digits :: "nat \<Rightarrow> string" where
  "nat_digits n = (if n < 10 then [char_of (48 + n)] else nat_digits (n div 10) @ [char_of (48 + n mod 10)])"

definition to_string :: "int \<Rightarrow> string" where
  "to_string i = (if i < 0 then CHR ''-'' # nat_digits (nat (- i)) else nat_digits (nat i))"

declare nat_digits.simps [simp del]

definition default_model_path_for :: "(string \<Rightarrow> bool) \<Rightarrow> int \<Rightarrow> string" where
  "default_model_path_for exists_file i =
     (let per_end = ''hot_lstm/models/end_lstm_'' @ to_string i @ ''.pt'' in
      if exists_file per_end then per_end
      else if exists_file ''hot_lstm/models/end_lstm_1.pt'' then ''hot_lstm/models/end_lstm_1.pt''
      else ''hot_lstm/models/end_lstm.pt'')"

record end_args =
  en_id :: int
  en_topology :: string
  en_data :: string
  en_model :: string
  en_bench_workload :: string
  en_bench_queries :: nat
  en_bench_wait_ms :: int
  en_mode :: Mode
  en_offset :: int

definition default_end_args :: end_args where
  "default_end_args = \<lparr>en_id = 0, en_topology = ''src/common/topology.yaml'', en_data = ''Data.txt'', en_model = [],
     en_bench_workload = [], en_bench_queries = 0, en_bench_wait_ms = 0, en_mode = AUTO, en_offset = 1000\<rparr>"

text \<open>\<^verbatim>\<open>std::stoull\<close>: a minus sign negates the 64-bit value.\<close>

definition stoull :: "string \<Rightarrow> cpp_exception + nat" where
  "stoull s = (let (neg, r) = split_sign (dropWhile c_space s); ds = takeWhile is_digit r; v = digits_val 0 ds
     in if ds = [] then Inl invalid_argument
        else if v \<ge> 2 ^ 64 then Inl out_of_range
        else Inr (nat (if neg then (2 ^ 64 - v) mod 2 ^ 64 else v)))"

fun parse_end_args :: "end_args \<Rightarrow> string list \<Rightarrow> cpp_exception + end_args" where
  "parse_end_args a (k # v # rest) =
     (if k = ''--id'' then bind_res (stoi v) (\<lambda>i. parse_end_args (a\<lparr>en_id := i\<rparr>) rest)
      else if k = ''--topology'' then parse_end_args (a\<lparr>en_topology := v\<rparr>) rest
      else if k = ''--data'' then parse_end_args (a\<lparr>en_data := v\<rparr>) rest
      else if k = ''--model'' then parse_end_args (a\<lparr>en_model := v\<rparr>) rest
      else if k = ''--bench-workload'' then parse_end_args (a\<lparr>en_bench_workload := v\<rparr>) rest
      else if k = ''--bench-queries'' then bind_res (stoull v) (\<lambda>i. parse_end_args (a\<lparr>en_bench_queries := i\<rparr>) rest)
      else if k = ''--bench-wait-ms'' then bind_res (stoi v) (\<lambda>i. parse_end_args (a\<lparr>en_bench_wait_ms := i\<rparr>) rest)
      else if k = ''--edge-transport'' then parse_end_args (a\<lparr>en_mode := parse_mode v\<rparr>) rest
      else if k = ''--rdma-port-offset'' then bind_res (stoi v) (\<lambda>i. parse_end_args (a\<lparr>en_offset := i\<rparr>) rest)
      else parse_end_args a (v # rest))"
| "parse_end_args a _ = Inr a"

datatype end_fatal = End_throws cpp_exception | End_fails end_err

text \<open>
  The world of an End: files, the outcomes of its connection attempts and its Edge, the reads of the
  waiting loops, and the frames that arrive while it runs.
\<close>

record 'p end_world =
  w_topology :: "string \<Rightarrow> string option"
  w_data :: "string \<Rightarrow> data_file"
  w_text :: "string \<Rightarrow> string option"
  w_connect :: "nat \<Rightarrow> string \<Rightarrow> u16 \<Rightarrow> Mode \<Rightarrow> int \<Rightarrow> 'p edge_link option"
  w_ops :: "'p peer_ops"
  w_polls :: "Frame option list"
  w_followers :: "Frame list"
  w_drained :: "Frame option list"
  w_later :: "Frame list"

definition connect_with_retry :: "'p end_world \<Rightarrow> EdgeInfo \<Rightarrow> end_args \<Rightarrow> 'p edge_link option" where
  "connect_with_retry w e a = (case List.map_filter
       (\<lambda>i. w_connect w i (edge_host e) (edge_port e) (en_mode a) (en_offset a)) [0..<20] of
     [] \<Rightarrow> None | l # _ \<Rightarrow> Some l)"

definition run_end :: "'p end_world \<Rightarrow> end_args \<Rightarrow> 'p EndNode \<Rightarrow> end_err + (int \<times> bench option \<times> 'p EndNode)" where
  "run_end w a n =
    (if en_bench_workload a \<noteq> [] then
       (if en_bench_queries a = 0 then Inr (2, None, n)
        else bind_res (if edge n \<noteq> None \<and> en_bench_wait_ms a > 0
            then bind_res (drain_edge_control_frames (w_drained w) (caches n)) (\<lambda>c. Inr (n\<lparr>caches := c\<rparr>)) else Inr n) (\<lambda>n.
          let keys = load_benchmark_keys (w_text w (en_bench_workload a)) (w_data w (en_data a)) (en_bench_queries a)
          in if keys = [] then Inr (2, None, n)
             else bind_res (run_benchmark (w_ops w) keys n) (\<lambda>(b, n). Inr (0, Some b, n))))
     else if edge n = None then Inr (0, None, n)
     else bind_res (edge_receiver (w_later w) (caches n)) (\<lambda>c. Inr (0, None, n\<lparr>caches := c\<rparr>)))"

definition start_node :: "'p end_world \<Rightarrow> 'p EndNode \<Rightarrow> end_err + 'p EndNode" where
  "start_node w n = (case edge n of None \<Rightarrow> Inr n
     | Some l \<Rightarrow> bind_res (wait_initial_plin_push (w_polls w) (w_followers w) (caches n)) (\<lambda>(_, c).
         Inr (snd (register_with_edge (w_ops w) (n\<lparr>caches := c\<rparr>)))))"

definition new_node :: "int \<Rightarrow> RangeMap \<Rightarrow> LocalStore \<Rightarrow> 'p edge_link option \<Rightarrow> 'p EndNode" where
  "new_node i m s l = \<lparr>node_id = i, rm = m, store = s, edge = l,
     caches = \<lparr>plin_cache = \<lparr>parameter = []\<rparr>, hot_cache = hc_empty,
       rdma_snap = \<lparr>sinfo = \<lparr>magic = kSnapshotMagic, version = kSnapshotVersion, desc_addr = 0, desc_rkey = 0,
         leaf_count = 0, record_addr = 0, record_rkey = 0, record_count = 0\<rparr>, sloaded = False\<rparr>\<rparr>,
     stats = \<lparr>hit_local = 0, hit_hot = 0, hit_edge = 0, miss_cross = 0\<rparr>, next_request_id = 1\<rparr>"

definition lift_end :: "end_err + 'a \<Rightarrow> end_fatal + 'a" where
  "lift_end = map_sum End_fails id"

definition lift_cpp :: "cpp_exception + 'a \<Rightarrow> end_fatal + 'a" where
  "lift_cpp = map_sum End_throws id"

definition end_main :: "'p end_world \<Rightarrow> string list \<Rightarrow> end_fatal + (int \<times> (verdicts \<times> bench option \<times> 'p EndNode) option)" where
  "end_main w argv =
    bind_res (lift_cpp (parse_end_args default_end_args argv)) (\<lambda>a.
    if en_id a \<le> 0 then Inr (1, None)
    else bind_res (lift_cpp (load empty_map (w_topology w (en_topology a)))) (\<lambda>(ok, m).
    if \<not> ok then Inr (1, None)
    else case List.find (\<lambda>e. end_id e = en_id a) (ends m) of None \<Rightarrow> Inr (1, None)
    | Some me \<Rightarrow> (case List.find (\<lambda>e. edge_id e = end_edge_id me) (edges m) of None \<Rightarrow> Inr (1, None)
    | Some eg \<Rightarrow>
      let file = w_data w (en_data a); s = end_load_range file (key_lo me) (key_hi me)
      in if n_loaded s = 0 then Inr (1, None)
      else let n = new_node (en_id a) m s (connect_with_retry w eg a) in
        bind_res (lift_end (start_node w n)) (\<lambda>n.
        bind_res (lift_end (self_test (w_ops w) (sample_keys (btree s)) m (en_id a) file n)) (\<lambda>(v, n).
        bind_res (lift_end (run_end w a n)) (\<lambda>(code, b, n). Inr (code, Some (v, b, n))))))))"

end
