(* ===== verification/Snapshot_Correct.thy ===== *)
theory Snapshot_Correct
  imports Snapshot
begin

text \<open>
  The snapshot groups the dataset by leaf, in dataset order within a leaf, without overlap; a lookup
  at the predicted leaf therefore finds exactly the keys of the dataset.
\<close>

section \<open>Grouping\<close>

text \<open>The pairs of one leaf, in order, and where the leaf's records start.\<close>

definition leaf_class :: "('k \<Rightarrow> nat) \<Rightarrow> ('k \<times> 'v) list \<Rightarrow> nat \<Rightarrow> ('k \<times> 'v) list" where
  "leaf_class leaf kps j = filter (\<lambda>kp. leaf (fst kp) = j) kps"

definition leaf_start :: "('k \<Rightarrow> nat) \<Rightarrow> ('k \<times> 'v) list \<Rightarrow> nat \<Rightarrow> nat" where
  "leaf_start leaf kps j = (\<Sum>i<j. length (leaf_class leaf kps i))"

lemma leaf_start_Suc: "leaf_start leaf kps (Suc j) = leaf_start leaf kps j + length (leaf_class leaf kps j)"
  by (simp add: leaf_start_def)

lemma leaf_start_mono: "i \<le> j \<Longrightarrow> leaf_start leaf kps i \<le> leaf_start leaf kps j"
  unfolding leaf_start_def by (rule sum_mono2) auto

lemma leaf_start_before:
  "i < j \<Longrightarrow> leaf_start leaf kps i + length (leaf_class leaf kps i) \<le> leaf_start leaf kps j"
  using leaf_start_mono [of "Suc i" j leaf kps] by (simp add: leaf_start_Suc)

lemma leaf_start_total: "\<forall>kp\<in>set kps. leaf (fst kp) < n \<Longrightarrow> leaf_start leaf kps n = length kps"
proof (induction kps)
  case (Cons kp kps)
  have "leaf_start leaf (kp # kps) n = (\<Sum>i<n. (if leaf (fst kp) = i then 1 else 0) + length (leaf_class leaf kps i))"
    unfolding leaf_start_def leaf_class_def by (intro sum.cong) auto
  also have "\<dots> = (\<Sum>i<n. if leaf (fst kp) = i then 1 else 0) + leaf_start leaf kps n"
    by (simp add: sum.distrib leaf_start_def)
  also have "(\<Sum>i<n. if leaf (fst kp) = i then 1 else 0 :: nat) = 1" using Cons.prems by simp
  finally show ?case using Cons by simp
qed (simp add: leaf_start_def leaf_class_def)

lemma leaf_range:
  assumes "\<forall>kp\<in>set kps. leaf (fst kp) < n" "j < n"
  shows "leaf_start leaf kps j + length (leaf_class leaf kps j) \<le> length kps"
  using leaf_start_before [OF assms(2), of leaf kps] leaf_start_total [OF assms(1)] by simp

section \<open>The counting loop\<close>

lemma length_count_leaves: "length (snd (count_leaves predict ks ds)) = length ds"
proof (induction ks arbitrary: ds)
  case (Cons k ks)
  show ?case unfolding count_leaves.simps by (simp add: Let_def split_beta Cons)
qed simp

lemma count_leaves_ids:
  "fst (count_leaves predict ks ds) = map (\<lambda>k. of_nat (clamp_leaf (length ds) (predict k))) ks"
proof (induction ks arbitrary: ds)
  case (Cons k ks)
  show ?case unfolding count_leaves.simps by (simp add: Let_def split_beta Cons)
qed simp

lemma clamp_leaf_less: "0 < n \<Longrightarrow> clamp_leaf n i < n"
  by (auto simp: clamp_leaf_def Let_def)

lemma count_leaves_nth:
  assumes "j < length ds"
  shows "snd (count_leaves predict ks ds) ! j = (ds ! j)\<lparr>cnt := cnt (ds ! j) +
     of_nat (length (filter (\<lambda>k. clamp_leaf (length ds) (predict k) = j) ks))\<rparr>"
  using assms
proof (induction ks arbitrary: ds)
  case (Cons k ks)
  let ?leaf = "clamp_leaf (length ds) (predict k)"
  let ?ds = "ds[?leaf := (ds ! ?leaf)\<lparr>cnt := cnt (ds ! ?leaf) + 1\<rparr>]"
  have l: "?leaf < length ds" using Cons.prems by (intro clamp_leaf_less) linarith
  have "snd (count_leaves predict (k # ks) ds) ! j = snd (count_leaves predict ks ?ds) ! j"
    unfolding count_leaves.simps by (simp add: Let_def split_beta)
  also have "\<dots> = (?ds ! j)\<lparr>cnt := cnt (?ds ! j) + of_nat (length (filter (\<lambda>k. clamp_leaf (length ds) (predict k) = j) ks))\<rparr>"
    using Cons.IH [of ?ds] Cons.prems by simp
  finally show ?case using Cons.prems l by (cases "?leaf = j") (auto simp: add_ac)
qed simp

section \<open>The offset loop\<close>

lemma length_assign_offsets [simp]: "length (assign_offsets off ds) = length ds"
  by (induction off ds rule: assign_offsets.induct) auto

lemma assign_offsets_nth:
  "j < length ds \<Longrightarrow> assign_offsets off ds ! j
    = (ds ! j)\<lparr>offset := off + (\<Sum>d\<leftarrow>take j ds. ucast (cnt d)), cnt := 0\<rparr>"
proof (induction off ds arbitrary: j rule: assign_offsets.induct)
  case (2 off d ds)
  then show ?case by (cases j) (auto simp: add_ac)
qed simp

section \<open>The fill loop\<close>

lemma unat_ucast_u32: "unat (ucast (w :: u32) :: u64) = unat w"
proof -
  have "unat w < 2 ^ 32" using unsigned_less [of w, where 'a = nat] by simp
  then have "unat w < 2 ^ 64" by simp
  then show ?thesis by (simp add: unsigned_ucast_eq take_bit_nat_eq_self)
qed

definition mk_record :: "double \<times> payload_t \<Rightarrow> KeyPayloadRecord" where
  "mk_record kp = \<lparr>rec_key = bits_of_double (fst kp), rec_payload = snd kp\<rparr>"

text \<open>
  The state of the fill loop after a prefix of the dataset: every cursor counts the leaf's pairs so
  far, and they stand at the start of the leaf's range.
\<close>

definition filled ::
    "(double \<Rightarrow> nat) \<Rightarrow> (double \<times> payload_t) list \<Rightarrow> nat \<Rightarrow> (double \<times> payload_t) list \<Rightarrow> EdgeRdmaSnapshot \<Rightarrow> bool" where
  "filled leaf kps n pre s \<longleftrightarrow> length (descs s) = n \<and> length (records s) = length kps
     \<and> (\<forall>j<n. unat (offset (descs s ! j)) = leaf_start leaf kps j
          \<and> unat (cnt (descs s ! j)) = length (leaf_class leaf pre j)
          \<and> (\<forall>i<length (leaf_class leaf pre j).
               records s ! (leaf_start leaf kps j + i) = mk_record (leaf_class leaf pre j ! i)))"

lemma leaf_class_append: "leaf_class leaf (xs @ ys) j = leaf_class leaf xs j @ leaf_class leaf ys j"
  by (simp add: leaf_class_def)

lemma filled_step:
  assumes f: "filled leaf kps n pre s" and kps: "kps = pre @ kp # post"
    and lt: "\<forall>kp\<in>set kps. leaf (fst kp) < n" and sz: "length kps < 2 ^ 32"
  defines "j \<equiv> leaf (fst kp)"
  defines "d \<equiv> descs s ! j"
  defines "pos \<equiv> unat (offset d + ucast (cnt d))"
  shows "filled leaf kps n (pre @ [kp])
    \<lparr>descs = (descs s)[j := d\<lparr>cnt := cnt d + 1\<rparr>], records = (records s)[pos := mk_record kp]\<rparr>"
proof -
  have jn: "j < n" using lt by (simp add: j_def kps)
  have len: "length (descs s) = n" "length (records s) = length kps" using f by (auto simp: filled_def)
  have dj: "unat (offset d) = leaf_start leaf kps j" "unat (cnt d) = length (leaf_class leaf pre j)"
    using f jn by (auto simp: filled_def d_def)
  have below: "length (leaf_class leaf pre j) < length (leaf_class leaf kps j)"
    unfolding kps by (simp add: leaf_class_def j_def)
  have "leaf_start leaf kps j + length (leaf_class leaf kps j) \<le> length kps" by (rule leaf_range [OF lt jn])
  then have p: "leaf_start leaf kps j + length (leaf_class leaf pre j) < length kps" using below by simp
  have "unat (ucast (cnt d) :: u64) = unat (cnt d)" by (rule unat_ucast_u32)
  then have pos: "pos = leaf_start leaf kps j + length (leaf_class leaf pre j)"
    unfolding pos_def using dj p sz by (simp add: unat_word_ariths)
  have "length (leaf_class leaf pre j) < 2 ^ 32" using p sz by simp
  moreover have "length (leaf_class leaf pre j) + 1 < 2 ^ 32" using p sz by simp
  ultimately have cnt1: "unat (cnt d + 1) = length (leaf_class leaf pre j) + 1"
    using dj by (simp add: unat_word_ariths)
  have other: "leaf_start leaf kps i + m \<noteq> pos" if "i < n" "m < length (leaf_class leaf pre i)" "i \<noteq> j \<or> True"
      and "i \<noteq> j \<or> m < length (leaf_class leaf pre j)" for i m
  proof (cases "i = j")
    case True
    then show ?thesis using that(4) pos by auto
  next
    case False
    have "m < length (leaf_class leaf kps i)" using that(2) unfolding kps leaf_class_append by simp
    then show ?thesis using False pos below leaf_start_before [of i j leaf kps] leaf_start_before [of j i leaf kps]
      by (cases "i < j") linarith+
  qed
  show ?thesis unfolding filled_def
  proof (intro conjI allI impI)
    fix i assume i: "i < n"
    have fi: "unat (offset (descs s ! i)) = leaf_start leaf kps i" "unat (cnt (descs s ! i)) = length (leaf_class leaf pre i)"
      "\<And>m. m < length (leaf_class leaf pre i) \<Longrightarrow> records s ! (leaf_start leaf kps i + m) = mk_record (leaf_class leaf pre i ! m)"
      using f i by (auto simp: filled_def)
    let ?s = "\<lparr>descs = (descs s)[j := d\<lparr>cnt := cnt d + 1\<rparr>], records = (records s)[pos := mk_record kp]\<rparr>"
    have c: "leaf_class leaf (pre @ [kp]) i = leaf_class leaf pre i @ (if i = j then [kp] else [])"
      by (simp add: leaf_class_def j_def)
    show "unat (offset (descs ?s ! i)) = leaf_start leaf kps i"
      using fi(1) dj(1) len i by (cases "i = j") (auto simp: d_def)
    show "unat (cnt (descs ?s ! i)) = length (leaf_class leaf (pre @ [kp]) i)"
      unfolding c using fi(2) cnt1 len i by (cases "i = j") (simp_all add: nth_list_update)
    show "records ?s ! (leaf_start leaf kps i + m) = mk_record (leaf_class leaf (pre @ [kp]) i ! m)"
      if m: "m < length (leaf_class leaf (pre @ [kp]) i)" for m
    proof (cases "m < length (leaf_class leaf pre i)")
      case True
      then have "leaf_start leaf kps i + m \<noteq> pos" using other [OF i True] by auto
      then show ?thesis using fi(3) [OF True] True by (simp add: c nth_append)
    next
      case False
      then have ij: "i = j" "m = length (leaf_class leaf pre i)" using m by (auto simp: c split: if_splits)
      then have "leaf_start leaf kps i + m = pos" using pos by simp
      moreover have "leaf_class leaf (pre @ [kp]) i ! m = kp" unfolding c using ij by simp
      ultimately show ?thesis using p len pos by simp
    qed
  qed (use len in auto)
qed

lemma fill_records_filled:
  assumes "filled leaf kps n pre s" "kps = pre @ post"
    and "\<forall>kp\<in>set kps. leaf (fst kp) < n" "length kps < 2 ^ 32" "n < 2 ^ 32"
  shows "filled leaf kps n kps (fill_records (map (\<lambda>kp. of_nat (leaf (fst kp))) post) post s)"
  using assms(1,2)
proof (induction post arbitrary: pre s)
  case (Cons kp post)
  let ?j = "leaf (fst kp)"
  have jn: "?j < n" using assms(3) Cons.prems(2) by simp
  then have u: "unat (of_nat ?j :: u32) = ?j" using assms(5) by (simp add: unat_of_nat)
  have "filled leaf kps n (pre @ [kp]) \<lparr>descs = (descs s)[?j := (descs s ! ?j)\<lparr>cnt := cnt (descs s ! ?j) + 1\<rparr>],
     records = (records s)[unat (offset (descs s ! ?j) + ucast (cnt (descs s ! ?j))) := mk_record kp]\<rparr>"
    by (rule filled_step [OF Cons.prems assms(3,4)])
  from Cons.IH [OF this] Cons.prems(2) u show ?case
    by (cases kp) (simp add: Let_def mk_record_def)
qed simp

section \<open>The built snapshot\<close>

lemma length_leaf_class_zip:
  "length vs = length ks \<Longrightarrow> length (leaf_class leaf (zip ks vs) j) = length (filter (\<lambda>k. leaf k = j) ks)"
proof (induction ks arbitrary: vs)
  case (Cons k ks)
  then show ?case by (cases vs) (auto simp: leaf_class_def)
qed (simp add: leaf_class_def)

lemma ucast_of_nat_u32: "n < 2 ^ 32 \<Longrightarrow> (ucast (of_nat n :: u32) :: u64) = of_nat n"
  by (rule unsigned_word_eqI [where 'a = nat]) (simp add: unat_ucast_u32 unat_of_nat)

lemma offsets_sum:
  assumes "\<And>i. i < length ds \<Longrightarrow> cnt (ds ! i) = of_nat (length (leaf_class leaf kps i))"
    and "\<And>i. i < length ds \<Longrightarrow> length (leaf_class leaf kps i) < 2 ^ 32" "j \<le> length ds"
  shows "(\<Sum>d\<leftarrow>take j ds. ucast (cnt d)) = (of_nat (leaf_start leaf kps j) :: u64)"
  using assms(3)
proof (induction j)
  case (Suc j)
  then show ?case using assms(1,2) [of j]
    by (simp add: take_Suc_conv_app_nth leaf_start_Suc ucast_of_nat_u32 del: sum_list_of_nat)
qed (simp add: leaf_start_def)

lemma leaf_bound: "table \<noteq> [] \<Longrightarrow> \<forall>kp\<in>set kps. clamp_leaf (length table) (predict (fst kp)) < length table"
  by (intro ballI clamp_leaf_less) simp

lemma built:
  fixes predict :: "double \<Rightarrow> int"
  assumes nonempty: "table \<noteq> []" "keys \<noteq> []" and lens: "length payloads = length keys"
    and sizes: "length keys < 2 ^ 32" "length table < 2 ^ 32"
  defines "kps \<equiv> zip keys payloads" and "leaf \<equiv> (\<lambda>k. clamp_leaf (length table) (predict k))"
  shows "filled leaf kps (length table) kps (build_rdma_snapshot table predict keys payloads)"
proof -
  let ?n = "length table" and ?leaf = leaf
  have lb: "\<forall>kp\<in>set kps. leaf (fst kp) < length table" unfolding leaf_def by (rule leaf_bound [OF nonempty(1)])
  have lk: "length kps = length keys" using lens by (simp add: kps_def)
  have class_small: "length (leaf_class leaf kps j) < 2 ^ 32" if "j < ?n" for j
    using leaf_range [OF lb that] lk sizes(1) by simp
  define ds0 where "ds0 = map (\<lambda>k. default_desc\<lparr>first_key := k\<rparr>) table"
  define ds1 where "ds1 = snd (count_leaves predict keys ds0)"
  define ids where "ids = fst (count_leaves predict keys ds0)"
  define s where "s = \<lparr>descs = assign_offsets 0 ds1,
    records = replicate (length keys) \<lparr>rec_key = 0, rec_payload = 0\<rparr>\<rparr>"
  have len: "length ds0 = ?n" "length ds1 = ?n" by (simp_all add: ds0_def ds1_def length_count_leaves)
  have cnts: "cnt (ds1 ! j) = of_nat (length (leaf_class ?leaf kps j))" if "j < ?n" for j
    using count_leaves_nth [of j ds0 predict keys] that len
    by (simp add: ds1_def length_leaf_class_zip [OF lens] kps_def leaf_def) (simp add: ds0_def default_desc_def)
  have start: "leaf_start ?leaf kps j < 2 ^ 64" if "j \<le> ?n" for j
    using leaf_start_mono [OF that, of ?leaf kps] leaf_start_total [OF lb] lk sizes(1) by simp
  have "filled ?leaf kps ?n [] s" unfolding filled_def
  proof (intro conjI allI impI)
    fix j assume j: "j < ?n"
    have "offset (descs s ! j) = of_nat (leaf_start ?leaf kps j)"
      using offsets_sum [of ds1 ?leaf kps j] cnts class_small j len
      by (simp add: s_def assign_offsets_nth del: sum_list_of_nat)
    then show "unat (offset (descs s ! j)) = leaf_start ?leaf kps j"
      using start [of j] j by (simp add: unat_of_nat)
    show "unat (cnt (descs s ! j)) = length (leaf_class ?leaf [] j)"
      using j len by (simp add: s_def assign_offsets_nth leaf_class_def)
  qed (use len lk in \<open>simp_all add: s_def leaf_class_def\<close>)
  from fill_records_filled [OF this _ lb, of kps]
  have "filled ?leaf kps ?n kps (fill_records (map (\<lambda>kp. of_nat (?leaf (fst kp))) kps) kps s)"
    using sizes lk by simp
  moreover have "map (\<lambda>kp. of_nat (?leaf (fst kp))) kps = ids"
  proof -
    have "map (\<lambda>kp. of_nat (?leaf (fst kp))) kps = map (\<lambda>k. of_nat (?leaf k)) (map fst kps)" by simp
    then show ?thesis using lens len(1) by (simp add: ids_def count_leaves_ids kps_def leaf_def)
  qed
  ultimately show ?thesis using nonempty
    by (simp add: build_rdma_snapshot_def Let_def split_beta s_def ds1_def ids_def ds0_def kps_def)
qed

lemma fill_records_version: "map desc_version (descs (fill_records ids kps s)) = map desc_version (descs s)"
proof (induction ids kps s rule: fill_records.induct)
  case (1 i ids k p kps s)
  have "map desc_version (ds[i := (ds ! i)\<lparr>cnt := c\<rparr>]) = map desc_version ds" for ds and i c
    by (simp add: map_update) (metis list_update_id map_update)
  then show ?case using 1 by (simp add: Let_def)
qed simp_all

lemma count_leaves_version: "map desc_version (snd (count_leaves predict ks ds)) = map desc_version ds"
proof (induction ks arbitrary: ds)
  case (Cons k ks)
  have "map desc_version (ds[i := (ds ! i)\<lparr>cnt := c\<rparr>]) = map desc_version ds" for ds and i c
    by (simp add: map_update) (metis list_update_id map_update)
  then show ?case unfolding count_leaves.simps by (simp add: Let_def split_beta Cons)
qed simp

lemma assign_offsets_version: "map desc_version (assign_offsets off ds) = map desc_version ds"
  by (induction off ds rule: assign_offsets.induct) auto

lemma built_version:
  "j < length (descs (build_rdma_snapshot table predict keys payloads)) \<Longrightarrow>
    desc_version (descs (build_rdma_snapshot table predict keys payloads) ! j) = kSnapshotVersion"
proof -
  let ?s = "build_rdma_snapshot table predict keys payloads"
  have "map desc_version (descs ?s) = map (\<lambda>k. kSnapshotVersion) table"
    by (simp add: build_rdma_snapshot_def Let_def split_beta fill_records_version assign_offsets_version
        count_leaves_version default_desc_def comp_def map_replicate_const)
  then show "j < length (descs ?s) \<Longrightarrow> desc_version (descs ?s ! j) = kSnapshotVersion"
    by (metis length_map nth_map)
qed

section \<open>Lookups\<close>

lemma scan_mk_records:
  "\<forall>kp\<in>set kps. is_double (fst kp) \<Longrightarrow> scan_records key (map mk_record kps) = map_of kps key"
  by (induction kps) (auto simp: mk_record_def double_of_bits_inverse)

lemma map_of_leaf_class: "map_of (leaf_class leaf kps (leaf key)) key = map_of kps key"
  by (induction kps) (auto simp: leaf_class_def)

text \<open>Registered memory that serves reads of a byte image.\<close>

definition serves :: "(u64 \<Rightarrow> u32 \<Rightarrow> nat \<Rightarrow> byte list option) \<Rightarrow> u64 \<Rightarrow> u32 \<Rightarrow> byte list \<Rightarrow> bool" where
  "serves remote addr rkey mem \<longleftrightarrow> (\<forall>off n. off + n \<le> length mem \<longrightarrow>
     remote (addr + of_nat off) rkey n = Some (take n (drop off mem)))"

lemma take_drop_images:
  assumes "\<And>x. length (f x) = w" "i + n \<le> length xs"
  shows "take (n * w) (drop (i * w) (concat (map f xs))) = concat (map f (take n (drop i xs)))"
proof -
  have d: "drop (i * w) (concat (map f xs)) = concat (map f (drop i xs))" for i and xs :: "'a list"
  proof (induction i arbitrary: xs)
    case (Suc i)
    then show ?case using assms(1) by (cases xs) auto
  qed simp
  have t: "take (n * w) (concat (map f xs)) = concat (map f (take n xs))" for n and xs :: "'a list"
  proof (induction n arbitrary: xs)
    case (Suc n)
    then show ?case using assms(1) by (cases xs) auto
  qed simp
  show ?thesis unfolding d t ..
qed

lemma length_images: "(\<And>x. length (f x) = w) \<Longrightarrow> length (concat (map f xs)) = length xs * w"
  by (induction xs) auto

lemma serves_desc:
  assumes "serves remote addr rkey (concat (map desc_bytes ds))" "j < length ds" "length ds < 2 ^ 32"
  shows "remote (addr + of_nat j * of_nat sizeof_desc) rkey sizeof_desc = Some (desc_bytes (ds ! j))"
proof -
  have w: "\<And>x. length (desc_bytes x) = 24" by simp
  have "remote (addr + of_nat (j * 24)) rkey 24 = Some (take 24 (drop (j * 24) (concat (map desc_bytes ds))))"
    using assms(1,2) length_images [where f = desc_bytes and w = 24, OF w, of ds]
    by (intro assms(1) [unfolded serves_def, rule_format]) simp
  then show ?thesis using take_drop_images [where f = desc_bytes and w = 24, OF w, of j 1 ds] assms(2)
    by (simp add: sizeof_desc_def take_Suc_conv_app_nth hd_drop_conv_nth take_Suc)
qed

lemma serves_records:
  assumes "serves remote addr rkey (concat (map record_bytes rs))" "off + n \<le> length rs"
  shows "remote (addr + of_nat off * of_nat sizeof_record) rkey (n * sizeof_record)
    = Some (concat (map record_bytes (take n (drop off rs))))"
proof -
  have w: "\<And>x. length (record_bytes x) = 16" by simp
  have "remote (addr + of_nat (off * 16)) rkey (n * 16) = Some (take (n * 16) (drop (off * 16) (concat (map record_bytes rs))))"
    using assms(1,2) length_images [where f = record_bytes and w = 16, OF w, of rs]
    by (intro assms(1) [unfolded serves_def, rule_format]) simp
  then show ?thesis using take_drop_images [where f = record_bytes and w = 16, OF w, of off n rs] assms(2) by (simp add: sizeof_record_def)
qed

text \<open>
  What an Edge publishes: the snapshot's arrays in registered memory, described by the info frame.
\<close>

definition publishes ::
    "(u64 \<Rightarrow> u32 \<Rightarrow> nat \<Rightarrow> byte list option) \<Rightarrow> EdgeRdmaSnapshot \<Rightarrow> SnapshotInfo \<Rightarrow> bool" where
  "publishes remote s info \<longleftrightarrow> magic info = kSnapshotMagic \<and> version info = kSnapshotVersion
     \<and> leaf_count info = of_nat (length (descs s)) \<and> record_count info = of_nat (length (records s))
     \<and> serves remote (desc_addr info) (desc_rkey info) (concat (map desc_bytes (descs s)))
     \<and> serves remote (record_addr info) (record_rkey info) (concat (map record_bytes (records s)))"

lemma filled_records:
  assumes "filled leaf kps n kps s" "\<forall>kp\<in>set kps. leaf (fst kp) < n" "j < n"
  shows "take (length (leaf_class leaf kps j)) (drop (leaf_start leaf kps j) (records s))
    = map mk_record (leaf_class leaf kps j)"
  using assms leaf_range [OF assms(2,3)] by (intro nth_equalityI) (auto simp: filled_def)

lemma clamped_word:
  assumes "0 \<le> slot" "slot < 2 ^ 31" "0 < n" "n < 2 ^ 32"
  shows "(if (word_of_int slot :: u32) \<ge> of_nat n then of_nat n - 1 else word_of_int slot) = (of_nat (clamp_leaf n slot) :: u32)"
proof -
  have "unat (word_of_int slot :: u32) = nat slot" using assms
    by (simp add: unsigned_of_int) (simp add: take_bit_int_def)
  moreover have "unat (of_nat n :: u32) = n" using assms by (simp add: unat_of_nat)
  ultimately have "(word_of_int slot :: u32) \<ge> of_nat n \<longleftrightarrow> nat slot \<ge> n" by (simp add: word_le_nat_alt)
  moreover have "(of_nat n - 1 :: u32) = of_nat (n - 1)" using assms(3) by (simp add: of_nat_diff)
  ultimately show ?thesis using assms by (simp add: clamp_leaf_def Let_def)
qed

lemma snapshot_lookup_at:
  assumes tbl: "table \<noteq> []" "keys \<noteq> []" "length payloads = length keys"
    and sz: "length keys < 2 ^ 32" "length table < 2 ^ 32"
    and dbl: "\<forall>k\<in>set keys. is_double k"
    and pub: "publishes remote (build_rdma_snapshot table predict keys payloads) info"
    and slot: "0 \<le> slot" "slot < 2 ^ 31"
  defines "kps \<equiv> zip keys payloads" and "leaf \<equiv> (\<lambda>k. clamp_leaf (length table) (predict k))"
    and "j \<equiv> clamp_leaf (length table) slot"
  shows "rdma_snapshot_lookup remote True \<lparr>sinfo = info, sloaded = True\<rparr> key slot out =
    (if leaf_class leaf kps j = [] then (UNAVAILABLE, out)
     else case map_of (leaf_class leaf kps j) key of Some p \<Rightarrow> (HIT, p) | None \<Rightarrow> (MISS, out))"
proof -
  let ?s = "build_rdma_snapshot table predict keys payloads" and ?n = "length table"
  have f: "filled leaf kps ?n kps ?s" unfolding kps_def leaf_def by (rule built [OF tbl sz])
  have lb: "\<forall>kp\<in>set kps. leaf (fst kp) < ?n" unfolding leaf_def by (rule leaf_bound [OF tbl(1)])
  have j: "j < ?n" unfolding j_def using tbl(1) by (intro clamp_leaf_less) simp
  define d where "d = descs ?s ! j"
  have len: "length (descs ?s) = ?n" "length (records ?s) = length kps" "length kps = length keys"
    using f tbl(3) by (auto simp: filled_def kps_def)
  have d: "unat (offset d) = leaf_start leaf kps j" "unat (cnt d) = length (leaf_class leaf kps j)"
    using f j by (auto simp: filled_def d_def)
  have dv: "desc_version d = kSnapshotVersion" unfolding d_def by (rule built_version) (simp add: len j)
  have rng: "leaf_start leaf kps j + length (leaf_class leaf kps j) \<le> length kps" by (rule leaf_range [OF lb j])
  have pubs: "magic info = kSnapshotMagic" "version info = kSnapshotVersion" "leaf_count info = of_nat ?n"
      "record_count info = of_nat (length keys)"
      "serves remote (desc_addr info) (desc_rkey info) (concat (map desc_bytes (descs ?s)))"
      "serves remote (record_addr info) (record_rkey info) (concat (map record_bytes (records ?s)))"
    using pub len by (auto simp: publishes_def)
  have lc: "leaf_count info \<noteq> 0"
    using sz(2) tbl(1) pubs(3) by (simp add: unsigned_eq_0_iff [symmetric, where 'a = nat] unat_of_nat del: unsigned_eq_0_iff)
  have leaf_w: "(if (word_of_int slot :: u32) \<ge> leaf_count info then leaf_count info - 1 else word_of_int slot) = of_nat j"
    unfolding pubs(3) j_def using clamped_word [OF slot _ sz(2)] tbl(1) by simp
  have "(ucast (of_nat j :: u32) :: u64) = of_nat j" using j sz(2) by (simp add: ucast_of_nat_u32)
  then have rd: "remote (desc_addr info + ucast (of_nat j :: u32) * of_nat sizeof_desc) (desc_rkey info) sizeof_desc = Some (desc_bytes d)"
    using serves_desc [OF pubs(5), of j] len j sz(2) by (simp add: d_def)
  have dd: "desc_of_bytes (desc_bytes d) = d" using desc_roundtrip [of d "[]"] by simp
  have "unat (offset d + ucast (cnt d)) = leaf_start leaf kps j + length (leaf_class leaf kps j)"
    using d rng sz(1) len(3) by (simp add: unat_word_ariths unat_ucast_u32)
  then have inb: "\<not> offset d + ucast (cnt d) > record_count info"
    using rng len(3) sz(1) pubs(4) by (simp add: word_less_nat_alt unat_of_nat)
  have "offset d = of_nat (leaf_start leaf kps j)" using d(1) by (metis of_nat_unat ucast_id)
  then have rr: "remote (record_addr info + offset d * of_nat sizeof_record) (record_rkey info) (unat (cnt d) * sizeof_record)
      = Some (concat (map record_bytes (map mk_record (leaf_class leaf kps j))))"
    using serves_records [OF pubs(6), of "leaf_start leaf kps j" "length (leaf_class leaf kps j)"] rng len d(2)
      filled_records [OF f lb j] by simp
  have recs: "records_of_bytes (unat (cnt d)) (concat (map record_bytes (map mk_record (leaf_class leaf kps j))))
      = map mk_record (leaf_class leaf kps j)"
    using records_roundtrip [of "map mk_record (leaf_class leaf kps j)" "[]"] d(2) by simp
  have kd: "\<forall>kp\<in>set (leaf_class leaf kps j). is_double (fst kp)"
    using dbl by (auto simp: leaf_class_def kps_def dest: set_zip_leftD)
  have scan: "scan_records key (map mk_record (leaf_class leaf kps j)) = map_of (leaf_class leaf kps j) key"
    by (rule scan_mk_records [OF kd])
  have c0: "cnt d = 0 \<longleftrightarrow> leaf_class leaf kps j = []" using d(2) by (metis length_0_conv unsigned_eq_0_iff)
  show ?thesis using slot lc pubs(1,2)
    by (simp add: rdma_snapshot_lookup_def Let_def leaf_w rd dd dv inb rr recs scan c0 del: map_map)
qed

text \<open>At the key's own leaf the answer is complete; at any leaf a hit is right.\<close>

lemma map_of_other_class: "leaf key \<noteq> j \<Longrightarrow> map_of (leaf_class leaf kps j) key = None"
  by (induction kps) (auto simp: leaf_class_def)

lemma snapshot_hit_sound:
  assumes "table \<noteq> []" "keys \<noteq> []" "length payloads = length keys"
    and "length keys < 2 ^ 32" "length table < 2 ^ 32" "\<forall>k\<in>set keys. is_double k"
    and "publishes remote (build_rdma_snapshot table predict keys payloads) info"
    and "0 \<le> slot" "slot < 2 ^ 31"
    and hit: "rdma_snapshot_lookup remote True \<lparr>sinfo = info, sloaded = True\<rparr> key slot out = (HIT, p)"
  shows "map_of (zip keys payloads) key = Some p"
proof -
  let ?leaf = "\<lambda>k. clamp_leaf (length table) (predict k)" and ?j = "clamp_leaf (length table) slot"
  have h: "map_of (leaf_class ?leaf (zip keys payloads) ?j) key = Some p"
    using hit unfolding snapshot_lookup_at [OF assms(1-9)] by (auto split: if_splits option.splits)
  then have "?leaf key = ?j" using map_of_other_class [of ?leaf key ?j] by (metis option.simps(3))
  then show ?thesis using h map_of_leaf_class [of ?leaf "zip keys payloads" key] by simp
qed

lemma snapshot_lookup:
  assumes tbl: "table \<noteq> []" "keys \<noteq> []" "length payloads = length keys"
    and sz: "length keys < 2 ^ 32" "length table < 2 ^ 32" and dbl: "\<forall>k\<in>set keys. is_double k"
    and pub: "publishes remote (build_rdma_snapshot table predict keys payloads) info"
    and slot: "0 \<le> predict key" "predict key < 2 ^ 31"
  shows "rdma_snapshot_lookup remote True \<lparr>sinfo = info, sloaded = True\<rparr> key (predict key) out =
    (case map_of (zip keys payloads) key of Some p \<Rightarrow> (HIT, p)
     | None \<Rightarrow> (if list_ex (\<lambda>k. clamp_leaf (length table) (predict k) = clamp_leaf (length table) (predict key)) keys
          then MISS else UNAVAILABLE, out))"
proof -
  define kps leaf j where "kps = zip keys payloads" and "leaf = (\<lambda>k. clamp_leaf (length table) (predict k))"
    and "j = clamp_leaf (length table) (predict key)"
  have "set keys = fst ` set kps" using tbl(3) by (metis kps_def map_fst_zip list.set_map)
  then have ex: "list_ex (\<lambda>k. leaf k = j) keys \<longleftrightarrow> leaf_class leaf kps j \<noteq> []"
    by (auto simp: leaf_class_def filter_empty_conv list_ex_iff)
  have own: "map_of (leaf_class leaf kps j) key = map_of kps key"
    using map_of_leaf_class [of leaf kps key] by (simp add: leaf_def j_def)
  then have none: "leaf_class leaf kps j = [] \<Longrightarrow> map_of kps key = None" by simp
  show ?thesis
    using snapshot_lookup_at [OF tbl sz dbl pub slot, of key out] own none ex
    by (auto simp: kps_def leaf_def j_def split: option.split)
qed

end
