(* ===== verification/End_Lookup.thy ===== *)
theory End_Lookup
  imports End_Run Snapshot_Correct
begin

text \<open>
  The End's side of the contract with its Edge: given an Edge that answers requests from one
  database (interleaved with control frames that agree with it), every lookup answers from that
  database, and the caches stay coherent with it.
\<close>

section \<open>Coherent caches\<close>

definition snap_sound ::
    "(u64 \<Rightarrow> u32 \<Rightarrow> nat \<Rightarrow> byte list option) \<Rightarrow> (double \<rightharpoonup> payload_t) \<Rightarrow> EndRdmaSnapshot \<Rightarrow> bool" where
  "snap_sound mem db s \<longleftrightarrow> (\<forall>k slot out p. - (2 ^ 31) \<le> slot \<and> slot < 2 ^ 31 \<and>
     rdma_snapshot_lookup mem True s k slot out = (HIT, p) \<longrightarrow> db k = Some p)"

text \<open>
  What the Ends together serve of a database: the topology leaves gaps between the key ranges, and the
  keys in a gap belong to no End.
\<close>

definition served :: "RangeMap \<Rightarrow> (double \<rightharpoonup> payload_t) \<Rightarrow> double \<rightharpoonup> payload_t" where
  "served m db k = (if 0 \<le> locate_end m k then db k else None)"

definition caches_ok ::
    "(u64 \<Rightarrow> u32 \<Rightarrow> nat \<Rightarrow> byte list option) \<Rightarrow> RangeMap \<Rightarrow> (double \<rightharpoonup> payload_t) \<Rightarrow> end_caches \<Rightarrow> bool" where
  "caches_ok mem m db c \<longleftrightarrow> (\<forall>k v. hc_find k (hot_cache c) = Some v \<longrightarrow> served m db k = Some v)
     \<and> (\<forall>ps\<in>set (parameter (plin_cache c)). ps \<noteq> []) \<and> snap_sound mem db (rdma_snap c)"

definition good_frame ::
    "(u64 \<Rightarrow> u32 \<Rightarrow> nat \<Rightarrow> byte list option) \<Rightarrow> RangeMap \<Rightarrow> (double \<rightharpoonup> payload_t) \<Rightarrow> Frame \<Rightarrow> bool" where
  "good_frame mem m db f \<longleftrightarrow> control_frame f \<and>
     (\<forall>c. caches_ok mem m db c \<longrightarrow> (\<exists>c'. apply_edge_control_frame f c = Inr c' \<and> caches_ok mem m db c'))"

lemma caches_ok_upsert:
  "caches_ok mem m db c \<Longrightarrow> served m db k = Some v \<Longrightarrow> caches_ok mem m db (c\<lparr>hot_cache := hc_upsert (Some k) v (hot_cache c)\<rparr>)"
  by (auto simp: caches_ok_def hc_find_upsert split: if_splits)

text \<open>A hot update is good when its pairs come from the database and belong to an End.\<close>

lemma good_hot_update:
  assumes "ftype f = HOT_UPDATE"
    and "\<forall>k v. (Some k, v) \<in> set (hot_pairs (length (body f) div 16) (body f)) \<longrightarrow> served m db k = Some v"
  shows "good_frame mem m db f"
  using assms hc_find_batch_source
  by (fastforce simp: good_frame_def control_frame_def apply_edge_control_frame_def caches_ok_def)

lemma good_param_push:
  assumes "pushable ps" "\<forall>p\<in>set ps. p \<noteq> []"
  shows "good_frame mem m db (make_param_push ps)"
proof -
  have "load_from_push (serialize_parameter ps) c = Inr (c\<lparr>parameter := ps\<rparr>)" for c
    by (rule load_from_push_serialized [OF assms(1)])
  then show ?thesis using assms(2)
    by (auto simp: good_frame_def control_frame_def make_param_push_def apply_edge_control_frame_def caches_ok_def)
qed

lemma unloaded_snap_sound: "\<not> sloaded s \<Longrightarrow> snap_sound mem db s"
  by (simp add: snap_sound_def rdma_snapshot_lookup_def Let_def)

lemma good_snapshot_info:
  assumes "snap_sound mem db \<lparr>sinfo = i, sloaded = True\<rparr>"
  shows "good_frame mem m db (make_rdma_snapshot_info i)"
proof -
  have "snap_sound mem db \<lparr>sinfo = i, sloaded = b\<rparr>" for b
    using assms unloaded_snap_sound by (cases b) auto
  then show ?thesis
    by (auto simp: good_frame_def control_frame_def make_rdma_snapshot_info_def apply_edge_control_frame_def
        caches_ok_def sizeof_info_def Let_def)
qed

section \<open>Reading a response\<close>

definition response_for :: "(double \<rightharpoonup> payload_t) \<Rightarrow> double \<Rightarrow> Frame \<Rightarrow> bool" where
  "response_for db k f \<longleftrightarrow> (\<exists>v. (db k = Some v \<and> f = make_fetch_resp OK v) \<or> (db k = None \<and> f = make_fetch_resp NOT_FOUND v))"

lemma fetch_resp_fields:
  "ftype (make_fetch_resp st v) = EDGE_FETCH_RESP" "length (body (make_fetch_resp st v)) = 10"
  "hd (body (make_fetch_resp st v)) = status_byte st" "bytes_u64 (take 8 (drop (Suc 0) (body (make_fetch_resp st v)))) = v"
  "body (make_fetch_resp st v) ! 9 = 0"
  by (simp_all add: make_fetch_resp_def append_u64_def nth_append)

lemma read_response:
  "read_fetch_response (make_fetch_resp st v # fs) c out stale = Inr (st = OK, v, False, fs, c)"
  by (cases st) (simp_all add: fetch_resp_fields)

lemma read_fetch_response_ok:
  assumes "\<forall>f\<in>set fs. good_frame mem m db f" "caches_ok mem m db c" "response_for db k resp"
  shows "\<exists>v c'. read_fetch_response (fs @ resp # rest) c out stale = Inr (db k \<noteq> None, v, False, rest, c')
    \<and> caches_ok mem m db c' \<and> (db k = None \<or> db k = Some v)"
  using assms(1,2)
proof (induction fs arbitrary: c)
  case Nil
  from assms(3) obtain v where
    "db k = Some v \<and> resp = make_fetch_resp OK v \<or> db k = None \<and> resp = make_fetch_resp NOT_FOUND v"
    by (auto simp: response_for_def)
  then show ?case using Nil(2) by (elim disjE conjE) (simp_all add: read_response del: read_fetch_response.simps)
next
  case (Cons f fs)
  then have "control_frame f" by (simp add: good_frame_def)
  moreover from Cons.prems obtain c' where c': "apply_edge_control_frame f c = Inr c'" "caches_ok mem m db c'"
    by (auto simp: good_frame_def)
  ultimately have "read_fetch_response ((f # fs) @ resp # rest) c out stale = read_fetch_response (fs @ resp # rest) c' out stale"
    by (auto simp: control_frame_def)
  then show ?case using Cons.IH [of c'] Cons.prems c' by simp
qed

lemma predict_defined:
  assumes "\<forall>ps\<in>set (parameter c). ps \<noteq> []"
  shows "\<exists>slot. cache_predict_pos c k = Inr slot \<and> - (2 ^ 31) \<le> slot \<and> slot < 2 ^ 31"
proof (cases "parameter c = []")
  case False
  from predict_pos_total [of "parameter c" k] assms obtain s where s: "predict_pos (parameter c) k = Inr s" by blast
  then show ?thesis using False predict_pos_range [OF s] by (simp add: cache_predict_pos_def)
qed (simp add: cache_predict_pos_def)

section \<open>The contract of the Edge\<close>

locale edge_service =
  fixes ops :: "'p peer_ops" and pinv :: "'p \<Rightarrow> bool"
    and mem :: "u64 \<Rightarrow> u32 \<Rightarrow> nat \<Rightarrow> byte list option" and db :: "double \<rightharpoonup> payload_t"
    and m :: RangeMap and my_id :: int
  assumes remote: "pinv p \<Longrightarrow> read_remote ops p = mem"
    and fetch_answered: "pinv p \<Longrightarrow> locate_end m k \<ge> 0 \<Longrightarrow> same_edge m (locate_end m k) my_id \<Longrightarrow>
      \<exists>p' fs resp. deliver ops p (fetch_req k slot) = (True, p', fs @ [resp]) \<and> pinv p'
        \<and> (\<forall>f\<in>set fs. good_frame mem m db f) \<and> response_for db k resp"
    and cross_answered: "pinv p \<Longrightarrow> locate_end m k \<ge> 0 \<Longrightarrow> \<not> same_edge m (locate_end m k) my_id \<Longrightarrow>
      \<exists>p' fs resp. deliver ops p (cross_req request_id k) = (True, p', fs @ [resp]) \<and> pinv p'
        \<and> (\<forall>f\<in>set fs. good_frame mem m db f) \<and> response_for db k resp"
begin

definition link_ok :: "'p edge_link \<Rightarrow> bool" where
  "link_ok l \<longleftrightarrow> pinv (peer l) \<and> (\<forall>f\<in>set (inbox l). good_frame mem m db f)"

definition node_ok :: "'p EndNode \<Rightarrow> bool" where
  "node_ok n \<longleftrightarrow> rm n = m \<and> node_id n = my_id \<and> caches_ok mem m db (caches n)
     \<and> (\<exists>l. edge n = Some l \<and> link_ok l)
     \<and> (\<forall>k. locate_end m k = my_id \<longrightarrow> map_of (btree (store n)) k = served m db k)"

lemma receive_ok:
  assumes "inbox l = fs @ resp # []" "\<forall>f\<in>set fs. good_frame mem m db f" "pinv (peer l)"
    and "caches_ok mem m db c" "response_for db k resp"
  shows "\<exists>v l' c'. receive c out l = Inr (db k \<noteq> None, v, False, l', c') \<and> link_ok l' \<and> caches_ok mem m db c'
    \<and> (db k = None \<or> db k = Some v)"
  using read_fetch_response_ok [OF assms(2,4,5), of "[]" out False] assms(1,3)
  by (auto simp: receive_def link_ok_def)

lemma edge_fetch_ok:
  assumes l: "link_ok l" and c: "caches_ok mem m db c"
    and k: "locate_end m k \<ge> 0" "same_edge m (locate_end m k) my_id"
  shows "\<exists>v l' c'. edge_fetch ops k slot out l c = Inr (db k \<noteq> None, v, False, l', c') \<and> link_ok l' \<and> caches_ok mem m db c'
    \<and> (db k = None \<or> db k = Some v)"
proof -
  from fetch_answered [OF _ k, of "peer l" slot] l obtain p' fs resp where
    d: "deliver ops (peer l) (fetch_req k slot) = (True, p', fs @ [resp])" "pinv p'"
      "\<forall>f\<in>set fs. good_frame mem m db f" "response_for db k resp" by (auto simp: link_ok_def)
  have "edge_fetch ops k slot out l c = receive c out \<lparr>peer = p', inbox = inbox l @ fs @ [resp]\<rparr>"
    by (simp add: edge_fetch_def link_write_def d(1))
  moreover have "\<forall>f\<in>set (inbox l @ fs). good_frame mem m db f" using d(3) l by (auto simp: link_ok_def)
  note receive_ok [OF _ this _ c d(4), of "\<lparr>peer = p', inbox = inbox l @ fs @ [resp]\<rparr>" out]
  ultimately show ?thesis using d(2) by force
qed

lemma cross_edge_fetch_ok:
  assumes l: "link_ok l" and c: "caches_ok mem m db c"
    and k: "locate_end m k \<ge> 0" "\<not> same_edge m (locate_end m k) my_id"
  shows "\<exists>v l' c'. cross_edge_fetch ops rid k out l c = Inr (db k \<noteq> None, v, l', c') \<and> link_ok l' \<and> caches_ok mem m db c'
    \<and> (db k = None \<or> db k = Some v)"
proof -
  from cross_answered [OF _ k, of "peer l" rid] l obtain p' fs resp where
    d: "deliver ops (peer l) (cross_req rid k) = (True, p', fs @ [resp])" "pinv p'"
      "\<forall>f\<in>set fs. good_frame mem m db f" "response_for db k resp" by (auto simp: link_ok_def)
  have "cross_edge_fetch ops rid k out l c
      = bind_res (receive c out \<lparr>peer = p', inbox = inbox l @ fs @ [resp]\<rparr>) (\<lambda>(ok, out, _, l, c). Inr (ok, out, l, c))"
    by (simp add: cross_edge_fetch_def link_write_def d(1))
  moreover have "\<forall>f\<in>set (inbox l @ fs). good_frame mem m db f" using d(3) l by (auto simp: link_ok_def)
  note receive_ok [OF _ this _ c d(4), of "\<lparr>peer = p', inbox = inbox l @ fs @ [resp]\<rparr>" out]
  ultimately show ?thesis using d(2) by force
qed

definition answers :: "double \<Rightarrow> LookupResult \<Rightarrow> bool" where
  "answers k r \<longleftrightarrow> found r = (served m db k \<noteq> None) \<and> (\<forall>v. served m db k = Some v \<longrightarrow> payload r = v)"

lemma edge_stage_ok:
  assumes l: "link_ok l" and c: "caches_ok mem m db c"
    and k: "locate_end m k \<ge> 0" "same_edge m (locate_end m k) my_id"
  shows "\<exists>r l' c'. edge_stage ops k l c = Inr (r, l', c') \<and> link_ok l' \<and> caches_ok mem m db c'
    \<and> answers k r \<and> stage r = EDGE_PLIN \<and> (found r \<longrightarrow> hc_find k (hot_cache c') = Some (payload r))"
proof -
  obtain slot where slot: "cache_predict_pos (plin_cache c) (Some k) = Inr slot" "- (2 ^ 31) \<le> slot" "slot < 2 ^ 31"
    using predict_defined [of "plin_cache c" "Some k"] c by (auto simp: caches_ok_def)
  obtain st v where sv: "rdma_snapshot_lookup mem (supports_remote_read ops) (rdma_snap c) k slot 0 = (st, v)" by fastforce
  have sk: "served m db k = db k" using k(1) by (simp add: served_def)
  have rm: "read_remote ops (peer l) = mem" using remote l by (simp add: link_ok_def)
  show ?thesis
  proof (cases "st = HIT")
    case True
    have "supports_remote_read ops" using True sv by (cases "supports_remote_read ops") (auto simp: rdma_snapshot_lookup_def Let_def)
    then have "db k = Some v" using c slot sv True by (fastforce simp: caches_ok_def snap_sound_def)
    then show ?thesis using l c True sv rm sk
      by (simp add: edge_stage_def edge_finish_def slot caches_ok_upsert answers_def hc_find_upsert)
  next
    case False
    from edge_fetch_ok [OF l c k, of slot v] obtain w l' c' where
      f: "edge_fetch ops k slot v l c = Inr (db k \<noteq> None, w, False, l', c')" "link_ok l'" "caches_ok mem m db c'"
        "db k = None \<or> db k = Some w" by blast
    then show ?thesis using False sv rm sk
      by (auto simp: edge_stage_def edge_finish_def slot caches_ok_upsert answers_def hc_find_upsert)
  qed
qed

lemma cross_stage_ok:
  assumes l: "link_ok l" and c: "caches_ok mem m db c"
    and k: "locate_end m k \<ge> 0" "\<not> same_edge m (locate_end m k) my_id"
  shows "\<exists>r l' c'. cross_stage ops rid k l c = Inr (r, l', c') \<and> link_ok l' \<and> caches_ok mem m db c'
    \<and> answers k r \<and> stage r = CROSS_EDGE \<and> (found r \<longrightarrow> hc_find k (hot_cache c') = Some (payload r))"
proof -
  from cross_edge_fetch_ok [OF l c k, of rid 0] obtain w l' c' where
    f: "cross_edge_fetch ops rid k 0 l c = Inr (db k \<noteq> None, w, l', c')" "link_ok l'" "caches_ok mem m db c'"
      "db k = None \<or> db k = Some w" by blast
  moreover have "served m db k = db k" using k(1) by (simp add: served_def)
  ultimately show ?thesis by (auto simp: cross_stage_def caches_ok_upsert answers_def hc_find_upsert)
qed

text \<open>
  Every lookup returns, without an exception, what the Ends serve of the database, and keeps the node
  coherent.  A key in a gap between the ranges is reported absent without asking the Edge.
\<close>

lemma lookup_ok:
  assumes n: "node_ok n"
  shows "\<exists>r n'. lookup ops k n = Inr (r, n') \<and> node_ok n' \<and> answers k r
    \<and> (stage r \<noteq> LOCAL \<longrightarrow> found r \<longrightarrow> hc_find k (hot_cache (caches n')) = Some (payload r))
    \<and> (stage r = LOCAL \<longleftrightarrow> locate_end m k = my_id)"
proof -
  have n': "rm n = m" "node_id n = my_id" and c: "caches_ok mem m db (caches n)"
    using n by (auto simp: node_ok_def)
  from n obtain l where l: "edge n = Some l" "link_ok l" by (auto simp: node_ok_def)
  consider "locate_end m k = my_id"
    | v where "locate_end m k \<noteq> my_id" "hc_find k (hot_cache (caches n)) = Some v"
    | "locate_end m k \<noteq> my_id" "hc_find k (hot_cache (caches n)) = None" "0 \<le> locate_end m k" "same_edge m (locate_end m k) my_id"
    | "locate_end m k \<noteq> my_id" "hc_find k (hot_cache (caches n)) = None" "0 \<le> locate_end m k" "\<not> same_edge m (locate_end m k) my_id"
    | "locate_end m k \<noteq> my_id" "hc_find k (hot_cache (caches n)) = None" "\<not> 0 \<le> locate_end m k"
    by (cases "hc_find k (hot_cache (caches n))") auto
  then show ?thesis
  proof cases
    case 1
    then have "map_of (btree (store n)) k = served m db k" using n by (simp add: node_ok_def)
    then show ?thesis using 1 n n' by (auto simp: lookup_def local_stage_def answers_def node_ok_def split: option.split)
  next
    case 2
    then have "served m db k = Some v" using c by (auto simp: caches_ok_def)
    then show ?thesis using 2 n n' by (simp add: lookup_def answers_def node_ok_def)
  next
    case 3
    from edge_stage_ok [OF l(2) c 3(3,4)] obtain r l' c' where
      "edge_stage ops k l (caches n) = Inr (r, l', c')" "link_ok l'" "caches_ok mem m db c'" "answers k r" "stage r = EDGE_PLIN"
      "found r \<longrightarrow> hc_find k (hot_cache c') = Some (payload r)" by blast
    then show ?thesis using 3 n n' l by (auto simp: lookup_def node_ok_def)
  next
    case 4
    from cross_stage_ok [OF l(2) c 4(3,4), of "next_request_id n"] obtain r l' c' where
      "cross_stage ops (next_request_id n) k l (caches n) = Inr (r, l', c')" "link_ok l'" "caches_ok mem m db c'" "answers k r"
      "stage r = CROSS_EDGE" "found r \<longrightarrow> hc_find k (hot_cache c') = Some (payload r)" by blast
    then show ?thesis using 4 n n' l by (auto simp: lookup_def node_ok_def)
  next
    case 5
    then show ?thesis using n n' by (simp add: lookup_def answers_def served_def node_ok_def)
  qed
qed

text \<open>A lookup that found a key outside the node's own range is answered from the hot cache the next time.\<close>

lemma lookup_again:
  assumes n: "node_ok n" and k: "locate_end m k \<noteq> my_id"
    and r: "lookup ops k n = Inr (r, n')" "found r"
  shows "\<exists>n''. lookup ops k n' = Inr (\<lparr>found = True, payload = payload r, stage = HOT_CACHE\<rparr>, n'')"
proof -
  from lookup_ok [OF n, of k] r k have "node_ok n'" "hc_find k (hot_cache (caches n')) = Some (payload r)" by auto
  then show ?thesis using k by (simp add: lookup_def node_ok_def)
qed

text \<open>The benchmark replays every key and finds exactly those that the Ends serve.\<close>

lemma bench_loop_ok:
  "node_ok n \<Longrightarrow>
    \<exists>b' n'. bench_loop ops ks b n = Inr (b', n') \<and> node_ok n'
      \<and> b_found b' = b_found b + length (filter (\<lambda>k. served m db k \<noteq> None) ks)
      \<and> b_stage1 b' + b_stage2 b' + b_stage3 b' + b_stage4 b' = b_stage1 b + b_stage2 b + b_stage3 b + b_stage4 b + length ks"
proof (induction ks arbitrary: b n)
  case (Cons k ks)
  from lookup_ok [of n k] Cons.prems obtain r n1 where
    r: "lookup ops k n = Inr (r, n1)" "node_ok n1" "answers k r" by auto
  have t: "b_found (tally r b) = b_found b + (if served m db k \<noteq> None then 1 else 0)"
    "b_stage1 (tally r b) + b_stage2 (tally r b) + b_stage3 (tally r b) + b_stage4 (tally r b)
      = Suc (b_stage1 b + b_stage2 b + b_stage3 b + b_stage4 b)"
    using r(3) by (cases "stage r"; simp add: tally_def Let_def answers_def)+
  from Cons.IH [OF r(2), of "tally r b"] Cons.prems obtain b' n' where
    "bench_loop ops ks (tally r b) n1 = Inr (b', n')" "node_ok n'"
    "b_found b' = b_found (tally r b) + length (filter (\<lambda>k. served m db k \<noteq> None) ks)"
    "b_stage1 b' + b_stage2 b' + b_stage3 b' + b_stage4 b'
      = b_stage1 (tally r b) + b_stage2 (tally r b) + b_stage3 (tally r b) + b_stage4 (tally r b) + length ks" by auto
  then show ?case using r(1) t by simp
qed simp

end

end
