(* ===== verification/Edge_Threads.thy ===== *)
theory Edge_Threads
  imports Edge_Server Event_System
begin

text \<open>
  The Edge's threads as one event system.  Every connection has a thread that runs \<^verbatim>\<open>handle_end\<close>, and one
  thread reads from the Cloud.  A step is one access to shared state: one critical section of
  \<^verbatim>\<open>ends_mu\<close>, one write of a frame under the connection's mutex, or the closing of a transport.  Between two
  steps any other thread may run: in particular between the lookup of an End by \<^verbatim>\<open>send_to_end\<close> and its write,
  and between \<^verbatim>\<open>unregister_transport\<close> and \<^verbatim>\<open>close\<close>.
\<close>

section \<open>The handler of a connection\<close>

text \<open>
  Where the thread of a connection stands: before the first parameter push, before the snapshot
  announcement, before the next \<^verbatim>\<open>read_frame\<close>, with a response to write, with a requested parameter push, before
  \<^verbatim>\<open>unregister_transport\<close>, before \<^verbatim>\<open>close\<close>, finished.
\<close>

datatype handler_pc = Start | Info | Reading | Respond Frame | Push | Leave | Close | Done

definition read_request :: "edge_env \<Rightarrow> conn_id \<Rightarrow> Frame \<Rightarrow> EdgeRuntime \<Rightarrow> handler_pc \<times> EdgeRuntime" where
  "read_request env t req rt =
    (if ftype req = HEARTBEAT then
       (Reading, case read_u32 (body req) 0 of None \<Rightarrow> rt | Some i \<Rightarrow> register_end (sint i) t rt)
     else if ftype req = PLIN_PARAM_PUSH \<and> body req = [] then (Push, rt)
     else if ftype req = CROSS_EDGE_REQ then
       (Respond (case cloud_fetch env req of None \<Rightarrow> make_fetch_resp ERROR 0 | Some r \<Rightarrow> r), rt)
     else if ftype req \<noteq> EDGE_FETCH_REQ \<or> length (body req) < 8 then (Leave, rt)
     else let key = double_of_bits (bytes_u64 (take 8 (body req)));
              slot = (if length (body req) \<ge> 12 then sint (bytes_u32 (take 4 (drop 8 (body req)))) else - 1);
              (found, payload) = fetch (idx env) key slot
          in (Respond (make_fetch_resp (if found then OK else NOT_FOUND) payload), rt))"

text \<open>One step; the frame is what \<^verbatim>\<open>read_frame\<close> returns, \<^term>\<open>None\<close> when it fails.\<close>

fun handler_step :: "edge_env \<Rightarrow> conn_id \<Rightarrow> Frame option \<Rightarrow> handler_pc \<Rightarrow> EdgeRuntime \<Rightarrow> handler_pc \<times> EdgeRuntime" where
  "handler_step env t inp Start rt = (let (ok, rt) = write_locked t (param_frame env) rt in (if ok then Info else Close, rt))"
| "handler_step env t inp Info rt = (Reading, send_rdma_snapshot_info_if_supported env t rt)"
| "handler_step env t inp Reading rt = (case inp of None \<Rightarrow> (Leave, rt) | Some req \<Rightarrow> read_request env t req rt)"
| "handler_step env t inp (Respond f) rt = (let (ok, rt) = write_locked t f rt in (if ok then Reading else Leave, rt))"
| "handler_step env t inp Push rt = (let (ok, rt) = write_locked t (param_frame env) rt in (if ok then Info else Leave, rt))"
| "handler_step env t inp Leave rt = (Close, unregister_transport t rt)"
| "handler_step env t inp Close rt = (Done, close_conn t rt)"
| "handler_step env t inp Done rt = (Done, rt)"

text \<open>A turn of \<^verbatim>\<open>handle_req\<close> is these steps without interruption.\<close>

lemma handle_req_steps:
  "handle_req env t req rt = (case read_request env t req rt of
     (Reading, rt) \<Rightarrow> (True, rt) | (Respond f, rt) \<Rightarrow> write_locked t f rt
   | (Push, rt) \<Rightarrow> (let (ok, rt) = write_locked t (param_frame env) rt
        in if ok then (True, send_rdma_snapshot_info_if_supported env t rt) else (False, rt))
   | (_, rt) \<Rightarrow> (False, rt))"
  by (simp add: handle_req_def read_request_def Let_def split: prod.split)

section \<open>The thread of the Cloud connection\<close>

text \<open>
  \<^verbatim>\<open>send_to_end\<close> copies the entry of the registry under \<^verbatim>\<open>ends_mu\<close> and writes after it has left the critical
  section.  The other frames from the Cloud do not touch the runtime.
\<close>

definition cloud_lookup :: "Frame \<Rightarrow> EdgeRuntime \<Rightarrow> (conn_id \<times> Frame) option" where
  "cloud_lookup f rt = (if ftype f \<noteq> HOT_UPDATE then None
     else case read_u32 (body f) 0 of None \<Rightarrow> None
     | Some target \<Rightarrow> if length (body f) < 4 then None
        else map_option (\<lambda>t. (t, \<lparr>ftype = HOT_UPDATE, body = drop 4 (body f)\<rparr>)) (rt_ends rt (sint target)))"

lemma handle_cloud_hot_update_steps:
  "ftype f = HOT_UPDATE \<Longrightarrow> handle_cloud_hot_update f rt = (case cloud_lookup f rt of None \<Rightarrow> rt | Some (t, g) \<Rightarrow> snd (write_locked t g rt))"
  by (simp add: handle_cloud_hot_update_def cloud_lookup_def send_to_end_def split: option.split)

section \<open>All threads\<close>

record edge_threads =
  runtime :: EdgeRuntime
  handlers :: "conn_id \<Rightarrow> handler_pc option"
  pending :: "(conn_id \<times> Frame) option"

datatype edge_event = Accept conn_id | Handler conn_id "Frame option" | From_cloud Frame | Cloud_write

inductive edge_step :: "edge_env \<Rightarrow> edge_threads \<Rightarrow> edge_event \<Rightarrow> edge_threads \<Rightarrow> bool" for env where
  accept: "handlers s t = None \<Longrightarrow> \<not> closed (conns (runtime s) t) \<Longrightarrow>
    edge_step env s (Accept t) (s\<lparr>handlers := (handlers s)(t \<mapsto> Start)\<rparr>)"
| handler: "handlers s t = Some p \<Longrightarrow> p \<noteq> Done \<Longrightarrow> handler_step env t inp p (runtime s) = (p', rt) \<Longrightarrow>
    edge_step env s (Handler t inp) (s\<lparr>runtime := rt, handlers := (handlers s)(t \<mapsto> p')\<rparr>)"
| cloud_find: "pending s = None \<Longrightarrow>
    edge_step env s (From_cloud f) (s\<lparr>pending := cloud_lookup f (runtime s)\<rparr>)"
| cloud_write: "pending s = Some (t, f) \<Longrightarrow>
    edge_step env s Cloud_write (s\<lparr>runtime := snd (write_locked t f (runtime s)), pending := None\<rparr>)"

inductive_cases edge_stepE: "edge_step env s e s'"

section \<open>What the steps keep\<close>

text \<open>
  Two runtimes agree up to writes: the registry is the same and connections only gain frames.
\<close>

definition only_writes :: "EdgeRuntime \<Rightarrow> EdgeRuntime \<Rightarrow> bool" where
  "only_writes rt rt' \<longleftrightarrow> rt_ends rt' = rt_ends rt \<and> rt_edge_id rt' = rt_edge_id rt
     \<and> (\<forall>t. closed (conns rt' t) = closed (conns rt t) \<and> remote_read (conns rt' t) = remote_read (conns rt t)
           \<and> (\<exists>fs. sent (conns rt' t) = sent (conns rt t) @ fs))"

lemma only_writes_refl [simp]: "only_writes rt rt"
  by (simp add: only_writes_def)

lemma only_writes_trans: "only_writes a b \<Longrightarrow> only_writes b c \<Longrightarrow> only_writes a c"
  unfolding only_writes_def by (metis append_assoc)

lemma conn_write_fields:
  "closed (snd (conn_write f c)) = closed c" "remote_read (snd (conn_write f c)) = remote_read c"
  "sent (snd (conn_write f c)) = (if fst (conn_write f c) then sent c @ [f] else sent c)"
  "fst (conn_write f c) \<Longrightarrow> \<not> closed c"
  by (auto simp: conn_write_def split: list.splits)

lemma write_locked_only_writes: "only_writes rt (snd (write_locked t f rt))"
  by (auto simp: only_writes_def write_locked_def set_conn_def split_beta conn_write_fields)

lemma snapshot_info_only_writes: "only_writes rt (send_rdma_snapshot_info_if_supported env t rt)"
  by (auto simp: send_rdma_snapshot_info_if_supported_def write_locked_only_writes split: option.split)

text \<open>A handler between its first push and \<^verbatim>\<open>unregister_transport\<close>.\<close>

definition in_service :: "handler_pc \<Rightarrow> bool" where
  "in_service p \<longleftrightarrow> p \<noteq> Start \<and> p \<noteq> Close \<and> p \<noteq> Done"

lemma in_service_simps [simp]: "\<not> in_service Start" "in_service Info" "in_service Reading" "in_service (Respond f)"
  "in_service Push" "in_service Leave" "\<not> in_service Close" "\<not> in_service Done"
  by (simp_all add: in_service_def)

text \<open>A step only writes and stays in service, registers its own connection, unregisters it, or closes it.\<close>

lemma handler_step_cases:
  assumes "handler_step env t inp p rt = (p', rt')" "p \<noteq> Done"
  obtains (writes) "only_writes rt rt'" "in_service p' \<or> p = Start \<and> p' = Close"
    | (registers) i where "rt' = register_end i t rt" "in_service p'" "in_service p"
    | (unregisters) "rt' = unregister_transport t rt" "p' = Close"
    | (closes) "rt' = close_conn t rt" "p = Close" "p' = Done"
proof (cases p)
  case Start
  then show ?thesis using assms(1) writes write_locked_only_writes [of rt t "param_frame env"] by (auto simp: split_beta split: if_splits)
next
  case Info
  then show ?thesis using assms(1) writes snapshot_info_only_writes by auto
next
  case Reading
  then consider "inp = None" | req where "inp = Some req" "ftype req = HEARTBEAT \<and> read_u32 (body req) 0 \<noteq> None"
    | req where "inp = Some req" "\<not> (ftype req = HEARTBEAT \<and> read_u32 (body req) 0 \<noteq> None)" by (cases inp) blast+
  then show ?thesis
  proof cases
    case 1
    then show ?thesis using Reading assms(1) writes by simp
  next
    case 2
    then show ?thesis using Reading assms(1) registers by (auto simp: read_request_def)
  next
    case 3
    then have "rt' = rt \<and> in_service p'" using Reading assms(1)
      by (auto simp: read_request_def split_beta Let_def split: if_splits option.splits)
    then show ?thesis using writes by simp
  qed
next
  case (Respond f)
  then show ?thesis using assms(1) writes write_locked_only_writes [of rt t f] by (auto simp: split_beta split: if_splits)
next
  case Push
  then show ?thesis using assms(1) writes write_locked_only_writes [of rt t "param_frame env"] by (auto simp: split_beta split: if_splits)
next
  case Leave
  then show ?thesis using assms(1) unregisters by simp
next
  case Close
  then show ?thesis using assms(1) closes by simp
qed (use assms(2) in simp)

section \<open>The registry never dangles\<close>

definition registry_inv :: "edge_threads \<Rightarrow> bool" where
  "registry_inv s \<longleftrightarrow> (\<forall>i t. rt_ends (runtime s) i = Some t \<longrightarrow> (\<exists>p. handlers s t = Some p \<and> in_service p))
     \<and> (\<forall>t p. handlers s t = Some p \<longrightarrow> p \<noteq> Done \<longrightarrow> \<not> closed (conns (runtime s) t))"

lemma registered_in_service:
  "registry_inv s \<Longrightarrow> rt_ends (runtime s) i = Some t \<Longrightarrow> \<exists>p. handlers s t = Some p \<and> in_service p"
  unfolding registry_inv_def by blast

lemma registry_inv_writes:
  "registry_inv s \<Longrightarrow> only_writes (runtime s) rt \<Longrightarrow> registry_inv (s\<lparr>runtime := rt, pending := x\<rparr>)"
  by (simp add: registry_inv_def only_writes_def)

lemma registry_inv_handler:
  assumes s: "registry_inv s" "handlers s t = Some p" "p \<noteq> Done" and h: "handler_step env t inp p (runtime s) = (p', rt)"
  shows "registry_inv (s\<lparr>runtime := rt, handlers := (handlers s)(t \<mapsto> p')\<rparr>)"
  using h s(3)
proof (cases rule: handler_step_cases)
  case writes
  then have "p' \<noteq> Done" by auto
  moreover have "in_service p'" if "rt_ends (runtime s) i = Some t" for i
    using writes(2) registered_in_service [OF s(1) that] s(2) by auto
  ultimately show ?thesis using s writes(1) by (auto simp: registry_inv_def only_writes_def)
next
  case (registers i)
  then have "p' \<noteq> Done" by auto
  then show ?thesis using registers s by (auto simp: registry_inv_def register_end_def)
next
  case unregisters
  then show ?thesis using s by (auto simp: registry_inv_def unregister_transport_def split: if_splits)
next
  case closes
  then have "rt_ends (runtime s) i \<noteq> Some t" for i using registered_in_service [OF s(1), of i t] s(2) by auto
  then show ?thesis using closes s by (auto simp: registry_inv_def close_conn_def set_conn_def)
qed

lemma edge_step_inv: "registry_inv s \<Longrightarrow> edge_step env s e s' \<Longrightarrow> registry_inv s'"
proof (erule edge_stepE)
  fix t assume s: "registry_inv s" "handlers s t = None" "\<not> closed (conns (runtime s) t)" "s' = s\<lparr>handlers := (handlers s)(t \<mapsto> Start)\<rparr>"
  have "rt_ends (runtime s) i \<noteq> Some t" for i using registered_in_service [OF s(1), of i t] s(2) by auto
  then show "registry_inv s'" using s by (auto simp: registry_inv_def)
next
  fix t p inp p' rt assume "registry_inv s" "handlers s t = Some p" "p \<noteq> Done" "handler_step env t inp p (runtime s) = (p', rt)"
    "s' = s\<lparr>runtime := rt, handlers := (handlers s)(t \<mapsto> p')\<rparr>"
  then show "registry_inv s'" using registry_inv_handler by simp
next
  fix f assume "registry_inv s" "s' = s\<lparr>pending := cloud_lookup f (runtime s)\<rparr>"
  then show "registry_inv s'" using registry_inv_writes [of s "runtime s"] by simp
next
  fix t f assume "registry_inv s" "s' = s\<lparr>runtime := snd (write_locked t f (runtime s)), pending := None\<rparr>"
  then show "registry_inv s'" using registry_inv_writes write_locked_only_writes by blast
qed

definition edge_init :: "edge_threads \<Rightarrow> bool" where
  "edge_init s \<longleftrightarrow> rt_ends (runtime s) = Map.empty \<and> handlers s = Map.empty \<and> pending s = None"

interpretation edge: event_system edge_init "edge_step env" registry_inv for env
  by unfold_locales (simp add: edge_init_def registry_inv_def, rule edge_step_inv)

end
