(* ===== verification/Cloud_Server.thy ===== *)
theory Cloud_Server
  imports Edge_Server End_Run
begin

text \<open>
  The Cloud of \<^verbatim>\<open>src/cloud/cloud_server.cpp\<close> with the stub predictor of
  \<^verbatim>\<open>src/cloud/cloud_lstm_runner_stub.cpp\<close>: the data and workload it loads, the ranking of hot
  positions, the registry of Edges, the forwarding of cross-edge requests and the periodic hot
  updates.  What an Edge answers to a forwarded request is a parameter.  Orders that the language leaves
  open (the iteration of a hash map followed by an unstable sort) are a ranking function.
\<close>

section \<open>Data and workload\<close>

record DataStore =
  cd_keys :: "double list"
  cd_payloads :: "payload_t list"
  by_key :: "double \<rightharpoonup> payload_t"

definition load_data :: "data_file \<Rightarrow> DataStore" where
  "load_data file = (case file of None \<Rightarrow> \<lparr>cd_keys = [], cd_payloads = [], by_key = Map.empty\<rparr>
     | Some rows \<Rightarrow> \<lparr>cd_keys = map fst rows, cd_payloads = map snd rows, by_key = map_of rows\<rparr>)"

record WorkloadRecord =
  timestamp :: double
  device_id :: int
  key_pos :: int

text \<open>One line: \<^term>\<open>Inr None\<close> for a line that is skipped, an exception when a number does not parse.\<close>

definition parse_workload_line :: "string \<Rightarrow> cpp_exception + WorkloadRecord option" where
  "parse_workload_line line = (if line = [] \<or> starts_with line ''timestamp'' then Inr None
     else case getline_comma line of None \<Rightarrow> Inr None
     | Some (tok, s) \<Rightarrow> if tok = ''timestamp'' then Inr None else bind_res (stod tok) (\<lambda>ts.
         case getline_comma s of None \<Rightarrow> Inr None
         | Some (tok, s) \<Rightarrow> bind_res (stoi tok) (\<lambda>dev.
             case getline_comma s of None \<Rightarrow> Inr None
             | Some (tok, _) \<Rightarrow> bind_res (stoi tok) (\<lambda>pos.
                 Inr (Some \<lparr>timestamp = ts, device_id = dev, key_pos = pos\<rparr>)))))"

fun parse_workload :: "string list \<Rightarrow> cpp_exception + WorkloadRecord list" where
  "parse_workload [] = Inr []"
| "parse_workload (l # ls) = bind_res (parse_workload_line l) (\<lambda>r.
     bind_res (parse_workload ls) (\<lambda>rs. Inr (case r of None \<Rightarrow> rs | Some x \<Rightarrow> x # rs)))"

text \<open>
  The first line is dropped unread.  Rows with equal timestamps keep their order here; nothing
  downstream depends on it.
\<close>

definition load_workload :: "string option \<Rightarrow> cpp_exception + WorkloadRecord list" where
  "load_workload file = (case file of None \<Rightarrow> Inr []
     | Some text \<Rightarrow> bind_res (parse_workload (drop 1 (lines_of [] text))) (\<lambda>rs. Inr (sort_key timestamp rs)))"

section \<open>Access counts\<close>

definition one_e_minus_9 :: fp where
  "one_e_minus_9 = Some (round_frac 1 (10 ^ 9))"

text \<open>\<^verbatim>\<open>std::max\<close> on doubles, and the sum of two floats (exact in a double, then rounded).\<close>

definition fp_max :: "fp \<Rightarrow> fp \<Rightarrow> fp" where
  "fp_max a b = (if fp_less a b then b else a)"

definition float_add :: "fp \<Rightarrow> fp \<Rightarrow> fp" where
  "float_add a b = fp_to_float (fp_add a b)"

definition time_bin :: "fp \<Rightarrow> fp \<Rightarrow> double \<Rightarrow> nat" where
  "time_bin min_ts span ts = (let bin = fp_to_int32 (fp_mul (fp_div (fp_sub (Some ts) min_ts) span) (fp_of_int 60))
     in if bin < 0 then 0 else if bin > 59 then 59 else nat bin)"

definition build_counts_60x10 :: "WorkloadRecord list \<Rightarrow> fp list list" where
  "build_counts_60x10 rows = (let counts = replicate 60 (replicate 10 (fp_of_int 0)) in
     if rows = [] then counts
     else let min_ts = Some (timestamp (hd rows)); max_ts = Some (timestamp (last rows));
              span = fp_max one_e_minus_9 (fp_sub max_ts min_ts)
     in fold (\<lambda>r counts. let bin = time_bin min_ts span (timestamp r); col = nat (device_id r - 1) in
          if device_id r \<ge> 1 \<and> device_id r \<le> 10
          then counts[bin := (counts ! bin)[col := float_add (counts ! bin ! col) (fp_of_int 1)]]
          else counts) rows counts)"

section \<open>Hot positions\<close>

definition end_for_position :: "int \<Rightarrow> nat \<Rightarrow> int" where
  "end_for_position pos data_size = (if pos \<le> 0 \<or> nat pos > data_size then - 1
     else let i = (pos - 1) div 1000000 + 1 in if i < 1 then - 1 else if i > 10 then 10 else i)"

text \<open>The counts of one End's positions, in order of first occurrence.\<close>

fun bump :: "int \<Rightarrow> (int \<times> int) list \<Rightarrow> (int \<times> int) list" where
  "bump p [] = [(1, p)]"
| "bump p ((c, q) # cs) = (if q = p then (c + 1, q) # cs else (c, q) # bump p cs)"

definition position_counts :: "WorkloadRecord list \<Rightarrow> nat \<Rightarrow> int \<Rightarrow> (int \<times> int) list" where
  "position_counts rows data_size i =
     fold (\<lambda>r cs. if end_for_position (key_pos r) data_size = i then bump (key_pos r) cs else cs) rows []"

type_synonym ranking = "(int \<times> int) list \<Rightarrow> (int \<times> int) list"

definition build_hot_positions_by_end ::
    "ranking \<Rightarrow> WorkloadRecord list \<Rightarrow> nat \<Rightarrow> int \<Rightarrow> int list list" where
  "build_hot_positions_by_end ranking rows data_size max_per_end =
     [] # map (\<lambda>i. map snd (take (nat max_per_end) (ranking (position_counts rows data_size i)))) [1..10]"

text \<open>What every ranking is: a permutation in order of decreasing count.\<close>

definition ranks :: "ranking \<Rightarrow> bool" where
  "ranks ranking \<longleftrightarrow> (\<forall>xs. set (ranking xs) = set xs \<and> length (ranking xs) = length xs \<and> sorted_wrt (\<lambda>a b. fst b \<le> fst a) (ranking xs))"

section \<open>The stub predictor\<close>

fun add_row :: "fp list \<Rightarrow> fp list \<Rightarrow> fp list" where
  "add_row (s # ss) (x # xs) = float_add s x # add_row ss xs"
| "add_row ss _ = ss"

definition predict_top_ends ::
    "((fp \<times> int) list \<Rightarrow> (fp \<times> int) list) \<Rightarrow> fp list list \<Rightarrow> int \<Rightarrow> int list" where
  "predict_top_ends ranking counts k = (if counts = [] \<or> k \<le> 0 then []
     else let dims = length (hd counts);
              scores = foldl add_row (replicate dims (fp_of_int 0)) counts
          in map snd (take (nat k) (ranking (zip scores (map int [0..<dims])))))"

section \<open>The server\<close>

record cloud_args =
  ca_topology :: string
  ca_data :: string
  ca_workload :: string
  ca_model :: string
  hot_interval_sec :: int
  hot_topn :: int
  predict_k :: int

definition default_cloud_args :: cloud_args where
  "default_cloud_args = \<lparr>ca_topology = ''src/common/topology.yaml'', ca_data = ''Data.txt'',
     ca_workload = ''data/workload_log.csv'', ca_model = ''hot_lstm/models/cloud_lstm.pt'',
     hot_interval_sec = 30, hot_topn = 32, predict_k = 3\<rparr>"

fun parse_args :: "cloud_args \<Rightarrow> string list \<Rightarrow> cpp_exception + cloud_args" where
  "parse_args a (k # v # rest) =
     (if k = ''--topology'' then parse_args (a\<lparr>ca_topology := v\<rparr>) rest
      else if k = ''--data'' then parse_args (a\<lparr>ca_data := v\<rparr>) rest
      else if k = ''--workload'' then parse_args (a\<lparr>ca_workload := v\<rparr>) rest
      else if k = ''--model'' then parse_args (a\<lparr>ca_model := v\<rparr>) rest
      else if k = ''--hot-interval'' then bind_res (stoi v) (\<lambda>i. parse_args (a\<lparr>hot_interval_sec := i\<rparr>) rest)
      else if k = ''--hot-topn'' then bind_res (stoi v) (\<lambda>i. parse_args (a\<lparr>hot_topn := i\<rparr>) rest)
      else if k = ''--predict-k'' then bind_res (stoi v) (\<lambda>i. parse_args (a\<lparr>predict_k := i\<rparr>) rest)
      else parse_args a (v # rest))"
| "parse_args a _ = Inr a"

record CloudServer =
  cargs :: cloud_args
  c_rm :: RangeMap
  cdata :: DataStore
  counts :: "fp list list"
  hot_positions :: "int list list"
  edge_conns :: "int \<rightharpoonup> conn_id"
  fds :: "conn_id \<Rightarrow> conn"

definition new_cloud_server ::
    "ranking \<Rightarrow> cloud_args \<Rightarrow> RangeMap \<Rightarrow> DataStore \<Rightarrow> WorkloadRecord list \<Rightarrow> (conn_id \<Rightarrow> conn) \<Rightarrow> CloudServer" where
  "new_cloud_server ranking a m d wl cs = \<lparr>cargs = a, c_rm = m, cdata = d, counts = build_counts_60x10 wl,
     hot_positions = build_hot_positions_by_end ranking wl (length (cd_keys d)) (hot_topn a * 4),
     edge_conns = Map.empty, fds = cs\<rparr>"

definition fd_write :: "conn_id \<Rightarrow> Frame \<Rightarrow> CloudServer \<Rightarrow> bool \<times> CloudServer" where
  "fd_write t f s = (let (ok, c) = conn_write f (fds s t) in (ok, s\<lparr>fds := (fds s)(t := c)\<rparr>))"

definition fd_close :: "conn_id \<Rightarrow> CloudServer \<Rightarrow> CloudServer" where
  "fd_close t s = s\<lparr>fds := (fds s)(t := (fds s t)\<lparr>closed := True\<rparr>)\<rparr>"

definition register_edge :: "int \<Rightarrow> conn_id \<Rightarrow> CloudServer \<Rightarrow> CloudServer" where
  "register_edge i t s = snd (fd_write t \<lparr>ftype = HEARTBEAT_ACK, body = append_u32 [] (word_of_int i)\<rparr>
     (s\<lparr>edge_conns := (edge_conns s)(i \<mapsto> t)\<rparr>))"

definition edge_conn :: "int \<Rightarrow> CloudServer \<Rightarrow> conn_id option" where
  "edge_conn i s = edge_conns s i"

text \<open>\<^verbatim>\<open>answer t req\<close> is the frame that then arrives on the Edge's descriptor.\<close>

definition forward_to_edge ::
    "(conn_id \<Rightarrow> Frame \<Rightarrow> Frame option) \<Rightarrow> int \<Rightarrow> Frame \<Rightarrow> CloudServer \<Rightarrow> Frame option \<times> CloudServer" where
  "forward_to_edge answer i req s = (case edge_conn i s of None \<Rightarrow> (None, s)
     | Some t \<Rightarrow> let (ok, s) = fd_write t req s in (if ok then answer t req else None, s))"

text \<open>
  \<^verbatim>\<open>locate_end\<close> on a key from the wire: both comparisons with a NaN are false, so the search returns
  the entry it probes first.
\<close>

definition locate_end_fp :: "RangeMap \<Rightarrow> fp \<Rightarrow> int" where
  "locate_end_fp m k = (case k of Some d \<Rightarrow> locate_end m d
     | None \<Rightarrow> if ends m = [] then - 1 else end_id (ends m ! ((length (ends m) - 1) div 2)))"

definition handle_cross_edge_req ::
    "(conn_id \<Rightarrow> Frame \<Rightarrow> Frame option) \<Rightarrow> conn_id \<Rightarrow> Frame \<Rightarrow> CloudServer \<Rightarrow> CloudServer" where
  "handle_cross_edge_req answer cfd req s =
    (case read_double (body req) 8 of None \<Rightarrow> snd (fd_write cfd (make_fetch_resp ERROR 0) s)
     | Some key \<Rightarrow>
       let target_end = locate_end_fp (c_rm s) key; target_edge = edge_of (c_rm s) target_end in
       if target_end < 0 \<or> target_edge < 0 then snd (fd_write cfd (make_fetch_resp NOT_FOUND 0) s)
       else let (resp, s) = forward_to_edge answer target_edge req s
         in snd (fd_write cfd (case resp of None \<Rightarrow> make_fetch_resp ERROR 0 | Some r \<Rightarrow> r) s))"

definition handle_connection ::
    "(conn_id \<Rightarrow> Frame \<Rightarrow> Frame option) \<Rightarrow> conn_id \<Rightarrow> Frame option \<Rightarrow> CloudServer \<Rightarrow> CloudServer" where
  "handle_connection answer cfd first s = (case first of None \<Rightarrow> fd_close cfd s
     | Some f \<Rightarrow> if ftype f = HEARTBEAT then
         (case read_u32 (body f) 0 of Some i \<Rightarrow> register_edge (sint i) cfd s | None \<Rightarrow> fd_close cfd s)
       else if ftype f = CROSS_EDGE_REQ then fd_close cfd (handle_cross_edge_req answer cfd f s)
       else fd_close cfd s)"

section \<open>Hot updates\<close>

text \<open>The loop over the End's positions: the body so far and how many pairs it has.\<close>

fun emit_hot :: "RangeMap \<Rightarrow> DataStore \<Rightarrow> int \<Rightarrow> int \<Rightarrow> int list \<Rightarrow> int \<Rightarrow> byte list \<Rightarrow> int \<times> byte list" where
  "emit_hot m d i topn [] emitted b = (emitted, b)"
| "emit_hot m d i topn (pos # ps) emitted b =
     (if pos \<le> 0 \<or> nat pos > length (cd_keys d) then emit_hot m d i topn ps emitted b
      else let key = cd_keys d ! (nat pos - 1) in
        if locate_end m key \<noteq> i then emit_hot m d i topn ps emitted b
        else let b' = append_u64 (append_double b key) (cd_payloads d ! (nat pos - 1))
          in if emitted + 1 \<ge> topn then (emitted + 1, b') else emit_hot m d i topn ps (emitted + 1) b')"

definition send_hot_update :: "int \<Rightarrow> CloudServer \<Rightarrow> bool \<times> CloudServer" where
  "send_hot_update i s = (case edge_conn (edge_of (c_rm s) i) s of None \<Rightarrow> (False, s)
     | Some t \<Rightarrow> if i < 1 \<or> i \<ge> int (length (hot_positions s)) then (False, s)
       else let (emitted, b) = emit_hot (c_rm s) (cdata s) i (hot_topn (cargs s)) (hot_positions s ! nat i) 0
                  (append_u32 [] (word_of_int i))
         in if emitted = 0 then (False, s) else fd_write t \<lparr>ftype = HOT_UPDATE, body = b\<rparr> s)"

text \<open>One round of \<^verbatim>\<open>hot_update_loop\<close>.\<close>

definition hot_round :: "(fp list list \<Rightarrow> int \<Rightarrow> int list) \<Rightarrow> CloudServer \<Rightarrow> CloudServer" where
  "hot_round predict s = (let top = predict (counts s) (predict_k (cargs s));
       top = (if top = [] then [0, 1, 5] else top)
     in fold (\<lambda>i s. if i + 1 \<ge> 1 \<and> i + 1 \<le> 10 then snd (send_hot_update (i + 1) s) else s) top s)"

record cloud_world =
  cw_topology :: "string \<Rightarrow> string option"
  cw_data :: "string \<Rightarrow> data_file"
  cw_text :: "string \<Rightarrow> string option"
  cw_fds :: "conn_id \<Rightarrow> conn"

text \<open>Startup: the server that then runs, or the exit code.\<close>

definition cloud_main :: "ranking \<Rightarrow> cloud_world \<Rightarrow> string list \<Rightarrow> cpp_exception + (int + CloudServer)" where
  "cloud_main ranking w argv = bind_res (parse_args default_cloud_args argv) (\<lambda>a.
     bind_res (load empty_map (cw_topology w (ca_topology a))) (\<lambda>(ok, m).
     if \<not> ok then Inr (Inl 1)
     else let d = load_data (cw_data w (ca_data a)) in
       if cd_keys d = [] then Inr (Inl 1)
       else bind_res (load_workload (cw_text w (ca_workload a))) (\<lambda>wl.
         if wl = [] then Inr (Inl 1) else Inr (Inr (new_cloud_server ranking a m d wl (cw_fds w))))))"

end
