(* ===== verification/System.thy ===== *)
theory System
  imports End_Lookup Edge_Threads Cloud_Server
begin

text \<open>
  The three programs composed.  An End's transport leads to the Edge's request handler; the Edge's
  round trip to the Cloud is the Cloud's connection handler; the Cloud's forwarded requests reach
  the target Edge's handler.  The contract that End lookups rely on follows from the handlers.
\<close>

section \<open>Wiring\<close>

text \<open>The Edge as an End sees it through connection \<^verbatim>\<open>t\<close>.\<close>

definition edge_peer ::
    "edge_env \<Rightarrow> conn_id \<Rightarrow> bool \<Rightarrow> (u64 \<Rightarrow> u32 \<Rightarrow> nat \<Rightarrow> byte list option) \<Rightarrow> EdgeRuntime peer_ops" where
  "edge_peer env t rdma mem = \<lparr>
     deliver = (\<lambda>rt f. if closed (conns rt t) then (False, rt, [])
       else let (go, rt') = handle_req env t f rt; rt'' = (if go then rt' else close_conn t (unregister_transport t rt'))
         in (True, rt'', drop (length (sent (conns rt t))) (sent (conns rt'' t)))),
     supports_remote_read = rdma, read_remote = (\<lambda>_. mem)\<rparr>"

text \<open>One connection of an Edge to the Cloud: a request and the frame that comes back.\<close>

definition cloud_round ::
    "(conn_id \<Rightarrow> Frame \<Rightarrow> Frame option) \<Rightarrow> CloudServer \<Rightarrow> conn_id \<Rightarrow> Frame \<Rightarrow> Frame option" where
  "cloud_round answer s cfd req =
     (case drop (length (sent (fds s cfd))) (sent (fds (handle_connection answer cfd (Some req) s) cfd)) of
        [] \<Rightarrow> None | f # _ \<Rightarrow> Some f)"

definition edge_answer :: "(int \<Rightarrow> edge_env) \<Rightarrow> (conn_id \<Rightarrow> int) \<Rightarrow> conn_id \<Rightarrow> Frame \<Rightarrow> Frame option" where
  "edge_answer envs edge_at u req = Some (handle_cloud_cross_req (envs (edge_at u)) req)"

definition writable :: "conn \<Rightarrow> bool" where
  "writable c \<longleftrightarrow> \<not> closed c \<and> write_outcomes c = []"

section \<open>What the index promises\<close>

definition index_serves :: "index_ops \<Rightarrow> (double \<times> payload_t) list \<Rightarrow> bool" where
  "index_serves ix rows \<longleftrightarrow> (\<forall>k p.
     (case map_of rows k of Some v \<Rightarrow> op_find ix (Some k) p = (True, v) | None \<Rightarrow> \<not> fst (op_find ix (Some k) p))
     \<and> (\<forall>slot v. op_find_through_net ix (Some k) p slot = (1, v) \<longrightarrow> map_of rows k = Some v))"

lemma op_find_serves:
  assumes "index_serves ix rows"
  shows "\<exists>v. op_find ix (Some k) p = (map_of rows k \<noteq> None, v) \<and> (map_of rows k = None \<or> map_of rows k = Some v)"
proof -
  have "case map_of rows k of Some v \<Rightarrow> op_find ix (Some k) p = (True, v) | None \<Rightarrow> \<not> fst (op_find ix (Some k) p)"
    using assms by (simp add: index_serves_def)
  then show ?thesis by (cases "op_find ix (Some k) p"; cases "map_of rows k") auto
qed

lemma fetch_serves:
  assumes "index_serves ix rows"
  shows "\<exists>v. fetch ix (Some k) slot = (map_of rows k \<noteq> None, v) \<and> (map_of rows k = None \<or> map_of rows k = Some v)"
proof (cases "slot \<ge> 0 \<and> fst (op_find_through_net ix (Some k) 0 slot) = 1")
  case True
  then have "op_find_through_net ix (Some k) 0 slot = (1, snd (op_find_through_net ix (Some k) 0 slot))" by (metis prod.collapse)
  then have "map_of rows k = Some (snd (op_find_through_net ix (Some k) 0 slot))" using assms by (auto simp: index_serves_def)
  then show ?thesis using True by (auto simp: fetch_def split_beta)
next
  case False
  then show ?thesis using op_find_serves [OF assms, of k] by (auto simp: fetch_def split_beta)
qed

lemma response_of_pair:
  "db k = None \<or> db k = Some v \<Longrightarrow> response_for db k (make_fetch_resp (if db k \<noteq> None then OK else NOT_FOUND) v)"
  by (auto simp: response_for_def)

section \<open>Data ranges\<close>

text \<open>
  The rows that an Edge loads: those between the lowest and the highest bound of its Ends, including rows in
  gaps between their ranges.
\<close>

definition edge_rows :: "RangeMap \<Rightarrow> EdgeInfo \<Rightarrow> (double \<times> payload_t) list \<Rightarrow> (double \<times> payload_t) list" where
  "edge_rows m e rows = (let (lo, hi) = edge_range m e in filter (\<lambda>(k, p). lo \<le> k \<and> k \<le> hi) rows)"

lemma map_of_filter_range:
  "P k \<Longrightarrow> map_of (filter (\<lambda>(k, p). P k) rows) k = map_of rows k"
  by (induction rows) auto

lemma edge_fold_inner:
  fixes r :: "double \<times> double"
  assumes "fold (\<lambda>en (lo, hi). if end_id en = i then (min lo (key_lo en), max hi (key_hi en)) else (lo, hi)) es r = (a, b)"
  shows "a \<le> fst r \<and> snd r \<le> b \<and> (\<forall>en\<in>set es. end_id en = i \<longrightarrow> a \<le> key_lo en \<and> key_hi en \<le> b)"
  using assms
proof (induction es arbitrary: r)
  case (Cons en es)
  obtain lo hi where r: "r = (lo, hi)" by (cases r)
  define r' where "r' = (if end_id en = i then (min lo (key_lo en), max hi (key_hi en)) else (lo, hi))"
  from Cons.IH [of r'] Cons.prems r have
    "a \<le> fst r' \<and> snd r' \<le> b \<and> (\<forall>en\<in>set es. end_id en = i \<longrightarrow> a \<le> key_lo en \<and> key_hi en \<le> b)" by (simp add: r'_def)
  moreover have "fst r' \<le> lo" "hi \<le> snd r'" "end_id en = i \<Longrightarrow> fst r' \<le> key_lo en \<and> key_hi en \<le> snd r'"
    by (auto simp: r'_def)
  ultimately show ?case using r by auto
qed simp

lemma edge_fold_outer:
  fixes r :: "double \<times> double"
  assumes "fold (\<lambda>i r. fold (\<lambda>en (lo, hi). if end_id en = i then (min lo (key_lo en), max hi (key_hi en)) else (lo, hi)) es r) is r = (a, b)"
  shows "a \<le> fst r \<and> snd r \<le> b \<and> (\<forall>i\<in>set is. \<forall>en\<in>set es. end_id en = i \<longrightarrow> a \<le> key_lo en \<and> key_hi en \<le> b)"
  using assms
proof (induction "is" arbitrary: r)
  case (Cons i "is")
  obtain a' b' where m: "fold (\<lambda>en (lo, hi). if end_id en = i then (min lo (key_lo en), max hi (key_hi en)) else (lo, hi)) es r = (a', b')"
    by fastforce
  have "a \<le> a' \<and> b' \<le> b \<and> (\<forall>i\<in>set is. \<forall>en\<in>set es. end_id en = i \<longrightarrow> a \<le> key_lo en \<and> key_hi en \<le> b)"
    using Cons.IH [of "(a', b')"] Cons.prems m by simp
  moreover note edge_fold_inner [OF m]
  ultimately show ?case by (auto intro: order_trans)
qed simp

lemma edge_range_covers:
  assumes "en \<in> set (ends m)" "end_id en \<in> set (end_ids e)" "edge_range m e = (lo, hi)"
  shows "lo \<le> key_lo en \<and> key_hi en \<le> hi"
  using edge_fold_outer [OF assms(3) [unfolded edge_range_def]] assms(1,2) by blast

lemma edge_rows_lookup:
  assumes "en \<in> set (ends m)" "end_id en \<in> set (end_ids e)" "in_range k en"
  shows "map_of (edge_rows m e rows) k = map_of rows k"
proof -
  obtain lo hi where r: "edge_range m e = (lo, hi)" by fastforce
  then have "lo \<le> k \<and> k \<le> hi" using edge_range_covers [OF assms(1,2) r] assms(3) by (auto simp: in_range_def)
  then show ?thesis using map_of_filter_range [of "\<lambda>k. lo \<le> k \<and> k \<le> hi" k rows] r by (simp add: edge_rows_def)
qed

text \<open>The Edge's \<^verbatim>\<open>load_range\<close> over its own range gives these rows.\<close>

lemma load_range_edge_rows:
  assumes "edge_range m e = (lo, hi)"
  shows "zip (ds_keys (load_range (Some rows) lo hi)) (ds_payloads (load_range (Some rows) lo hi)) = edge_rows m e rows"
  using assms by (simp add: load_range_def edge_rows_def Let_def zip_map_fst_snd)

section \<open>The End's store\<close>

lemma ordered_insert_mem: "x \<in> set (ordered_insert k p xs) \<Longrightarrow> x = (k, p) \<or> x \<in> set xs"
  by (induction k p xs rule: ordered_insert.induct) (auto split: if_splits)

lemma ordered_insert_sorted:
  "sorted_wrt (<) (map fst xs) \<Longrightarrow> sorted_wrt (<) (map fst (ordered_insert k p xs))"
proof (induction k p xs rule: ordered_insert.induct)
  case (2 k p l q xs)
  consider "k < l" | "k = l" | "l < k" by (rule linorder_cases)
  then show ?case
  proof cases
    case 1
    then have "\<forall>y\<in>fst ` set xs. k < y" using "2.prems" by auto
    then show ?thesis using 1 "2.prems" by simp
  next
    case 3
    then have "\<forall>x\<in>set (ordered_insert k p xs). l < fst x" using "2.prems" by (auto dest!: ordered_insert_mem)
    then show ?thesis using 3 2 by auto
  qed (use "2.prems" in simp)
qed simp

lemma ordered_insert_lookup:
  "sorted_wrt (<) (map fst xs) \<Longrightarrow>
    map_of (ordered_insert k p xs) l = (if l = k then Some (case map_of xs k of Some q \<Rightarrow> q | None \<Rightarrow> p) else map_of xs l)"
proof (induction k p xs rule: ordered_insert.induct)
  case (2 k p m q xs)
  have "k < m \<Longrightarrow> map_of xs k = None" using "2.prems" by (auto simp: map_of_eq_None_iff)
  then show ?case using 2 by auto
qed simp

lemma end_load_range_lookup:
  "sorted_wrt (<) (map fst (btree (end_load_range (Some rows) lo hi)))
   \<and> map_of (btree (end_load_range (Some rows) lo hi)) l = map_of (filter (\<lambda>(k, p). lo \<le> k \<and> k \<le> hi) rows) l"
proof -
  let ?f = "\<lambda>(k, p) s. if lo \<le> k \<and> k \<le> hi then \<lparr>btree = ordered_insert k p (btree s), n_loaded = n_loaded s + 1\<rparr> else s"
  have "sorted_wrt (<) (map fst (btree s)) \<Longrightarrow> sorted_wrt (<) (map fst (btree (fold ?f rows s)))
      \<and> map_of (btree (fold ?f rows s)) l
        = (case map_of (btree s) l of Some v \<Rightarrow> Some v | None \<Rightarrow> map_of (filter (\<lambda>(k, p). lo \<le> k \<and> k \<le> hi) rows) l)" for s
  proof (induction rows arbitrary: s)
    case (Cons kp rows)
    obtain k p where kp: "kp = (k, p)" by (cases kp)
    show ?case
    proof (cases "lo \<le> k \<and> k \<le> hi")
      case True
      have "sorted_wrt (<) (map fst (btree (?f kp s)))" using ordered_insert_sorted [OF Cons.prems] True kp by simp
      from Cons.IH [OF this] show ?thesis using True kp ordered_insert_lookup [OF Cons.prems, of k p l]
        by (auto split: option.splits)
    next
      case False
      then have "?f kp s = s" "filter (\<lambda>(k, p). lo \<le> k \<and> k \<le> hi) (kp # rows) = filter (\<lambda>(k, p). lo \<le> k \<and> k \<le> hi) rows"
        by (auto simp: kp)
      then show ?thesis using Cons.IH [OF Cons.prems] by (auto split: option.splits)
    qed
  qed (simp split: option.split)
  from this [of "\<lparr>btree = [], n_loaded = 0\<rparr>"] show ?thesis by (simp add: end_load_range_def)
qed

section \<open>The composed system\<close>

text \<open>
  One End \<^verbatim>\<open>my_id\<close> in a running deployment: a topology with disjoint ranges whose Edges list their Ends,
  every Edge's index serving its share of the rows, the Edges registered with the Cloud, and
  the connections writable.
\<close>

locale plin_system =
  fixes rows :: "(double \<times> payload_t) list" and m :: RangeMap and my_id :: int
    and envs :: "int \<Rightarrow> edge_env" and t :: conn_id and rdma :: bool
    and mem :: "u64 \<Rightarrow> u32 \<Rightarrow> nat \<Rightarrow> byte list option"
    and s :: CloudServer and cfd :: conn_id and edge_at :: "conn_id \<Rightarrow> int"
  assumes topo: "wf_topology m" "c_rm s = m"
    and bounds: "\<forall>en\<in>set (ends m). is_double (key_lo en) \<and> is_double (key_hi en)"
    and listed: "\<forall>en\<in>set (ends m). \<exists>e\<in>set (edges m). edge_id e = end_edge_id en \<and> end_id en \<in> set (end_ids e)
      \<and> index_serves (idx (envs (edge_id e))) (edge_rows m e rows)"
    and registered: "\<forall>en\<in>set (ends m). \<exists>u. edge_conns s (end_edge_id en) = Some u \<and> u \<noteq> cfd
      \<and> writable (fds s u) \<and> edge_at u = end_edge_id en"
    and cloud_conn: "writable (fds s cfd)"
    and cloud: "cloud_fetch (envs (edge_of m my_id)) = cloud_round (edge_answer envs edge_at) s cfd"
begin

abbreviation env :: edge_env where
  "env \<equiv> envs (edge_of m my_id)"

lemma located:
  assumes "locate_end m k \<ge> 0"
  obtains en where "en \<in> set (ends m)" "in_range k en" "locate_end m k = end_id en"
    "edge_of m (locate_end m k) = end_edge_id en" "is_double k"
proof (rule locate_end_cases [OF topo(1), of k])
  fix e assume e: "e \<in> set (ends m)" "in_range k e" "locate_end m k = end_id e"
  have "is_double k" using bounds e(1,2) by (force simp: is_double_def in_range_def less_eq_double_def)
  then show ?thesis using that [OF e] locate_end_hit [OF topo(1) e(1,2)] by simp
qed (use assms in simp)

lemma edge_find:
  assumes "locate_end m k \<ge> 0"
  shows "\<exists>sub. index_serves (idx (envs (edge_of m (locate_end m k)))) sub \<and> map_of sub k = map_of rows k"
  using assms
proof (rule located)
  fix en assume en: "en \<in> set (ends m)" "in_range k en" "edge_of m (locate_end m k) = end_edge_id en"
  from listed en(1) obtain e where "edge_id e = end_edge_id en" "end_id en \<in> set (end_ids e)"
    "index_serves (idx (envs (edge_id e))) (edge_rows m e rows)" by blast
  then show ?thesis using edge_rows_lookup [OF en(1) _ en(2)] en(3) by metis
qed

definition pinv :: "EdgeRuntime \<Rightarrow> bool" where
  "pinv rt \<longleftrightarrow> writable (conns rt t)"

lemma write_ok:
  assumes "pinv rt"
  shows "\<exists>rt'. write_locked t f rt = (True, rt') \<and> pinv rt' \<and> sent (conns rt' t) = sent (conns rt t) @ [f]"
  using assms by (simp add: pinv_def writable_def write_locked_def conn_write_def set_conn_def)

lemma fetch_req_handled:
  assumes p: "pinv rt" and k: "locate_end m k \<ge> 0" "same_edge m (locate_end m k) my_id"
  shows "\<exists>rt' resp. deliver (edge_peer env t rdma mem) rt (fetch_req k slot) = (True, rt', [resp]) \<and> pinv rt'
    \<and> response_for (map_of rows) k resp"
proof -
  have d: "is_double k" using located [OF k(1)] by blast
  have e: "edge_of m (locate_end m k) = edge_of m my_id" using k(2) by (simp add: same_edge_def)
  from edge_find [OF k(1)] obtain sub where sub: "index_serves (idx env) sub" "map_of sub k = map_of rows k"
    unfolding e by blast
  let ?slot = "sint (word_of_int slot :: u32)"
  from fetch_serves [OF sub(1), of k ?slot] obtain v where
    v: "fetch (idx env) (Some k) ?slot = (map_of rows k \<noteq> None, v)" "map_of rows k = None \<or> map_of rows k = Some v"
    unfolding sub(2) by blast
  let ?resp = "make_fetch_resp (if map_of rows k \<noteq> None then OK else NOT_FOUND) v"
  have "handle_req env t (fetch_req k slot) rt = write_locked t ?resp rt"
    by (simp add: handle_req_def fetch_req_def double_of_bits_inverse [OF d] v(1) Let_def del: not_None_eq)
  moreover from write_ok [OF p, of ?resp] obtain rt' where
    "write_locked t ?resp rt = (True, rt')" "pinv rt'" "sent (conns rt' t) = sent (conns rt t) @ [?resp]" by blast
  ultimately show ?thesis using p response_of_pair [of "map_of rows", OF v(2)]
    by (auto simp: edge_peer_def pinv_def writable_def)
qed

lemma cloud_routes:
  assumes k: "locate_end m k \<ge> 0"
  shows "\<exists>resp. cloud_fetch env (cross_req rid k) = Some resp \<and> response_for (map_of rows) k resp"
  using k
proof (rule located)
  fix en assume en: "en \<in> set (ends m)" "in_range k en" "edge_of m (locate_end m k) = end_edge_id en" "is_double k"
  from registered en(1) obtain u where u: "edge_conns s (end_edge_id en) = Some u" "u \<noteq> cfd" "writable (fds s u)"
    "edge_at u = end_edge_id en" by blast
  have key: "read_double (body (cross_req rid k)) 8 = Some (Some k)"
    using read_double_append [OF en(4), of "u64_bytes rid" 8 "[]"] by (simp add: cross_req_def append_u64_def)
  from edge_find [OF k] obtain sub where sub: "index_serves (idx (envs (end_edge_id en))) sub" "map_of sub k = map_of rows k"
    unfolding en(3) by blast
  from op_find_serves [OF sub(1), of k 0] obtain v where
    v: "op_find (idx (envs (end_edge_id en))) (Some k) 0 = (map_of rows k \<noteq> None, v)" "map_of rows k = None \<or> map_of rows k = Some v"
    unfolding sub(2) by blast
  let ?resp = "make_fetch_resp (if map_of rows k \<noteq> None then OK else NOT_FOUND) v"
  have ans: "edge_answer envs edge_at u (cross_req rid k) = Some ?resp"
    by (simp add: edge_answer_def u(4) handle_cloud_cross_req_def key v(1))
  have "0 \<le> end_edge_id en" using topo(1) en(1) by (simp add: wf_topology_def)
  then have "cloud_round (edge_answer envs edge_at) s cfd (cross_req rid k) = Some ?resp"
    using u k en(3) cloud_conn ans topo(2) key
    by (simp add: cloud_round_def handle_connection_def handle_cross_edge_req_def forward_to_edge_def edge_conn_def
        fd_write_def conn_write_def fd_close_def writable_def locate_end_fp_def Let_def split_beta cross_req_def)
  then show ?thesis using cloud response_of_pair [of "map_of rows", OF v(2)] by auto
qed

lemma cross_req_handled:
  assumes p: "pinv rt" and k: "locate_end m k \<ge> 0"
  shows "\<exists>rt' resp. deliver (edge_peer env t rdma mem) rt (cross_req rid k) = (True, rt', [resp]) \<and> pinv rt'
    \<and> response_for (map_of rows) k resp"
proof -
  from cloud_routes [OF k, of rid] obtain resp where
    resp: "cloud_fetch env (cross_req rid k) = Some resp" "response_for (map_of rows) k resp" by blast
  have "handle_req env t (cross_req rid k) rt = write_locked t resp rt"
    using resp(1) by (simp add: handle_req_def cross_req_def)
  moreover from write_ok [OF p, of resp] obtain rt' where
    "write_locked t resp rt = (True, rt')" "pinv rt'" "sent (conns rt' t) = sent (conns rt t) @ [resp]" by blast
  ultimately show ?thesis using p resp(2) by (auto simp: edge_peer_def pinv_def writable_def)
qed

end

sublocale plin_system \<subseteq> svc: edge_service "edge_peer env t rdma mem" pinv mem "map_of rows" m my_id
proof
  fix p k slot
  assume "pinv p" "0 \<le> locate_end m k" "same_edge m (locate_end m k) my_id"
  from fetch_req_handled [OF this, of slot] show
    "\<exists>p' fs resp. deliver (edge_peer env t rdma mem) p (fetch_req k slot) = (True, p', fs @ [resp]) \<and> pinv p'
      \<and> (\<forall>f\<in>set fs. good_frame mem m (map_of rows) f) \<and> response_for (map_of rows) k resp"
    by (metis append_Nil empty_iff list.set(1))
next
  fix p k rid
  assume "pinv p" "0 \<le> locate_end m k"
  from cross_req_handled [OF this, of rid] show
    "\<exists>p' fs resp. deliver (edge_peer env t rdma mem) p (cross_req rid k) = (True, p', fs @ [resp]) \<and> pinv p'
      \<and> (\<forall>f\<in>set fs. good_frame mem m (map_of rows) f) \<and> response_for (map_of rows) k resp"
    by (metis append_Nil empty_iff list.set(1))
qed (simp add: edge_peer_def)

text \<open>An End as \<^verbatim>\<open>main\<close> builds it: its slice of the rows, empty caches, a connection with waiting frames.\<close>

definition fresh_end :: "(double \<times> payload_t) list \<Rightarrow> RangeMap \<Rightarrow> EndInfo \<Rightarrow> EdgeRuntime \<Rightarrow> Frame list \<Rightarrow> EdgeRuntime EndNode" where
  "fresh_end rows m en rt fs = new_node (end_id en) m (end_load_range (Some rows) (key_lo en) (key_hi en))
     (Some \<lparr>peer = rt, inbox = fs\<rparr>)"

context plin_system
begin

lemma fresh_node_ok:
  assumes "en \<in> set (ends m)" "end_id en = my_id" "writable (conns rt t)" "\<forall>f\<in>set fs. good_frame mem m (map_of rows) f"
  shows "svc.node_ok (fresh_end rows m en rt fs)"
proof -
  have "map_of (btree (end_load_range (Some rows) (key_lo en) (key_hi en))) k = served m (map_of rows) k" if "locate_end m k = my_id" for k
  proof -
    have l: "0 \<le> locate_end m k" using topo(1) assms(1,2) that by (auto simp: wf_topology_def)
    then have "in_range k en"
    proof (rule located)
      fix e assume "e \<in> set (ends m)" "in_range k e" "locate_end m k = end_id e"
      then show ?thesis using topo(1) assms(1,2) that by (metis distinct_map inj_onD wf_topology_def)
    qed
    then show ?thesis using l end_load_range_lookup [of rows "key_lo en" "key_hi en" k]
        map_of_filter_range [of "\<lambda>k. key_lo en \<le> k \<and> k \<le> key_hi en" k rows] by (simp add: in_range_def served_def)
  qed
  then show ?thesis using assms
    by (simp add: svc.node_ok_def fresh_end_def new_node_def caches_ok_def hc_empty_simps unloaded_snap_sound
        svc.link_ok_def pinv_def)
qed

text \<open>What an End that has replayed any keys answers next, and the time after.\<close>

lemma history_lookup:
  assumes "en \<in> set (ends m)" "end_id en = my_id" "writable (conns rt t)" "\<forall>f\<in>set fs. good_frame mem m (map_of rows) f"
  shows "\<exists>b' n r n'. bench_loop (edge_peer env t rdma mem) ks b (fresh_end rows m en rt fs) = Inr (b', n)
    \<and> b_found b' = b_found b + length (filter (\<lambda>k. served m (map_of rows) k \<noteq> None) ks)
    \<and> b_stage1 b' + b_stage2 b' + b_stage3 b' + b_stage4 b' = b_stage1 b + b_stage2 b + b_stage3 b + b_stage4 b + length ks
    \<and> lookup (edge_peer env t rdma mem) k n = Inr (r, n')
    \<and> found r = (served m (map_of rows) k \<noteq> None) \<and> (served m (map_of rows) k = None \<or> served m (map_of rows) k = Some (payload r))
    \<and> (locate_end m k \<noteq> my_id \<and> found r \<longrightarrow>
         (\<exists>n''. lookup (edge_peer env t rdma mem) k n' = Inr (\<lparr>found = True, payload = payload r, stage = HOT_CACHE\<rparr>, n'')))"
proof -
  from svc.bench_loop_ok [OF fresh_node_ok [OF assms], of ks b] obtain b' n where
    b: "bench_loop (edge_peer env t rdma mem) ks b (fresh_end rows m en rt fs) = Inr (b', n)" "svc.node_ok n"
      "b_found b' = b_found b + length (filter (\<lambda>k. served m (map_of rows) k \<noteq> None) ks)"
      "b_stage1 b' + b_stage2 b' + b_stage3 b' + b_stage4 b' = b_stage1 b + b_stage2 b + b_stage3 b + b_stage4 b + length ks" by blast
  from svc.lookup_ok [OF b(2), of k] obtain r n' where
    r: "lookup (edge_peer env t rdma mem) k n = Inr (r, n')" "svc.answers k r" by blast
  then show ?thesis using b svc.lookup_again [OF b(2) _ r(1)] by (auto simp: svc.answers_def)
qed

end

end
