(* ===== verification/Plin_Serve.thy ===== *)
theory Plin_Serve
  imports Plin_Small System
begin

text \<open>
  The index an Edge loads is the index its handlers rely on: its operations answer every key from the
  loaded rows, whatever position the End predicted.
\<close>

lemma plin_ops_serve:
  assumes inv: "plin_inv ix ss (map_of rows)" and tbl: "table_ok ix"
  shows "index_serves (plin_ops ix) rows"
proof -
  have "op_find (plin_ops ix) (Some k) p = (case map_of rows k of Some v \<Rightarrow> (True, v) | None \<Rightarrow> (False, p))" for k p
    by (simp add: plin_ops_def plin_find_any [OF inv] split: option.split)
  moreover have "map_of rows k = Some v" if n: "op_find_through_net (plin_ops ix) (Some k) p slot = (1, v)" for k p slot v
  proof -
    obtain ret w where "find_through_net k p slot ix = Some (Inr (ret, w, ix))" "ret = 1 \<longrightarrow> map_of rows k = Some w"
      using find_through_net_ok [OF inv, of k p slot] tbl by (auto simp: table_ok_def)
    then show ?thesis using n by (simp add: plin_ops_def)
  qed
  ultimately show ?thesis by (auto simp: index_serves_def split: option.split)
qed

lemma loaded_serves:
  assumes "loadable rows" "bulk_load rows PlinIndex_new = Some (Inr ix)" "steady_index ix"
  shows "index_serves (plin_ops ix) rows"
  using loaded_inv(1,2) [OF assms] plin_ops_serve by blast

text \<open>The operations of the index loaded with given rows.\<close>

definition loaded_ops :: "(double \<times> payload_t) list \<Rightarrow> index_ops" where
  "loaded_ops rows = (case bulk_load rows PlinIndex_new of Some (Inr ix) \<Rightarrow> plin_ops ix | _ \<Rightarrow> plin_ops PlinIndex_new)"

lemma loaded_ops_serve:
  assumes "loadable rows" "length rows \<le> 2"
  shows "index_serves (loaded_ops rows) rows"
  using small_load [OF assms] loaded_serves [OF assms(1)] by (auto simp: loaded_ops_def)

end
