(* ===== verification/System_Demo.thy ===== *)
theory System_Demo
  imports Plin_Serve Shipped_Topology
begin

text \<open>
  A deployment on the shipped topology: two Edges, ten Ends and a small data file, each Edge with
  the index loaded with its rows.  It shows that the hypotheses of the system theorems can hold.
\<close>

definition open_conn :: conn where
  "open_conn = \<lparr>write_outcomes = [], sent = [], closed = False, remote_read = False\<rparr>"

definition demo_rows :: "(double \<times> payload_t) list" where
  "demo_rows = [(Dbl (- 4801453603149578239), 11), (Dbl 0, 22), (Dbl 4707343941256652004, 33)]"

definition demo_base :: "int \<Rightarrow> edge_env" where
  "demo_base e = \<lparr>idx = (case List.find (\<lambda>g. edge_id g = e) (edges topology_map) of
       None \<Rightarrow> plin_ops PlinIndex_new | Some g \<Rightarrow> loaded_ops (edge_rows topology_map g demo_rows)),
     param_frame = make_param_push [], rdma_snapshot = None, register_memory = (\<lambda>_ _. None), cloud_fetch = (\<lambda>_. None)\<rparr>"

definition demo_cloud :: CloudServer where
  "demo_cloud = \<lparr>cargs = default_cloud_args, c_rm = topology_map, cdata = load_data (Some demo_rows),
     counts = [], hot_positions = [[], [1], [], [], [], [2], [3], [], [], [], []],
     edge_conns = [1 \<mapsto> 1, 2 \<mapsto> 2], fds = (\<lambda>_. open_conn)\<rparr>"

definition demo_envs :: "int \<Rightarrow> edge_env" where
  "demo_envs e = (demo_base e)\<lparr>cloud_fetch := cloud_round (edge_answer demo_base int) demo_cloud 0\<rparr>"

lemma demo_answer: "edge_answer demo_envs int = edge_answer demo_base int"
  by (simp add: fun_eq_iff edge_answer_def demo_envs_def handle_cloud_cross_req_def split: option.split)

lemma demo_bounds: "list_all (\<lambda>en. is_double (key_lo en) \<and> is_double (key_hi en)) (ends topology_map)"
  by code_simp

lemma demo_listed:
  "list_all (\<lambda>en. case List.find (\<lambda>g. edge_id g = end_edge_id en) (edges topology_map) of
     None \<Rightarrow> False | Some g \<Rightarrow> end_id en \<in> set (end_ids g) \<and> end_edge_id en \<in> {1, 2}) (ends topology_map)"
  by code_simp

lemma demo_edge_rows:
  "map (\<lambda>g. edge_rows topology_map g demo_rows) (edges topology_map) = [take 2 demo_rows, drop 2 demo_rows]"
  by code_simp

lemma demo_loadable: "loadable (take 2 demo_rows)" "loadable (drop 2 demo_rows)"
  by (simp_all add: loadable_def demo_rows_def finite_double_def inf_ordinal_def FREE_FLAG_def)

lemma demo_serves:
  "g \<in> set (edges topology_map) \<Longrightarrow> index_serves (loaded_ops (edge_rows topology_map g demo_rows)) (edge_rows topology_map g demo_rows)"
proof -
  assume "g \<in> set (edges topology_map)"
  then have "edge_rows topology_map g demo_rows \<in> set (map (\<lambda>g. edge_rows topology_map g demo_rows) (edges topology_map))" by simp
  then have "edge_rows topology_map g demo_rows \<in> {take 2 demo_rows, drop 2 demo_rows}" unfolding demo_edge_rows by simp
  moreover have "index_serves (loaded_ops (take 2 demo_rows)) (take 2 demo_rows)" "index_serves (loaded_ops (drop 2 demo_rows)) (drop 2 demo_rows)"
    by (rule loaded_ops_serve [OF demo_loadable(1)], simp add: demo_rows_def) (rule loaded_ops_serve [OF demo_loadable(2)], simp add: demo_rows_def)
  ultimately show ?thesis by (elim insertE emptyE) simp_all
qed

interpretation demo: plin_system demo_rows topology_map 5 demo_envs 7 False "\<lambda>_ _ _. None" demo_cloud 0 int
proof
  show "wf_topology topology_map" by (rule topology_map_wf)
  show "\<forall>en\<in>set (ends topology_map). is_double (key_lo en) \<and> is_double (key_hi en)"
    using demo_bounds by (simp add: list_all_iff)
  show "cloud_fetch (demo_envs (edge_of topology_map 5)) = cloud_round (edge_answer demo_envs int) demo_cloud 0"
    by (simp add: demo_answer) (simp add: demo_envs_def)
  show "\<forall>en\<in>set (ends topology_map). \<exists>u. edge_conns demo_cloud (end_edge_id en) = Some u \<and> u \<noteq> 0
      \<and> writable (fds demo_cloud u) \<and> int u = end_edge_id en"
  proof
    fix en assume "en \<in> set (ends topology_map)"
    then have "end_edge_id en \<in> {1, 2}" using demo_listed by (auto simp: list_all_iff split: option.splits)
    then show "\<exists>u. edge_conns demo_cloud (end_edge_id en) = Some u \<and> u \<noteq> 0 \<and> writable (fds demo_cloud u) \<and> int u = end_edge_id en"
      by (auto simp: demo_cloud_def writable_def open_conn_def)
  qed
  show "\<forall>en\<in>set (ends topology_map). \<exists>e\<in>set (edges topology_map). edge_id e = end_edge_id en \<and> end_id en \<in> set (end_ids e)
      \<and> index_serves (idx (demo_envs (edge_id e))) (edge_rows topology_map e demo_rows)"
  proof
    fix en assume "en \<in> set (ends topology_map)"
    then obtain g where g: "List.find (\<lambda>g. edge_id g = end_edge_id en) (edges topology_map) = Some g" "end_id en \<in> set (end_ids g)"
      using demo_listed by (auto simp: list_all_iff split: option.splits)
    then have "g \<in> set (edges topology_map)" "edge_id g = end_edge_id en" by (auto simp: find_Some_iff)
    moreover have "idx (demo_envs (edge_id g)) = loaded_ops (edge_rows topology_map g demo_rows)"
      using g(1) calculation(2) by (simp add: demo_envs_def demo_base_def)
    ultimately show "\<exists>e\<in>set (edges topology_map). edge_id e = end_edge_id en \<and> end_id en \<in> set (end_ids e)
        \<and> index_serves (idx (demo_envs (edge_id e))) (edge_rows topology_map e demo_rows)"
      using g(2) demo_serves by metis
  qed
qed (simp_all add: demo_cloud_def writable_def open_conn_def)

end
