(* ===== verification/Hot_Update.thy ===== *)
theory Hot_Update
  imports System
begin

text \<open>
  Hot updates on their way from the Cloud through an Edge into an End's cache, and what a lookup can
  see of them.
\<close>

section \<open>The Cloud's frame\<close>

definition pair_bytes :: "double \<times> payload_t \<Rightarrow> byte list" where
  "pair_bytes kp = u64_bytes (bits_of_double (fst kp)) @ u64_bytes (snd kp)"

text \<open>The pairs that an update for End \<^verbatim>\<open>i\<close> carries.\<close>

definition emittable :: "RangeMap \<Rightarrow> DataStore \<Rightarrow> int \<Rightarrow> int \<Rightarrow> bool" where
  "emittable m d i pos \<longleftrightarrow> 0 < pos \<and> nat pos \<le> length (cd_keys d) \<and> locate_end m (cd_keys d ! (nat pos - 1)) = i"

definition pair_at :: "DataStore \<Rightarrow> int \<Rightarrow> double \<times> payload_t" where
  "pair_at d pos = (cd_keys d ! (nat pos - 1), cd_payloads d ! (nat pos - 1))"

definition hot_selection :: "RangeMap \<Rightarrow> DataStore \<Rightarrow> int \<Rightarrow> int \<Rightarrow> int list \<Rightarrow> (double \<times> payload_t) list" where
  "hot_selection m d i topn ps = map (pair_at d) (take (nat (max 1 topn)) (filter (emittable m d i) ps))"

lemma emit_hot_selection:
  "emit_hot m d i topn ps e b = (let xs = map (pair_at d) (take (nat (max 1 (topn - e))) (filter (emittable m d i) ps))
     in (e + int (length xs), b @ concat (map pair_bytes xs)))"
proof (induction m d i topn ps e b rule: emit_hot.induct)
  case (2 m d i topn pos ps e b)
  show ?case
  proof (cases "emittable m d i pos")
    case False
    then have "emit_hot m d i topn (pos # ps) e b = emit_hot m d i topn ps e b"
      by (auto simp: emittable_def Let_def)
    moreover have "emit_hot m d i topn ps e b = (let xs = map (pair_at d) (take (nat (max 1 (topn - e))) (filter (emittable m d i) ps))
        in (e + int (length xs), b @ concat (map pair_bytes xs)))"
    proof (cases "pos \<le> 0 \<or> nat pos > length (cd_keys d)")
      case True
      then show ?thesis by (rule 2(1))
    next
      case nF: False
      then show ?thesis using False by (intro 2(2) [OF nF refl]) (auto simp: emittable_def)
    qed
    ultimately show ?thesis using False by simp
  next
    case True
    let ?b = "append_u64 (append_double b (cd_keys d ! (nat pos - 1))) (cd_payloads d ! (nat pos - 1))"
    have b: "?b = b @ pair_bytes (pair_at d pos)"
      by (simp add: append_u64_def append_double_def pair_bytes_def pair_at_def)
    from True have v: "\<not> (pos \<le> 0 \<or> nat pos > length (cd_keys d))" "locate_end m (cd_keys d ! (nat pos - 1)) = i"
      by (auto simp: emittable_def)
    show ?thesis
    proof (cases "e + 1 \<ge> topn")
      case last: True
      then have "nat (max 1 (topn - e)) = 1" by simp
      then show ?thesis using True v last b by (simp add: Let_def)
    next
      case go: False
      have n: "nat (max 1 (topn - e)) = Suc (nat (max 1 (topn - (e + 1))))" using go by simp
      have "emit_hot m d i topn (pos # ps) e b = emit_hot m d i topn ps (e + 1) ?b" using v go by (simp add: Let_def)
      also have "\<dots> = (let xs = map (pair_at d) (take (nat (max 1 (topn - (e + 1)))) (filter (emittable m d i) ps))
        in (e + 1 + int (length xs), ?b @ concat (map pair_bytes xs)))"
        using 2(3) [OF v(1) refl _ refl] v(2) go by simp
      finally show ?thesis unfolding n using True b by (simp add: Let_def del: emit_hot.simps)
    qed
  qed
qed simp

lemma length_pair_bytes [simp]: "length (pair_bytes kp) = 16"
  by (simp add: pair_bytes_def)

lemma hot_pairs_decode:
  "\<forall>kp\<in>set xs. is_double (fst kp) \<Longrightarrow>
    hot_pairs (length xs) (concat (map pair_bytes xs)) = map (\<lambda>(k, v). (Some k, v)) xs"
  by (induction xs) (auto simp: pair_bytes_def double_of_bits_inverse)

lemma length_concat_pairs: "length (concat (map pair_bytes xs)) = 16 * length xs"
  by (induction xs) auto

section \<open>Through the Edge into the cache\<close>

definition hot_frame :: "(double \<times> payload_t) list \<Rightarrow> Frame" where
  "hot_frame xs = \<lparr>ftype = HOT_UPDATE, body = concat (map pair_bytes xs)\<rparr>"

lemma send_hot_update_frame:
  assumes "send_hot_update i s = (True, s')" "edge_conn (edge_of (c_rm s) i) s = Some u"
  shows "sent (fds s' u) = sent (fds s u) @ [\<lparr>ftype = HOT_UPDATE, body = u32_bytes (word_of_int i)
      @ concat (map pair_bytes (hot_selection (c_rm s) (cdata s) i (hot_topn (cargs s)) (hot_positions s ! nat i)))\<rparr>]"
  using assms by (auto simp: send_hot_update_def emit_hot_selection hot_selection_def Let_def append_u32_def
      fd_write_def conn_write_def split_beta split: if_splits list.splits)

lemma edge_forwards:
  assumes "rt_ends rt i = Some t" "writable (conns rt t)" "- (2 ^ 31) \<le> i" "i < 2 ^ 31"
  shows "sent (conns (handle_cloud_hot_update \<lparr>ftype = HOT_UPDATE, body = u32_bytes (word_of_int i) @ b\<rparr> rt) t)
    = sent (conns rt t) @ [\<lparr>ftype = HOT_UPDATE, body = b\<rparr>]"
proof -
  have "sint (word_of_int i :: u32) = i" using assms(3,4) by (simp add: signed_of_int signed_take_bit_int_eq_self)
  then show ?thesis using assms(1,2)
    by (simp add: handle_cloud_hot_update_def send_to_end_def write_locked_def conn_write_def set_conn_def writable_def)
qed

lemma apply_hot_frame:
  assumes "\<forall>kp\<in>set xs. is_double (fst kp)"
  shows "apply_edge_control_frame (hot_frame xs) c
    = Inr (c\<lparr>hot_cache := hc_batch_upsert (map (\<lambda>(k, v). (Some k, v)) xs) (hot_cache c)\<rparr>)"
  using hot_pairs_decode [OF assms] by (simp add: apply_edge_control_frame_def hot_frame_def length_concat_pairs)

lemma selection_located: "(k, v) \<in> set (hot_selection m d i topn ps) \<Longrightarrow> locate_end m k = i"
  by (auto simp: hot_selection_def pair_at_def emittable_def dest: in_set_takeD)

lemma selection_doubles:
  "\<forall>k\<in>set (cd_keys d). is_double k \<Longrightarrow> \<forall>kp\<in>set (hot_selection m d i topn ps). is_double (fst kp)"
  by (auto simp: hot_selection_def pair_at_def emittable_def dest!: in_set_takeD)

text \<open>The frame that the Cloud writes to the Edge, and the frame that the Edge forwards.\<close>

lemma hot_update_delivered:
  assumes sent: "send_hot_update i s = (True, s')" "edge_conn (edge_of (c_rm s) i) s = Some u"
    and reg: "rt_ends rt i = Some t" "writable (conns rt t)" "1 \<le> i" "i < 2 ^ 31"
  shows "\<exists>f. sent (fds s' u) = sent (fds s u) @ [f] \<and> sent (conns (handle_cloud_hot_update f rt) t) = sent (conns rt t)
    @ [hot_frame (hot_selection (c_rm s) (cdata s) i (hot_topn (cargs s)) (hot_positions s ! nat i))]"
  using send_hot_update_frame [OF sent] edge_forwards [OF reg(1,2)] reg(3,4) by (auto simp: hot_frame_def)

section \<open>Lookups do not see the cache behind a request\<close>

text \<open>Two caches that differ in the hot cache only.\<close>

definition same_but_hot :: "end_caches \<Rightarrow> end_caches \<Rightarrow> bool" where
  "same_but_hot c d \<longleftrightarrow> plin_cache c = plin_cache d \<and> rdma_snap c = rdma_snap d"

fun same5 :: "'a \<times> 'b \<times> 'c \<times> 'd \<times> end_caches \<Rightarrow> 'a \<times> 'b \<times> 'c \<times> 'd \<times> end_caches \<Rightarrow> bool" where
  "same5 (ok, v, st, l, c) (ok', v', st', l', d) = (ok = ok' \<and> v = v' \<and> st = st' \<and> l = l' \<and> same_but_hot c d)"

fun same_res :: "('a \<Rightarrow> 'b \<Rightarrow> bool) \<Rightarrow> end_err + 'a \<Rightarrow> end_err + 'b \<Rightarrow> bool" where
  "same_res R (Inl e) (Inl f) = (e = f)"
| "same_res R (Inr a) (Inr b) = R a b"
| "same_res R _ _ = False"

lemma same_res_bind:
  assumes "same_res R x y" "\<And>a b. R a b \<Longrightarrow> same_res S (f a) (g b)"
  shows "same_res S (bind_res x f) (bind_res y g)"
  using assms by (cases x; cases y) auto

lemma same_control: "same_but_hot c d \<Longrightarrow> same_res same_but_hot (apply_edge_control_frame f c) (apply_edge_control_frame f d)"
  by (auto simp: apply_edge_control_frame_def same_but_hot_def Let_def split: sum.split)

lemma same_read:
  "same_but_hot c d \<Longrightarrow> same_res same5
     (read_fetch_response fs c out stale) (read_fetch_response fs d out stale)"
proof (induction fs arbitrary: c d)
  case (Cons f fs)
  show ?case
  proof (cases "ftype f \<noteq> EDGE_FETCH_RESP \<and> control_frame f")
    case True
    then show ?thesis using Cons.IH by (auto intro!: same_res_bind [OF same_control [OF Cons.prems]])
  next
    case False
    then show ?thesis using Cons.prems by auto
  qed
qed simp

lemma same_receive:
  "same_but_hot c d \<Longrightarrow> same_res same5
     (receive c out l) (receive d out l)"
  unfolding receive_def by (rule same_res_bind [OF same_read]) auto

lemma same_edge_fetch:
  "same_but_hot c d \<Longrightarrow> same_res same5
     (edge_fetch ops k slot out l c) (edge_fetch ops k slot out l d)"
  by (cases "link_write ops (fetch_req k slot) l") (auto simp: edge_fetch_def intro: same_receive)

lemma same_cross_fetch:
  "same_but_hot c d \<Longrightarrow> same_res (\<lambda>(ok, v, l, c) (ok', v', l', d). ok = ok' \<and> v = v' \<and> l = l' \<and> same_but_hot c d)
     (cross_edge_fetch ops rid k out l c) (cross_edge_fetch ops rid k out l d)"
  by (cases "link_write ops (cross_req rid k) l") (auto simp: cross_edge_fetch_def intro!: same_res_bind [OF same_receive])

lemma same_request:
  "same_but_hot c d \<Longrightarrow> same_res (\<lambda>(ok, l, c) (ok', l', d). ok = ok' \<and> l = l' \<and> same_but_hot c d)
     (request_param_push ops l c) (request_param_push ops l d)"
  by (auto simp: request_param_push_def split_beta split: option.split prod.split intro!: same_res_bind [OF same_control])

lemma same_edge_stage:
  assumes "same_but_hot c d"
  shows "same_res (\<lambda>(r, l, c) (r', l', d). r = r' \<and> l = l' \<and> same_but_hot c d) (edge_stage ops k l c) (edge_stage ops k l d)"
proof -
  have up: "same_but_hot c' d' \<Longrightarrow> same_but_hot (c'\<lparr>hot_cache := h\<rparr>) (d'\<lparr>hot_cache := h'\<rparr>)" for c' d' h h'
    by (simp add: same_but_hot_def)
  have e: "plin_cache c = plin_cache d" "rdma_snap c = rdma_snap d" using assms by (auto simp: same_but_hot_def)
  show ?thesis
  proof (cases "cache_predict_pos (plin_cache d) (Some k)")
    case (Inr slot)
    obtain st v where sv: "rdma_snapshot_lookup (read_remote ops (peer l)) (supports_remote_read ops) (rdma_snap d) k slot 0 = (st, v)"
      by fastforce
    have "same_res same5
        (if st = HIT then Inr (True, v, False, l, c) else edge_fetch ops k slot v l c)
        (if st = HIT then Inr (True, v, False, l, d) else edge_fetch ops k slot v l d)"
      using same_edge_fetch [OF assms] assms by auto
    then have "same_res (\<lambda>(r, l, c) (r', l', d). r = r' \<and> l = l' \<and> same_but_hot c d)
        (bind_res (if st = HIT then Inr (True, v, False, l, c) else edge_fetch ops k slot v l c) (edge_finish ops k))
        (bind_res (if st = HIT then Inr (True, v, False, l, d) else edge_fetch ops k slot v l d) (edge_finish ops k))"
      by (rule same_res_bind) (auto simp: edge_finish_def Let_def intro!: up same_res_bind [OF same_request])
    then show ?thesis by (simp add: edge_stage_def e Inr sv)
  qed (simp add: edge_stage_def e)
qed

lemma same_cross_stage:
  assumes "same_but_hot c d"
  shows "same_res (\<lambda>(r, l, c) (r', l', d). r = r' \<and> l = l' \<and> same_but_hot c d) (cross_stage ops rid k l c) (cross_stage ops rid k l d)"
  unfolding cross_stage_def by (rule same_res_bind [OF same_cross_fetch [OF assms]]) (auto simp: same_but_hot_def)

text \<open>
  A lookup gives the same result on two nodes whose hot caches agree on the keys of other Ends.
\<close>

lemma lookup_ignores_own_hot_keys:
  assumes "\<And>k. locate_end (rm n) k \<noteq> node_id n \<Longrightarrow> hc_find k h = hc_find k (hot_cache (caches n))"
  shows "map_sum id fst (lookup ops k (n\<lparr>caches := (caches n)\<lparr>hot_cache := h\<rparr>\<rparr>)) = map_sum id fst (lookup ops k n)"
proof -
  let ?c = "(caches n)\<lparr>hot_cache := h\<rparr>" and ?n = "n\<lparr>caches := (caches n)\<lparr>hot_cache := h\<rparr>\<rparr>"
  have c: "same_but_hot ?c (caches n)" by (simp add: same_but_hot_def)
  have fin: "map_sum id fst (bind_res x (\<lambda>(r, l, c). Inr (r, f l c))) = map_sum id fst x"
    for x :: "end_err + (LookupResult \<times> 'a edge_link \<times> end_caches)" and f :: "'a edge_link \<Rightarrow> end_caches \<Rightarrow> 'a EndNode"
    by (cases x) auto
  have eq: "map_sum id fst x = map_sum id fst y"
    if "same_res (\<lambda>(r, l, c) (r', l', d). r = r' \<and> l = l' \<and> same_but_hot c d) x y"
    for x y :: "end_err + (LookupResult \<times> 'a edge_link \<times> end_caches)"
    using that by (cases x; cases y) auto
  consider "locate_end (rm n) k = node_id n" | v where "locate_end (rm n) k \<noteq> node_id n" "hc_find k (hot_cache (caches n)) = Some v"
    | "locate_end (rm n) k \<noteq> node_id n" "hc_find k (hot_cache (caches n)) = None"
    by (cases "hc_find k (hot_cache (caches n))") auto
  then show ?thesis
  proof cases
    case 1
    then show ?thesis by (simp add: lookup_def local_stage_def)
  next
    case 2
    then show ?thesis using assms by (simp add: lookup_def)
  next
    case 3
    then show ?thesis using assms [of k]
      by (cases "edge n") (simp_all add: lookup_def Let_def fin eq [OF same_edge_stage [OF c]] eq [OF same_cross_stage [OF c]])
  qed
qed

end
