(* ===== verification/Workload_Replay.thy ===== *)
theory Workload_Replay
  imports End_Run
begin

text \<open>
  The merge in \<^verbatim>\<open>resolve_positions_to_keys\<close> answers every position of the workload with the key in that
  row of the data file, in workload order, and drops the positions outside the file.
\<close>

lemma merge_row_spec:
  assumes "sorted (map fst rs)" "merge_row row k rs keys = (rs', keys')"
  shows "rs' = filter (\<lambda>r. row < fst r) rs \<and> length keys' = length keys
    \<and> (\<forall>i<length keys. keys' ! i = (if (row, i) \<in> set rs then Some k else keys ! i))"
  using assms
proof (induction row k rs keys rule: merge_row.induct)
  case (2 row k p i rs keys)
  consider "p < row" | "p = row" | "row < p" by (rule linorder_cases)
  then show ?case
  proof cases
    case 1
    then have "merge_row row k rs keys = (rs', keys')" using "2.prems" by simp
    then show ?thesis using 2(1) [OF 1] "2.prems"(1) 1 by auto
  next
    case p: 2
    then have "merge_row row k rs (keys[i := Some k]) = (rs', keys')" using "2.prems" by simp
    then show ?thesis using 2(2) [of ] "2.prems"(1) p by (auto simp: nth_list_update)
  next
    case 3
    then have "\<forall>r\<in>set rs. row < fst r" using "2.prems"(1) by auto
    moreover from this have "\<And>j. (row, j) \<notin> set rs" by fastforce
    ultimately show ?thesis using "2.prems"(2) 3 by (auto simp: filter_id_conv)
  qed
qed simp

lemma sorted_filter_fst: "sorted (map fst rs) \<Longrightarrow> sorted (map fst (filter P rs))"
  by (induction rs) auto

lemma distinct_filter_snd: "distinct (map snd rs) \<Longrightarrow> distinct (map snd (filter P rs))"
  by (induction rs) auto

lemma swap_keys: "map fst (map (\<lambda>(p, i). (i, p)) rs) = map snd rs"
  by (induction rs) auto

lemma swap_member: "(i, p) \<in> set (map (\<lambda>(p, i). (i, p)) rs) \<longleftrightarrow> (p, i) \<in> set rs"
  by (induction rs) auto

lemma merge_rows_spec:
  assumes "sorted (map fst rs)" "distinct (map snd rs)" "\<forall>r\<in>set rs. row < fst r"
  shows "length (merge_rows row rows rs keys) = length keys
    \<and> (\<forall>i<length keys. merge_rows row rows rs keys ! i
        = (case map_of (map (\<lambda>(p, i). (i, p)) rs) i of
             Some p \<Rightarrow> if nat (p - row) \<le> length rows then Some (fst (rows ! (nat (p - row) - 1))) else keys ! i
           | None \<Rightarrow> keys ! i))"
  using assms
proof (induction row rows rs keys rule: merge_rows.induct)
  case (2 row r rs keys)
  have "row < p" if "map_of (map (\<lambda>(p, i). (i, p)) (r # rs)) i = Some p" for i p
  proof -
    have "(i, p) \<in> (\<lambda>(p, i). (i, p)) ` set (r # rs)" using map_of_SomeD [OF that] by (simp only: set_map)
    then show ?thesis using 2(3) by fastforce
  qed
  note above = this
  have "(case map_of (map (\<lambda>(p, i). (i, p)) (r # rs)) i of
      Some p \<Rightarrow> if nat (p - row) \<le> length [] then Some (fst ([] ! (nat (p - row) - 1))) else keys ! i
    | None \<Rightarrow> keys ! i) = keys ! i" for i
    using above [of i] by (cases "map_of (map (\<lambda>(p, i). (i, p)) (r # rs)) i") auto
  then show ?case by (metis merge_rows.simps(2))
next
  case (3 row k p rows r rs keys)
  let ?rs = "r # rs" and ?inv = "map (\<lambda>(p :: int, i :: nat). (i, p))"
  obtain rs' keys' where m: "merge_row (row + 1) k ?rs keys = (rs', keys')" by fastforce
  from merge_row_spec [OF "3.prems"(1) m] have rs': "rs' = filter (\<lambda>r. row + 1 < fst r) ?rs"
    and len: "length keys' = length keys"
    and keys': "\<And>i. i < length keys \<Longrightarrow> keys' ! i = (if (row + 1, i) \<in> set ?rs then Some k else keys ! i)" by auto
  have s': "sorted (map fst rs')" unfolding rs' by (rule sorted_filter_fst [OF "3.prems"(1)])
  have d': "distinct (map snd rs')" unfolding rs' by (rule distinct_filter_snd [OF "3.prems"(2)])
  have "\<forall>r\<in>set rs'. row + 1 < fst r" unfolding rs' by (simp only: set_filter) blast
  from 3(1) [OF m [symmetric] refl s' d' this] len have IH: "length (merge_rows (row + 1) rows rs' keys') = length keys"
    "\<And>i. i < length keys \<Longrightarrow> merge_rows (row + 1) rows rs' keys' ! i
        = (case map_of (?inv rs') i of
             Some p \<Rightarrow> if nat (p - (row + 1)) \<le> length rows then Some (fst (rows ! (nat (p - (row + 1)) - 1))) else keys' ! i
           | None \<Rightarrow> keys' ! i)" by simp_all
  have dist: "distinct (map fst (?inv ?rs))" "distinct (map fst (?inv rs'))"
    unfolding swap_keys using "3.prems"(2) d' by blast+
  have mem: "map_of (?inv ?rs) i = Some q \<longleftrightarrow> (q, i) \<in> set ?rs" for i q
    unfolding map_of_eq_Some_iff [OF dist(1)] by (rule swap_member)
  have mem': "map_of (?inv rs') i = Some q \<longleftrightarrow> (q, i) \<in> set ?rs \<and> row + 1 < q" for i q
    unfolding map_of_eq_Some_iff [OF dist(2)] swap_member unfolding rs' by (simp only: set_filter) auto
  have eq: "merge_rows row ((k, p) # rows) ?rs keys = merge_rows (row + 1) rows rs' keys'" using m by simp
  have "merge_rows (row + 1) rows rs' keys' ! i = (case map_of (?inv ?rs) i of
      Some q \<Rightarrow> if nat (q - row) \<le> length ((k, p) # rows) then Some (fst (((k, p) # rows) ! (nat (q - row) - 1))) else keys ! i
    | None \<Rightarrow> keys ! i)" if i: "i < length keys" for i
  proof (cases "map_of (?inv ?rs) i")
    case None
    then have "(row + 1, i) \<notin> set ?rs" "map_of (?inv rs') i = None" using mem mem' by (metis option.distinct(1), metis not_Some_eq)
    then show ?thesis using None IH(2) [OF i] keys' [OF i] by simp
  next
    case (Some q)
    then have q: "(q, i) \<in> set ?rs" "row < q" using mem "3.prems"(3) by fastforce+
    show ?thesis
    proof (cases "q = row + 1")
      case True
      then have "(row + 1, i) \<in> set ?rs" "map_of (?inv rs') i = None"
        using q mem mem' Some by (metis option.inject, metis True Some mem mem' not_Some_eq less_irrefl option.inject)
      then show ?thesis using Some True IH(2) [OF i] keys' [OF i] by simp
    next
      case False
      then have r: "row + 1 < q" using q(2) by simp
      then have s: "map_of (?inv rs') i = Some q" using mem' q(1) by blast
      have "(row + 1, i) \<notin> set ?rs" using mem Some False by (metis option.inject)
      moreover have "nat (q - row) = Suc (nat (q - (row + 1)))" "0 < nat (q - (row + 1))" using r by auto
      ultimately show ?thesis using Some s IH(2) [OF i] keys' [OF i] by auto
    qed
  qed
  then show ?case unfolding eq using IH(1) by blast
qed simp

text \<open>The reference: look every position up in the rows.\<close>

definition positions_in :: "(double \<times> payload_t) list \<Rightarrow> int list \<Rightarrow> double list" where
  "positions_in rows ps = map (\<lambda>p. fst (rows ! (nat p - 1))) (filter (\<lambda>p. 0 < p \<and> nat p \<le> length rows) ps)"

lemma resolve_positions: "resolve_positions_to_keys (Some rows) ps = positions_in rows ps"
proof -
  let ?n = "length ps"
  define rs where "rs = sort_key fst (filter (\<lambda>r. fst r > 0) (zip ps [0..<?n]))"
  have "sorted (map fst rs)" by (simp add: rs_def)
  moreover have "distinct (map snd rs)"
  proof -
    have "distinct (map snd (filter (\<lambda>r. fst r > 0) (zip ps [0..<?n])))" by (rule distinct_filter_snd) simp
    then show ?thesis by (simp add: rs_def distinct_map)
  qed
  moreover have "\<forall>r\<in>set rs. 0 < fst r" by (auto simp: rs_def)
  ultimately have spec: "length (merge_rows 0 rows rs (replicate ?n None)) = ?n"
    "\<And>i. i < ?n \<Longrightarrow> merge_rows 0 rows rs (replicate ?n None) ! i
      = (case map_of (map (\<lambda>(p, i). (i, p)) rs) i of
           Some p \<Rightarrow> if nat p \<le> length rows then Some (fst (rows ! (nat p - 1))) else None | None \<Rightarrow> None)"
    using merge_rows_spec [of rs 0 rows "replicate ?n None"] by (auto split: option.split)
  have dist: "distinct (map fst (map (\<lambda>(p, i). (i, p)) rs))" using \<open>distinct (map snd rs)\<close> unfolding swap_keys .
  have look: "map_of (map (\<lambda>(p, i). (i, p)) rs) i = (if ps ! i > 0 then Some (ps ! i) else None)" if "i < ?n" for i
  proof -
    have mem: "map_of (map (\<lambda>(p, i). (i, p)) rs) i = Some q \<longleftrightarrow> q = ps ! i \<and> q > 0" for q
      unfolding map_of_eq_Some_iff [OF dist] swap_member using that by (force simp: rs_def set_zip)
    then show ?thesis by (cases "map_of (map (\<lambda>(p, i). (i, p)) rs) i") auto
  qed
  define f where "f p = (if 0 < p \<and> nat p \<le> length rows then Some (fst (rows ! (nat p - 1))) else None)" for p :: int
  have "merge_rows 0 rows rs (replicate ?n None) = map f ps"
    using spec(1) by (intro nth_equalityI) (simp_all add: spec(2) look f_def)
  then have "resolve_positions_to_keys (Some rows) ps = List.map_filter id (map f ps)"
    by (simp add: resolve_positions_to_keys_def rs_def Let_def)
  also have "\<dots> = positions_in rows ps"
    by (induction ps) (auto simp: map_filter_simps f_def positions_in_def)
  finally show ?thesis .
qed

end
