(* ===== verification/System_Props.thy ===== *)
theory System_Props
  imports System_Demo Hot_Update Workload_Replay
begin

text \<open>
  Properties of the composed programs: lookups of an End through its Edge and the Cloud, hot updates,
  and the workload replay.
\<close>

section \<open>Lookups\<close>

definition zero_bench :: bench where
  "zero_bench = \<lparr>b_found = 0, b_stage1 = 0, b_stage2 = 0, b_stage3 = 0, b_stage4 = 0\<rparr>"

lemma located_iff:
  assumes "wf_topology m"
  shows "0 \<le> locate_end m k \<longleftrightarrow> (\<exists>e\<in>set (ends m). in_range k e)"
  by (rule locate_end_cases [OF assms, of k]) (use assms in \<open>auto simp: wf_topology_def\<close>)

text \<open>C4: End to end, every lookup answers from the data file.  In a deployment with disjoint key ranges
  whose Edges serve their share of the rows and are registered with the Cloud, an End that has
  performed any sequence of lookups answers the next one without an exception.  For a key in the range of
  some End the answer is exactly what the data file holds, whichever of the four stages serves it (local
  tree, hot cache, snapshot or Edge, other Edge through the Cloud).  A key in a gap between the ranges is
  always reported absent, also when the file holds it.\<close>

theorem system_lookup_correct:
  assumes sys: "plin_system rows m my_id envs s cfd edge_at"
    and me: "en \<in> set (ends m)" "end_id en = my_id"
    and conn: "writable (conns rt t)" "\<forall>f\<in>set fs. good_frame mem m (map_of rows) f"
  shows "\<exists>b n r n'. bench_loop (edge_peer (envs (edge_of m my_id)) t rdma mem) ks zero_bench (fresh_end rows m en rt fs) = Inr (b, n)
    \<and> lookup (edge_peer (envs (edge_of m my_id)) t rdma mem) k n = Inr (r, n')
    \<and> (if \<exists>e\<in>set (ends m). in_range k e
       then found r = (map_of rows k \<noteq> None) \<and> (map_of rows k = None \<or> map_of rows k = Some (payload r)) else \<not> found r)"
proof -
  note l = located_iff [OF plin_system.topo(1) [OF sys], of k]
  from plin_system.history_lookup [OF sys me conn, where b = zero_bench and rdma = rdma and ks = ks and k = k] obtain b n r n' where
    r: "bench_loop (edge_peer (envs (edge_of m my_id)) t rdma mem) ks zero_bench (fresh_end rows m en rt fs) = Inr (b, n)"
    "lookup (edge_peer (envs (edge_of m my_id)) t rdma mem) k n = Inr (r, n')"
    "found r = (served m (map_of rows) k \<noteq> None)"
    "served m (map_of rows) k = None \<or> served m (map_of rows) k = Some (payload r)" by blast
  from r(3,4) l have "if \<exists>e\<in>set (ends m). in_range k e
       then found r = (map_of rows k \<noteq> None) \<and> (map_of rows k = None \<or> map_of rows k = Some (payload r)) else \<not> found r"
    by (cases "0 \<le> locate_end m k") (simp_all add: served_def)
  then show ?thesis using r(1,2) by blast
qed

definition demo_runtime :: EdgeRuntime where
  "demo_runtime = \<lparr>rt_edge_id = 1, rt_ends = Map.empty, conns = (\<lambda>_. open_conn)\<rparr>"

definition demo_end :: EndInfo where
  "demo_end = ends topology_map ! 4"

lemma demo_end_props: "demo_end \<in> set (ends topology_map)" "end_id demo_end = 5" "writable (conns demo_runtime 7)"
  by (simp_all add: demo_end_def topology_map_def demo_runtime_def writable_def open_conn_def)

lemma demo_keys_located: "\<forall>k\<in>set (map fst demo_rows). 0 \<le> locate_end topology_map k"
proof -
  have "list_all (\<lambda>k. 0 \<le> locate_end topology_map k) (map fst demo_rows)" by code_simp
  then show ?thesis by (simp add: list_all_iff)
qed

theorem system_lookup_correct_witness:
  "\<exists>b n r n'. bench_loop (edge_peer (demo_envs (edge_of topology_map 5)) 7 False (\<lambda>_ _ _. None)) (map fst demo_rows) zero_bench
        (fresh_end demo_rows topology_map demo_end demo_runtime []) = Inr (b, n)
    \<and> lookup (edge_peer (demo_envs (edge_of topology_map 5)) 7 False (\<lambda>_ _ _. None)) (fst (demo_rows ! 2)) n = Inr (r, n')
    \<and> found r \<and> payload r = 33"
proof -
  have k: "\<exists>e\<in>set (ends topology_map). in_range (fst (demo_rows ! 2)) e"
    using demo_keys_located located_iff [OF topology_map_wf] by (simp add: demo_rows_def)
  have v: "map_of demo_rows (fst (demo_rows ! 2)) = Some 33" by (simp add: demo_rows_def)
  show ?thesis
    using system_lookup_correct [OF demo.plin_system_axioms demo_end_props(1,2,3), of "[]" "\<lambda>_ _ _. None" False "map fst demo_rows"
        "fst (demo_rows ! 2)"] k v
    by (auto simp del: bench_loop.simps)
qed

text \<open>C29: The benchmark of an End returns and counts right: it finds exactly the replayed keys that are in
  the data file and lie in the range of some End (not the rows in gaps between the ranges), and its
  four stage counters add up to the number of queries.\<close>

theorem benchmark_counts:
  assumes sys: "plin_system rows m my_id envs s cfd edge_at" and me: "en \<in> set (ends m)" "end_id en = my_id"
    and conn: "writable (conns rt t)" "\<forall>f\<in>set fs. good_frame mem m (map_of rows) f"
  shows "\<exists>b n. run_benchmark (edge_peer (envs (edge_of m my_id)) t rdma mem) ks (fresh_end rows m en rt fs) = Inr (b, n)
    \<and> b_found b = length (filter (\<lambda>k. map_of rows k \<noteq> None \<and> (\<exists>e\<in>set (ends m). in_range k e)) ks)
    \<and> b_stage1 b + b_stage2 b + b_stage3 b + b_stage4 b = length ks"
proof -
  have "served m (map_of rows) k \<noteq> None \<longleftrightarrow> map_of rows k \<noteq> None \<and> (\<exists>e\<in>set (ends m). in_range k e)" for k
    using located_iff [OF plin_system.topo(1) [OF sys], of k] by (simp add: served_def)
  note sv = this
  from plin_system.history_lookup [OF assms, where b = zero_bench and rdma = rdma and ks = ks and k = "Dbl 0"] obtain b n where
    "bench_loop (edge_peer (envs (edge_of m my_id)) t rdma mem) ks zero_bench (fresh_end rows m en rt fs) = Inr (b, n)"
    "b_found b = length (filter (\<lambda>k. served m (map_of rows) k \<noteq> None) ks)"
    "b_stage1 b + b_stage2 b + b_stage3 b + b_stage4 b = length ks" by (auto simp: zero_bench_def)
  then show ?thesis unfolding sv by (simp add: run_benchmark_def zero_bench_def)
qed

theorem benchmark_counts_witness:
  "\<exists>b n. run_benchmark (edge_peer (demo_envs (edge_of topology_map 5)) 7 False (\<lambda>_ _ _. None)) (map fst demo_rows)
      (fresh_end demo_rows topology_map demo_end demo_runtime []) = Inr (b, n)
    \<and> b_found b = 3 \<and> b_stage1 b + b_stage2 b + b_stage3 b + b_stage4 b = 3"
proof -
  have "filter (\<lambda>k. map_of demo_rows k \<noteq> None \<and> (\<exists>e\<in>set (ends topology_map). in_range k e)) (map fst demo_rows) = map fst demo_rows"
    using demo_keys_located unfolding located_iff [OF topology_map_wf] by (auto simp: filter_id_conv map_of_eq_None_iff image_iff)
  then show ?thesis
    using benchmark_counts [OF demo.plin_system_axioms demo_end_props(1,2,3), of "[]" "\<lambda>_ _ _. None" False "map fst demo_rows"]
    by (auto simp: demo_rows_def)
qed

text \<open>What the self test checks as stage 2 always holds: a lookup outside the End's own range that
  found its key is answered from the hot cache when it is repeated, with the same payload.\<close>

theorem repeated_lookup_hits_hot_cache:
  assumes "plin_system rows m my_id envs s cfd edge_at" "en \<in> set (ends m)" "end_id en = my_id"
    and "writable (conns rt t)" "\<forall>f\<in>set fs. good_frame mem m (map_of rows) f"
    and "0 \<le> locate_end m k" "locate_end m k \<noteq> my_id" "map_of rows k = Some v"
  shows "\<exists>r n' n''. lookup (edge_peer (envs (edge_of m my_id)) t rdma mem) k (fresh_end rows m en rt fs) = Inr (r, n')
    \<and> lookup (edge_peer (envs (edge_of m my_id)) t rdma mem) k n' = Inr (\<lparr>found = True, payload = v, stage = HOT_CACHE\<rparr>, n'')"
  using plin_system.history_lookup [OF assms(1-5), where ks = "[]" and rdma = rdma and k = k] assms(6-8) by (auto simp: served_def)

theorem repeated_lookup_hits_hot_cache_witness:
  "\<exists>r n' n''. lookup (edge_peer (demo_envs (edge_of topology_map 5)) 7 False (\<lambda>_ _ _. None)) (Dbl 4707343941256652004)
      (fresh_end demo_rows topology_map demo_end demo_runtime []) = Inr (r, n')
    \<and> lookup (edge_peer (demo_envs (edge_of topology_map 5)) 7 False (\<lambda>_ _ _. None)) (Dbl 4707343941256652004) n'
        = Inr (\<lparr>found = True, payload = 33, stage = HOT_CACHE\<rparr>, n'')"
proof -
  have k: "0 \<le> locate_end topology_map (Dbl 4707343941256652004)" "locate_end topology_map (Dbl 4707343941256652004) \<noteq> 5"
    by code_simp+
  have v: "map_of demo_rows (Dbl 4707343941256652004) = Some 33" by (simp add: demo_rows_def)
  show ?thesis
    by (rule repeated_lookup_hits_hot_cache [OF demo.plin_system_axioms demo_end_props(1,2,3) _ k v, of "[]"]) simp
qed

section \<open>Hot updates\<close>

text \<open>C30: A hot update that the Cloud reports as sent reaches the End's cache unchanged: the frame it
  writes to the End's Edge, forwarded by that Edge to the registered End and applied there, makes
  the cache answer exactly the selected pairs (the first of the ranked positions that belong to the End,
  at most \<^verbatim>\<open>hot_topn\<close>) and leaves every other entry as it was.\<close>

theorem hot_update_end_to_end:
  assumes sent: "send_hot_update i s = (True, s')" "edge_conn (edge_of (c_rm s) i) s = Some u"
    and reg: "rt_ends rt i = Some t" "writable (conns rt t)" "1 \<le> i" "i < 2 ^ 31"
    and dbl: "\<forall>k\<in>set (cd_keys (cdata s)). is_double k" and c: "hc_inv (hot_cache c)"
  defines "xs \<equiv> hot_selection (c_rm s) (cdata s) i (hot_topn (cargs s)) (hot_positions s ! nat i)"
  shows "\<exists>f g c'. sent (fds s' u) = sent (fds s u) @ [f]
    \<and> sent (conns (handle_cloud_hot_update f rt) t) = sent (conns rt t) @ [g]
    \<and> apply_edge_control_frame g c = Inr c'
    \<and> (\<forall>k. hc_find k (hot_cache c') = (case map_of (rev xs) k of Some v \<Rightarrow> Some v | None \<Rightarrow> hc_find k (hot_cache c)))"
proof -
  have "\<forall>kp\<in>set xs. is_double (fst kp)" using selection_doubles [OF dbl] by (simp add: xs_def)
  from apply_hot_frame [OF this, of c] hc_find_batch [OF c, of _ xs] show ?thesis
    using hot_update_delivered [OF sent reg] unfolding xs_def [symmetric] by auto
qed

text \<open>The running example: the Cloud sends End 5 the pair at position 2.\<close>

lemma demo_update_sent:
  "send_hot_update 5 demo_cloud = (True, snd (send_hot_update 5 demo_cloud))"
  "edge_conn (edge_of (c_rm demo_cloud) 5) demo_cloud = Some 1"
  "\<forall>k\<in>set (cd_keys (cdata demo_cloud)). is_double k"
  "rt_ends (register_end 5 7 demo_runtime) 5 = Some 7" "writable (conns (register_end 5 7 demo_runtime) 7)"
  "hc_inv (hot_cache (caches (fresh_end demo_rows topology_map demo_end demo_runtime [])))"
  "hot_selection (c_rm demo_cloud) (cdata demo_cloud) 5 (hot_topn (cargs demo_cloud)) (hot_positions demo_cloud ! nat 5)
      = [(Dbl 0, 22)]"
proof -
  have e: "edge_of topology_map 5 = 1" by code_simp
  have xs: "hot_selection topology_map (load_data (Some demo_rows)) 5 32 [2] = [(Dbl 0, 22)]" by code_simp
  show "send_hot_update 5 demo_cloud = (True, snd (send_hot_update 5 demo_cloud))"
    using xs by (simp add: send_hot_update_def demo_cloud_def edge_conn_def e emit_hot_selection hot_selection_def Let_def
        default_cloud_args_def fd_write_def conn_write_def open_conn_def)
  show "\<forall>k\<in>set (cd_keys (cdata demo_cloud)). is_double k"
    by (simp add: demo_cloud_def load_data_def demo_rows_def is_double_def inf_ordinal_def)
  show "hc_inv (hot_cache (caches (fresh_end demo_rows topology_map demo_end demo_runtime [])))"
    by (simp add: fresh_end_def new_node_def hc_empty_simps)
  show "edge_conn (edge_of (c_rm demo_cloud) 5) demo_cloud = Some 1" by (simp add: demo_cloud_def edge_conn_def e)
  show "rt_ends (register_end 5 7 demo_runtime) 5 = Some 7" "writable (conns (register_end 5 7 demo_runtime) 7)"
    by (simp_all add: register_end_def demo_runtime_def writable_def open_conn_def)
  show "hot_selection (c_rm demo_cloud) (cdata demo_cloud) 5 (hot_topn (cargs demo_cloud)) (hot_positions demo_cloud ! nat 5)
      = [(Dbl 0, 22)]"
    using xs by (simp add: demo_cloud_def default_cloud_args_def)
qed

theorem hot_update_end_to_end_witness:
  "\<exists>f g c'. sent (fds (snd (send_hot_update 5 demo_cloud)) 1) = sent (fds demo_cloud 1) @ [f]
    \<and> sent (conns (handle_cloud_hot_update f (register_end 5 7 demo_runtime)) 7) = sent (conns (register_end 5 7 demo_runtime) 7) @ [g]
    \<and> apply_edge_control_frame g (caches (fresh_end demo_rows topology_map demo_end demo_runtime [])) = Inr c'
    \<and> hc_find (Dbl 0) (hot_cache c') = Some 22"
  using hot_update_end_to_end [OF demo_update_sent(1,2) demo_update_sent(4,5) _ _ demo_update_sent(3,6)]
  unfolding demo_update_sent(7) by force

text \<open>C31: Hot updates from the Cloud never change an answer.  The frame that the Cloud writes, forwarded by the
  Edge and applied by the End, only brings keys of the End's own range into its hot cache, and a lookup
  of such a key is served by the local tree before the hot cache is consulted: whatever lookup follows the
  update, its result and stage are those without the update.\<close>

theorem cloud_hot_updates_unused:
  assumes sent: "send_hot_update i s = (True, s')" "edge_conn (edge_of (c_rm s) i) s = Some u"
    and reg: "rt_ends rt i = Some t" "writable (conns rt t)" "1 \<le> i" "i < 2 ^ 31"
    and dbl: "\<forall>k\<in>set (cd_keys (cdata s)). is_double k"
    and n: "node_id n = i" "rm n = c_rm s" "hc_inv (hot_cache (caches n))"
  shows "\<exists>f g c'. sent (fds s' u) = sent (fds s u) @ [f]
    \<and> sent (conns (handle_cloud_hot_update f rt) t) = sent (conns rt t) @ [g]
    \<and> apply_edge_control_frame g (caches n) = Inr c'
    \<and> (\<forall>k. map_sum id fst (lookup ops k (n\<lparr>caches := c'\<rparr>)) = map_sum id fst (lookup ops k n))"
proof -
  let ?xs = "hot_selection (c_rm s) (cdata s) i (hot_topn (cargs s)) (hot_positions s ! nat i)"
  let ?h = "hc_batch_upsert (map (\<lambda>(k, v). (Some k, v)) ?xs) (hot_cache (caches n))"
  have ap: "apply_edge_control_frame (hot_frame ?xs) (caches n) = Inr ((caches n)\<lparr>hot_cache := ?h\<rparr>)"
    by (rule apply_hot_frame [OF selection_doubles [OF dbl]])
  have "hc_find l ?h = hc_find l (hot_cache (caches n))" if "locate_end (rm n) l \<noteq> node_id n" for l
  proof -
    have "map_of (rev ?xs) l = None"
      using selection_located that n(1,2) by (fastforce simp: map_of_eq_None_iff)
    then show ?thesis using hc_find_batch [OF n(3), of l ?xs] by simp
  qed
  from lookup_ignores_own_hot_keys [of n ?h ops, OF this] show ?thesis
    using hot_update_delivered [OF sent reg] ap by auto
qed

theorem cloud_hot_updates_unused_witness:
  "\<exists>f g c'. sent (fds (snd (send_hot_update 5 demo_cloud)) 1) = sent (fds demo_cloud 1) @ [f]
    \<and> sent (conns (handle_cloud_hot_update f (register_end 5 7 demo_runtime)) 7) = sent (conns (register_end 5 7 demo_runtime) 7) @ [g]
    \<and> apply_edge_control_frame g (caches (fresh_end demo_rows topology_map demo_end demo_runtime [])) = Inr c'
    \<and> (\<forall>k. map_sum id fst (lookup (edge_peer (demo_envs 1) 7 False (\<lambda>_ _ _. None)) k
          ((fresh_end demo_rows topology_map demo_end demo_runtime [])\<lparr>caches := c'\<rparr>))
      = map_sum id fst (lookup (edge_peer (demo_envs 1) 7 False (\<lambda>_ _ _. None)) k
          (fresh_end demo_rows topology_map demo_end demo_runtime [])))"
proof -
  have "node_id (fresh_end demo_rows topology_map demo_end demo_runtime []) = 5"
    "rm (fresh_end demo_rows topology_map demo_end demo_runtime []) = c_rm demo_cloud"
    using demo_end_props by (simp_all add: fresh_end_def new_node_def demo_cloud_def)
  from cloud_hot_updates_unused [OF demo_update_sent(1,2) demo_update_sent(4,5) _ _ demo_update_sent(3) this demo_update_sent(6)]
  show ?thesis by auto
qed

section \<open>Workload replay\<close>

text \<open>The single pass over the data file in \<^verbatim>\<open>resolve_positions_to_keys\<close> (sorted requests merged with the
  rows) gives for every workload what looking each position up would: the keys of the rows at the
  positions, in workload order and with repetitions, without the positions outside the file.\<close>

theorem resolve_positions_exact:
  "resolve_positions_to_keys (Some rows) ps
    = map (\<lambda>p. fst (rows ! (nat p - 1))) (filter (\<lambda>p. 0 < p \<and> nat p \<le> length rows) ps)"
  using resolve_positions [of rows ps] by (simp add: positions_in_def)

end
