(* ===== verification/Server_Props.thy ===== *)
theory Server_Props
  imports System_Demo Workload_Replay
begin

text \<open>
  Properties of the single programs: the Edge's registry, its responses and its startup, the RDMA snapshot,
  the parameter push, and the Cloud's routing and ranking.
\<close>

section \<open>Edge\<close>

text \<open>C32: The Edge's registry never dangles.  In every state that its threads can reach by single accesses to the
  shared state in any interleaving (connections accepted and dropped, requests read and answered, hot updates
  from the Cloud looked up and written), an End id that is registered leads to a connection whose transport is
  open and whose handler has pushed its parameters and has not yet unregistered.  (An entry that the Cloud's
  thread copied before the handler left may still be written to after the transport is closed.)\<close>

theorem edge_registry_never_dangles:
  assumes "edge_init s" "event_system.run (edge_step env) s es s'" "rt_ends (runtime s') i = Some t"
  shows "\<exists>p. handlers s' t = Some p \<and> p \<noteq> Start \<and> p \<noteq> Close \<and> p \<noteq> Done \<and> \<not> closed (conns (runtime s') t)"
  using edge.reachable_inv [OF assms(1,2)] assms(3) by (fastforce simp: registry_inv_def in_service_def)

definition quiet_env :: edge_env where
  "quiet_env = \<lparr>idx = plin_ops PlinIndex_new, param_frame = make_param_push [], rdma_snapshot = None,
     register_memory = (\<lambda>_ _. None), cloud_fetch = (\<lambda>_. None)\<rparr>"

definition idle_edge :: edge_threads where
  "idle_edge = \<lparr>runtime = \<lparr>rt_edge_id = 1, rt_ends = Map.empty, conns = (\<lambda>_. open_conn)\<rparr>, handlers = Map.empty, pending = None\<rparr>"

text \<open>Connection 3 announces itself as End 5 while connection 4 is being accepted, and the Cloud has a hot update for End 5.\<close>

definition demo_events :: "edge_event list" where
  "demo_events = [Accept 3, Accept 4, Handler 3 None, Handler 4 None, Handler 3 None,
     Handler 3 (Some \<lparr>ftype = HEARTBEAT, body = u32_bytes 5\<rparr>), From_cloud \<lparr>ftype = HOT_UPDATE, body = u32_bytes 5\<rparr>]"

definition demo_edge :: edge_threads where
  "demo_edge = \<lparr>runtime = \<lparr>rt_edge_id = 1, rt_ends = [5 \<mapsto> 3], conns = (\<lambda>_. open_conn)(3 := open_conn\<lparr>sent := [make_param_push []]\<rparr>,
       4 := open_conn\<lparr>sent := [make_param_push []]\<rparr>)\<rparr>,
     handlers = [3 \<mapsto> Reading, 4 \<mapsto> Info], pending = Some (3, \<lparr>ftype = HOT_UPDATE, body = []\<rparr>)\<rparr>"

lemmas quiet_steps = write_locked_def conn_write_def set_conn_def send_rdma_snapshot_info_if_supported_def open_conn_def quiet_env_def

lemma demo_edge_run: "event_system.run (edge_step quiet_env) idle_edge demo_events demo_edge"
proof -
  have u: "read_u32 (u32_bytes 5) 0 = Some 5" using read_u32_append [of 5 "[]"] by simp
  show ?thesis unfolding demo_events_def idle_edge_def
    by (rule edge.run_Cons, rule edge_step.accept, simp, simp add: open_conn_def,
        rule edge.run_Cons, rule edge_step.accept, simp, simp add: open_conn_def,
        rule edge.run_Cons, rule edge_step.handler, simp, simp, simp add: quiet_steps,
        rule edge.run_Cons, rule edge_step.handler, simp, simp, simp add: quiet_steps,
        rule edge.run_Cons, rule edge_step.handler, simp, simp, simp add: quiet_steps,
        rule edge.run_Cons, rule edge_step.handler, simp, simp, simp add: read_request_def u register_end_def,
        rule edge.run_Cons, rule edge_step.cloud_find, simp)
      (simp add: demo_edge_def cloud_lookup_def u fun_eq_iff open_conn_def)
qed

theorem edge_registry_never_dangles_witness:
  "event_system.run (edge_step quiet_env) idle_edge demo_events demo_edge \<and> rt_ends (runtime demo_edge) 5 = Some 3
    \<and> (\<exists>p. handlers demo_edge 3 = Some p \<and> p \<noteq> Start \<and> p \<noteq> Close \<and> p \<noteq> Done \<and> \<not> closed (conns (runtime demo_edge) 3))"
proof -
  have "edge_init idle_edge" by (simp add: edge_init_def idle_edge_def)
  moreover have "rt_ends (runtime demo_edge) 5 = Some 3" by (simp add: demo_edge_def)
  ultimately show ?thesis using edge_registry_never_dangles [OF _ demo_edge_run, of 5 3] demo_edge_run by blast
qed

text \<open>
  The race that remains: after the Cloud's thread has looked up End 5, its handler ends, unregisters and closes
  the transport, and the hot update is still to be written to it.
\<close>

theorem edge_hot_update_races_close:
  "\<exists>s'. event_system.run (edge_step quiet_env) demo_edge [Handler 3 None, Handler 3 None, Handler 3 None] s'
    \<and> pending s' = Some (3, \<lparr>ftype = HOT_UPDATE, body = []\<rparr>) \<and> closed (conns (runtime s') 3) \<and> rt_ends (runtime s') 5 = None"
proof -
  let ?rt = "unregister_transport 3 (runtime demo_edge)"
  let ?s1 = "demo_edge\<lparr>handlers := (handlers demo_edge)(3 \<mapsto> Leave)\<rparr>"
  let ?s2 = "demo_edge\<lparr>runtime := ?rt, handlers := (handlers demo_edge)(3 \<mapsto> Close)\<rparr>"
  let ?s3 = "demo_edge\<lparr>runtime := close_conn 3 ?rt, handlers := (handlers demo_edge)(3 \<mapsto> Done)\<rparr>"
  have "edge_step quiet_env demo_edge (Handler 3 None) ?s1"
    using edge_step.handler [of demo_edge 3 Reading quiet_env None Leave "runtime demo_edge"] by (simp add: demo_edge_def)
  moreover have "edge_step quiet_env ?s1 (Handler 3 None) ?s2"
    using edge_step.handler [of ?s1 3 Leave quiet_env None Close ?rt] by simp
  moreover have "edge_step quiet_env ?s2 (Handler 3 None) ?s3"
    using edge_step.handler [of ?s2 3 Close quiet_env None Done "close_conn 3 ?rt"] by simp
  ultimately have "event_system.run (edge_step quiet_env) demo_edge [Handler 3 None, Handler 3 None, Handler 3 None] ?s3"
    using edge.run_Nil edge.run_Cons by metis
  moreover have "pending ?s3 = Some (3, \<lparr>ftype = HOT_UPDATE, body = []\<rparr>)" "closed (conns (runtime ?s3) 3)" "rt_ends (runtime ?s3) 5 = None"
    by (simp_all add: demo_edge_def close_conn_def set_conn_def unregister_transport_def)
  ultimately show ?thesis by blast
qed

text \<open>C33: The Edge answers a fetch request for every key and every predicted slot from its index: with an
  index that serves the rows, the one frame written in reply is the response with status OK and the
  row's payload, or NOT_FOUND, whether the prediction is right, wrong or negative, and the
  connection stays in service.\<close>

theorem edge_answers_fetch:
  assumes "index_serves (idx env) rows" "is_double k" "writable (conns rt t)"
  shows "\<exists>rt' resp. handle_req env t (fetch_req k slot) rt = (True, rt') \<and> sent (conns rt' t) = sent (conns rt t) @ [resp]
    \<and> (\<forall>u. u \<noteq> t \<longrightarrow> conns rt' u = conns rt u) \<and> rt_ends rt' = rt_ends rt
    \<and> (case map_of rows k of Some v \<Rightarrow> resp = make_fetch_resp OK v | None \<Rightarrow> (\<exists>v. resp = make_fetch_resp NOT_FOUND v))"
proof -
  let ?slot = "sint (word_of_int slot :: u32)"
  from fetch_serves [OF assms(1), of k ?slot] obtain v where
    v: "fetch (idx env) (Some k) ?slot = (map_of rows k \<noteq> None, v)" "map_of rows k = None \<or> map_of rows k = Some v" by blast
  let ?resp = "make_fetch_resp (if map_of rows k \<noteq> None then OK else NOT_FOUND) v"
  have "handle_req env t (fetch_req k slot) rt = write_locked t ?resp rt"
    by (simp add: handle_req_def fetch_req_def double_of_bits_inverse [OF assms(2)] v(1) Let_def del: not_None_eq)
  then show ?thesis using assms(3) v(2)
    by (auto simp: write_locked_def conn_write_def set_conn_def writable_def)
qed

theorem edge_answers_fetch_witness:
  "\<exists>rt' resp. handle_req (demo_envs 1) 7 (fetch_req (Dbl 0) 4) (runtime idle_edge) = (True, rt')
    \<and> sent (conns rt' 7) = [resp] \<and> resp = make_fetch_resp OK 22"
proof -
  have i: "index_serves (idx (demo_envs 1)) (edge_rows topology_map (hd (edges topology_map)) demo_rows)"
    using demo_serves [of "hd (edges topology_map)"] by (simp add: demo_envs_def demo_base_def topology_map_def)
  have r: "map_of (edge_rows topology_map (hd (edges topology_map)) demo_rows) (Dbl 0) = Some 22" by code_simp
  have d: "is_double (Dbl 0)" by (simp add: is_double_def inf_ordinal_def)
  have w: "writable (conns (runtime idle_edge) 7)" "sent (conns (runtime idle_edge) 7) = []"
    by (simp_all add: idle_edge_def writable_def open_conn_def)
  show ?thesis using edge_answers_fetch [OF i d w(1), of 4] r w(2) by auto
qed






section \<open>Snapshot and parameters\<close>

text \<open>C35: A one-sided lookup in a published snapshot, built in three passes over the dataset, is exact: at the
  slot that the model predicts for the key it is a hit with the payload of the key's first row when
  the dataset has the key, and otherwise a miss (or unavailable, when the leaf is empty).\<close>

theorem snapshot_lookup_exact:
  assumes "table \<noteq> []" "keys \<noteq> []" "length payloads = length keys" "length keys < 2 ^ 32" "length table < 2 ^ 32"
    and "\<forall>k\<in>set keys. is_double k" "publishes remote (build_rdma_snapshot table predict keys payloads) si"
    and "0 \<le> predict key" "predict key < 2 ^ 31"
  shows "rdma_snapshot_lookup remote True \<lparr>sinfo = si, sloaded = True\<rparr> key (predict key) out =
    (case map_of (zip keys payloads) key of Some p \<Rightarrow> (HIT, p)
     | None \<Rightarrow> (if list_ex (\<lambda>k. clamp_leaf (length table) (predict k) = clamp_leaf (length table) (predict key)) keys
          then MISS else UNAVAILABLE, out))"
  by (rule snapshot_lookup [OF assms])

text \<open>Memory that serves one image at address 0 and another at 2^40.\<close>

definition two_images :: "byte list \<Rightarrow> byte list \<Rightarrow> u64 \<Rightarrow> u32 \<Rightarrow> nat \<Rightarrow> byte list option" where
  "two_images a b addr rkey n = (if rkey = 1 then Some (take n (drop (unat addr) a)) else Some (take n (drop (unat addr) b)))"

lemma two_images_serves:
  "length a < 2 ^ 64 \<Longrightarrow> serves (two_images a b) 0 1 a" "length b < 2 ^ 64 \<Longrightarrow> serves (two_images a b) 0 2 b"
  by (auto simp: serves_def two_images_def unat_of_nat)

definition demo_snapshot :: EdgeRdmaSnapshot where
  "demo_snapshot = build_rdma_snapshot [0, 0] (\<lambda>k. if k < Dbl 0 then 0 else 1) (map fst demo_rows) (map snd demo_rows)"

definition demo_info :: SnapshotInfo where
  "demo_info = \<lparr>magic = kSnapshotMagic, version = kSnapshotVersion, desc_addr = 0, desc_rkey = 1, leaf_count = 2,
     record_addr = 0, record_rkey = 2, record_count = 3\<rparr>"

theorem snapshot_lookup_exact_witness:
  "rdma_snapshot_lookup (two_images (concat (map desc_bytes (descs demo_snapshot))) (concat (map record_bytes (records demo_snapshot))))
     True \<lparr>sinfo = demo_info, sloaded = True\<rparr> (Dbl 4707343941256652004) 1 0 = (HIT, 33)"
proof -
  let ?p = "\<lambda>k. if k < Dbl 0 then 0 else 1 :: int"
  let ?mem = "two_images (concat (map desc_bytes (descs demo_snapshot))) (concat (map record_bytes (records demo_snapshot)))"
  have l: "length (descs demo_snapshot) = 2" "length (records demo_snapshot) = 3" by code_simp+
  have "length (concat (map desc_bytes (descs demo_snapshot))) = 48" "length (concat (map record_bytes (records demo_snapshot))) = 48"
    using length_images [of desc_bytes 24 "descs demo_snapshot"] length_images [of record_bytes 16 "records demo_snapshot"] l by simp_all
  then have "publishes ?mem demo_snapshot demo_info"
    using two_images_serves l by (simp add: publishes_def demo_info_def)
  moreover have "\<forall>k\<in>set (map fst demo_rows). is_double k" by (simp add: demo_rows_def is_double_def inf_ordinal_def)
  ultimately show ?thesis
    using snapshot_lookup_exact [of "[0, 0]" "map fst demo_rows" "map snd demo_rows" ?mem ?p demo_info "Dbl 4707343941256652004" 0]
    unfolding demo_snapshot_def by (simp add: demo_rows_def)
qed

text \<open>C36: The End's replica of the model predicts like the Edge: loading the frame that the Edge pushes gives
  back its parameters, so every prediction at the End is the Edge's own (and -1 when there are
  no levels).\<close>

theorem pushed_parameters_predict_alike:
  assumes "pushable ps"
  shows "\<exists>c'. load_from_push (body (make_param_push ps)) c = Inr c'
    \<and> (\<forall>k. cache_predict_pos c' k = (if ps = [] then Inr (- 1) else predict_pos ps k))"
  using load_from_push_serialized [OF assms, of c] by (auto simp: make_param_push_def cache_predict_pos_def)

theorem pushed_parameters_predict_alike_witness:
  "\<exists>c'. load_from_push (body (make_param_push [[\<lparr>p_first_key = 0, p_slope = 0, p_intercept = 0, p_block_num = 9\<rparr>]])) \<lparr>parameter = []\<rparr> = Inr c'
    \<and> cache_predict_pos c' (Some (Dbl 0)) = predict_pos [[\<lparr>p_first_key = 0, p_slope = 0, p_intercept = 0, p_block_num = 9\<rparr>]] (Some (Dbl 0))"
proof -
  have "pushable [[\<lparr>p_first_key = 0, p_slope = 0, p_intercept = 0, p_block_num = 9\<rparr>]]"
    by (simp add: pushable_def resize_ok_def)
  from pushed_parameters_predict_alike [OF this, of "\<lparr>parameter = []\<rparr>"] show ?thesis by auto
qed

text \<open>A parameter push that announces more than a hundred levels ends the End: deserialisation throws and
  no caller on the way up, from the request loop to \<^verbatim>\<open>main\<close>, catches it.\<close>

theorem oversized_push_throws:
  assumes "100 < length ps" "length ps < 2 ^ 64"
  shows "apply_edge_control_frame (make_param_push ps) c = Inl (Bad_push runtime_error)"
proof -
  have "load_from_push (serialize_parameter ps) p = Inl runtime_error" for p
    using assms by (simp add: load_from_push_def serialize_parameter_def deserialize_parameter_def read_size_length)
  then show ?thesis by (simp add: apply_edge_control_frame_def make_param_push_def)
qed

theorem oversized_push_throws_witness:
  "apply_edge_control_frame (make_param_push (replicate 101 [])) (caches (new_node 1 empty_map \<lparr>btree = [], n_loaded = 0\<rparr> (None :: unit edge_link option)))
    = Inl (Bad_push runtime_error)"
  by (rule oversized_push_throws) simp_all

section \<open>Cloud\<close>

definition routed :: "(conn_id \<Rightarrow> Frame \<Rightarrow> Frame option) \<Rightarrow> CloudServer \<Rightarrow> Frame \<Rightarrow> Frame" where
  "routed reply s req = (case read_double (body req) 8 of
     Some (Some k) \<Rightarrow> (case List.find (in_range k) (ends (c_rm s)) of None \<Rightarrow> make_fetch_resp NOT_FOUND 0
        | Some en \<Rightarrow> (case Option.bind (edge_conns s (end_edge_id en))
              (\<lambda>u. if fst (conn_write req (fds s u)) then reply u req else None) of
             None \<Rightarrow> make_fetch_resp ERROR 0 | Some r \<Rightarrow> r))
   | _ \<Rightarrow> make_fetch_resp ERROR 0)"

lemma find_located:
  assumes "wf_topology m"
  shows "List.find (in_range k) (ends m) = None \<longleftrightarrow> locate_end m k < 0"
    and "List.find (in_range k) (ends m) = Some en \<Longrightarrow> 0 \<le> locate_end m k \<and> edge_of m (locate_end m k) = end_edge_id en
      \<and> 0 \<le> end_edge_id en"
proof -
  show "List.find (in_range k) (ends m) = None \<longleftrightarrow> locate_end m k < 0"
    by (rule locate_end_cases [OF assms, of k]) (auto simp: find_None_iff)
  assume "List.find (in_range k) (ends m) = Some en"
  then have en: "en \<in> set (ends m)" "in_range k en" by (auto simp: find_Some_iff)
  then show "0 \<le> locate_end m k \<and> edge_of m (locate_end m k) = end_edge_id en \<and> 0 \<le> end_edge_id en"
    using locate_end_hit [OF assms en] assms en(1) by (simp add: wf_topology_def)
qed

lemma cross_req_sent:
  assumes "writable (fds s cfd)" "edge_conns s e \<noteq> Some cfd"
  shows "let (resp, s') = forward_to_edge reply e req s in
    sent (fds (snd (fd_write cfd (case resp of None \<Rightarrow> make_fetch_resp ERROR 0 | Some r \<Rightarrow> r) s')) cfd)
     = sent (fds s cfd) @ [case Option.bind (edge_conns s e) (\<lambda>u. if fst (conn_write req (fds s u)) then reply u req else None) of
         None \<Rightarrow> make_fetch_resp ERROR 0 | Some r \<Rightarrow> r]"
  using assms by (cases "edge_conns s e")
    (auto simp: forward_to_edge_def edge_conn_def fd_write_def split_beta Let_def conn_write_def writable_def split: list.split)

text \<open>C37: The Cloud answers every cross-edge request with exactly one frame: ERROR for a body without a
  key, NOT_FOUND for a key that no End covers, ERROR when the responsible Edge is not registered or does
  not answer, and otherwise that Edge's own answer, where the Edge is the one of the End whose
  range holds the key.\<close>

theorem cloud_routes_cross_requests:
  assumes "wf_topology (c_rm s)" "writable (fds s cfd)" "\<forall>e. edge_conns s e \<noteq> Some cfd"
    and "read_double (body req) 8 \<noteq> Some None"
  shows "sent (fds (handle_cross_edge_req reply cfd req s) cfd) = sent (fds s cfd) @ [routed reply s req]"
proof -
  have one: "sent (fds (snd (fd_write cfd f s)) cfd) = sent (fds s cfd) @ [f]" for f
    using assms(2) by (simp add: fd_write_def conn_write_def writable_def)
  consider "read_double (body req) 8 = None" | k where "read_double (body req) 8 = Some (Some k)"
    using assms(4) by (cases "read_double (body req) 8") auto
  then show ?thesis
  proof cases
    case 1
    then show ?thesis using one by (simp add: handle_cross_edge_req_def routed_def)
  next
    case (2 k)
    show ?thesis
    proof (cases "List.find (in_range k) (ends (c_rm s))")
      case None
      then have "locate_end (c_rm s) k < 0" using find_located(1) [OF assms(1)] by blast
      then show ?thesis using 2 None one by (simp add: handle_cross_edge_req_def routed_def locate_end_fp_def Let_def)
    next
      case (Some en)
      note find_located(2) [OF assms(1) Some]
      then show ?thesis using 2 Some cross_req_sent [OF assms(2), of "end_edge_id en" reply req] assms(3)
        by (simp add: handle_cross_edge_req_def routed_def locate_end_fp_def Let_def split_beta)
    qed
  qed
qed

theorem cloud_routes_cross_requests_witness:
  "sent (fds (handle_cross_edge_req (edge_answer demo_envs int) 0 (cross_req 1 (Dbl 4707343941256652004)) demo_cloud) 0)
    = [make_fetch_resp OK 33]"
proof -
  have d: "is_double (Dbl 4707343941256652004)" by (simp add: is_double_def inf_ordinal_def)
  have k: "read_double (body (cross_req 1 (Dbl 4707343941256652004))) 8 = Some (Some (Dbl 4707343941256652004))"
    using read_double_append [OF d, of "u64_bytes 1" 8 "[]"] by (simp add: cross_req_def append_u64_def)
  have f: "map_option end_edge_id (List.find (in_range (Dbl 4707343941256652004)) (ends topology_map)) = Some 2" by code_simp
  have v: "map_of (edge_rows topology_map (edges topology_map ! 1) demo_rows) (Dbl 4707343941256652004) = Some 33" by code_simp
  have i: "index_serves (idx (demo_envs 2)) (edge_rows topology_map (edges topology_map ! 1) demo_rows)"
    using demo_serves [of "edges topology_map ! 1"] by (simp add: demo_envs_def demo_base_def topology_map_def)
  have a: "edge_answer demo_envs int 2 (cross_req 1 (Dbl 4707343941256652004)) = Some (make_fetch_resp OK 33)"
    using op_find_serves [OF i, of "Dbl 4707343941256652004"] v by (auto simp: edge_answer_def handle_cloud_cross_req_def k)
  have w: "wf_topology (c_rm demo_cloud)" "writable (fds demo_cloud 0)" "\<forall>e. edge_conns demo_cloud e \<noteq> Some 0"
    by (simp_all add: demo_cloud_def topology_map_wf writable_def open_conn_def)
  have "routed (edge_answer demo_envs int) demo_cloud (cross_req 1 (Dbl 4707343941256652004)) = make_fetch_resp OK 33"
    using f a by (auto simp: routed_def k demo_cloud_def conn_write_def open_conn_def)
  then show ?thesis
    using cloud_routes_cross_requests [OF w, of "cross_req 1 (Dbl 4707343941256652004)" "edge_answer demo_envs int"] k
    by (simp add: demo_cloud_def open_conn_def)
qed

section \<open>Ranking of hot positions\<close>

definition occurrences :: "WorkloadRecord list \<Rightarrow> int \<Rightarrow> nat" where
  "occurrences rows p = length (filter (\<lambda>r. key_pos r = p) rows)"

lemma bump_keys: "distinct (map snd cs) \<Longrightarrow> distinct (map snd (bump p cs)) \<and> set (map snd (bump p cs)) = insert p (set (map snd cs))"
  by (induction p cs rule: bump.induct) auto

lemma bump_member:
  "distinct (map snd cs) \<Longrightarrow> (c, q) \<in> set (bump p cs) \<longleftrightarrow>
    (if q = p then (c - 1, p) \<in> set cs \<or> (c = 1 \<and> p \<notin> set (map snd cs)) else (c, q) \<in> set cs)"
proof (induction p cs rule: bump.induct)
  case (2 p d r cs)
  then show ?case by (cases "r = p"; cases "q = p") (auto simp: image_iff)
qed auto

lemma position_counts_member:
  "distinct (map snd (position_counts rows n i)) \<and> ((c, q) \<in> set (position_counts rows n i) \<longleftrightarrow>
     end_for_position q n = i \<and> c = int (occurrences rows q) \<and> 0 < c)"
proof (induction rows arbitrary: c q rule: rev_induct)
  case (snoc r rows)
  let ?cs = "position_counts rows n i"
  have d: "distinct (map snd ?cs)" and m: "\<And>c q. (c, q) \<in> set ?cs \<longleftrightarrow> end_for_position q n = i \<and> c = int (occurrences rows q) \<and> 0 < c"
    using snoc by blast+
  have k: "q \<in> set (map snd ?cs) \<longleftrightarrow> end_for_position q n = i \<and> 0 < occurrences rows q" for q
    by (simp only: set_map image_iff) (metis m of_nat_0_less_iff prod.collapse snd_conv)
  have pc: "position_counts (rows @ [r]) n i = (if end_for_position (key_pos r) n = i then bump (key_pos r) ?cs else ?cs)"
    by (simp add: position_counts_def)
  have oc: "occurrences (rows @ [r]) q = occurrences rows q + (if key_pos r = q then 1 else 0)" for q
    by (simp add: occurrences_def)
  show ?case
  proof (cases "end_for_position (key_pos r) n = i")
    case True
    then show ?thesis using bump_keys [OF d, of "key_pos r"] bump_member [OF d, of c q "key_pos r"] m [of c q] m [of "c - 1" q] k [of q] pc oc [of q]
      by (auto split: if_splits)
  next
    case False
    then show ?thesis using d m [of c q] pc oc [of q] by auto
  qed
qed (simp add: position_counts_def occurrences_def)

text \<open>C38: The hot positions of an End are its most frequent ones: for whatever order equal counts end up in,
  the list has no duplicates and at most the requested length, holds only accessed positions of that End, and
  no position of the End that was left out occurs more often in the workload than one that is listed.\<close>

theorem hot_positions_are_most_frequent:
  fixes rows :: "WorkloadRecord list" and n :: nat and mx :: int
  assumes "ranks ranking" "1 \<le> i" "i \<le> 10"
  defines "hp \<equiv> build_hot_positions_by_end ranking rows n mx ! nat i"
  shows "distinct hp \<and> length hp \<le> nat mx \<and> (\<forall>p\<in>set hp. end_for_position p n = i \<and> 0 < occurrences rows p)
    \<and> (\<forall>p\<in>set hp. \<forall>q. end_for_position q n = i \<and> q \<notin> set hp \<longrightarrow> occurrences rows q \<le> occurrences rows p)"
proof -
  let ?cs = "position_counts rows n i" and ?k = "nat mx"
  have "[1..10] ! (nat i - 1) = i" using assms(2,3) by (simp add: nth_upto)
  then have hp: "hp = map snd (take ?k (ranking ?cs))"
    using assms(2,3) by (simp add: hp_def build_hot_positions_by_end_def nth_Cons' nat_le_eq_zle)
  have r: "set (ranking ?cs) = set ?cs" "length (ranking ?cs) = length ?cs" "sorted_wrt (\<lambda>a b. fst b \<le> fst a) (ranking ?cs)"
    using assms(1) by (simp_all add: ranks_def)
  have mem: "(c, q) \<in> set (ranking ?cs) \<longleftrightarrow> end_for_position q n = i \<and> c = int (occurrences rows q) \<and> 0 < c" for c q
    using position_counts_member [of rows n i c q] r(1) by blast
  have "card (snd ` set (ranking ?cs)) = length (ranking ?cs)"
    using position_counts_member [of rows n i] r by (metis distinct_card length_map list.set_map)
  then have d: "distinct (map snd (ranking ?cs))" by (simp add: card_distinct)
  then have "distinct hp" unfolding hp by (simp add: take_map [symmetric])
  moreover have "length hp \<le> ?k" by (simp add: hp)
  moreover have "\<forall>p\<in>set hp. end_for_position p n = i \<and> 0 < occurrences rows p"
    using mem by (fastforce simp: hp dest: in_set_takeD)
  moreover have "occurrences rows q \<le> occurrences rows p" if pq: "p \<in> set hp" "end_for_position q n = i" "q \<notin> set hp" for p q
  proof (cases "occurrences rows q = 0")
    case False
    then have "(int (occurrences rows q), q) \<in> set (ranking ?cs)" using mem pq(2) by simp
    moreover have "(int (occurrences rows q), q) \<notin> set (take ?k (ranking ?cs))" using pq(3) by (force simp: hp)
    ultimately have q: "(int (occurrences rows q), q) \<in> set (drop ?k (ranking ?cs))" by (metis Un_iff append_take_drop_id set_append)
    obtain c where c: "(c, p) \<in> set (take ?k (ranking ?cs))" using pq(1) unfolding hp by auto
    have "sorted_wrt (\<lambda>a b. fst b \<le> fst a) (take ?k (ranking ?cs) @ drop ?k (ranking ?cs))" using r(3) by simp
    then have "\<forall>x\<in>set (take ?k (ranking ?cs)). \<forall>y\<in>set (drop ?k (ranking ?cs)). fst y \<le> fst x" unfolding sorted_wrt_append by blast
    from bspec [OF bspec [OF this c] q] have "int (occurrences rows q) \<le> c" by simp
    then show ?thesis using mem c in_set_takeD [OF c] by simp
  qed simp
  ultimately show ?thesis by blast
qed

definition stable_ranking :: ranking where
  "stable_ranking xs = rev (sort_key fst xs)"

lemma stable_ranking_ranks: "ranks stable_ranking"
proof -
  have "sorted_wrt (\<lambda>a b. fst a \<le> fst b) (sort_key fst xs)" for xs :: "(int \<times> int) list"
    using sorted_sort_key [of fst xs] by (simp add: sorted_wrt_map)
  then show ?thesis by (simp add: ranks_def stable_ranking_def sorted_wrt_rev)
qed

theorem hot_positions_are_most_frequent_witness:
  "build_hot_positions_by_end stable_ranking (map (\<lambda>p. \<lparr>timestamp = Dbl 0, device_id = 1, key_pos = p\<rparr>) [4, 2, 4, 9, 2, 4]) 9 2 ! 1 = [4, 2]
    \<and> occurrences (map (\<lambda>p. \<lparr>timestamp = Dbl 0, device_id = 1, key_pos = p\<rparr>) [4, 2, 4, 9, 2, 4]) 9
        \<le> occurrences (map (\<lambda>p. \<lparr>timestamp = Dbl 0, device_id = 1, key_pos = p\<rparr>) [4, 2, 4, 9, 2, 4]) 2"
proof -
  let ?rows = "map (\<lambda>p. \<lparr>timestamp = Dbl 0, device_id = 1, key_pos = p\<rparr>) [4, 2, 4, 9, 2, 4]"
  have b: "build_hot_positions_by_end stable_ranking ?rows 9 2 ! 1 = [4, 2]" by code_simp
  have e: "end_for_position 9 9 = 1" by code_simp
  show ?thesis using hot_positions_are_most_frequent [OF stable_ranking_ranks, of 1 ?rows 9 2] b e by simp
qed

end
