(* ===== verification/Spec2Isabelle.thy ===== *)
theory Spec2Isabelle
  imports BPlus_Props Common_Props Leaf_Props Index_Props Rdma_Props System_Props Server_Props
begin

text \<open>
  \<^bold>\<open>A verification library for PLIN, a cloud-edge-device learned index.\<close>

  \<^bold>\<open>The program.\<close>  Three processes share one sorted data file.  The Cloud
  (\<^verbatim>\<open>src/cloud/cloud_server.cpp\<close>) loads all rows, routes requests between Edges and publishes hot
  keys.  An Edge (\<^verbatim>\<open>src/edge/edge_server.cpp\<close>) holds the rows between the lowest and the highest key bound of its Ends in a
  learned index (\<^verbatim>\<open>src/core/index\<close>) and pushes the index parameters, and optionally a one-sided RDMA
  snapshot, to them.  An End (\<^verbatim>\<open>src/end/end_node.cpp\<close>) answers lookups in four stages: local range
  or hot cache, its Edge at the predicted position, a sibling's Edge, and the Cloud.  All frames go
  through \<^verbatim>\<open>src/common/rpc.cpp\<close>; \<^verbatim>\<open>src/common/range_map.cpp\<close> reads the topology file.

  \<^bold>\<open>Vocabulary.\<close>  \<^verbatim>\<open>Plin_Prelude\<close> has the machine types, the byte images of integers and the result
  type.  \<^verbatim>\<open>Machine_Double\<close> has IEEE doubles as ordinals of their bit patterns, with round-to-nearest
  arithmetic, floats, NaN and infinities.  \<^verbatim>\<open>Learned_Model\<close> has the packed \<^verbatim>\<open>InnerSlot\<close> of \<^verbatim>\<open>utils.h\<close>, the
  model correction and the block predictions.

  \<^bold>\<open>The index.\<close>  \<^verbatim>\<open>BPlus_Tree\<close> models \<^verbatim>\<open>b_plus.h\<close> over an explicit page heap; \<^verbatim>\<open>BPlus_Page\<close>,
  \<^verbatim>\<open>BPlus_Inv\<close>, \<^verbatim>\<open>BPlus_Insert\<close>, \<^verbatim>\<open>BPlus_Split\<close>, \<^verbatim>\<open>BPlus_Correct\<close> and \<^verbatim>\<open>BPlus_Map\<close> prove that insertion keeps the
  tree invariant and refines a finite map (the contract \<^verbatim>\<open>Kv_Store.kv_store\<close>), and that scans are
  exact; \<^verbatim>\<open>BPlus_Delete\<close> treats deletion.  \<^verbatim>\<open>Leaf_Node\<close> models \<^verbatim>\<open>leaf_node.h\<close>: blocks of fifteen slots
  with a versioned lock word and an overflow tree, linked nodes, construction, lookup, upsert,
  removal, range queries and the collection of a node's data.  \<^verbatim>\<open>Leaf_Correct\<close> shows that a block is a
  map, \<^verbatim>\<open>Leaf_Heap\<close> that a chain of nodes is one, and \<^verbatim>\<open>Leaf_Build\<close> that construction and collection are
  exact, for every linear model: the same key always meets the same predicted block.
  \<^verbatim>\<open>Inner_Node\<close> models \<^verbatim>\<open>inner_node.h\<close>; \<^verbatim>\<open>Float_Mono\<close> proves that a prediction, computed with rounding at every
  operation, does not decrease with the key, \<^verbatim>\<open>Inner_Correct\<close> that construction places the children in order, and
  \<^verbatim>\<open>Inner_Tree\<close> that the search through the levels reaches the child whose range holds the key.
  \<^verbatim>\<open>Segmentation\<close> models \<^verbatim>\<open>piecewise_linear_model.h\<close> in 80-bit long doubles; \<^verbatim>\<open>Segmentation_Correct\<close> shows that the
  hull indices stay in range and that the segments partition the keys.

  \<^bold>\<open>PlinIndex.\<close>  \<^verbatim>\<open>Plin_Index\<close> has the state of \<^verbatim>\<open>plin_index.h\<close> (metadata, table of leaves, the two node heaps),
  bulk loading and lookups; \<^verbatim>\<open>Plin_Update\<close> has upsert, remove, the leaf split with its locks and log, and the
  rebuilding of the inner nodes.  \<^verbatim>\<open>Plin_Build\<close> shows what building leaves gives, \<^verbatim>\<open>Plin_Levels\<close> what building
  the levels of inner nodes gives, and \<^verbatim>\<open>Plin_Load\<close> that a loaded index satisfies the invariant \<^verbatim>\<open>plin_inv\<close>.
  \<^verbatim>\<open>Plin_Correct\<close> proves lookups and upserts under that invariant; \<^verbatim>\<open>Plin_Store\<close> interprets \<^verbatim>\<open>Kv_Store.kv_update\<close>
  for the loaded index, and \<^verbatim>\<open>Plin_Remove\<close> treats sequences of upserts and removals while blocks have free slots.
  \<^verbatim>\<open>Plin_Small\<close> shows that rows of a single segment load without any condition, \<^verbatim>\<open>Plin_Split\<close>
  shows that a split keeps the data of the old leaf and links the new leaves between its siblings, and \<^verbatim>\<open>Plin_Serve\<close> shows that the loaded index is what the Edge's handlers rely on.
  \<^verbatim>\<open>Smo_Lock\<close> runs the lock between splits and rebuilding one atomic access at a time and interprets
  \<^verbatim>\<open>Event_System.event_system\<close> for it.  The other operations of the index run alone: a loop that waits for a lock passes at
  once or does not return.  The insertion of a split's accelerators into inner nodes, removal from overflow trees and
  buffers, and rebuilding are modelled and executable, but no theorem relates them to the map of the whole index.

  \<^bold>\<open>Communication.\<close>  \<^verbatim>\<open>Rpc\<close> models frames over streams that read and write partially.  \<^verbatim>\<open>Range_Map\<close>
  models the topology loader line by line and its queries, and \<^verbatim>\<open>Shipped_Topology\<close> the file of the
  repository.  \<^verbatim>\<open>Transport\<close> has the transport modes and the connection fallback.
  \<^verbatim>\<open>Rdma_Transport\<close> models \<^verbatim>\<open>rdma_transport.cpp\<close> in a state monad over the answers of the verbs library;
  \<^verbatim>\<open>Rdma_Correct\<close> has a calculus for the balance of acquired and released resources and proves it for each operation
  of a connection.  \<^verbatim>\<open>Param_Model\<close> has the
  parameter push (contract \<^verbatim>\<open>codec\<close>) and the End's prediction.  \<^verbatim>\<open>Snapshot\<close> and \<^verbatim>\<open>Snapshot_Correct\<close> have the
  RDMA snapshot and its one-sided lookup.  \<^verbatim>\<open>Hot_Cache\<close> interprets \<^verbatim>\<open>kv_store\<close> for the End's cache.

  \<^bold>\<open>The processes.\<close>  \<^verbatim>\<open>Edge_Server\<close>, \<^verbatim>\<open>Cloud_Server\<close>, \<^verbatim>\<open>End_Node\<close> and \<^verbatim>\<open>End_Run\<close> model the handlers, start-up
  code and main loops.  \<^verbatim>\<open>Event_System\<close> is the contract of a component run by several threads;
  \<^verbatim>\<open>Edge_Threads\<close> interprets it for the Edge's connection handlers and its Cloud thread, one access to
  the shared registry or to a transport at a time.  \<^verbatim>\<open>End_Lookup\<close> proves the End's stages
  against the contract \<^verbatim>\<open>edge_service\<close> (keys in gaps between the key ranges belong to no End and are reported
  absent); \<^verbatim>\<open>System\<close> composes Cloud, Edges and End in the locale
  \<^verbatim>\<open>plin_system\<close> and shows that it provides that contract; \<^verbatim>\<open>System_Demo\<close> interprets it on the shipped
  topology.  \<^verbatim>\<open>Hot_Update\<close> and \<^verbatim>\<open>Workload_Replay\<close> have the hot-key path.

  \<^bold>\<open>Properties.\<close>  \<^verbatim>\<open>Index_Props\<close>, \<^verbatim>\<open>BPlus_Props\<close>, \<^verbatim>\<open>Leaf_Props\<close>, \<^verbatim>\<open>Common_Props\<close>, \<^verbatim>\<open>Rdma_Props\<close>, \<^verbatim>\<open>Server_Props\<close> and \<^verbatim>\<open>System_Props\<close> state what the
  components promise, with a witness for every theorem that has hypotheses.

  \<^bold>\<open>Loops and bounds.\<close>  A loop that follows pointers is a \<^verbatim>\<open>partial_function\<close> whose value \<^term>\<open>None\<close> is
  not returning; the theorems show that it returns.  A step that ends the process or is undefined is
  an error value.  Waiting loops of the End take the sequence of observations as a list.  A leaf node
  has between 3 and \<^term>\<open>2 ^ 28 :: nat\<close> blocks: with fewer the unsigned bounds wrap, with more the
  32-bit slot index does; the loaded rows are at most as many.  The theorems on a loaded index ask that its
  inner nodes are steady (\<^verbatim>\<open>Plin_Load.steady_index\<close>, a computable test): a slope that is not negative and
  predictions that stay in the range of \<^verbatim>\<open>int64_t\<close>, or a degenerate model, which always predicts the first block.

  \<^bold>\<open>Not modelled.\<close>  System calls, socket options, libibverbs, rdma_cm and LibTorch are parameters of the model.
  Persistent-memory flushes have no effect in it.  The baseline index, the comparison harness, the
  legacy prototype and vendored containers are not part of the three programs.
\<close>

end
